(* ===== verification/Text_Prelude.thy ===== *)
theory Text_Prelude
  imports Main "HOL-Library.Sublist" "HOL-Library.AList"
begin

text \<open>
  Shared vocabulary of the development. A Rust \<open>String\<close> or \<open>&str\<close> is its UTF-8
  byte sequence, a \<^typ>\<open>string\<close> (a \<^typ>\<open>char\<close> of Isabelle is one byte), so
  \<open>len()\<close> is \<^const>\<open>length\<close>, \<open>starts_with\<close> is \<^const>\<open>prefix\<close>, and a slice is
  \<^const>\<open>take\<close> and \<^const>\<open>drop\<close>. The functions of the standard library the sources
  use on text and vectors are written out here: trimming by the Unicode \<open>White_Space\<close>
  property, \<open>lines()\<close>, \<open>is_char_boundary\<close>, decimal formatting, searching for a
  position, inserting at an index. The lemmas about them are the ones the component
  theories share.
\<close>

named_theorems keyed_simps \<open>lookups in keyed association lists\<close>

section \<open>UTF-8 text\<close>

subsection \<open>Character boundaries\<close>

text \<open>\<open>str::is_char_boundary\<close>: byte \<open>i\<close> does not continue a multi-byte character.\<close>

definition cont_byte :: "char \<Rightarrow> bool" where
  "cont_byte c \<longleftrightarrow> 128 \<le> (of_char c :: nat) \<and> (of_char c :: nat) < 192"

definition is_char_boundary :: "string \<Rightarrow> nat \<Rightarrow> bool" where
  "is_char_boundary s i \<longleftrightarrow>
     i = 0 \<or> i = length s \<or> (i < length s \<and> \<not> cont_byte (s ! i))"

text \<open>The loop \<open>while !s.is_char_boundary(end) { end -= 1; }\<close>.\<close>

fun floor_boundary :: "string \<Rightarrow> nat \<Rightarrow> nat" where
  "floor_boundary s 0 = 0"
| "floor_boundary s (Suc i) =
     (if is_char_boundary s (Suc i) then Suc i else floor_boundary s i)"

lemma floor_boundary_le: "floor_boundary s i \<le> i"
  by (induction i) auto

lemma floor_boundary_is_boundary: "is_char_boundary s (floor_boundary s i)"
  by (induction i) (auto simp: is_char_boundary_def)

lemma floor_boundary_id: "is_char_boundary s i \<Longrightarrow> floor_boundary s i = i"
  by (cases i) auto

lemma floor_boundary_length [simp]: "floor_boundary s (length s) = length s"
  by (rule floor_boundary_id) (simp add: is_char_boundary_def)

subsection \<open>Characters\<close>

text \<open>\<open>chars().count()\<close> and \<open>chars().take(n)\<close>: a character is a byte that continues none,
  with the continuation bytes after it.\<close>

definition char_count :: "string \<Rightarrow> nat" where
  "char_count s = length (filter (\<lambda>c. \<not> cont_byte c) s)"

fun take_chars :: "nat \<Rightarrow> string \<Rightarrow> string" where
  "take_chars 0 s = []"
| "take_chars (Suc n) [] = []"
| "take_chars (Suc n) (c # cs) = c # takeWhile cont_byte cs @ take_chars n (dropWhile cont_byte cs)"

text \<open>The UTF-8 bytes of the ellipsis character.\<close>

definition ellipsis :: string where
  "ellipsis = [CHR 0xE2, CHR 0x80, CHR 0xA6]"

lemma char_count_append [simp]: "char_count (s @ t) = char_count s + char_count t"
  by (simp add: char_count_def)

lemma char_count_cont [simp]: "char_count (takeWhile cont_byte s) = 0"
  by (induction s) (auto simp: char_count_def)

lemma char_count_take_chars: "char_count (take_chars n s) \<le> n"
proof (induction n s rule: take_chars.induct)
  case (3 n c cs)
  have "char_count (c # takeWhile cont_byte cs) \<le> 1"
    using char_count_cont [of cs] by (simp add: char_count_def)
  moreover have "char_count (c # takeWhile cont_byte cs @ t) =
      char_count (c # takeWhile cont_byte cs) + char_count t" for t
    by (simp add: char_count_def)
  ultimately show ?case using 3 by simp
qed (simp_all add: char_count_def)

lemma take_chars_prefix: "prefix (take_chars n s) s"
proof (induction n s rule: take_chars.induct)
  case (3 n c cs)
  then have "prefix (takeWhile cont_byte cs @ take_chars n (dropWhile cont_byte cs))
      (takeWhile cont_byte cs @ dropWhile cont_byte cs)" by (simp only: same_prefix_prefix)
  then show ?case by simp
qed simp_all

subsection \<open>White space\<close>

text \<open>The UTF-8 encodings of the characters with the \<open>White_Space\<close> property.\<close>

definition white_chars :: "string list" where
  "white_chars =
     [[CHR 0x09], [CHR 0x0A], [CHR 0x0B], [CHR 0x0C], [CHR 0x0D], [CHR 0x20],
      [CHR 0xC2, CHR 0x85], [CHR 0xC2, CHR 0xA0], [CHR 0xE1, CHR 0x9A, CHR 0x80],
      [CHR 0xE2, CHR 0x80, CHR 0x80], [CHR 0xE2, CHR 0x80, CHR 0x81],
      [CHR 0xE2, CHR 0x80, CHR 0x82], [CHR 0xE2, CHR 0x80, CHR 0x83],
      [CHR 0xE2, CHR 0x80, CHR 0x84], [CHR 0xE2, CHR 0x80, CHR 0x85],
      [CHR 0xE2, CHR 0x80, CHR 0x86], [CHR 0xE2, CHR 0x80, CHR 0x87],
      [CHR 0xE2, CHR 0x80, CHR 0x88], [CHR 0xE2, CHR 0x80, CHR 0x89],
      [CHR 0xE2, CHR 0x80, CHR 0x8A], [CHR 0xE2, CHR 0x80, CHR 0xA8],
      [CHR 0xE2, CHR 0x80, CHR 0xA9], [CHR 0xE2, CHR 0x80, CHR 0xAF],
      [CHR 0xE2, CHR 0x81, CHR 0x9F], [CHR 0xE3, CHR 0x80, CHR 0x80]]"

lemma white_chars_nonempty: "w \<in> set white_chars \<Longrightarrow> w \<noteq> []"
  by (auto simp: white_chars_def)

function trim_start :: "string \<Rightarrow> string" where
  "trim_start s =
     (case find (\<lambda>w. prefix w s) white_chars of
        None \<Rightarrow> s
      | Some w \<Rightarrow> trim_start (drop (length w) s))"
  by pat_completeness auto
termination
proof (relation "measure length")
  fix s w assume "find (\<lambda>w. prefix w s) white_chars = Some w"
  then have "w \<in> set white_chars" and "prefix w s"
    by (auto simp: find_Some_iff)
  with white_chars_nonempty [of w] show "(drop (length w) s, s) \<in> measure length"
    by (auto simp: prefix_def)
qed simp

function trim_end :: "string \<Rightarrow> string" where
  "trim_end s =
     (case find (\<lambda>w. suffix w s) white_chars of
        None \<Rightarrow> s
      | Some w \<Rightarrow> trim_end (take (length s - length w) s))"
  by pat_completeness auto
termination
proof (relation "measure length")
  fix s w assume "find (\<lambda>w. suffix w s) white_chars = Some w"
  then have "w \<in> set white_chars" and "suffix w s"
    by (auto simp: find_Some_iff)
  with white_chars_nonempty [of w] show "(take (length s - length w) s, s) \<in> measure length"
    by (auto simp: suffix_def)
qed simp

declare trim_start.simps [simp del] trim_end.simps [simp del]

text \<open>\<open>split_whitespace\<close>\<close>

function split_words :: "string \<Rightarrow> string \<Rightarrow> string list" where
  "split_words cur [] = (if cur = [] then [] else [cur])"
| "split_words cur (c # cs) =
     (case find (\<lambda>w. prefix w (c # cs)) white_chars of
        None \<Rightarrow> split_words (cur @ [c]) cs
      | Some w \<Rightarrow> (if cur = [] then [] else [cur]) @ split_words [] (drop (length w) (c # cs)))"
  by pat_completeness auto
termination
proof (relation "measure (\<lambda>(cur, s). length s)")
  fix c :: char and cs w
  assume "find (\<lambda>w. prefix w (c # cs)) white_chars = Some w"
  then have "w \<in> set white_chars" by (auto simp: find_Some_iff)
  with white_chars_nonempty [of w]
  show "(([], drop (length w) (c # cs)), cur, c # cs) \<in> measure (\<lambda>(cur, s). length s)" for cur :: string
    by (cases w) auto
qed simp_all

definition trim :: "string \<Rightarrow> string" where
  "trim s = trim_end (trim_start s)"

text \<open>\<open>s.trim().is_empty()\<close>\<close>

definition blank :: "string \<Rightarrow> bool" where
  "blank s \<longleftrightarrow> trim s = []"

text \<open>
  No white-space encoding is a proper prefix or suffix of another, and trimming stops where
  none starts (ends) the text, so trimming is idempotent.
\<close>

definition starts_blank :: "string \<Rightarrow> bool" where
  "starts_blank s \<longleftrightarrow> (\<exists>w \<in> set white_chars. prefix w s)"

definition ends_blank :: "string \<Rightarrow> bool" where
  "ends_blank s \<longleftrightarrow> (\<exists>w \<in> set white_chars. suffix w s)"

lemma trim_start_id: "\<not> starts_blank s \<Longrightarrow> trim_start s = s"
  by (subst trim_start.simps) (auto simp: starts_blank_def find_Some_iff split: option.splits)

lemma trim_end_id: "\<not> ends_blank s \<Longrightarrow> trim_end s = s"
  by (subst trim_end.simps) (auto simp: ends_blank_def find_Some_iff split: option.splits)

lemma trim_start_clean: "\<not> starts_blank (trim_start s)"
proof (induction s rule: trim_start.induct)
  case (1 s)
  show ?case
  proof (cases "find (\<lambda>w. prefix w s) white_chars")
    case None
    then have "trim_start s = s" by (subst trim_start.simps) simp
    with None show ?thesis by (auto simp: starts_blank_def find_None_iff)
  next
    case (Some w)
    with "1.IH" [OF Some] show ?thesis by (subst trim_start.simps) simp
  qed
qed

lemma trim_end_clean: "\<not> ends_blank (trim_end s)"
proof (induction s rule: trim_end.induct)
  case (1 s)
  show ?case
  proof (cases "find (\<lambda>w. suffix w s) white_chars")
    case None
    then have "trim_end s = s" by (subst trim_end.simps) simp
    with None show ?thesis by (auto simp: ends_blank_def find_None_iff)
  next
    case (Some w)
    with "1.IH" [OF Some] show ?thesis by (subst trim_end.simps) simp
  qed
qed

lemma trim_end_prefix: "prefix (trim_end s) s"
proof (induction s rule: trim_end.induct)
  case (1 s)
  show ?case
  proof (cases "find (\<lambda>w. suffix w s) white_chars")
    case None
    then show ?thesis by (subst trim_end.simps) simp
  next
    case (Some w)
    have "prefix (take (length s - length w) s) s" by (rule take_is_prefix)
    with "1.IH" [OF Some] Some show ?thesis
      by (subst trim_end.simps) (auto intro: prefix_order.trans)
  qed
qed

lemma trim_clean: "\<not> starts_blank (trim s)" "\<not> ends_blank (trim s)"
proof -
  have "prefix (trim s) (trim_start s)" by (simp add: trim_def trim_end_prefix)
  with trim_start_clean [of s] show "\<not> starts_blank (trim s)"
    by (auto simp: starts_blank_def intro: prefix_order.trans)
  show "\<not> ends_blank (trim s)" by (simp add: trim_def trim_end_clean)
qed

lemma trim_idem [simp]: "trim (trim s) = trim s"
  using trim_clean [of s] by (simp add: trim_def [of "trim s"] trim_start_id trim_end_id)

lemma blank_trim [simp]: "blank (trim s) \<longleftrightarrow> blank s"
  by (simp add: blank_def)

lemma trim_not_blank: "\<not> blank s \<Longrightarrow> trim s \<noteq> []"
  by (simp add: blank_def)

lemma trim_id: "\<not> starts_blank s \<Longrightarrow> \<not> ends_blank s \<Longrightarrow> trim s = s"
  by (simp add: trim_def trim_start_id trim_end_id)

lemma trim_end_Nil: "trim_end s = [] \<Longrightarrow> s = [] \<or> starts_blank s"
proof (induction s rule: trim_end.induct)
  case (1 s)
  show ?case
  proof (cases "find (\<lambda>w. suffix w s) white_chars")
    case None
    with "1.prems" show ?thesis by (simp add: trim_end.simps [of s])
  next
    case (Some w)
    then have w: "w \<in> set white_chars" "suffix w s" by (auto simp: find_Some_iff)
    let ?u = "take (length s - length w) s"
    have "trim_end ?u = []" using "1.prems" Some by (simp add: trim_end.simps [of s])
    with "1.IH" [OF Some] have "?u = [] \<or> starts_blank ?u" by blast
    moreover have "prefix ?u s" by (rule take_is_prefix)
    moreover have "s = w" if "?u = []" using that w(2) by (auto simp: suffix_def)
    ultimately show ?thesis using w(1) unfolding starts_blank_def
      by (metis prefix_order.order_refl prefix_order.trans)
  qed
qed

lemma not_blank_start: "s \<noteq> [] \<Longrightarrow> \<not> starts_blank s \<Longrightarrow> \<not> blank s"
  using trim_end_Nil [of s] by (auto simp: blank_def trim_def trim_start_id)

lemmas blank_eval = starts_blank_def ends_blank_def white_chars_def

text \<open>Texts the examples use.\<close>

lemma trim_eval:
  "trim ''a'' = ''a''" "trim ''b'' = ''b''" "trim ''m1'' = ''m1''" "trim ''hello'' = ''hello''"
  by (rule trim_id; simp add: blank_eval suffix_def)+

subsection \<open>Lines\<close>

text \<open>
  \<open>str::lines()\<close>: split after each newline, drop a final empty piece, strip one
  carriage return from the end of each line that a newline ended.
\<close>

definition strip_cr :: "string \<Rightarrow> string" where
  "strip_cr l = (if l \<noteq> [] \<and> last l = CHR 0x0D then butlast l else l)"

fun lines_from :: "string \<Rightarrow> string \<Rightarrow> string list" where
  "lines_from cur [] = (if cur = [] then [] else [cur])"
| "lines_from cur (c # cs) =
     (if c = CHR 0x0A then strip_cr cur # lines_from [] cs else lines_from (cur @ [c]) cs)"

definition text_lines :: "string \<Rightarrow> string list" where
  "text_lines s = lines_from [] s"

lemma text_lines_no_newline: "l \<in> set (text_lines s) \<Longrightarrow> CHR 0x0A \<notin> set l"
proof -
  have "CHR 0x0A \<notin> set cur \<Longrightarrow> l \<in> set (lines_from cur s) \<Longrightarrow> CHR 0x0A \<notin> set l" for cur
    by (induction cur s rule: lines_from.induct)
      (auto simp: strip_cr_def dest: in_set_butlastD split: if_splits)
  from this [of "[]"] show "l \<in> set (text_lines s) \<Longrightarrow> CHR 0x0A \<notin> set l"
    unfolding text_lines_def by simp
qed

lemma lines_from_first:
  "cur @ s = c # r \<Longrightarrow> c \<noteq> CHR 0x0A \<Longrightarrow> c \<noteq> CHR 0x0D \<Longrightarrow>
    \<exists>l ls. lines_from cur s = l # ls \<and> prefix l (cur @ s) \<and> l \<noteq> []"
proof (induction cur s rule: lines_from.induct)
  case (2 cur d cs)
  show ?case
  proof (cases "d = CHR 0x0A")
    case True
    with 2 obtain cur' where "cur = c # cur'" by (cases cur) auto
    moreover have "prefix (strip_cr cur) cur"
      unfolding strip_cr_def by (auto simp: prefixeq_butlast)
    moreover have "strip_cr (c # cur') \<noteq> []" using "2.prems"(3) by (simp add: strip_cr_def)
    ultimately show ?thesis using True by (auto intro: prefix_order.trans)
  next
    case False
    with 2 show ?thesis by simp
  qed
qed simp

lemma text_lines_first:
  assumes "s \<noteq> []" "\<not> starts_blank s"
  obtains l ls where "text_lines s = l # ls" "prefix l s" "\<not> blank l"
proof -
  obtain c r where s: "s = c # r" using assms(1) by (cases s) auto
  with assms(2) have "c \<noteq> CHR 0x0A" "c \<noteq> CHR 0x0D"
    by (auto simp: starts_blank_def white_chars_def)
  with lines_from_first [of "[]" s c r] s obtain l ls where
    l: "text_lines s = l # ls" "prefix l s" "l \<noteq> []" by (auto simp: text_lines_def)
  moreover have "\<not> starts_blank l"
    using assms(2) l(2) by (auto simp: starts_blank_def intro: prefix_order.trans)
  ultimately show thesis using that not_blank_start by blast
qed

text \<open>\<open>slice.join(sep)\<close>\<close>

fun join_with :: "string \<Rightarrow> string list \<Rightarrow> string" where
  "join_with sep [] = []"
| "join_with sep [l] = l"
| "join_with sep (l # ls) = l @ sep @ join_with sep ls"

subsection \<open>Decimal numbers\<close>

text \<open>\<open>format!("{n}")\<close> of an unsigned number.\<close>

definition digit_char :: "nat \<Rightarrow> char" where
  "digit_char d = char_of (48 + d)"

fun show_nat :: "nat \<Rightarrow> string" where
  "show_nat n = (if n < 10 then [digit_char n] else show_nat (n div 10) @ [digit_char (n mod 10)])"

declare show_nat.simps [simp del]

definition digit_value :: "char \<Rightarrow> nat" where
  "digit_value c = of_char c - 48"

definition read_nat :: "string \<Rightarrow> nat" where
  "read_nat s = foldl (\<lambda>n c. 10 * n + digit_value c) 0 s"

lemma digit_value_char [simp]: "d < 10 \<Longrightarrow> digit_value (digit_char d) = d"
  by (simp add: digit_value_def digit_char_def)

lemma read_show_nat [simp]: "read_nat (show_nat n) = n"
proof (induction n rule: show_nat.induct)
  case (1 n)
  then show ?case by (subst show_nat.simps) (auto simp: read_nat_def)
qed

lemma show_nat_inj [simp]: "show_nat a = show_nat b \<longleftrightarrow> a = b"
  by (metis read_show_nat)

lemma show_nat_nonempty [simp]: "show_nat n \<noteq> []"
  by (subst show_nat.simps) simp

text \<open>A signed number.\<close>

definition show_int :: "int \<Rightarrow> string" where
  "show_int i = (if i < 0 then CHR ''-'' # show_nat (nat (- i)) else show_nat (nat i))"

section \<open>Vectors\<close>

text \<open>\<open>iter().position(p)\<close>, \<open>Vec::insert\<close> and \<open>Vec::remove\<close>.\<close>

fun position :: "('a \<Rightarrow> bool) \<Rightarrow> 'a list \<Rightarrow> nat option" where
  "position P [] = None"
| "position P (x # xs) = (if P x then Some 0 else map_option Suc (position P xs))"

definition insert_at :: "nat \<Rightarrow> 'a \<Rightarrow> 'a list \<Rightarrow> 'a list" where
  "insert_at i x xs = take i xs @ x # drop i xs"

definition remove_at :: "nat \<Rightarrow> 'a list \<Rightarrow> 'a list" where
  "remove_at i xs = take i xs @ drop (Suc i) xs"

text \<open>Replacing the first element that satisfies \<open>P\<close> (\<open>iter_mut().find(..)\<close>).\<close>

fun update_first :: "('a \<Rightarrow> bool) \<Rightarrow> ('a \<Rightarrow> 'a) \<Rightarrow> 'a list \<Rightarrow> 'a list" where
  "update_first P f [] = []"
| "update_first P f (x # xs) = (if P x then f x # xs else x # update_first P f xs)"

lemma position_None: "position P xs = None \<longleftrightarrow> (\<forall>x \<in> set xs. \<not> P x)"
  by (induction xs) auto

lemma position_Some_split:
  "position P xs = Some i \<Longrightarrow> i < length xs \<and> P (xs ! i) \<and> (\<forall>x \<in> set (take i xs). \<not> P x)"
  by (induction xs arbitrary: i) (auto split: if_splits)

lemma position_append:
  "position P (xs @ ys) =
     (case position P xs of None \<Rightarrow> map_option ((+) (length xs)) (position P ys) | Some i \<Rightarrow> Some i)"
  by (induction xs; cases "position P ys") (auto split: option.splits)

text \<open>\<open>iter().rposition(p)\<close>\<close>

definition rposition :: "('a \<Rightarrow> bool) \<Rightarrow> 'a list \<Rightarrow> nat option" where
  "rposition P xs = map_option (\<lambda>i. length xs - 1 - i) (position P (rev xs))"

lemma rposition_bound: "rposition P xs = Some i \<Longrightarrow> i < length xs"
  by (auto simp: rposition_def dest: position_Some_split)

lemma rposition_None: "rposition P xs = None \<longleftrightarrow> (\<forall>x \<in> set xs. \<not> P x)"
  by (simp add: rposition_def position_None)

lemma position_middle:
  "\<forall>x \<in> set xs. \<not> P x \<Longrightarrow> P y \<Longrightarrow> position P (xs @ y # ys) = Some (length xs)"
  by (induction xs) auto

lemma remove_at_middle [simp]: "remove_at (length xs) (xs @ y # ys) = xs @ ys"
  by (simp add: remove_at_def)

lemma remove_at_filter:
  assumes "distinct (map k xs)" "position (\<lambda>x. k x = i) xs = Some n"
  shows "remove_at n xs = filter (\<lambda>x. k x \<noteq> i) xs"
  using assms
proof (induction xs arbitrary: n)
  case (Cons x xs)
  show ?case
  proof (cases "k x = i")
    case True
    with Cons.prems have "filter (\<lambda>x. k x \<noteq> i) xs = xs" by (auto simp: filter_id_conv image_iff)
    with True Cons.prems(2) show ?thesis by (simp add: remove_at_def)
  next
    case False
    with Cons.prems(2) obtain m where m: "position (\<lambda>x. k x = i) xs = Some m" "n = Suc m" by auto
    with Cons.IH [OF _ m(1)] Cons.prems(1) False show ?thesis by (simp add: remove_at_def)
  qed
qed simp

lemma insert_at_middle [simp]: "insert_at (length xs) y (xs @ ys) = xs @ y # ys"
  by (simp add: insert_at_def)

lemma insert_at_0 [simp]: "insert_at 0 y xs = y # xs"
  by (simp add: insert_at_def)

lemma map_insert_at: "map f (insert_at n x xs) = insert_at n (f x) (map f xs)"
  by (simp add: insert_at_def take_map drop_map)

lemma length_update_first [simp]: "length (update_first P f xs) = length xs"
  by (induction xs) auto

lemma update_first_none: "\<forall>x \<in> set xs. \<not> P x \<Longrightarrow> update_first P f xs = xs"
  by (induction xs) auto

lemma update_first_middle:
  "\<forall>x \<in> set xs. \<not> P x \<Longrightarrow> P y \<Longrightarrow> update_first P f (xs @ y # ys) = xs @ f y # ys"
  by (induction xs) auto

lemma map_update_first_same:
  "(\<And>x. P x \<Longrightarrow> g (f x) = g x) \<Longrightarrow> map g (update_first P f xs) = map g xs"
  by (induction xs) auto

lemma set_update_first: "set (update_first P f xs) \<subseteq> set xs \<union> f ` {x \<in> set xs. P x}"
  by (induction xs) auto

lemma fresh_iff: "k \<notin> set (map f xs) \<longleftrightarrow> (\<forall>x \<in> set xs. f x \<noteq> k)"
  by (auto simp: image_iff)

lemma distinct_map_same:
  "distinct (map f xs) \<Longrightarrow> x \<in> set xs \<Longrightarrow> y \<in> set xs \<Longrightarrow> f x = f y \<Longrightarrow> x = y"
  by (auto simp: distinct_map dest: inj_onD)

lemma find_distinct:
  "distinct (map f xs) \<Longrightarrow> x \<in> set xs \<Longrightarrow> find (\<lambda>y. f y = f x) xs = Some x"
  by (induction xs) auto

lemma find_split:
  "find P xs = Some x \<Longrightarrow> \<exists>as bs. xs = as @ x # bs \<and> P x \<and> (\<forall>y \<in> set as. \<not> P y)"
proof (induction xs)
  case (Cons a xs)
  show ?case
  proof (cases "P a")
    case True
    with Cons.prems have "a # xs = [] @ x # xs" "P x" by simp_all
    then show ?thesis by (intro exI [of _ "[]"] exI [of _ xs]) simp
  next
    case False
    with Cons obtain as bs where "xs = as @ x # bs" "P x" "\<forall>y \<in> set as. \<not> P y" by auto
    with False show ?thesis by (intro exI [of _ "a # as"] exI [of _ bs]) simp
  qed
qed simp

lemma find_last_split:
  "find P (rev xs) = Some x \<Longrightarrow> \<exists>as bs. xs = as @ x # bs \<and> P x \<and> (\<forall>y \<in> set bs. \<not> P y)"
proof -
  assume "find P (rev xs) = Some x"
  from find_split [OF this] obtain as bs where "rev xs = as @ x # bs" "P x" "\<forall>y \<in> set as. \<not> P y" by blast
  moreover from this(1) have "xs = rev bs @ x # rev as" by (metis append.simps rev.simps(2) rev_append rev_rev_ident append_assoc)
  ultimately show ?thesis by (intro exI [of _ "rev bs"] exI [of _ "rev as"]) simp
qed

lemma update_first_rel:
  assumes "\<And>x. R x x" "\<And>x. P x \<Longrightarrow> R x (f x)"
  shows "list_all2 R xs (update_first P f xs)"
  using assms by (induction xs) (auto simp: list_all2_refl)

text \<open>Collecting pairs into a \<open>HashMap\<close>: the last value for a key wins.\<close>

definition collect_map :: "('k \<times> 'v) list \<Rightarrow> 'k \<Rightarrow> 'v option" where
  "collect_map kvs = map_of (rev kvs)"

lemma collect_map_distinct:
  "distinct (map k xs) \<Longrightarrow> x \<in> set xs \<Longrightarrow> collect_map (map (\<lambda>x. (k x, v x)) xs) (k x) = Some (v x)"
  unfolding collect_map_def
  by (rule map_of_is_SomeI) (auto simp: rev_map [symmetric] comp_def)

section \<open>Shared contracts\<close>

text \<open>
  A component whose operations all keep an invariant: the run of any sequence of operations
  keeps it, from any state that has it. Every stateful component of the development
  interprets this locale on its own step function.
\<close>

locale invariant_machine =
  fixes step :: "'s \<Rightarrow> 'e \<Rightarrow> 's"
    and inv :: "'s \<Rightarrow> bool"
  assumes step_inv: "inv s \<Longrightarrow> inv (step s e)"
begin

lemma run_inv: "inv s \<Longrightarrow> inv (foldl step s es)"
  by (induction es arbitrary: s) (auto intro: step_inv)

lemma reachable_inv: "inv s \<Longrightarrow> s' = foldl step s es \<Longrightarrow> inv s'"
  by (simp add: run_inv)

end

text \<open>The same when only the legal operations keep the invariant.\<close>

locale guarded_machine =
  fixes step :: "'s \<Rightarrow> 'e \<Rightarrow> 's"
    and inv :: "'s \<Rightarrow> bool"
    and legal :: "'e \<Rightarrow> bool"
  assumes legal_step: "inv s \<Longrightarrow> legal e \<Longrightarrow> inv (step s e)"
begin

lemma legal_run: "inv s \<Longrightarrow> list_all legal es \<Longrightarrow> inv (foldl step s es)"
  by (induction es arbitrary: s) (auto intro: legal_step)

end

sublocale invariant_machine \<subseteq> guarded_machine step inv "\<lambda>_. True"
  by unfold_locales (rule step_inv)

text \<open>
  A keyed store: what a lookup returns after an insertion or a removal. The maps of the
  sources (\<open>HashMap\<close>, \<open>BTreeMap\<close>) are used through these laws.
\<close>

locale keyed_store =
  fixes get :: "'m \<Rightarrow> 'k \<Rightarrow> 'v option"
    and put :: "'k \<Rightarrow> 'v \<Rightarrow> 'm \<Rightarrow> 'm"
    and remove :: "'k \<Rightarrow> 'm \<Rightarrow> 'm"
    and ok :: "'m \<Rightarrow> bool"
  assumes get_put: "ok m \<Longrightarrow> get (put k v m) = (get m)(k \<mapsto> v)"
    and get_remove: "ok m \<Longrightarrow> get (remove k m) = (get m)(k := None)"
    and ok_put: "ok m \<Longrightarrow> ok (put k v m)"
    and ok_remove: "ok m \<Longrightarrow> ok (remove k m)"
begin

lemma get_put_same: "ok m \<Longrightarrow> get (put k v m) k = Some v"
  by (simp add: get_put)

lemma get_put_other: "ok m \<Longrightarrow> k' \<noteq> k \<Longrightarrow> get (put k v m) k' = get m k'"
  by (simp add: get_put)

lemma get_remove_same: "ok m \<Longrightarrow> get (remove k m) k = None"
  by (simp add: get_remove)

lemma get_remove_other: "ok m \<Longrightarrow> k' \<noteq> k \<Longrightarrow> get (remove k m) k' = get m k'"
  by (simp add: get_remove)

end

text \<open>
  A \<open>HashMap\<close> whose entries are listed is an association list; insertion and removal
  are \<^const>\<open>AList.update\<close> and \<^const>\<open>AList.delete\<close>.
\<close>

interpretation alist: keyed_store "map_of" AList.update AList.delete "\<lambda>m. distinct (map fst m)"
  by unfold_locales (simp_all add: update_conv' delete_conv' distinct_update distinct_delete)

lemmas alist_simps [keyed_simps] = update_conv' delete_conv'

text \<open>Collecting options or results of a list: one failure fails the whole.\<close>

fun traverse :: "('a \<Rightarrow> 'b option) \<Rightarrow> 'a list \<Rightarrow> 'b list option" where
  "traverse f [] = Some []"
| "traverse f (x # xs) =
     (case f x of None \<Rightarrow> None | Some y \<Rightarrow>
        (case traverse f xs of None \<Rightarrow> None | Some ys \<Rightarrow> Some (y # ys)))"

lemma traverse_map: "(\<And>x. x \<in> set xs \<Longrightarrow> f (g x) = Some x) \<Longrightarrow> traverse f (map g xs) = Some xs"
  by (induction xs) auto

text \<open>
  A producer that turns two states into a frame and a consumer that applies frames: where
  every single frame reproduces the producer's state, so does a stream of them.
\<close>

fun frames_from :: "('s \<Rightarrow> 's \<Rightarrow> 'f) \<Rightarrow> 's \<Rightarrow> 's list \<Rightarrow> 'f list" where
  "frames_from diff p [] = []"
| "frames_from diff p (n # ns) = diff p n # frames_from diff n ns"

fun consume_frames :: "('s \<Rightarrow> 'f \<Rightarrow> 's option) \<Rightarrow> 's \<Rightarrow> 'f list \<Rightarrow> 's option" where
  "consume_frames apply_frame s [] = Some s"
| "consume_frames apply_frame s (f # fs) = Option.bind (apply_frame s f) (\<lambda>s'. consume_frames apply_frame s' fs)"

fun chained :: "('s \<Rightarrow> 's \<Rightarrow> bool) \<Rightarrow> 's \<Rightarrow> 's list \<Rightarrow> bool" where
  "chained compatible p [] \<longleftrightarrow> True"
| "chained compatible p (n # ns) \<longleftrightarrow> compatible p n \<and> chained compatible n ns"

locale frame_stream =
  fixes diff :: "'s \<Rightarrow> 's \<Rightarrow> 'f"
    and apply_frame :: "'s \<Rightarrow> 'f \<Rightarrow> 's option"
    and compatible :: "'s \<Rightarrow> 's \<Rightarrow> bool"
  assumes apply_diff: "compatible p n \<Longrightarrow> apply_frame p (diff p n) = Some n"
begin

lemma consume_exact:
  "chained compatible p ns \<Longrightarrow> consume_frames apply_frame p (frames_from diff p ns) = Some (last (p # ns))"
  by (induction ns arbitrary: p) (auto simp: apply_diff)

end

end
