(* ===== verification/Agent_Types.thy ===== *)
theory Agent_Types
  imports Text_Prelude
begin

text \<open>
  The wire types of \<open>crates/proto/src/agent.rs\<close> that the transcript and the command plane
  carry: harness ids and their slugs, decoded tool calls, checklist items, and the streaming
  event every harness emits. A \<open>serde_json::Value\<close> is the datatype \<open>json\<close>; an object
  is the list of its members.
\<close>

section \<open>JSON values\<close>

datatype json =
    JNull
  | JBool bool
  | JInt int
  | JFloat nat \<comment> \<open>bit pattern of an \<open>f64\<close>\<close>
  | JStr string
  | JArr "json list"
  | JObj "(string \<times> json) list"

text \<open>\<open>Value::get(key)\<close> (objects only) and \<open>Value::as_str()\<close>.\<close>

fun json_get :: "string \<Rightarrow> json \<Rightarrow> json option" where
  "json_get k (JObj ms) = map_of ms k"
| "json_get k _ = None"

fun json_as_str :: "json \<Rightarrow> string option" where
  "json_as_str (JStr s) = Some s"
| "json_as_str _ = None"

fun json_as_i64 :: "json \<Rightarrow> int option" where
  "json_as_i64 (JInt i) = (if - (2 ^ 63) \<le> i \<and> i < 2 ^ 63 then Some i else None)"
| "json_as_i64 _ = None"

definition i64 :: "int \<Rightarrow> bool" where
  "i64 i \<longleftrightarrow> - (2 ^ 63) \<le> i \<and> i < 2 ^ 63"

lemma json_as_i64_JInt [simp]: "i64 i \<Longrightarrow> json_as_i64 (JInt i) = Some i"
  by (simp add: i64_def)

declare json_as_i64.simps(1) [simp del]

section \<open>Harness identity\<close>

datatype harness_id =
    ClaudeCode | Codex | Cursor | Devin | Grok | Hermes | Pi | Opencode | Antigravity | Mock

definition all_harnesses :: "harness_id list" where
  "all_harnesses =
     [ClaudeCode, Codex, Cursor, Devin, Grok, Hermes, Pi, Opencode, Antigravity, Mock]"

fun harness_as_str :: "harness_id \<Rightarrow> string" where
  "harness_as_str ClaudeCode = ''claude-code''"
| "harness_as_str Codex = ''codex''"
| "harness_as_str Cursor = ''cursor''"
| "harness_as_str Devin = ''devin''"
| "harness_as_str Grok = ''grok''"
| "harness_as_str Hermes = ''hermes''"
| "harness_as_str Pi = ''pi''"
| "harness_as_str Opencode = ''opencode''"
| "harness_as_str Antigravity = ''antigravity''"
| "harness_as_str Mock = ''mock''"

definition harness_from_slug :: "string \<Rightarrow> harness_id option" where
  "harness_from_slug slug = find (\<lambda>h. harness_as_str h = slug) all_harnesses"

definition resume_continue_prompt :: string where
  "resume_continue_prompt = ''Continue where you left off.''"

section \<open>Tool calls\<close>

datatype todo_status = TodoPending | TodoInProgress | TodoCompleted

definition todo_status_parse :: "string \<Rightarrow> todo_status" where
  "todo_status_parse raw =
     (if raw \<in> {''completed'', ''complete'', ''done''} then TodoCompleted
      else if raw \<in> {''in_progress'', ''inProgress'', ''in-progress'', ''active''}
        then TodoInProgress
      else TodoPending)"

record todo_item =
  todo_text :: string
  todo_done :: bool
  todo_status_field :: "todo_status option"

definition todo_item_new :: "string \<Rightarrow> todo_status \<Rightarrow> todo_item" where
  "todo_item_new text st =
     \<lparr>todo_text = text, todo_done = (st = TodoCompleted),
      todo_status_field = (if st = TodoInProgress then Some st else None)\<rparr>"

definition todo_item_status :: "todo_item \<Rightarrow> todo_status" where
  "todo_item_status item =
     (if todo_done item then TodoCompleted
      else case todo_status_field item of Some st \<Rightarrow> st | None \<Rightarrow> TodoPending)"

datatype tool_call =
    Exec (exec_command: string)
  | ReadFile string
  | WriteFile string "string option"
  | EditFile string "string option" "string option"
  | ApplyPatch "string option"
  | Search string "string option"
  | Glob string
  | WebFetch string "string option"
  | WebSearch string
  | Todo "todo_item list"
  | Mcp string string "json option"
  | UnknownTool string "json option"

definition is_spawn_name :: "string \<Rightarrow> bool" where
  "is_spawn_name name \<longleftrightarrow> name = ''Agent'' \<or> prefix ''Agent: '' name"

fun is_subagent_spawn :: "tool_call \<Rightarrow> bool" where
  "is_subagent_spawn (UnknownTool name _) = is_spawn_name name"
| "is_subagent_spawn (Mcp _ tool _) = is_spawn_name tool"
| "is_subagent_spawn _ = False"

definition subagent_model_keys :: "string list" where
  "subagent_model_keys = [''model'', ''modelId'', ''model_id'', ''subagent_model'']"

definition subagent_input_keep :: "string list" where
  "subagent_input_keep =
     [''model'', ''modelId'', ''model_id'', ''subagent_model'', ''subagent_type'']"

text \<open>The input of the two variants that carry one.\<close>

fun tool_input :: "tool_call \<Rightarrow> json option" where
  "tool_input (UnknownTool _ input) = input"
| "tool_input (Mcp _ _ input) = input"
| "tool_input _ = None"

text \<open>\<open>keys.iter().find_map(f)\<close>\<close>

fun find_map :: "('a \<Rightarrow> 'b option) \<Rightarrow> 'a list \<Rightarrow> 'b option" where
  "find_map f [] = None"
| "find_map f (x # xs) = (case f x of Some y \<Rightarrow> Some y | None \<Rightarrow> find_map f xs)"

definition subagent_model :: "tool_call \<Rightarrow> string option" where
  "subagent_model call =
     (if \<not> is_subagent_spawn call then None
      else case tool_input call of
        None \<Rightarrow> None
      | Some input \<Rightarrow>
          (case find_map (\<lambda>key. Option.bind (json_get key input) json_as_str) subagent_model_keys of
             None \<Rightarrow> None
           | Some m \<Rightarrow> (if trim m = [] then None else Some (trim m))))"

record tool_diff =
  diff_path :: string
  diff_old_text :: "string option"
  diff_new_text :: string

record user_input_question =
  q_id :: string
  q_header :: string
  q_question :: string
  q_options :: "string list"
  q_multi_select :: bool

record user_input_answer =
  a_question_id :: string
  a_labels :: "string list"

section \<open>Streaming events\<close>

datatype done_status = DoneCompleted | DoneInterrupted | DoneErrored

datatype agent_error_kind =
    UsageLimit string "int option"
  | SignedOutError

record slash_command =
  sc_name :: string
  sc_description :: string
  sc_input_hint :: "string option"

record provider_turn_ref =
  pt_harness :: harness_id
  pt_session_id :: string
  pt_turn_id :: string

datatype agent_event =
    SessionStarted harness_id string "string list" string string string
  | TextDelta string
  | GeneratedImage string string string string
  | ReasoningDelta string
  | AssistantMessageCompleted string
  | ToolCallEvent string tool_call
  | ToolResult string bool "string option" "tool_diff option"
  | ContextUsage "nat option" "nat option"
  | Usage nat nat
  | AvailableCommands "slash_command list"
  | ErrorEvent string "agent_error_kind option"
  | InputRequested string "user_input_question list"
  | InputResolved string
  | Steered "string option" "string option"
  | Done done_status "string option" "string option" "string option"
  | UserMessage string
  | TurnRef provider_turn_ref
  | Subagent string agent_event

section \<open>Facts\<close>

lemma harness_slug_roundtrip: "harness_from_slug (harness_as_str h) = Some h"
  by (cases h) (simp_all add: harness_from_slug_def all_harnesses_def)

lemma todo_item_new_status: "todo_item_status (todo_item_new text st) = st"
  by (cases st) (simp_all add: todo_item_new_def todo_item_status_def)

end
