(* ===== verification/Message_Parts.thy ===== *)
theory Message_Parts
  imports Agent_Types
begin

text \<open>
  \<open>crates/doc/src/parts.rs\<close>: the rendered parts of a message, the fold of streamed agent
  events into them, the render-only privacy policy, the sidecar references and the
  continuation split. The third-party serialiser enters through the byte lengths it yields
  (\<open>json_sizes\<close>) and the third-party line differ through the change tags it yields.
\<close>

section \<open>Data\<close>

definition tool_output_summary_max :: nat where
  "tool_output_summary_max = 160"

definition msg_inline_max :: nat where
  "msg_inline_max = 256 * 1024"

record tool_diff_stat =
  ds_path :: string
  ds_additions :: nat
  ds_deletions :: nat

datatype change_tag = ChangeInsert | ChangeDelete | ChangeEqual

datatype message_status = Streaming | Complete | Aborted

datatype subagent_status = SubRunning | SubDone | SubFailed

datatype notice_outcome =
    NoticeCompleted | NoticeErrored | NoticeStopped | NoticeInterrupted | NoticeWaitingForInput

fun notice_verb :: "notice_outcome \<Rightarrow> string" where
  "notice_verb NoticeCompleted = ''finished''"
| "notice_verb NoticeErrored = ''failed''"
| "notice_verb NoticeStopped = ''was stopped''"
| "notice_verb NoticeInterrupted = ''was interrupted''"
| "notice_verb NoticeWaitingForInput = ''is waiting for input''"

record notice_side =
  ns_chat_id :: string
  ns_title :: string
  ns_outcome :: notice_outcome
  ns_detail :: "string option"

record tool_part =
  tp_id :: string
  tp_call :: tool_call
  tp_is_error :: bool
  tp_resolved :: bool
  tp_output :: "string option"
  tp_diff :: "tool_diff option"
  tp_output_ref :: "string option"
  tp_output_bytes :: "nat option"
  tp_diff_ref :: "string option"
  tp_diff_stats :: "tool_diff_stat list option"
  tp_subagent_ref :: "string option"
  tp_subagent_status :: "subagent_status option"
  tp_subagent_tail :: "string option"

datatype message_part =
    TextPart string string
  | ImagePart string string string string
  | ReasoningPart string string
  | ToolPart tool_part
  | InputPart string string "user_input_question list" bool
  | ErrorPart string string
  | ForkPart string string string
  | HarnessSwitchPart string harness_id "harness_id option"
  | CompletionNoticePart string "notice_side list"

fun part_id :: "message_part \<Rightarrow> string" where
  "part_id (TextPart i _) = i"
| "part_id (ImagePart i _ _ _) = i"
| "part_id (ReasoningPart i _) = i"
| "part_id (ToolPart t) = tp_id t"
| "part_id (InputPart i _ _ _) = i"
| "part_id (ErrorPart i _) = i"
| "part_id (ForkPart i _ _) = i"
| "part_id (HarnessSwitchPart i _ _) = i"
| "part_id (CompletionNoticePart i _) = i"

text \<open>Byte lengths of serialised values (\<open>serde_json::to_vec(..).map_or(0, len)\<close>).\<close>

record json_sizes =
  call_size :: "tool_call \<Rightarrow> nat"
  diff_size :: "tool_diff \<Rightarrow> nat"
  stats_size :: "tool_diff_stat list \<Rightarrow> nat"
  questions_size :: "user_input_question list \<Rightarrow> nat"
  harness_size :: "harness_id \<Rightarrow> nat"

definition opt_size :: "('a \<Rightarrow> nat) \<Rightarrow> 'a option \<Rightarrow> nat" where
  "opt_size f x = (case x of None \<Rightarrow> 0 | Some v \<Rightarrow> f v)"

fun part_byte_len :: "json_sizes \<Rightarrow> message_part \<Rightarrow> nat" where
  "part_byte_len js (TextPart _ text) = length text"
| "part_byte_len js (ReasoningPart _ text) = length text"
| "part_byte_len js (ToolPart t) =
     call_size js (tp_call t) + opt_size length (tp_output t)
       + opt_size (diff_size js) (tp_diff t) + opt_size (stats_size js) (tp_diff_stats t)"
| "part_byte_len js (InputPart _ _ questions _) = questions_size js questions"
| "part_byte_len js (ImagePart i path name mime) =
     length i + length path + length name + length mime"
| "part_byte_len js (ErrorPart _ message) = length message"
| "part_byte_len js (ForkPart _ source_chat_id source_title) =
     length source_chat_id + length source_title"
| "part_byte_len js (HarnessSwitchPart _ harness _) = harness_size js harness"
| "part_byte_len js (CompletionNoticePart _ sides) =
     sum_list (map (\<lambda>side. length (ns_chat_id side) + length (ns_title side)
       + opt_size length (ns_detail side)) sides)"

section \<open>Output summaries and diff stats\<close>

text \<open>
  \<open>char_indices\<close>: the byte offset at which character number \<open>n\<close> starts, the length when
  there are fewer characters.
\<close>

fun nth_char_offset :: "nat \<Rightarrow> string \<Rightarrow> nat" where
  "nth_char_offset n [] = 0"
| "nth_char_offset n (c # cs) =
     (if cont_byte c then Suc (nth_char_offset n cs)
      else case n of 0 \<Rightarrow> 0 | Suc m \<Rightarrow> Suc (nth_char_offset m cs))"

text \<open>Three back quotes.\<close>

definition code_fence :: string where
  "code_fence = [CHR 0x60, CHR 0x60, CHR 0x60]"

definition summarize_tool_output :: "string \<Rightarrow> string option" where
  "summarize_tool_output text =
     (let kept = filter (\<lambda>l. \<not> prefix code_fence (trim_start l)) (text_lines text);
          stripped = trim (join_with [CHR 0x0A] kept)
      in if stripped = [] then None
         else if char_count stripped \<le> tool_output_summary_max then Some stripped
         else
           let line = trim_end (case find (\<lambda>l. trim l \<noteq> []) (text_lines stripped) of
                        Some l \<Rightarrow> l | None \<Rightarrow> stripped)
           in Some (take (nth_char_offset tool_output_summary_max line) line @ ellipsis))"

definition diff_stat :: "(string \<Rightarrow> string \<Rightarrow> change_tag list) \<Rightarrow> tool_diff \<Rightarrow> tool_diff_stat" where
  "diff_stat line_changes d =
     (case diff_old_text d of
        None \<Rightarrow> \<lparr>ds_path = diff_path d, ds_additions = length (text_lines (diff_new_text d)),
                 ds_deletions = 0\<rparr>
      | Some old \<Rightarrow>
          (let changes = line_changes old (diff_new_text d)
           in \<lparr>ds_path = diff_path d,
               ds_additions = length (filter ((=) ChangeInsert) changes),
               ds_deletions = length (filter ((=) ChangeDelete) changes)\<rparr>))"

section \<open>The event fold\<close>

text \<open>
  \<open>fold_event_into_parts\<close> match arm by match arm; the accumulator \<open>out\<close> is the parts
  list, returned updated. \<open>last_part\<close> is \<open>out.last_mut()\<close>.
\<close>

definition last_part :: "message_part list \<Rightarrow> message_part option" where
  "last_part out = (if out = [] then None else Some (last out))"

definition fold_text_delta :: "message_part list \<Rightarrow> string \<Rightarrow> message_part list" where
  "fold_text_delta out text =
     (case last_part out of
        Some (TextPart i tail) \<Rightarrow> butlast out @ [TextPart i (tail @ text)]
      | _ \<Rightarrow> out @ [TextPart (''t'' @ show_nat (length out)) text])"

definition fold_generated_image ::
    "message_part list \<Rightarrow> string \<Rightarrow> string \<Rightarrow> string \<Rightarrow> string \<Rightarrow> message_part list" where
  "fold_generated_image out i path name mime =
     (let image = ImagePart i path name mime
      in if \<exists>p \<in> set out. part_id p = i
         then update_first (\<lambda>p. part_id p = i) (\<lambda>_. image) out
         else out @ [image])"

definition fold_reasoning_delta :: "message_part list \<Rightarrow> string \<Rightarrow> message_part list" where
  "fold_reasoning_delta out text =
     (if text = [] then out
      else case last_part out of
        Some (ReasoningPart i tail) \<Rightarrow> butlast out @ [ReasoningPart i (tail @ text)]
      | _ \<Rightarrow> out @ [ReasoningPart (''r'' @ show_nat (length out)) text])"

definition new_tool_part :: "string \<Rightarrow> tool_call \<Rightarrow> tool_part" where
  "new_tool_part i call =
     \<lparr>tp_id = i, tp_call = call, tp_is_error = False, tp_resolved = False, tp_output = None,
      tp_diff = None, tp_output_ref = None, tp_output_bytes = None, tp_diff_ref = None,
      tp_diff_stats = None, tp_subagent_ref = None, tp_subagent_status = None,
      tp_subagent_tail = None\<rparr>"

fun is_tool_with_id :: "string \<Rightarrow> message_part \<Rightarrow> bool" where
  "is_tool_with_id i (ToolPart t) = (tp_id t = i)"
| "is_tool_with_id i _ = False"

fun map_tool :: "(tool_part \<Rightarrow> tool_part) \<Rightarrow> message_part \<Rightarrow> message_part" where
  "map_tool f (ToolPart t) = ToolPart (f t)"
| "map_tool f p = p"

definition fold_tool_call :: "message_part list \<Rightarrow> string \<Rightarrow> tool_call \<Rightarrow> message_part list" where
  "fold_tool_call out i call =
     (if \<exists>p \<in> set out. is_tool_with_id i p
      then update_first (is_tool_with_id i) (map_tool (\<lambda>t. t\<lparr>tp_call := call\<rparr>)) out
      else out @ [ToolPart (new_tool_part i call)])"

definition resolve_tool ::
    "(string \<Rightarrow> string \<Rightarrow> change_tag list) \<Rightarrow> bool \<Rightarrow> tool_diff option \<Rightarrow> tool_part \<Rightarrow> tool_part" where
  "resolve_tool line_changes is_error diff t =
     t\<lparr>tp_is_error := is_error, tp_resolved := True, tp_output := None,
       tp_output_bytes := None, tp_diff := None,
       tp_diff_stats := map_option (\<lambda>d. [diff_stat line_changes d]) diff\<rparr>"

definition fold_tool_result ::
    "(string \<Rightarrow> string \<Rightarrow> change_tag list) \<Rightarrow> message_part list \<Rightarrow> string \<Rightarrow> bool
      \<Rightarrow> tool_diff option \<Rightarrow> message_part list" where
  "fold_tool_result line_changes out i is_error diff =
     map (\<lambda>p. if is_tool_with_id i p then map_tool (resolve_tool line_changes is_error diff) p else p)
       out"

definition fold_input_requested ::
    "message_part list \<Rightarrow> string \<Rightarrow> user_input_question list \<Rightarrow> message_part list" where
  "fold_input_requested out request_id questions =
     (let i = ''in-'' @ request_id
      in if \<exists>p \<in> set out. part_id p = i then out
         else out @ [InputPart i request_id questions False])"

fun resolve_input :: "string \<Rightarrow> message_part \<Rightarrow> message_part" where
  "resolve_input request_id (InputPart i rid questions resolved) =
     (if rid = request_id then InputPart i rid questions True
      else InputPart i rid questions resolved)"
| "resolve_input request_id p = p"

definition fold_input_resolved :: "message_part list \<Rightarrow> string \<Rightarrow> message_part list" where
  "fold_input_resolved out request_id = map (resolve_input request_id) out"

definition fold_error :: "message_part list \<Rightarrow> string \<Rightarrow> message_part list" where
  "fold_error out message = out @ [ErrorPart (''e'' @ show_nat (length out)) message]"

text \<open>The status an attributed event carries, if it moves the lifecycle explicitly.\<close>

fun subagent_event_status :: "agent_event \<Rightarrow> subagent_status option" where
  "subagent_event_status (Done status _ _ _) =
     Some (case status of DoneErrored \<Rightarrow> SubFailed | _ \<Rightarrow> SubDone)"
| "subagent_event_status (UserMessage _) = Some SubRunning"
| "subagent_event_status (Steered _ _) = Some SubRunning"
| "subagent_event_status _ = None"

definition touch_subagent :: "subagent_status option \<Rightarrow> tool_part \<Rightarrow> tool_part" where
  "touch_subagent status t =
     (case status of
        Some s \<Rightarrow> t\<lparr>tp_subagent_status := Some s\<rparr>
      | None \<Rightarrow>
          (if tp_subagent_status t \<notin> {Some SubDone, Some SubFailed}
           then t\<lparr>tp_subagent_status := Some SubRunning\<rparr> else t))"

fun is_spawn_of :: "string \<Rightarrow> message_part \<Rightarrow> bool" where
  "is_spawn_of parent (ToolPart t) = (tp_id t = parent \<and> is_subagent_spawn (tp_call t))"
| "is_spawn_of parent _ = False"

definition fold_subagent :: "message_part list \<Rightarrow> string \<Rightarrow> agent_event \<Rightarrow> message_part list" where
  "fold_subagent out parent event =
     map (\<lambda>p. if is_spawn_of parent p
              then map_tool (touch_subagent (subagent_event_status event)) p else p) out"

fun fold_event_into_parts ::
    "(string \<Rightarrow> string \<Rightarrow> change_tag list) \<Rightarrow> message_part list \<Rightarrow> agent_event
      \<Rightarrow> message_part list" where
  "fold_event_into_parts lc out (SessionStarted _ _ _ _ _ _) = []"
| "fold_event_into_parts lc out (Steered _ _) = []"
| "fold_event_into_parts lc out (TextDelta text) = fold_text_delta out text"
| "fold_event_into_parts lc out (GeneratedImage i path name mime) =
     fold_generated_image out i path name mime"
| "fold_event_into_parts lc out (ReasoningDelta text) = fold_reasoning_delta out text"
| "fold_event_into_parts lc out (ToolCallEvent i call) = fold_tool_call out i call"
| "fold_event_into_parts lc out (ToolResult i is_error output diff) =
     fold_tool_result lc out i is_error diff"
| "fold_event_into_parts lc out (InputRequested request_id questions) =
     fold_input_requested out request_id questions"
| "fold_event_into_parts lc out (InputResolved request_id) = fold_input_resolved out request_id"
| "fold_event_into_parts lc out (ErrorEvent message _) = fold_error out message"
| "fold_event_into_parts lc out (Done _ _ error _) =
     (case error of Some message \<Rightarrow> fold_error out message | None \<Rightarrow> out)"
| "fold_event_into_parts lc out (Subagent parent event) = fold_subagent out parent event"
| "fold_event_into_parts lc out (AssistantMessageCompleted _) = out"
| "fold_event_into_parts lc out (Usage _ _) = out"
| "fold_event_into_parts lc out (ContextUsage _ _) = out"
| "fold_event_into_parts lc out (AvailableCommands _) = out"
| "fold_event_into_parts lc out (UserMessage _) = out"
| "fold_event_into_parts lc out (TurnRef _) = out"

section \<open>Sidecar and privacy\<close>

definition stamp_sidecar :: "string \<Rightarrow> tool_part \<Rightarrow> tool_part" where
  "stamp_sidecar chat_id t =
     (if \<not> tp_resolved t then t
      else
        let t1 = (if tp_output_ref t = None \<and> tp_output_bytes t \<noteq> None
                  then t\<lparr>tp_output_ref := Some (chat_id @ ''/'' @ tp_id t)\<rparr> else t)
        in if tp_diff_ref t1 = None \<and> tp_diff_stats t1 \<noteq> None
           then t1\<lparr>tp_diff_ref := Some (chat_id @ ''/'' @ tp_id t @ ''.diff'')\<rparr> else t1)"

definition apply_sidecar_refs :: "string \<Rightarrow> message_part list \<Rightarrow> message_part list" where
  "apply_sidecar_refs chat_id parts = map (map_tool (stamp_sidecar chat_id)) parts"

record sidecar_payload_t =
  sp_part_id :: string
  sp_output :: "string option"
  sp_diff :: "tool_diff option"

fun sidecar_payload :: "agent_event \<Rightarrow> sidecar_payload_t option" where
  "sidecar_payload (ToolResult i _ output diff) =
     (let output = (case output of Some o' \<Rightarrow> (if trim o' = [] then None else Some o') | None \<Rightarrow> None)
      in if output = None \<and> diff = None then None
         else Some \<lparr>sp_part_id = i, sp_output = output, sp_diff = diff\<rparr>)"
| "sidecar_payload _ = None"

text \<open>The members of a spawn's input the chip keeps.\<close>

definition kept_member :: "json \<Rightarrow> string \<Rightarrow> (string \<times> json) option" where
  "kept_member input key =
     (case json_get key input of
        Some (JStr value) \<Rightarrow> (if trim value = [] then None else Some (key, JStr (trim value)))
      | _ \<Rightarrow> None)"

definition spawn_badge :: "tool_call \<Rightarrow> json option" where
  "spawn_badge call =
     (if \<not> is_subagent_spawn call then None
      else case tool_input call of
        None \<Rightarrow> None
      | Some input \<Rightarrow>
          (let kept = List.map_filter (kept_member input) subagent_input_keep
           in if kept = [] then None else Some (JObj kept)))"

fun sanitize_tool_call :: "tool_call \<Rightarrow> tool_call" where
  "sanitize_tool_call (WriteFile path _) = WriteFile path None"
| "sanitize_tool_call (EditFile path _ _) = EditFile path None None"
| "sanitize_tool_call (WebFetch url _) = WebFetch url None"
| "sanitize_tool_call (Mcp server tool input) = Mcp server tool (spawn_badge (Mcp server tool input))"
| "sanitize_tool_call (UnknownTool name input) = UnknownTool name (spawn_badge (UnknownTool name input))"
| "sanitize_tool_call other = other"

section \<open>Continuation splitting\<close>

definition continuation_id :: "string \<Rightarrow> nat \<Rightarrow> string" where
  "continuation_id root index = root @ ''#c'' @ show_nat index"

text \<open>
  The closure \<open>push_part\<close>: the state is the list of chunks (never empty) and the bytes of
  the last one.
\<close>

definition push_part ::
    "json_sizes \<Rightarrow> message_part list list \<times> nat \<Rightarrow> message_part \<Rightarrow> message_part list list \<times> nat" where
  "push_part js st part =
     (let (chunks, current) = st; len = part_byte_len js part;
          (chunks, current) =
            (if 0 < current \<and> msg_inline_max < current + len then (chunks @ [[]], 0)
             else (chunks, current))
      in (butlast chunks @ [last chunks @ [part]], current + len))"

text \<open>The byte at which the piece starting at \<open>start\<close> ends.\<close>

definition piece_end :: "string \<Rightarrow> nat \<Rightarrow> nat" where
  "piece_end text start =
     (let e = floor_boundary text (min (start + msg_inline_max) (length text))
      in if e \<le> start then length text else e)"

definition piece_part :: "bool \<Rightarrow> string \<Rightarrow> nat \<Rightarrow> string \<Rightarrow> message_part" where
  "piece_part reasoning i piece body =
     (let sub_id = (if piece = 0 then i else i @ ''~'' @ show_nat piece)
      in if reasoning then ReasoningPart sub_id body else TextPart sub_id body)"

lemma piece_end_progress: "start < length text \<Longrightarrow> start < piece_end text start"
  by (simp add: piece_end_def Let_def)

function text_pieces :: "bool \<Rightarrow> string \<Rightarrow> string \<Rightarrow> nat \<Rightarrow> nat \<Rightarrow> message_part list" where
  "text_pieces reasoning i text start piece =
     (if start < length text
      then let e = piece_end text start
           in piece_part reasoning i piece (drop start (take e text))
                # text_pieces reasoning i text e (Suc piece)
      else [])"
  by pat_completeness auto
termination
  by (relation "measure (\<lambda>(r, i, text, start, piece). length text - start)")
     (auto intro: diff_less_mono2 piece_end_progress)

declare text_pieces.simps [simp del]

text \<open>The parts one part is pushed as: its pieces when its text is oversized, itself otherwise.\<close>

fun part_pieces :: "message_part \<Rightarrow> message_part list" where
  "part_pieces (TextPart i text) =
     (if msg_inline_max < length text then text_pieces False i text 0 0 else [TextPart i text])"
| "part_pieces (ReasoningPart i text) =
     (if msg_inline_max < length text then text_pieces True i text 0 0 else [ReasoningPart i text])"
| "part_pieces other = [other]"

definition split_parts :: "json_sizes \<Rightarrow> message_part list \<Rightarrow> message_part list list" where
  "split_parts js parts =
     fst (fold (\<lambda>part st. foldl (push_part js) st (part_pieces part)) parts ([[]], 0))"

definition join_continuations :: "message_part list list \<Rightarrow> message_part list" where
  "join_continuations entries = concat entries"

section \<open>The fold keeps tool payloads out\<close>

fun thin_part :: "message_part \<Rightarrow> bool" where
  "thin_part (ToolPart t) \<longleftrightarrow> tp_output t = None \<and> tp_output_bytes t = None \<and> tp_diff t = None"
| "thin_part _ \<longleftrightarrow> True"

definition thin_parts :: "message_part list \<Rightarrow> bool" where
  "thin_parts out \<longleftrightarrow> list_all thin_part out"

lemma last_part_Some: "last_part out = Some p \<Longrightarrow> out = butlast out @ [p]"
  by (auto simp: last_part_def split: if_splits)

lemma list_all_update_first:
  "list_all Q out \<Longrightarrow> (\<And>p. Q p \<Longrightarrow> P p \<Longrightarrow> Q (f p)) \<Longrightarrow> list_all Q (update_first P f out)"
  by (induction out) auto

lemma list_all_map: "list_all Q out \<Longrightarrow> (\<And>p. Q p \<Longrightarrow> Q (f p)) \<Longrightarrow> list_all Q (map f out)"
  by (induction out) auto

lemma list_all_butlast: "list_all Q out \<Longrightarrow> list_all Q (butlast out)"
  by (auto simp: list_all_iff dest: in_set_butlastD)

lemma list_ex_update_first:
  "list_ex Q out \<Longrightarrow> (\<And>p. Q p \<Longrightarrow> P p \<Longrightarrow> Q (f p)) \<Longrightarrow> list_ex Q (update_first P f out)"
  by (induction out) auto

lemma list_ex_butlast: "list_ex Q out \<Longrightarrow> \<not> Q (last out) \<Longrightarrow> list_ex Q (butlast out)"
  by (cases out rule: rev_cases) auto

lemma thin_touch: "thin_part p \<Longrightarrow> thin_part (map_tool (touch_subagent st) p)"
  by (cases p) (auto simp: touch_subagent_def split: option.splits)

lemmas fold_ops = fold_text_delta_def fold_generated_image_def fold_reasoning_delta_def fold_tool_call_def
  fold_tool_result_def fold_input_requested_def fold_input_resolved_def fold_error_def fold_subagent_def new_tool_part_def

lemma fold_keeps_thin:
  assumes "thin_parts out"
  shows "thin_parts (fold_event_into_parts lc out e)"
proof -
  have resolve: "thin_part (map_tool (resolve_tool lc b d) p)" for b d p
    by (cases p) (simp_all add: resolve_tool_def)
  have call: "thin_part p \<Longrightarrow> thin_part (map_tool (\<lambda>t. t\<lparr>tp_call := c\<rparr>) p)" for c p
    by (cases p) simp_all
  have input: "thin_part p \<Longrightarrow> thin_part (resolve_input r p)" for r p
    by (cases p) simp_all
  show ?thesis
    using assms unfolding thin_parts_def
    by (cases e)
      (auto simp: fold_ops Let_def intro!: list_all_update_first list_all_map list_all_butlast
        resolve call input thin_touch split: option.splits message_part.splits)
qed

interpretation thin_fold: invariant_machine "fold_event_into_parts lc" thin_parts
  by unfold_locales (rule fold_keeps_thin)

section \<open>A tool's row after its result\<close>

text \<open>The events that start the parts anew, or say something else of the row with the id.\<close>

fun supersedes :: "string \<Rightarrow> agent_event \<Rightarrow> bool" where
  "supersedes i (SessionStarted _ _ _ _ _ _) \<longleftrightarrow> True"
| "supersedes i (Steered _ _) \<longleftrightarrow> True"
| "supersedes i (ToolResult j _ _ _) \<longleftrightarrow> j = i"
| "supersedes i (GeneratedImage j _ _ _) \<longleftrightarrow> j = i"
| "supersedes i _ \<longleftrightarrow> False"

definition shows_result ::
    "(string \<Rightarrow> string \<Rightarrow> change_tag list) \<Rightarrow> string \<Rightarrow> bool \<Rightarrow> tool_diff option \<Rightarrow> message_part \<Rightarrow> bool" where
  "shows_result lc i is_error diff p \<longleftrightarrow>
     (case p of
        ToolPart t \<Rightarrow> tp_id t = i \<longrightarrow>
          tp_resolved t \<and> tp_is_error t = is_error \<and> tp_output t = None \<and> tp_output_bytes t = None \<and> tp_diff t = None
          \<and> tp_diff_stats t = map_option (\<lambda>d. [diff_stat lc d]) diff
      | _ \<Rightarrow> True)"

lemma shows_result_other [simp]: "\<not> is_tool_with_id i p \<Longrightarrow> shows_result lc i b d p"
  by (cases p) (simp_all add: shows_result_def)

definition row_shows ::
    "(string \<Rightarrow> string \<Rightarrow> change_tag list) \<Rightarrow> string \<Rightarrow> bool \<Rightarrow> tool_diff option \<Rightarrow> message_part list \<Rightarrow> bool" where
  "row_shows lc i is_error diff out \<longleftrightarrow> list_ex (is_tool_with_id i) out \<and> list_all (shows_result lc i is_error diff) out"

lemma row_shows_call:
  assumes "row_shows lc i b d out"
  shows "row_shows lc i b d (fold_tool_call out j call)"
proof (cases "\<exists>p \<in> set out. is_tool_with_id j p")
  case True
  have "is_tool_with_id i p \<Longrightarrow> is_tool_with_id i (map_tool (\<lambda>t. t\<lparr>tp_call := call\<rparr>) p)"
    and "shows_result lc i b d p \<Longrightarrow> shows_result lc i b d (map_tool (\<lambda>t. t\<lparr>tp_call := call\<rparr>) p)" for p
    by (cases p; simp add: shows_result_def)+
  with True assms show ?thesis
    by (auto simp: row_shows_def fold_tool_call_def intro: list_all_update_first list_ex_update_first)
next
  case False
  with assms have "j \<noteq> i" by (auto simp: row_shows_def list_ex_iff)
  with False assms show ?thesis by (simp add: row_shows_def fold_tool_call_def new_tool_part_def)
qed

lemma row_shows_snoc: "row_shows lc i b d out \<Longrightarrow> \<not> is_tool_with_id i p \<Longrightarrow> row_shows lc i b d (out @ [p])"
  by (simp add: row_shows_def)

lemma row_shows_grown:
  assumes "row_shows lc i b d out" "last_part out = Some q" "\<not> is_tool_with_id i q" "\<not> is_tool_with_id i p"
  shows "row_shows lc i b d (butlast out @ [p])"
  using assms by (auto simp: row_shows_def last_part_def intro: list_all_butlast list_ex_butlast split: if_splits)

lemma row_shows_map:
  assumes "row_shows lc i b d out"
    and "\<And>p. is_tool_with_id i p \<Longrightarrow> is_tool_with_id i (f p)" "\<And>p. shows_result lc i b d p \<Longrightarrow> shows_result lc i b d (f p)"
  shows "row_shows lc i b d (map f out)"
  using assms by (auto simp: row_shows_def list_ex_iff intro: list_all_map)

lemma row_shows_image:
  assumes "row_shows lc i b d out" "j \<noteq> i"
  shows "row_shows lc i b d (fold_generated_image out j path name mime)"
  using assms unfolding row_shows_def fold_generated_image_def Let_def
  by (auto intro!: list_all_update_first list_ex_update_first elim: is_tool_with_id.elims)

lemma row_shows_result:
  assumes "list_ex (is_tool_with_id i) out"
  shows "row_shows lc i b d (fold_tool_result lc out i b d)"
proof -
  have "shows_result lc i b d (map_tool (resolve_tool lc b d) p)" for p
    by (cases p) (simp_all add: shows_result_def resolve_tool_def)
  moreover have "is_tool_with_id i (map_tool (resolve_tool lc b d) p)" if "is_tool_with_id i p" for p
    using that by (cases p) (simp_all add: resolve_tool_def)
  ultimately show ?thesis using assms by (auto simp: row_shows_def fold_tool_result_def list_ex_iff list_all_iff)
qed

lemma row_shows_step:
  assumes "row_shows lc i b d out" "\<not> supersedes i e"
  shows "row_shows lc i b d (fold_event_into_parts lc out e)"
proof (cases e)
  case (ToolResult j b' o' d')
  with assms have "j \<noteq> i" by simp
  have "shows_result lc i b d (if is_tool_with_id j p then map_tool (resolve_tool lc b' d') p else p)"
    if "shows_result lc i b d p" for p
    using that \<open>j \<noteq> i\<close> by (cases p) (simp_all add: shows_result_def resolve_tool_def)
  moreover have "is_tool_with_id i (if is_tool_with_id j p then map_tool (resolve_tool lc b' d') p else p)"
    if "is_tool_with_id i p" for p
    using that by (cases p) (simp_all add: resolve_tool_def)
  ultimately show ?thesis using assms(1) ToolResult by (simp add: fold_tool_result_def row_shows_map)
next
  case (Subagent parent event)
  have "shows_result lc i b d p \<Longrightarrow> shows_result lc i b d (map_tool (touch_subagent st) p)"
    and "is_tool_with_id i p \<Longrightarrow> is_tool_with_id i (map_tool (touch_subagent st) p)" for p st
    by (cases p; simp add: shows_result_def touch_subagent_def split: option.splits)+
  with assms(1) Subagent show ?thesis by (simp add: fold_subagent_def row_shows_map)
next
  case (InputResolved request_id)
  have "shows_result lc i b d p \<Longrightarrow> shows_result lc i b d (resolve_input request_id p)"
    and "is_tool_with_id i p \<Longrightarrow> is_tool_with_id i (resolve_input request_id p)" for p
    by (cases p; simp add: shows_result_def)+
  with assms(1) InputResolved show ?thesis by (simp add: fold_input_resolved_def row_shows_map)
qed (use assms in \<open>auto simp: fold_text_delta_def fold_reasoning_delta_def fold_input_requested_def fold_error_def Let_def
      intro: row_shows_call row_shows_image row_shows_snoc row_shows_grown split: option.splits message_part.splits\<close>)

interpretation shown_result: guarded_machine "fold_event_into_parts lc" "row_shows lc i b d" "\<lambda>e. \<not> supersedes i e"
    for lc i b d
  by unfold_locales (rule row_shows_step)

section \<open>Part ids stay distinct\<close>

text \<open>
  The ids the fold mints itself: a letter and the position for text, reasoning and error
  parts, \<open>in-\<close> and the request for input parts.
\<close>

definition minted_id :: "string \<Rightarrow> bool" where
  "minted_id i \<longleftrightarrow> prefix ''in-'' i \<or>
     (case i of c # cs \<Rightarrow> c \<in> {CHR ''t'', CHR ''r'', CHR ''e''} \<and> cs = show_nat (read_nat cs)
      | [] \<Rightarrow> False)"

text \<open>
  What a harness must respect: its tool ids satisfy \<open>K\<close>, its image ids do not, and
  neither is an id the fold mints.
\<close>

fun event_ids_ok :: "(string \<Rightarrow> bool) \<Rightarrow> agent_event \<Rightarrow> bool" where
  "event_ids_ok K (ToolCallEvent i _) \<longleftrightarrow> K i \<and> \<not> minted_id i"
| "event_ids_ok K (GeneratedImage i _ _ _) \<longleftrightarrow> \<not> K i \<and> \<not> minted_id i"
| "event_ids_ok K _ \<longleftrightarrow> True"

fun part_at_ok :: "(string \<Rightarrow> bool) \<Rightarrow> nat \<Rightarrow> message_part \<Rightarrow> bool" where
  "part_at_ok K n (TextPart i _) \<longleftrightarrow> i = ''t'' @ show_nat n"
| "part_at_ok K n (ReasoningPart i _) \<longleftrightarrow> i = ''r'' @ show_nat n"
| "part_at_ok K n (ErrorPart i _) \<longleftrightarrow> i = ''e'' @ show_nat n"
| "part_at_ok K n (ToolPart t) \<longleftrightarrow> K (tp_id t) \<and> \<not> minted_id (tp_id t)"
| "part_at_ok K n (ImagePart i _ _ _) \<longleftrightarrow> \<not> K i \<and> \<not> minted_id i"
| "part_at_ok K n (InputPart i rid _ _) \<longleftrightarrow> i = ''in-'' @ rid"
| "part_at_ok K n _ \<longleftrightarrow> False"

definition parts_wf :: "(string \<Rightarrow> bool) \<Rightarrow> message_part list \<Rightarrow> bool" where
  "parts_wf K out \<longleftrightarrow>
     distinct (map part_id out) \<and> (\<forall>n < length out. part_at_ok K n (out ! n))"

lemma minted_simps [simp]:
  "minted_id (CHR ''t'' # show_nat n)" "minted_id (CHR ''r'' # show_nat n)"
  "minted_id (CHR ''e'' # show_nat n)" "minted_id (CHR ''i'' # CHR ''n'' # CHR ''-'' # r)"
  by (simp_all add: minted_id_def)

lemma parts_wf_snoc:
  assumes "parts_wf K out" "part_at_ok K (length out) p"
    and "\<And>n. n < length out \<Longrightarrow> part_id (out ! n) \<noteq> part_id p"
  shows "parts_wf K (out @ [p])"
proof -
  from assms(3) have "part_id p \<notin> part_id ` set out"
    by (metis imageE in_set_conv_nth)
  with assms(1,2) show ?thesis
    by (auto simp: parts_wf_def nth_append less_Suc_eq)
qed

lemma parts_wf_replace:
  assumes "parts_wf K out" "length out' = length out" "map part_id out' = map part_id out"
    and "\<And>n. n < length out \<Longrightarrow> part_at_ok K n (out ! n) \<Longrightarrow> part_at_ok K n (out' ! n)"
  shows "parts_wf K out'"
  using assms by (auto simp: parts_wf_def)

text \<open>An id that the fold mints at the end of the list is new there.\<close>

lemma minted_is_new:
  assumes "parts_wf K out" "n < length out" "c \<in> {CHR ''t'', CHR ''r'', CHR ''e''}"
  shows "part_id (out ! n) \<noteq> c # show_nat (length out)"
proof -
  from assms have ok: "part_at_ok K n (out ! n)" by (simp add: parts_wf_def)
  have "minted_id (c # show_nat (length out))" using assms(3) by auto
  with ok assms(2,3) show ?thesis by (cases "out ! n") auto
qed

lemma parts_wf_push_minted:
  assumes "parts_wf K out" "part_at_ok K (length out) p"
    and "part_id p = c # show_nat (length out)" "c \<in> {CHR ''t'', CHR ''r'', CHR ''e''}"
  shows "parts_wf K (out @ [p])"
  using parts_wf_snoc [OF assms(1,2)] minted_is_new [OF assms(1) _ assms(4)] assms(3) by auto

lemma parts_wf_map:
  assumes "parts_wf K out" and "\<And>p. part_id (f p) = part_id p"
    and "\<And>n p. part_at_ok K n p \<Longrightarrow> part_at_ok K n (f p)"
  shows "parts_wf K (map f out)"
  using assms by (auto intro!: parts_wf_replace [OF assms(1)] simp: comp_def)

lemma parts_wf_update_first:
  assumes "parts_wf K out" and "\<And>p. P p \<Longrightarrow> part_id (f p) = part_id p"
    and "\<And>n p. P p \<Longrightarrow> part_at_ok K n p \<Longrightarrow> part_at_ok K n (f p)"
  shows "parts_wf K (update_first P f out)"
proof (rule parts_wf_replace [OF assms(1)])
  show "map part_id (update_first P f out) = map part_id out"
    by (rule map_update_first_same) (rule assms(2))
  have "update_first P f xs ! n = xs ! n \<or> (P (xs ! n) \<and> update_first P f xs ! n = f (xs ! n))"
    if "n < length xs" for n and xs :: "message_part list"
    using that by (induction xs arbitrary: n) (auto simp: nth_Cons split: nat.splits)
  then show "part_at_ok K n (update_first P f out ! n)"
    if "n < length out" "part_at_ok K n (out ! n)" for n
    using that assms(3) by metis
qed simp

lemma parts_wf_last:
  assumes "parts_wf K out" "last_part out = Some p" "part_id q = part_id p"
    and "\<And>n. part_at_ok K n p \<Longrightarrow> part_at_ok K n q"
  shows "parts_wf K (butlast out @ [q])"
proof -
  from assms(2) have out: "out = butlast out @ [p]" by (rule last_part_Some)
  from assms(1) have wf: "parts_wf K (butlast out @ [p])" by (subst out [symmetric])
  show ?thesis
    by (rule parts_wf_replace [OF wf])
      (use assms(3,4) in \<open>auto simp: nth_append split: if_splits\<close>)
qed

lemma push_minted_wf:
  assumes "parts_wf K out"
  shows "parts_wf K (out @ [TextPart (CHR ''t'' # show_nat (length out)) text])"
    and "parts_wf K (out @ [ReasoningPart (CHR ''r'' # show_nat (length out)) text])"
    and "parts_wf K (out @ [ErrorPart (CHR ''e'' # show_nat (length out)) text])"
  by (auto intro: parts_wf_push_minted [OF assms])

lemma fold_text_wf: "parts_wf K out \<Longrightarrow> parts_wf K (fold_text_delta out text)"
  by (auto simp: fold_text_delta_def push_minted_wf split: option.splits message_part.splits
      intro: parts_wf_last)

lemma fold_reasoning_wf: "parts_wf K out \<Longrightarrow> parts_wf K (fold_reasoning_delta out text)"
  by (auto simp: fold_reasoning_delta_def push_minted_wf split: option.splits message_part.splits
      intro: parts_wf_last)

lemma fold_error_wf: "parts_wf K out \<Longrightarrow> parts_wf K (fold_error out message)"
  by (simp add: fold_error_def push_minted_wf)

lemma fold_image_wf:
  assumes "parts_wf K out" "\<not> K i" "\<not> minted_id i"
  shows "parts_wf K (fold_generated_image out i path name mime)"
proof -
  have "parts_wf K (out @ [ImagePart i path name mime])" if "\<forall>p \<in> set out. part_id p \<noteq> i"
    using assms that by (intro parts_wf_snoc) auto
  moreover have "parts_wf K (update_first (\<lambda>p. part_id p = i) (\<lambda>_. ImagePart i path name mime) out)"
    using assms by (intro parts_wf_update_first) auto
  ultimately show ?thesis by (auto simp: fold_generated_image_def Let_def)
qed

lemma is_tool_with_idD: "is_tool_with_id i p \<Longrightarrow> \<exists>t. p = ToolPart t \<and> tp_id t = i"
  by (cases p) auto

lemma fold_tool_call_wf:
  assumes "parts_wf K out" "K i" "\<not> minted_id i"
  shows "parts_wf K (fold_tool_call out i call)"
proof -
  have "parts_wf K (out @ [ToolPart (new_tool_part i call)])"
    if none: "\<forall>p \<in> set out. \<not> is_tool_with_id i p"
  proof (rule parts_wf_snoc)
    fix n assume n: "n < length out"
    with assms(1) have "part_at_ok K n (out ! n)" by (simp add: parts_wf_def)
    with none n assms(2,3) show "part_id (out ! n) \<noteq> part_id (ToolPart (new_tool_part i call))"
      by (cases "out ! n") (auto simp: new_tool_part_def dest!: nth_mem)
  qed (use assms in \<open>auto simp: new_tool_part_def\<close>)
  moreover have
    "parts_wf K (update_first (is_tool_with_id i) (map_tool (\<lambda>t. t\<lparr>tp_call := call\<rparr>)) out)"
    using assms by (intro parts_wf_update_first) (auto dest!: is_tool_with_idD)
  ultimately show ?thesis by (auto simp: fold_tool_call_def)
qed

lemma fold_input_requested_wf:
  assumes "parts_wf K out"
  shows "parts_wf K (fold_input_requested out request_id questions)"
  using assms by (auto simp: fold_input_requested_def Let_def intro!: parts_wf_snoc)

lemma map_tool_wf:
  assumes "parts_wf K out" "\<And>t. tp_id (f t) = tp_id t"
  shows "parts_wf K (map (\<lambda>p. if Q p then map_tool f p else p) out)"
proof (rule parts_wf_map [OF assms(1)])
  fix n p
  show "part_id (if Q p then map_tool f p else p) = part_id p"
    by (cases p) (auto simp: assms(2))
  show "part_at_ok K n p \<Longrightarrow> part_at_ok K n (if Q p then map_tool f p else p)"
    by (cases p) (auto simp: assms(2))
qed

lemma fold_input_resolved_wf: "parts_wf K out \<Longrightarrow> parts_wf K (fold_input_resolved out r)"
  unfolding fold_input_resolved_def
proof (rule parts_wf_map)
  fix n p
  show "part_id (resolve_input r p) = part_id p" by (cases p) auto
  show "part_at_ok K n p \<Longrightarrow> part_at_ok K n (resolve_input r p)" by (cases p) auto
qed

lemma touch_subagent_id [simp]: "tp_id (touch_subagent st t) = tp_id t"
  by (auto simp: touch_subagent_def split: option.splits)

lemma fold_keeps_wf:
  assumes "parts_wf K out" "event_ids_ok K e"
  shows "parts_wf K (fold_event_into_parts lc out e)"
  using assms
  by (cases e)
    (auto simp: parts_wf_def [of K "[]"] fold_tool_result_def fold_subagent_def resolve_tool_def
      split: option.splits
      intro: fold_text_wf fold_reasoning_wf fold_error_wf fold_image_wf fold_tool_call_wf
        fold_input_requested_wf fold_input_resolved_wf map_tool_wf)

lemma fold_events_wf:
  "parts_wf K out \<Longrightarrow> list_all (event_ids_ok K) es \<Longrightarrow>
     parts_wf K (foldl (fold_event_into_parts lc) out es)"
  by (induction es arbitrary: out) (auto intro: fold_keeps_wf)

section \<open>Replayed events\<close>

text \<open>The events a retrying provider may deliver twice.\<close>

fun retried_event :: "agent_event \<Rightarrow> bool" where
  "retried_event (ToolCallEvent _ _) \<longleftrightarrow> True"
| "retried_event (ToolResult _ _ _ _) \<longleftrightarrow> True"
| "retried_event (GeneratedImage _ _ _ _) \<longleftrightarrow> True"
| "retried_event (InputRequested _ _) \<longleftrightarrow> True"
| "retried_event (InputResolved _) \<longleftrightarrow> True"
| "retried_event (Subagent _ _) \<longleftrightarrow> True"
| "retried_event _ \<longleftrightarrow> False"

lemma update_first_idem:
  "(\<And>x. P x \<Longrightarrow> P (f x)) \<Longrightarrow> (\<And>x. P x \<Longrightarrow> f (f x) = f x) \<Longrightarrow>
     update_first P f (update_first P f xs) = update_first P f xs"
  by (induction xs) auto

lemma update_first_bex:
  "(\<And>x. P x \<Longrightarrow> P (f x)) \<Longrightarrow> (\<exists>x \<in> set (update_first P f xs). P x) \<longleftrightarrow> (\<exists>x \<in> set xs. P x)"
  by (induction xs) auto

lemma update_first_snoc:
  "\<forall>x \<in> set xs. \<not> P x \<Longrightarrow> P y \<Longrightarrow> update_first P f (xs @ [y]) = xs @ [f y]"
  by (simp add: update_first_middle)

lemma fold_tool_call_twice:
  "fold_tool_call (fold_tool_call out i call) i call = fold_tool_call out i call"
proof (cases "\<exists>p \<in> set out. is_tool_with_id i p")
  case True
  let ?f = "map_tool (\<lambda>t. t\<lparr>tp_call := call\<rparr>)"
  have keep: "is_tool_with_id i (?f p)" if "is_tool_with_id i p" for p
    using is_tool_with_idD [OF that] by auto
  have idem: "?f (?f p) = ?f p" for p by (cases p) auto
  have "(\<exists>p \<in> set (update_first (is_tool_with_id i) ?f out). is_tool_with_id i p)"
    using True update_first_bex [where P = "is_tool_with_id i" and f = ?f] keep by blast
  moreover have "update_first (is_tool_with_id i) ?f (update_first (is_tool_with_id i) ?f out)
      = update_first (is_tool_with_id i) ?f out"
    by (rule update_first_idem) (use keep idem in auto)
  ultimately show ?thesis using True by (simp add: fold_tool_call_def)
next
  case False
  then have "update_first (is_tool_with_id i) f (out @ [ToolPart (new_tool_part i call)])
      = out @ [f (ToolPart (new_tool_part i call))]" for f
    by (intro update_first_snoc) (auto simp: new_tool_part_def)
  with False show ?thesis by (auto simp: fold_tool_call_def new_tool_part_def)
qed

lemma fold_image_twice:
  "fold_generated_image (fold_generated_image out i a b c) i a b c = fold_generated_image out i a b c"
proof (cases "\<exists>p \<in> set out. part_id p = i")
  case True
  then show ?thesis
    by (simp add: fold_generated_image_def update_first_bex update_first_idem)
next
  case False
  then have "update_first (\<lambda>p. part_id p = i) f (out @ [ImagePart i a b c]) = out @ [f (ImagePart i a b c)]"
    for f
    by (intro update_first_snoc) auto
  with False show ?thesis by (simp add: fold_generated_image_def)
qed

lemma map_tool_twice:
  assumes "\<And>t. f (f t) = f t" "\<And>t. Q (ToolPart t) \<Longrightarrow> Q (ToolPart (f t))"
  shows "map (\<lambda>p. if Q p then map_tool f p else p) (map (\<lambda>p. if Q p then map_tool f p else p) out)
       = map (\<lambda>p. if Q p then map_tool f p else p) out"
proof -
  have "(if Q q then map_tool f q else q) = q" if "q = (if Q p then map_tool f p else p)" for p q
    using that assms by (cases p) auto
  then show ?thesis by simp
qed

lemma map_tool_comp: "map_tool f (map_tool g p) = map_tool (\<lambda>t. f (g t)) p"
  by (cases p) auto

lemma resolve_tool_twice: "resolve_tool lc b d (resolve_tool lc b d t) = resolve_tool lc b d t"
  by (simp add: resolve_tool_def)

lemma touch_subagent_twice: "touch_subagent st (touch_subagent st t) = touch_subagent st t"
  by (auto simp: touch_subagent_def split: option.splits)

lemma touch_subagent_call [simp]: "tp_call (touch_subagent st t) = tp_call t"
  by (auto simp: touch_subagent_def split: option.splits)

lemma resolve_input_twice: "resolve_input r (resolve_input r p) = resolve_input r p"
  by (cases p) auto

lemma fold_retried_twice:
  "retried_event e \<Longrightarrow>
     fold_event_into_parts lc (fold_event_into_parts lc out e) e = fold_event_into_parts lc out e"
  by (cases e)
    (auto simp: fold_tool_call_twice fold_image_twice fold_tool_result_def fold_subagent_def
      fold_input_resolved_def fold_input_requested_def resolve_input_twice resolve_tool_twice
      touch_subagent_twice Let_def map_tool_comp)

section \<open>Sanitising is idempotent and keeps only the badge\<close>

lemma kept_member_SomeD:
  "kept_member input key = Some kv \<Longrightarrow> \<exists>v. kv = (key, JStr v) \<and> trim v = v \<and> v \<noteq> []"
  by (auto simp: kept_member_def split: option.splits json.splits if_splits)

lemma map_of_kept:
  "distinct keys \<Longrightarrow> key \<in> set keys \<Longrightarrow>
     map_of (List.map_filter (kept_member input) keys) key = map_option snd (kept_member input key)"
proof (induction keys)
  case (Cons k keys)
  have "map_of (List.map_filter (kept_member input) ks) k = None" if "k \<notin> set ks" for ks
    using that by (induction ks) (auto simp: map_filter_simps dest: kept_member_SomeD split: option.splits)
  with Cons show ?case
    by (auto simp: map_filter_simps dest: kept_member_SomeD split: option.splits)
qed simp

lemma kept_member_again:
  assumes "distinct keys" "key \<in> set keys"
  shows "kept_member (JObj (List.map_filter (kept_member input) keys)) key = kept_member input key"
proof (cases "kept_member input key")
  case None
  with map_of_kept [OF assms, of input] show ?thesis by (simp add: kept_member_def)
next
  case (Some kv)
  with kept_member_SomeD [OF Some] obtain v where "kv = (key, JStr v)" "trim v = v" "v \<noteq> []"
    by auto
  with Some map_of_kept [OF assms, of input] show ?thesis by (simp add: kept_member_def)
qed

lemma map_filter_same:
  "(\<And>x. x \<in> set xs \<Longrightarrow> f x = g x) \<Longrightarrow> List.map_filter f xs = List.map_filter g xs"
  by (induction xs) (auto simp: map_filter_simps split: option.splits)

lemma spawn_badge_again:
  "spawn_badge (UnknownTool name (spawn_badge (UnknownTool name input))) = spawn_badge (UnknownTool name input)"
  "spawn_badge (Mcp server tool (spawn_badge (Mcp server tool input))) = spawn_badge (Mcp server tool input)"
proof -
  have keys: "distinct subagent_input_keep" by (simp add: subagent_input_keep_def)
  have "List.map_filter (kept_member (JObj (List.map_filter (kept_member i) subagent_input_keep)))
      subagent_input_keep = List.map_filter (kept_member i) subagent_input_keep" for i
    by (rule map_filter_same) (simp add: kept_member_again [OF keys])
  then show
    "spawn_badge (UnknownTool name (spawn_badge (UnknownTool name input))) = spawn_badge (UnknownTool name input)"
    "spawn_badge (Mcp server tool (spawn_badge (Mcp server tool input))) = spawn_badge (Mcp server tool input)"
    by (auto simp: spawn_badge_def Let_def split: option.splits)
qed

lemma sanitize_twice: "sanitize_tool_call (sanitize_tool_call c) = sanitize_tool_call c"
  by (cases c) (simp_all add: spawn_badge_again)

text \<open>What a sanitised call may still carry: no file content, no prompt, only badge keys.\<close>

fun only_badge :: "json option \<Rightarrow> bool" where
  "only_badge None \<longleftrightarrow> True"
| "only_badge (Some (JObj ms)) \<longleftrightarrow>
     list_all (\<lambda>(k, v). List.member subagent_input_keep k \<and> json_as_str v \<noteq> None) ms"
| "only_badge (Some _) \<longleftrightarrow> False"

fun private_free :: "tool_call \<Rightarrow> bool" where
  "private_free (WriteFile _ content) \<longleftrightarrow> content = None"
| "private_free (EditFile _ old new) \<longleftrightarrow> old = None \<and> new = None"
| "private_free (WebFetch _ prompt) \<longleftrightarrow> prompt = None"
| "private_free (Mcp _ tool input) \<longleftrightarrow>
     only_badge input \<and> (is_spawn_name tool \<or> input = None)"
| "private_free (UnknownTool name input) \<longleftrightarrow>
     only_badge input \<and> (is_spawn_name name \<or> input = None)"
| "private_free _ \<longleftrightarrow> True"

lemma only_badge_spawn_badge: "only_badge (spawn_badge c)"
proof -
  have "list_all (\<lambda>(k, v). List.member keys k \<and> json_as_str v \<noteq> None)
      (List.map_filter (kept_member i) ks)" if "set ks \<subseteq> set keys" for ks keys i
    using that
    by (induction ks)
      (auto simp: map_filter_simps dest!: kept_member_SomeD split: option.splits)
  then show ?thesis by (auto simp: spawn_badge_def Let_def split: option.splits)
qed

lemma sanitize_private_free: "private_free (sanitize_tool_call c)"
  by (cases c) (auto simp: only_badge_spawn_badge, auto simp: spawn_badge_def split: if_splits)

section \<open>Splitting loses nothing and respects the bound\<close>

fun part_body :: "message_part \<Rightarrow> string" where
  "part_body (TextPart _ text) = text"
| "part_body (ReasoningPart _ text) = text"
| "part_body _ = []"

definition body_text :: "message_part list \<Rightarrow> string" where
  "body_text ps = concat (map part_body ps)"

lemma body_text_simps [simp]:
  "body_text [] = []" "body_text (p # ps) = part_body p @ body_text ps"
  "body_text (ps @ qs) = body_text ps @ body_text qs"
  by (simp_all add: body_text_def)

lemma part_body_piece [simp]: "part_body (piece_part r i n body) = body"
  by (simp add: piece_part_def Let_def)

lemma floor_boundary_min_length:
  "floor_boundary text (min e (length text)) \<le> length text"
  by (rule order.trans [OF floor_boundary_le]) simp

lemma piece_end_le: "piece_end text start \<le> length text"
  by (simp add: piece_end_def Let_def floor_boundary_min_length)

lemma body_text_pieces: "body_text (text_pieces r i s start n) = drop start s"
proof (induction r i s start n rule: text_pieces.induct)
  case (1 r i s start n)
  show ?case
  proof (cases "start < length s")
    case True
    let ?e = "piece_end s start"
    have "start < ?e" using True by (rule piece_end_progress)
    then have "drop start s = drop start (take ?e s) @ drop ?e s"
      by (metis append_take_drop_id drop_append drop_drop less_imp_le_nat le_add_diff_inverse2
          drop_take take_add take_drop add.commute)
    with True "1.IH" [OF True refl] show ?thesis
      by (subst text_pieces.simps) (simp add: Let_def)
  next
    case False
    then show ?thesis by (subst text_pieces.simps) simp
  qed
qed

lemma body_part_pieces: "body_text (part_pieces p) = part_body p"
  by (cases p) (simp_all add: body_text_pieces)

lemma push_part_concat:
  assumes "fst st \<noteq> []"
  shows "fst (push_part js st p) \<noteq> [] \<and> concat (fst (push_part js st p)) = concat (fst st) @ [p]"
proof -
  obtain chunks current where st: "st = (chunks, current)" by (cases st)
  have "concat (butlast xs @ [last xs @ [p]]) = concat xs @ [p]" if "xs \<noteq> []" for xs
    using that by (metis append_assoc append_butlast_last_id concat.simps(1) concat.simps(2) concat_append
        append_Nil2)
  with assms st show ?thesis by (auto simp: push_part_def Let_def)
qed

lemma foldl_push_concat:
  "fst st \<noteq> [] \<Longrightarrow> fst (foldl (push_part js) st ps) \<noteq> [] \<and>
     concat (fst (foldl (push_part js) st ps)) = concat (fst st) @ ps"
  by (induction ps arbitrary: st) (auto simp: push_part_concat)

lemma split_fold_eq:
  "fold (\<lambda>part st. foldl (push_part js) st (part_pieces part)) parts st
     = foldl (push_part js) st (concat (map part_pieces parts))"
  by (induction parts arbitrary: st) simp_all

lemma split_parts_eq: "split_parts js parts = fst (foldl (push_part js) ([[]], 0) (concat (map part_pieces parts)))"
  by (simp add: split_parts_def split_fold_eq)

lemma join_split: "join_continuations (split_parts js parts) = concat (map part_pieces parts)"
  using foldl_push_concat [of "([[]], 0)" js "concat (map part_pieces parts)"]
  by (simp add: join_continuations_def split_parts_eq)

lemma body_concat_pieces: "body_text (concat (map part_pieces parts)) = body_text parts"
  by (induction parts) (simp_all add: body_part_pieces)

text \<open>
  A UTF-8 text has no four continuation bytes in a row (a character is at most four bytes
  long and starts with none). This is all the chunking relies on.
\<close>

fun char_width_ok :: "string \<Rightarrow> bool" where
  "char_width_ok (a # b # c # d # s) \<longleftrightarrow>
     \<not> (cont_byte a \<and> cont_byte b \<and> cont_byte c \<and> cont_byte d) \<and> char_width_ok (b # c # d # s)"
| "char_width_ok _ \<longleftrightarrow> True"

lemma char_width_ok_window:
  "char_width_ok s \<Longrightarrow> i + 3 < length s \<Longrightarrow> \<exists>j \<in> {i..i + 3}. \<not> cont_byte (s ! j)"
proof (induction s arbitrary: i rule: char_width_ok.induct)
  case (1 a b c d s)
  show ?case
  proof (cases i)
    case 0
    have "{0..0 + 3} = {0, 1, 2, 3 :: nat}" by auto
    with 0 "1.prems" show ?thesis by (auto simp: numeral_3_eq_3)
  next
    case (Suc k)
    with "1.IH" [of k] "1.prems" obtain j where "j \<in> {k..k + 3}" "\<not> cont_byte ((b # c # d # s) ! j)"
      by auto
    with Suc show ?thesis by (intro bexI [of _ "Suc j"]) auto
  qed
qed auto

lemma floor_boundary_ge: "is_char_boundary s j \<Longrightarrow> j \<le> i \<Longrightarrow> j \<le> floor_boundary s i"
  by (induction i) (auto simp: le_Suc_eq)

lemma piece_end_bound:
  assumes "char_width_ok s" "start < length s"
  shows "piece_end s start \<le> start + msg_inline_max" "is_char_boundary s (piece_end s start)"
proof -
  let ?m = "min (start + msg_inline_max) (length s)"
  have "\<exists>j. start < j \<and> j \<le> ?m \<and> is_char_boundary s j"
  proof (cases "start + 4 < length s")
    case True
    with char_width_ok_window [OF assms(1), of "Suc start"]
    obtain j where "j \<in> {Suc start..start + 4}" "\<not> cont_byte (s ! j)"
      by (auto simp: add.commute)
    with True show ?thesis
      by (intro exI [of _ j]) (auto simp: is_char_boundary_def msg_inline_max_def)
  next
    case False
    with assms(2) show ?thesis
      by (intro exI [of _ "length s"]) (auto simp: is_char_boundary_def msg_inline_max_def)
  qed
  then obtain j where "start < j" "j \<le> ?m" "is_char_boundary s j" by blast
  then have "start < floor_boundary s ?m" using floor_boundary_ge by fastforce
  then have eq: "piece_end s start = floor_boundary s ?m" by (simp add: piece_end_def Let_def)
  show "is_char_boundary s (piece_end s start)" by (simp add: eq floor_boundary_is_boundary)
  have "floor_boundary s ?m \<le> ?m" by (rule floor_boundary_le)
  then show "piece_end s start \<le> start + msg_inline_max" by (simp add: eq)
qed

lemma text_pieces_bound:
  "char_width_ok s \<Longrightarrow> p \<in> set (text_pieces r i s start n) \<Longrightarrow> part_byte_len js p \<le> msg_inline_max"
proof (induction r i s start n rule: text_pieces.induct)
  case (1 r i s start n)
  show ?case
  proof (cases "start < length s")
    case True
    let ?e = "piece_end s start"
    let ?p = "piece_part r i n (drop start (take ?e s))"
    have "length (drop start (take ?e s)) \<le> msg_inline_max"
      using piece_end_bound(1) [OF "1.prems"(1) True] by simp
    then have "part_byte_len js ?p \<le> msg_inline_max" by (simp add: piece_part_def Let_def)
    moreover have "p = ?p \<or> p \<in> set (text_pieces r i s ?e (Suc n))"
      using "1.prems"(2) True by (subst (asm) text_pieces.simps) (auto simp: Let_def)
    ultimately show ?thesis using "1.IH" [OF True refl "1.prems"(1)] by blast
  next
    case False
    with "1.prems"(2) show ?thesis by (subst (asm) text_pieces.simps) simp
  qed
qed

fun is_body_part :: "message_part \<Rightarrow> bool" where
  "is_body_part (TextPart _ _) \<longleftrightarrow> True"
| "is_body_part (ReasoningPart _ _) \<longleftrightarrow> True"
| "is_body_part _ \<longleftrightarrow> False"

lemma part_pieces_bound:
  assumes "char_width_ok (part_body p)" "q \<in> set (part_pieces p)" "msg_inline_max < part_byte_len js q"
  shows "\<not> is_body_part q \<and> q = p"
  using assms text_pieces_bound [of "part_body p" q _ _ 0 0 js]
  by (cases p) (auto split: if_splits simp: not_less [symmetric])

definition chunk_bytes :: "json_sizes \<Rightarrow> message_part list \<Rightarrow> nat" where
  "chunk_bytes js c = sum_list (map (part_byte_len js) c)"

definition chunk_ok :: "json_sizes \<Rightarrow> message_part list \<Rightarrow> bool" where
  "chunk_ok js c \<longleftrightarrow>
     chunk_bytes js c \<le> msg_inline_max \<or> chunk_bytes js (butlast c) = 0"

definition chunks_inv :: "json_sizes \<Rightarrow> message_part list list \<times> nat \<Rightarrow> bool" where
  "chunks_inv js st \<longleftrightarrow> fst st \<noteq> [] \<and> snd st = chunk_bytes js (last (fst st)) \<and>
     list_all (chunk_ok js) (fst st)"

lemma push_part_inv: "chunks_inv js st \<Longrightarrow> chunks_inv js (push_part js st p)"
proof -
  assume inv: "chunks_inv js st"
  obtain chunks current where st: "st = (chunks, current)" by (cases st)
  have split: "list_all Q (butlast chunks) \<and> Q (last chunks)" if "list_all Q chunks" "chunks \<noteq> []" for Q
    using that by (auto simp: list_all_iff dest: in_set_butlastD)
  have fresh: "chunk_ok js [p]" by (auto simp: chunk_ok_def chunk_bytes_def)
  have bytes: "chunk_bytes js (c @ [p]) = chunk_bytes js c + part_byte_len js p" for c
    by (simp add: chunk_bytes_def)
  have grow: "chunk_ok js (last chunks @ [p])"
    if "\<not> (0 < current \<and> msg_inline_max < current + part_byte_len js p)"
    using that inv st by (auto simp: chunks_inv_def chunk_ok_def bytes)
  show ?thesis
    using inv st split [of "chunk_ok js"] fresh grow
    by (auto simp: chunks_inv_def push_part_def Let_def bytes list_all_append)
       (auto simp: chunk_bytes_def)
qed

interpretation chunker: invariant_machine "push_part js" "chunks_inv js"
  by unfold_locales (rule push_part_inv)

lemma split_chunks_ok: "c \<in> set (split_parts js parts) \<Longrightarrow> chunk_ok js c"
proof -
  have "chunks_inv js ([[]], 0)" by (simp add: chunks_inv_def chunk_ok_def chunk_bytes_def)
  then have "chunks_inv js (foldl (push_part js) ([[]], 0) (concat (map part_pieces parts)))"
    by (rule chunker.run_inv)
  moreover assume "c \<in> set (split_parts js parts)"
  ultimately show ?thesis by (auto simp: split_parts_eq chunks_inv_def list_all_iff)
qed

lemma split_part_from_pieces:
  "c \<in> set (split_parts js parts) \<Longrightarrow> q \<in> set c \<Longrightarrow> \<exists>p \<in> set parts. q \<in> set (part_pieces p)"
proof -
  assume "c \<in> set (split_parts js parts)" "q \<in> set c"
  then have "q \<in> set (join_continuations (split_parts js parts))"
    by (auto simp: join_continuations_def)
  then show ?thesis by (simp add: join_split)
qed

section \<open>Properties\<close>

text \<open>Whatever a harness reports, no event puts a tool's output text, its size or an inline diff into
  parts that hold none.\<close>

theorem fold_never_stores_outputs:
  assumes "thin_parts out"
  shows "thin_parts (foldl (fold_event_into_parts lc) out es)"
  using assms by (rule thin_fold.run_inv)

text \<open>C17: once a tool call's result is folded in, its row shows that result for the rest of the segment,
  until another result for the call: resolved, failed exactly when the result says so, its diff
  statistics those of the result's diff, and no output text, size or inline diff, even where the row
  held them before (rows of older versions do); what the output says makes no difference to any part.\<close>

theorem tool_row_shows_its_last_result:
  assumes "list_ex (is_tool_with_id i) out" "list_all (\<lambda>e. \<not> supersedes i e) rest"
  shows "let parts = foldl (fold_event_into_parts lc) out (ToolResult i is_error output diff # rest)
    in (\<exists>t. ToolPart t \<in> set parts \<and> tp_id t = i)
      \<and> (\<forall>t. ToolPart t \<in> set parts \<and> tp_id t = i \<longrightarrow>
          tp_resolved t \<and> tp_is_error t = is_error
          \<and> tp_output t = None \<and> tp_output_bytes t = None \<and> tp_diff t = None
          \<and> tp_diff_stats t = map_option (\<lambda>d. [diff_stat lc d]) diff)
      \<and> parts = foldl (fold_event_into_parts lc) out (ToolResult i is_error other_output diff # rest)"
proof -
  define parts where "parts = foldl (fold_event_into_parts lc) out (ToolResult i is_error output diff # rest)"
  have "row_shows lc i is_error diff parts"
    unfolding parts_def by (simp add: shown_result.legal_run row_shows_result assms)
  then have "\<exists>t. ToolPart t \<in> set parts \<and> tp_id t = i" "list_all (shows_result lc i is_error diff) parts"
    by (auto simp: row_shows_def list_ex_iff elim: is_tool_with_id.elims)
  then show ?thesis
    unfolding parts_def [symmetric] Let_def
    by (auto simp: parts_def list_all_iff shows_result_def split: message_part.splits)
qed

theorem tool_row_shows_its_last_result_witness:
  "\<exists>t. ToolPart t \<in> set (foldl (fold_event_into_parts (\<lambda>_ _. []))
        [ToolPart ((new_tool_part ''c1'' (Exec ''ls''))\<lparr>tp_output := Some ''old''\<rparr>)]
        [ToolResult ''c1'' True (Some ''secret'') None, TextDelta ''a'', ToolCallEvent ''c1'' (Exec ''ls -l'')])
      \<and> tp_id t = ''c1'' \<and> tp_is_error t \<and> tp_output t = None"
  using tool_row_shows_its_last_result [of "''c1''" "[ToolPart ((new_tool_part ''c1'' (Exec ''ls''))\<lparr>tp_output := Some ''old''\<rparr>)]"
      "[TextDelta ''a'', ToolCallEvent ''c1'' (Exec ''ls -l'')]" "\<lambda>_ _. []" True "Some ''secret''" None None]
  by (auto simp: Let_def new_tool_part_def)

text \<open>C30: the parts the fold builds keep pairwise distinct ids, each the id its kind and position
  prescribe, as long as the harness keeps its tool ids, its image ids and the minted ids apart.\<close>

theorem fold_ids_stay_unique:
  assumes "list_all (event_ids_ok K) es"
  shows "distinct (map part_id (foldl (fold_event_into_parts lc) [] es))
    \<and> parts_wf K (foldl (fold_event_into_parts lc) [] es)"
  using fold_events_wf [of K "[]" es lc] assms by (simp add: parts_wf_def)

theorem fold_ids_stay_unique_witness:
  "distinct (map part_id (foldl (fold_event_into_parts (\<lambda>_ _. [])) []
     [TextDelta ''a'', ToolCallEvent ''c1'' (Exec ''ls''), TextDelta ''b'']))"
  using fold_ids_stay_unique [of "\<lambda>i. i = ''c1''"
      "[TextDelta ''a'', ToolCallEvent ''c1'' (Exec ''ls''), TextDelta ''b'']" "\<lambda>_ _. []"]
  by (simp add: minted_id_def)

text \<open>A provider that delivers a tool call, a tool result, an image, an input request or its
  answer, or a subagent event twice in a row leaves the parts as one delivery leaves them.\<close>

theorem redelivered_event_is_absorbed:
  assumes "retried_event e"
  shows "foldl (fold_event_into_parts lc) out (es @ [e, e] @ es')
    = foldl (fold_event_into_parts lc) out (es @ [e] @ es')"
  using assms by (simp add: fold_retried_twice)

theorem redelivered_event_is_absorbed_witness:
  "foldl (fold_event_into_parts (\<lambda>_ _. [])) [] ([] @ [InputResolved ''r'', InputResolved ''r''] @ [TextDelta ''x''])
   = foldl (fold_event_into_parts (\<lambda>_ _. [])) [] ([] @ [InputResolved ''r''] @ [TextDelta ''x''])"
  by (rule redelivered_event_is_absorbed) simp

text \<open>A sanitised call carries no file content, no edit strings, no fetch prompt, and of a tool's
  input nothing but the badge keys of a subagent spawn; sanitising again changes nothing, and the
  spawn test reads the sanitised call as it reads the call.\<close>

theorem sanitize_removes_private_text:
  "private_free (sanitize_tool_call c)
   \<and> sanitize_tool_call (sanitize_tool_call c) = sanitize_tool_call c
   \<and> is_subagent_spawn (sanitize_tool_call c) = is_subagent_spawn c"
proof (intro conjI)
  show "is_subagent_spawn (sanitize_tool_call c) = is_subagent_spawn c" by (cases c) simp_all
qed (rule sanitize_private_free, rule sanitize_twice)

text \<open>Every entry a split makes stays under the inline limit, unless a single part that cannot
  be cut (it has no text body) is over the limit on its own, alone but for empty parts.\<close>

lemma split_entries_bounded:
  assumes "list_all (\<lambda>p. char_width_ok (part_body p)) parts"
  shows "list_all (\<lambda>c. chunk_bytes js c \<le> msg_inline_max
      \<or> chunk_bytes js (butlast c) = 0 \<and> last c \<in> set parts \<and> \<not> is_body_part (last c)) (split_parts js parts)"
  unfolding list_all_iff
proof
  fix c assume c: "c \<in> set (split_parts js parts)"
  show "chunk_bytes js c \<le> msg_inline_max
    \<or> chunk_bytes js (butlast c) = 0 \<and> last c \<in> set parts \<and> \<not> is_body_part (last c)"
  proof (cases "chunk_bytes js c \<le> msg_inline_max")
    case False
    then have "c \<noteq> []" by (auto simp: chunk_bytes_def)
    then have c_eq: "c = butlast c @ [last c]" by simp
    from split_chunks_ok [OF c] False have alone: "chunk_bytes js (butlast c) = 0"
      by (simp add: chunk_ok_def)
    have "chunk_bytes js c = chunk_bytes js (butlast c) + part_byte_len js (last c)"
      by (subst c_eq) (simp add: chunk_bytes_def)
    with alone False have big: "msg_inline_max < part_byte_len js (last c)" by simp
    obtain p where p: "p \<in> set parts" "last c \<in> set (part_pieces p)"
      using split_part_from_pieces [OF c last_in_set [OF \<open>c \<noteq> []\<close>]] by auto
    with assms have "char_width_ok (part_body p)" by (auto simp: list_all_iff)
    from part_pieces_bound [OF this p(2) big]
    have "\<not> is_body_part (last c)" and "last c = p" by (blast, blast)
    with p(1) alone show ?thesis by metis
  qed simp
qed

definition length_sizes :: json_sizes where
  "length_sizes = \<lparr>call_size = \<lambda>_. 40, diff_size = \<lambda>d. length (diff_path d), stats_size = length,
     questions_size = length, harness_size = \<lambda>_. 6\<rparr>"

fun is_reasoning_part :: "message_part \<Rightarrow> bool" where
  "is_reasoning_part (ReasoningPart _ _) \<longleftrightarrow> True"
| "is_reasoning_part _ \<longleftrightarrow> False"

text \<open>The parts a part may come back as: pieces of its kind, the first under its id, whose texts
  concatenate to its text, when it is a text over the limit; itself otherwise.\<close>

definition cut_into :: "message_part \<Rightarrow> message_part list \<Rightarrow> bool" where
  "cut_into p ps \<longleftrightarrow>
     (if length (part_body p) \<le> msg_inline_max then ps = [p]
      else ps \<noteq> [] \<and> part_id (hd ps) = part_id p \<and> concat (map part_body ps) = part_body p
        \<and> list_all (\<lambda>q. is_body_part q \<and> (is_reasoning_part q \<longleftrightarrow> is_reasoning_part p)) ps)"

lemma text_pieces_kind:
  "q \<in> set (text_pieces r i s start n) \<Longrightarrow> is_body_part q \<and> is_reasoning_part q = r"
proof (induction r i s start n rule: text_pieces.induct)
  case (1 r i s start n)
  show ?case
  proof (cases "start < length s")
    case True
    have first: "is_body_part (piece_part r i n t) \<and> is_reasoning_part (piece_part r i n t) = r" for t
      by (simp add: piece_part_def Let_def)
    from True "1.prems" have "q = piece_part r i n (drop start (take (piece_end s start) s))
        \<or> q \<in> set (text_pieces r i s (piece_end s start) (Suc n))"
      by (subst (asm) text_pieces.simps) (auto simp: Let_def)
    with first "1.IH" [OF True refl] show ?thesis by blast
  next
    case False
    with "1.prems" show ?thesis by (subst (asm) text_pieces.simps) simp
  qed
qed

lemma text_pieces_first:
  "s \<noteq> [] \<Longrightarrow> text_pieces r i s 0 0 \<noteq> [] \<and> part_id (hd (text_pieces r i s 0 0)) = i"
  by (subst (1 2) text_pieces.simps) (simp add: Let_def piece_part_def)

lemma part_pieces_cut: "cut_into p (part_pieces p)"
proof (cases "length (part_body p) \<le> msg_inline_max")
  case True
  then show ?thesis by (cases p) (simp_all add: cut_into_def)
next
  case False
  then have "part_body p \<noteq> []" by auto
  with False text_pieces_first [of "part_body p"] text_pieces_kind body_part_pieces [of p] show ?thesis
    by (cases p) (auto simp: cut_into_def body_text_def list_all_iff)
qed

text \<open>C19: a message split into entries and joined again is the message: its parts come back in their
  order, each whole, or, where it is a text over the inline limit, as pieces of the same kind, the
  first under its id, that concatenate to it; and every entry of the split is within the limit, unless
  it is one part that has no text to cut and is over the limit on its own, with at most empty parts
  beside it.\<close>

theorem split_message_joins_back:
  assumes "list_all (\<lambda>p. char_width_ok (part_body p)) parts"
  shows "(\<exists>cuts. join_continuations (split_parts js parts) = concat cuts \<and> list_all2 cut_into parts cuts)
    \<and> list_all (\<lambda>c. chunk_bytes js c \<le> msg_inline_max
        \<or> chunk_bytes js (butlast c) = 0 \<and> last c \<in> set parts \<and> \<not> is_body_part (last c)) (split_parts js parts)"
proof (intro conjI exI)
  show "join_continuations (split_parts js parts) = concat (map part_pieces parts)" by (rule join_split)
  show "list_all2 cut_into parts (map part_pieces parts)"
    by (simp add: list_all2_map2 list_all2_same part_pieces_cut)
qed (rule split_entries_bounded [OF assms])

lemma ascii_width_ok: "list_all (\<lambda>c. \<not> cont_byte c) s \<Longrightarrow> char_width_ok s"
  by (induction s rule: char_width_ok.induct) simp_all

theorem split_message_joins_back_witness:
  "\<exists>cuts. join_continuations (split_parts length_sizes
      [TextPart ''t0'' (replicate (msg_inline_max + 1) (CHR ''a'')), ReasoningPart ''r1'' ''so'']) = concat cuts
    \<and> list_all2 cut_into [TextPart ''t0'' (replicate (msg_inline_max + 1) (CHR ''a'')), ReasoningPart ''r1'' ''so''] cuts"
proof -
  have "list_all (\<lambda>p. char_width_ok (part_body p))
      [TextPart ''t0'' (replicate (msg_inline_max + 1) (CHR ''a'')), ReasoningPart ''r1'' ''so'']"
    by (simp add: ascii_width_ok list_all_iff cont_byte_def del: replicate_Suc)
  from split_message_joins_back [OF this, of length_sizes] show ?thesis by (rule conjunct1)
qed

end
