(* ===== verification/Json_Codec.thy ===== *)
theory Json_Codec
  imports Message_Parts
begin

text \<open>
  The JSON forms \<open>serde\<close> derives for the small wire types that are stored or queued
  (\<open>crates/doc/src/parts.rs\<close>): notice outcomes and sides, and lists of strings. An
  optional member that is absent or null is \<open>None\<close>; an unknown member is ignored.
\<close>

section \<open>Members\<close>

fun json_as_bool :: "json \<Rightarrow> bool option" where
  "json_as_bool (JBool b) = Some b"
| "json_as_bool _ = None"

fun json_elems :: "json \<Rightarrow> json list option" where
  "json_elems (JArr vs) = Some vs"
| "json_elems _ = None"

fun json_members :: "json \<Rightarrow> (string \<times> json) list option" where
  "json_members (JObj ms) = Some ms"
| "json_members _ = None"

text \<open>A required string member, and an optional one: null and absent are \<open>None\<close>, another
  type is an error.\<close>

definition str_member :: "string \<Rightarrow> json \<Rightarrow> string option" where
  "str_member k v = Option.bind (json_get k v) json_as_str"

definition opt_str_member :: "string \<Rightarrow> json \<Rightarrow> string option option" where
  "opt_str_member k v =
     (case json_get k v of
        None \<Rightarrow> Some None
      | Some JNull \<Rightarrow> Some None
      | Some (JStr s) \<Rightarrow> Some (Some s)
      | Some _ \<Rightarrow> None)"

definition i64_member :: "string \<Rightarrow> json \<Rightarrow> int option" where
  "i64_member k v = Option.bind (json_get k v) json_as_i64"

definition json_u32 :: "json \<Rightarrow> nat option" where
  "json_u32 v = (case v of JInt i \<Rightarrow> if 0 \<le> i \<and> i < 2 ^ 32 then Some (nat i) else None | _ \<Rightarrow> None)"

definition json_strings :: "json \<Rightarrow> string list option" where
  "json_strings v = Option.bind (json_elems v) (traverse json_as_str)"

lemma json_strings_roundtrip [simp]: "json_strings (JArr (map JStr ss)) = Some ss"
  by (simp add: json_strings_def traverse_map)

section \<open>Notice sides\<close>

fun notice_outcome_slug :: "notice_outcome \<Rightarrow> string" where
  "notice_outcome_slug NoticeCompleted = ''completed''"
| "notice_outcome_slug NoticeErrored = ''errored''"
| "notice_outcome_slug NoticeStopped = ''stopped''"
| "notice_outcome_slug NoticeInterrupted = ''interrupted''"
| "notice_outcome_slug NoticeWaitingForInput = ''waitingForInput''"

definition all_notice_outcomes :: "notice_outcome list" where
  "all_notice_outcomes =
     [NoticeCompleted, NoticeErrored, NoticeStopped, NoticeInterrupted, NoticeWaitingForInput]"

definition notice_outcome_from_json :: "json \<Rightarrow> notice_outcome option" where
  "notice_outcome_from_json v =
     Option.bind (json_as_str v) (\<lambda>s. find (\<lambda>k. notice_outcome_slug k = s) all_notice_outcomes)"

definition opt_member :: "string \<Rightarrow> string option \<Rightarrow> (string \<times> json) list" where
  "opt_member k v = (case v of None \<Rightarrow> [] | Some s \<Rightarrow> [(k, JStr s)])"

definition notice_side_to_json :: "notice_side \<Rightarrow> json" where
  "notice_side_to_json s =
     JObj ([(''chatId'', JStr (ns_chat_id s)), (''title'', JStr (ns_title s)),
            (''outcome'', JStr (notice_outcome_slug (ns_outcome s)))]
           @ opt_member ''detail'' (ns_detail s))"

definition notice_side_from_json :: "json \<Rightarrow> notice_side option" where
  "notice_side_from_json v =
     (case (str_member ''chatId'' v, str_member ''title'' v,
            Option.bind (json_get ''outcome'' v) notice_outcome_from_json,
            opt_str_member ''detail'' v) of
        (Some chat_id, Some title, Some outcome, Some detail) \<Rightarrow>
          Some \<lparr>ns_chat_id = chat_id, ns_title = title, ns_outcome = outcome, ns_detail = detail\<rparr>
      | _ \<Rightarrow> None)"

definition notice_sides_from_json :: "json \<Rightarrow> notice_side list option" where
  "notice_sides_from_json v = Option.bind (json_elems v) (traverse notice_side_from_json)"

lemma notice_outcome_roundtrip [simp]:
  "notice_outcome_from_json (JStr (notice_outcome_slug k)) = Some k"
  by (cases k) (simp_all add: notice_outcome_from_json_def all_notice_outcomes_def)

lemma notice_side_roundtrip [simp]: "notice_side_from_json (notice_side_to_json s) = Some s"
  by (cases "ns_detail s")
    (simp_all add: notice_side_from_json_def notice_side_to_json_def str_member_def
      opt_str_member_def opt_member_def)

lemma notice_sides_roundtrip [simp]:
  "notice_sides_from_json (JArr (map notice_side_to_json sides)) = Some sides"
  by (simp add: notice_sides_from_json_def traverse_map)

end
