(* ===== verification/Message_Queue.thy ===== *)
theory Message_Queue
  imports Json_Codec
begin

text \<open>
  \<open>crates/doc/src/queue.rs\<close>: the queue of unsent messages a session document holds.
  The Loro movable list the rows live in is not part of the repository: its operations are
  the record \<open>queue_ops\<close>, a parameter of every function here, and \<open>queue_ops_ok\<close>
  states what its documentation promises of them, as changes of the list's deep value. A
  commit does not change that value.
\<close>

section \<open>Rows\<close>

datatype queue_delivery_gate =
    Editing string string string int int string
  | ReviewRequired string string int string

record queued_message =
  qm_id :: string
  qm_text :: string
  qm_attachments :: "string list"
  qm_hold_for_turn_end :: bool
  qm_issued_by :: string
  qm_issued_at :: int
  qm_edited_at :: "int option"
  qm_delivery_gate :: "queue_delivery_gate option"
  qm_origin_chat_id :: "string option"
  qm_completion_notice :: "notice_side list option"

datatype doc_error = LoroError | SchemaError string | JsonError

definition queued_message_new :: "string \<Rightarrow> string \<Rightarrow> string \<Rightarrow> queued_message" where
  "queued_message_new i body issued_by =
     \<lparr>qm_id = i, qm_text = body, qm_attachments = [], qm_hold_for_turn_end = False,
      qm_issued_by = issued_by, qm_issued_at = 0, qm_edited_at = None,
      qm_delivery_gate = None, qm_origin_chat_id = None, qm_completion_notice = None\<rparr>"

text \<open>The tagged JSON form of a gate.\<close>

fun gate_to_json :: "queue_delivery_gate \<Rightarrow> json" where
  "gate_to_json (Editing lease device inst acquired expires hash) =
     JObj [(''kind'', JStr ''editing''), (''leaseId'', JStr lease), (''ownerDeviceId'', JStr device),
           (''ownerInstanceId'', JStr inst), (''acquiredAtMs'', JInt acquired),
           (''expiresAtMs'', JInt expires), (''baseTextHash'', JStr hash)]"
| "gate_to_json (ReviewRequired lease device since hash) =
     JObj [(''kind'', JStr ''reviewRequired''), (''previousLeaseId'', JStr lease),
           (''ownerDeviceId'', JStr device), (''sinceMs'', JInt since), (''baseTextHash'', JStr hash)]"

definition gate_from_json :: "json \<Rightarrow> queue_delivery_gate option" where
  "gate_from_json v =
     (if str_member ''kind'' v = Some ''editing'' then
        (case (str_member ''leaseId'' v, str_member ''ownerDeviceId'' v, str_member ''ownerInstanceId'' v,
               i64_member ''acquiredAtMs'' v, i64_member ''expiresAtMs'' v, str_member ''baseTextHash'' v) of
           (Some lease, Some device, Some inst, Some acquired, Some expires, Some hash) \<Rightarrow>
             Some (Editing lease device inst acquired expires hash)
         | _ \<Rightarrow> None)
      else if str_member ''kind'' v = Some ''reviewRequired'' then
        (case (str_member ''previousLeaseId'' v, str_member ''ownerDeviceId'' v,
               i64_member ''sinceMs'' v, str_member ''baseTextHash'' v) of
           (Some lease, Some device, Some since, Some hash) \<Rightarrow>
             Some (ReviewRequired lease device since hash)
         | _ \<Rightarrow> None)
      else None)"

text \<open>\<open>write_queued_map\<close>: the members in the order they are inserted, \<open>id\<close> last.\<close>

definition queued_fields :: "queued_message \<Rightarrow> (string \<times> json) list" where
  "queued_fields item =
     [(''text'', JStr (qm_text item)), (''issuedBy'', JStr (qm_issued_by item)),
      (''issuedAt'', JInt (qm_issued_at item))]
     @ (if qm_attachments item \<noteq> []
        then [(''attachments'', JArr (map JStr (qm_attachments item)))] else [])
     @ (if qm_hold_for_turn_end item then [(''holdForTurnEnd'', JBool True)] else [])
     @ (case qm_edited_at item of None \<Rightarrow> [] | Some at \<Rightarrow> [(''editedAt'', JInt at)])
     @ (case qm_delivery_gate item of None \<Rightarrow> [] | Some gate \<Rightarrow> [(''deliveryGate'', gate_to_json gate)])
     @ opt_member ''originChatId'' (qm_origin_chat_id item)
     @ (case qm_completion_notice item of
          None \<Rightarrow> [] | Some sides \<Rightarrow> [(''completionNotice'', JArr (map notice_side_to_json sides))])
     @ [(''id'', JStr (qm_id item))]"

definition gate_closed :: queue_delivery_gate where
  "gate_closed = ReviewRequired [] [] 0 []"

definition decode_gate :: "json \<Rightarrow> queue_delivery_gate option" where
  "decode_gate v =
     (case json_get ''deliveryGate'' v of
        None \<Rightarrow> None
      | Some JNull \<Rightarrow> None
      | Some gate \<Rightarrow> (case gate_from_json gate of Some g \<Rightarrow> Some g | None \<Rightarrow> Some gate_closed))"

definition queued_from_json :: "json \<Rightarrow> queued_message option" where
  "queued_from_json v =
     (case str_member ''id'' v of None \<Rightarrow> None | Some raw \<Rightarrow>
        (if trim raw = [] then None
         else case str_member ''text'' v of None \<Rightarrow> None | Some body \<Rightarrow>
           (if blank body then None
            else Some
              \<lparr>qm_id = trim raw, qm_text = body,
               qm_attachments = (case Option.bind (json_get ''attachments'' v) json_strings of
                  Some ss \<Rightarrow> ss | None \<Rightarrow> []),
               qm_hold_for_turn_end = (case Option.bind (json_get ''holdForTurnEnd'' v) json_as_bool of
                  Some b \<Rightarrow> b | None \<Rightarrow> False),
               qm_issued_by = (case str_member ''issuedBy'' v of Some s \<Rightarrow> s | None \<Rightarrow> []),
               qm_issued_at = (case i64_member ''issuedAt'' v of Some t \<Rightarrow> t | None \<Rightarrow> 0),
               qm_edited_at = i64_member ''editedAt'' v,
               qm_delivery_gate = decode_gate v,
               qm_origin_chat_id = str_member ''originChatId'' v,
               qm_completion_notice =
                 Option.bind (json_get ''completionNotice'' v) notice_sides_from_json\<rparr>)))"

section \<open>The container and the operations\<close>

record 'c queue_ops =
  qo_value :: "'c \<Rightarrow> json list"
  qo_insert_map :: "nat \<Rightarrow> 'c \<Rightarrow> 'c option"
  qo_map_insert :: "nat \<Rightarrow> string \<Rightarrow> json \<Rightarrow> 'c \<Rightarrow> 'c option"
  qo_map_delete :: "nat \<Rightarrow> string \<Rightarrow> 'c \<Rightarrow> 'c option"
  qo_delete :: "nat \<Rightarrow> 'c \<Rightarrow> 'c option"
  qo_mov :: "nat \<Rightarrow> nat \<Rightarrow> 'c \<Rightarrow> 'c option"

text \<open>An error of the container is \<open>DocError::Loro\<close>.\<close>

definition loro :: "'c option \<Rightarrow> doc_error + 'c" where
  "loro r = (case r of None \<Rightarrow> Inl LoroError | Some c \<Rightarrow> Inr c)"

fun insert_fields :: "'c queue_ops \<Rightarrow> nat \<Rightarrow> (string \<times> json) list \<Rightarrow> 'c \<Rightarrow> doc_error + 'c" where
  "insert_fields ops ix [] c = Inr c"
| "insert_fields ops ix ((k, v) # fs) c =
     (case qo_map_insert ops ix k v c of
        None \<Rightarrow> Inl LoroError | Some c' \<Rightarrow> insert_fields ops ix fs c')"

definition read_queue :: "'c queue_ops \<Rightarrow> 'c \<Rightarrow> queued_message list" where
  "read_queue ops c = List.map_filter queued_from_json (qo_value ops c)"

definition has_id :: "string \<Rightarrow> json \<Rightarrow> bool" where
  "has_id i v \<longleftrightarrow> json_get ''id'' v = Some (JStr i)"

definition index_of :: "'c queue_ops \<Rightarrow> string \<Rightarrow> 'c \<Rightarrow> nat option" where
  "index_of ops i c = position (has_id i) (qo_value ops c)"

definition insert_queued :: "'c queue_ops \<Rightarrow> nat \<Rightarrow> queued_message \<Rightarrow> 'c \<Rightarrow> doc_error + 'c" where
  "insert_queued ops index item c =
     (if blank (qm_id item) then Inl (SchemaError ''queued message id required'')
      else if blank (qm_text item) then Inl (SchemaError ''queued message text required'')
      else let at = min index (length (qo_value ops c))
           in case qo_insert_map ops at c of
                None \<Rightarrow> Inl LoroError
              | Some c' \<Rightarrow> insert_fields ops at (queued_fields item) c')"

text \<open>\<open>push_container\<close> appends: it inserts at the length.\<close>

definition push_queued :: "'c queue_ops \<Rightarrow> queued_message \<Rightarrow> 'c \<Rightarrow> doc_error + 'c" where
  "push_queued ops item c =
     (if blank (qm_id item) then Inl (SchemaError ''queued message id required'')
      else if blank (qm_text item) then Inl (SchemaError ''queued message text required'')
      else let at = length (qo_value ops c)
           in case qo_insert_map ops at c of
                None \<Rightarrow> Inl LoroError
              | Some c' \<Rightarrow> insert_fields ops at (queued_fields item) c')"

definition remove_queued :: "'c queue_ops \<Rightarrow> string \<Rightarrow> 'c \<Rightarrow> doc_error + bool \<times> 'c" where
  "remove_queued ops i c =
     (case index_of ops i c of
        None \<Rightarrow> Inr (False, c)
      | Some index \<Rightarrow>
          (case qo_delete ops index c of None \<Rightarrow> Inl LoroError | Some c' \<Rightarrow> Inr (True, c')))"

definition take_queued :: "'c queue_ops \<Rightarrow> string \<Rightarrow> 'c \<Rightarrow> doc_error + queued_message option \<times> 'c" where
  "take_queued ops i c =
     (case index_of ops i c of
        None \<Rightarrow> Inr (None, c)
      | Some index \<Rightarrow>
          (let item = find (\<lambda>m. qm_id m = i) (read_queue ops c)
           in if (case item of None \<Rightarrow> False | Some m \<Rightarrow> qm_delivery_gate m \<noteq> None) then Inr (None, c)
              else case qo_delete ops index c of None \<Rightarrow> Inl LoroError | Some c' \<Rightarrow> Inr (item, c')))"

definition take_queue_head :: "'c queue_ops \<Rightarrow> 'c \<Rightarrow> doc_error + queued_message option \<times> 'c" where
  "take_queue_head ops c =
     (case read_queue ops c of [] \<Rightarrow> Inr (None, c) | head # _ \<Rightarrow> take_queued ops (qm_id head) c)"

definition move_queued :: "'c queue_ops \<Rightarrow> string \<Rightarrow> nat \<Rightarrow> 'c \<Rightarrow> doc_error + bool \<times> 'c" where
  "move_queued ops i to c =
     (case index_of ops i c of
        None \<Rightarrow> Inr (False, c)
      | Some start \<Rightarrow>
          (let to = min to (length (qo_value ops c) - 1)
           in if start = to then Inr (False, c)
              else case qo_mov ops start to c of None \<Rightarrow> Inl LoroError | Some c' \<Rightarrow> Inr (True, c')))"

text \<open>The row at an index, when it is a map container.\<close>

definition map_at :: "'c queue_ops \<Rightarrow> nat \<Rightarrow> 'c \<Rightarrow> json option" where
  "map_at ops ix c =
     (if ix < length (qo_value ops c) \<and> json_members (qo_value ops c ! ix) \<noteq> None
      then Some (qo_value ops c ! ix) else None)"

definition set_queued_text ::
    "'c queue_ops \<Rightarrow> string \<Rightarrow> string \<Rightarrow> int \<Rightarrow> 'c \<Rightarrow> doc_error + bool \<times> 'c" where
  "set_queued_text ops i body now c =
     (if blank body then remove_queued ops i c
      else case index_of ops i c of
        None \<Rightarrow> Inr (False, c)
      | Some index \<Rightarrow>
          (case map_at ops index c of
             None \<Rightarrow> Inr (False, c)
           | Some row \<Rightarrow>
               (if str_member ''text'' row = Some body then Inr (False, c)
                else case insert_fields ops index
                    [(''text'', JStr body), (''editedAt'', JInt now)] c of
                  Inl e \<Rightarrow> Inl e | Inr c' \<Rightarrow> Inr (True, c'))))"

definition set_queued_delivery_gate ::
    "'c queue_ops \<Rightarrow> string \<Rightarrow> queue_delivery_gate option \<Rightarrow> 'c \<Rightarrow> doc_error + bool \<times> 'c" where
  "set_queued_delivery_gate ops i gate c =
     (case index_of ops i c of
        None \<Rightarrow> Inr (False, c)
      | Some index \<Rightarrow>
          (case map_at ops index c of
             None \<Rightarrow> Inr (False, c)
           | Some row \<Rightarrow>
               (case gate of
                  Some g \<Rightarrow> (case qo_map_insert ops index ''deliveryGate'' (gate_to_json g) c of
                      None \<Rightarrow> Inl LoroError | Some c' \<Rightarrow> Inr (True, c'))
                | None \<Rightarrow> (case qo_map_delete ops index ''deliveryGate'' c of
                      None \<Rightarrow> Inl LoroError | Some c' \<Rightarrow> Inr (True, c')))))"

definition finish_queued_edit ::
    "'c queue_ops \<Rightarrow> string \<Rightarrow> string option \<Rightarrow> string list option \<Rightarrow> int \<Rightarrow> 'c \<Rightarrow> doc_error + bool \<times> 'c" where
  "finish_queued_edit ops i replacement attachments now c =
     (if (case replacement of None \<Rightarrow> False | Some body \<Rightarrow> blank body) then remove_queued ops i c
      else case index_of ops i c of
        None \<Rightarrow> Inr (False, c)
      | Some index \<Rightarrow>
          (case map_at ops index c of
             None \<Rightarrow> Inr (False, c)
           | Some row \<Rightarrow>
               (let edits =
                  (case replacement of
                     None \<Rightarrow> []
                   | Some body \<Rightarrow> (if str_member ''text'' row = Some body then []
                       else [(''text'', JStr body), (''editedAt'', JInt now)]))
                  @ (case attachments of
                     None \<Rightarrow> []
                   | Some paths \<Rightarrow> [(''attachments'', JArr (map JStr paths)), (''editedAt'', JInt now)])
                in case insert_fields ops index edits c of
                     Inl e \<Rightarrow> Inl e
                   | Inr c' \<Rightarrow>
                       (case qo_map_delete ops index ''deliveryGate'' c' of
                          None \<Rightarrow> Inl LoroError | Some c'' \<Rightarrow> Inr (True, c'')))))"


section \<open>The container's laws\<close>

text \<open>What the Loro documentation states of a movable list of maps, used by one replica.\<close>

definition queue_ops_ok :: "'c queue_ops \<Rightarrow> bool" where
  "queue_ops_ok ops \<longleftrightarrow>
     (\<forall>c i. i \<le> length (qo_value ops c) \<longrightarrow>
        (\<exists>c'. qo_insert_map ops i c = Some c' \<and> qo_value ops c' = insert_at i (JObj []) (qo_value ops c)))
     \<and> (\<forall>c i k v ms. i < length (qo_value ops c) \<longrightarrow> qo_value ops c ! i = JObj ms \<longrightarrow>
        (\<exists>c'. qo_map_insert ops i k v c = Some c'
          \<and> qo_value ops c' = (qo_value ops c)[i := JObj (AList.update k v ms)]))
     \<and> (\<forall>c i k ms. i < length (qo_value ops c) \<longrightarrow> qo_value ops c ! i = JObj ms \<longrightarrow>
        (\<exists>c'. qo_map_delete ops i k c = Some c'
          \<and> qo_value ops c' = (qo_value ops c)[i := JObj (AList.delete k ms)]))
     \<and> (\<forall>c i. i < length (qo_value ops c) \<longrightarrow>
        (\<exists>c'. qo_delete ops i c = Some c' \<and> qo_value ops c' = remove_at i (qo_value ops c)))
     \<and> (\<forall>c a b. a < length (qo_value ops c) \<longrightarrow> b < length (qo_value ops c) \<longrightarrow>
        (\<exists>c'. qo_mov ops a b c = Some c'
          \<and> qo_value ops c' = insert_at b (qo_value ops c ! a) (remove_at a (qo_value ops c))))"

lemma queue_ops_okD:
  assumes "queue_ops_ok ops"
  shows "i \<le> length (qo_value ops c) \<Longrightarrow>
      \<exists>c'. qo_insert_map ops i c = Some c' \<and> qo_value ops c' = insert_at i (JObj []) (qo_value ops c)"
    and "i < length (qo_value ops c) \<Longrightarrow> qo_value ops c ! i = JObj ms \<Longrightarrow>
      \<exists>c'. qo_map_insert ops i k v c = Some c'
        \<and> qo_value ops c' = (qo_value ops c)[i := JObj (AList.update k v ms)]"
    and "i < length (qo_value ops c) \<Longrightarrow>
      \<exists>c'. qo_delete ops i c = Some c' \<and> qo_value ops c' = remove_at i (qo_value ops c)"
    and "a < length (qo_value ops c) \<Longrightarrow> b < length (qo_value ops c) \<Longrightarrow>
      \<exists>c'. qo_mov ops a b c = Some c'
        \<and> qo_value ops c' = insert_at b (qo_value ops c ! a) (remove_at a (qo_value ops c))"
    and "i < length (qo_value ops c) \<Longrightarrow> qo_value ops c ! i = JObj ms \<Longrightarrow>
      \<exists>c'. qo_map_delete ops i k c = Some c'
        \<and> qo_value ops c' = (qo_value ops c)[i := JObj (AList.delete k ms)]"
  using assms unfolding queue_ops_ok_def by blast+

text \<open>The container whose state is its own value.\<close>

definition with_map :: "nat \<Rightarrow> ((string \<times> json) list \<Rightarrow> (string \<times> json) list) \<Rightarrow> json list \<Rightarrow> json list option" where
  "with_map i f c =
     (if i < length c then map_option (\<lambda>ms. c[i := JObj (f ms)]) (json_members (c ! i)) else None)"

definition value_queue_ops :: "json list queue_ops" where
  "value_queue_ops =
     \<lparr>qo_value = \<lambda>c. c,
      qo_insert_map = \<lambda>i c. if i \<le> length c then Some (insert_at i (JObj []) c) else None,
      qo_map_insert = \<lambda>i k v. with_map i (AList.update k v),
      qo_map_delete = \<lambda>i k. with_map i (AList.delete k),
      qo_delete = \<lambda>i c. if i < length c then Some (remove_at i c) else None,
      qo_mov = \<lambda>a b c. if a < length c \<and> b < length c
        then Some (insert_at b (c ! a) (remove_at a c)) else None\<rparr>"

lemma value_queue_ops_ok: "queue_ops_ok value_queue_ops"
  by (simp add: queue_ops_ok_def value_queue_ops_def with_map_def)

section \<open>Rows round-trip\<close>

definition queued_ok :: "queued_message \<Rightarrow> bool" where
  "queued_ok item \<longleftrightarrow>
     trim (qm_id item) = qm_id item \<and> \<not> blank (qm_id item) \<and> \<not> blank (qm_text item)
     \<and> i64 (qm_issued_at item) \<and> (case qm_edited_at item of None \<Rightarrow> True | Some t \<Rightarrow> i64 t)
     \<and> (case qm_delivery_gate item of
          None \<Rightarrow> True
        | Some (Editing _ _ _ a e _) \<Rightarrow> i64 a \<and> i64 e
        | Some (ReviewRequired _ _ s _) \<Rightarrow> i64 s)"

lemma map_of_parts [simp]:
  "map_of (if b then [(k', x)] else []) k = (if b \<and> k = k' then Some x else None)"
  "map_of (case ox of None \<Rightarrow> [] | Some x \<Rightarrow> [(k', f x)]) k = (if k = k' then map_option f ox else None)"
  by (auto split: option.splits)

lemma map_of_opt_member [simp]:
  "map_of (opt_member k' ox) k = (if k = k' then map_option JStr ox else None)"
  unfolding opt_member_def by (rule map_of_parts(2))

lemma queued_members:
  "map_of (queued_fields item) k =
     (if k = ''text'' then Some (JStr (qm_text item))
      else if k = ''issuedBy'' then Some (JStr (qm_issued_by item))
      else if k = ''issuedAt'' then Some (JInt (qm_issued_at item))
      else if k = ''attachments'' then (if qm_attachments item = [] then None
        else Some (JArr (map JStr (qm_attachments item))))
      else if k = ''holdForTurnEnd'' then (if qm_hold_for_turn_end item then Some (JBool True) else None)
      else if k = ''editedAt'' then map_option JInt (qm_edited_at item)
      else if k = ''deliveryGate'' then map_option gate_to_json (qm_delivery_gate item)
      else if k = ''originChatId'' then map_option JStr (qm_origin_chat_id item)
      else if k = ''completionNotice'' then
        map_option (\<lambda>sides. JArr (map notice_side_to_json sides)) (qm_completion_notice item)
      else if k = ''id'' then Some (JStr (qm_id item)) else None)"
  by (simp add: queued_fields_def map_of_append map_add_def split: option.splits)

lemma gate_roundtrip:
  "(case g of Editing _ _ _ a e _ \<Rightarrow> i64 a \<and> i64 e | ReviewRequired _ _ s _ \<Rightarrow> i64 s)
    \<Longrightarrow> gate_from_json (gate_to_json g) = Some g"
  by (cases g) (simp_all add: gate_from_json_def str_member_def i64_member_def)

lemma gate_to_json_not_null [simp]: "gate_to_json g \<noteq> JNull"
  by (cases g) simp_all

lemma decode_encoded_gate:
  assumes "json_get ''deliveryGate'' v = map_option gate_to_json g" "g \<noteq> None"
    and "case the g of Editing _ _ _ a e _ \<Rightarrow> i64 a \<and> i64 e | ReviewRequired _ _ s _ \<Rightarrow> i64 s"
  shows "decode_gate v = g"
proof -
  obtain h where h: "g = Some h" using assms(2) by auto
  with gate_roundtrip [of h] assms(3) have "gate_from_json (gate_to_json h) = Some h" by simp
  with h assms(1) show ?thesis
    by (cases "gate_to_json h") (auto simp: decode_gate_def)
qed

lemma queued_row_roundtrip:
  assumes "queued_ok item"
  shows "queued_from_json (JObj (queued_fields item)) = Some item"
proof -
  let ?v = "JObj (queued_fields item)"
  have get: "json_get k ?v = map_of (queued_fields item) k" for k by simp
  have gate: "decode_gate ?v = qm_delivery_gate item"
  proof (cases "qm_delivery_gate item")
    case None
    then show ?thesis by (simp add: decode_gate_def queued_members)
  next
    case (Some g)
    with assms have "case g of Editing _ _ _ a e _ \<Rightarrow> i64 a \<and> i64 e | ReviewRequired _ _ s _ \<Rightarrow> i64 s"
      by (simp add: queued_ok_def split: queue_delivery_gate.splits)
    with Some show ?thesis by (intro decode_encoded_gate) (simp_all add: queued_members)
  qed
  have "qm_id item \<noteq> []" using assms by (auto simp: queued_ok_def blank_def)
  moreover have "i64_member ''editedAt'' ?v = qm_edited_at item"
    using assms by (auto simp: i64_member_def queued_members queued_ok_def split: option.splits)
  moreover have "i64_member ''issuedAt'' ?v = Some (qm_issued_at item)"
    using assms by (simp add: i64_member_def queued_members queued_ok_def)
  moreover have "str_member ''originChatId'' ?v = qm_origin_chat_id item"
    by (cases "qm_origin_chat_id item") (simp_all add: str_member_def queued_members)
  moreover have "Option.bind (json_get ''completionNotice'' ?v) notice_sides_from_json
      = qm_completion_notice item"
    by (cases "qm_completion_notice item") (simp_all add: queued_members)
  ultimately show ?thesis
    using assms gate by (simp add: queued_from_json_def str_member_def queued_members queued_ok_def)
qed

section \<open>Pushing and inserting\<close>

lemma distinct_subseq: "subseq xs ys \<Longrightarrow> distinct ys \<Longrightarrow> distinct xs"
proof (induction rule: list_emb.induct)
  case (list_emb_Cons2 x y xs ys)
  then have "x \<notin> set xs" by (auto elim: list_emb_set)
  with list_emb_Cons2 show ?case by simp
qed simp_all

lemma queued_fields_keys: "distinct (map fst (queued_fields item))"
proof (rule distinct_subseq)
  show "subseq (map fst (queued_fields item))
      ([''text'', ''issuedBy'', ''issuedAt''] @ [''attachments''] @ [''holdForTurnEnd''] @ [''editedAt'']
       @ [''deliveryGate''] @ [''originChatId''] @ [''completionNotice''] @ [''id''])"
    unfolding queued_fields_def map_append opt_member_def
    by (intro list_emb_append_mono) (simp_all split: option.split)
qed simp

lemma update_fresh: "k \<notin> fst ` set ms \<Longrightarrow> AList.update k v ms = ms @ [(k, v)]"
  by (induction ms) auto

lemma insert_fields_fresh:
  assumes "queue_ops_ok ops" "i < length (qo_value ops c)" "qo_value ops c ! i = JObj ms"
    and "distinct (map fst (ms @ fs))"
  shows "\<exists>c'. insert_fields ops i fs c = Inr c' \<and> qo_value ops c' = (qo_value ops c)[i := JObj (ms @ fs)]"
  using assms(2-4)
proof (induction fs arbitrary: c ms)
  case Nil
  then show ?case by simp (metis list_update_id)
next
  case (Cons f fs)
  obtain k v where f: "f = (k, v)" by (cases f)
  from queue_ops_okD(2) [OF assms(1) Cons.prems(1,2)] obtain c1 where
    c1: "qo_map_insert ops i k v c = Some c1"
      "qo_value ops c1 = (qo_value ops c)[i := JObj (AList.update k v ms)]" by blast
  moreover have "AList.update k v ms = ms @ [(k, v)]"
    using Cons.prems(3) f by (intro update_fresh) auto
  ultimately have c1': "i < length (qo_value ops c1)" "qo_value ops c1 ! i = JObj (ms @ [(k, v)])"
    using Cons.prems(1) by simp_all
  moreover have "distinct (map fst ((ms @ [(k, v)]) @ fs))" using Cons.prems(3) f by simp
  ultimately obtain c2 where "insert_fields ops i fs c1 = Inr c2"
    "qo_value ops c2 = (qo_value ops c1)[i := JObj ((ms @ [(k, v)]) @ fs)]"
    using Cons.IH [of c1 "ms @ [(k, v)]"] by blast
  with f c1 show ?case by simp
qed

lemma insert_row:
  assumes "queue_ops_ok ops" "i \<le> length (qo_value ops c)"
  shows "\<exists>c1 c'. qo_insert_map ops i c = Some c1
    \<and> insert_fields ops i (queued_fields item) c1 = Inr c'
    \<and> qo_value ops c' = insert_at i (JObj (queued_fields item)) (qo_value ops c)"
proof -
  from queue_ops_okD(1) [OF assms] obtain c1 where
    c1: "qo_insert_map ops i c = Some c1" "qo_value ops c1 = insert_at i (JObj []) (qo_value ops c)"
    by blast
  then have "i < length (qo_value ops c1)" "qo_value ops c1 ! i = JObj []"
    using assms(2) by (simp_all add: insert_at_def nth_append)
  from insert_fields_fresh [OF assms(1) this, of "queued_fields item"] obtain c' where
    "insert_fields ops i (queued_fields item) c1 = Inr c'"
    "qo_value ops c' = (qo_value ops c1)[i := JObj (queued_fields item)]"
    by (auto simp: queued_fields_keys)
  moreover have "(insert_at i (JObj []) (qo_value ops c))[i := JObj (queued_fields item)]
      = insert_at i (JObj (queued_fields item)) (qo_value ops c)"
    using assms(2) by (simp add: insert_at_def list_update_append)
  ultimately show ?thesis using c1 by simp
qed

lemma map_filter_append: "List.map_filter f (xs @ ys) = List.map_filter f xs @ List.map_filter f ys"
  by (simp add: List.map_filter_def)

lemma push_appends:
  assumes "queue_ops_ok ops" "queued_ok item"
  shows "\<exists>c'. push_queued ops item c = Inr c'
    \<and> qo_value ops c' = qo_value ops c @ [JObj (queued_fields item)]
    \<and> read_queue ops c' = read_queue ops c @ [item]"
proof -
  from insert_row [OF assms(1) order_refl] obtain c1 c' where
    "qo_insert_map ops (length (qo_value ops c)) c = Some c1"
    "insert_fields ops (length (qo_value ops c)) (queued_fields item) c1 = Inr c'"
    "qo_value ops c' = insert_at (length (qo_value ops c)) (JObj (queued_fields item)) (qo_value ops c)"
    by blast
  with assms(2) show ?thesis
    by (simp add: push_queued_def queued_ok_def read_queue_def insert_at_def map_filter_append
        List.map_filter_simps queued_row_roundtrip [OF assms(2)] Let_def)
qed


text \<open>A well-formed row pushed to the queue is read back at its end with every field intact,
  and the rows before it are untouched.\<close>

theorem push_queued_reads_back:
  assumes "queue_ops_ok ops" "queued_ok item"
  shows "\<exists>c'. push_queued ops item c = Inr c' \<and> read_queue ops c' = read_queue ops c @ [item]"
  using push_appends [OF assms] by blast

definition sample_row :: queued_message where
  "sample_row = (queued_message_new ''m1'' ''hello'' ''dev'')\<lparr>qm_origin_chat_id := Some ''c9'',
     qm_delivery_gate := Some (Editing ''l'' ''d'' ''i'' 5 9 ''h''), qm_attachments := [''/tmp/a'']\<rparr>"

lemma sample_row_ok: "queued_ok sample_row"
proof -
  have "trim ''m1'' = ''m1''" by (rule trim_id) (simp_all add: blank_eval suffix_def)
  moreover have "trim ''hello'' = ''hello''" by (rule trim_id) (simp_all add: blank_eval suffix_def)
  ultimately show ?thesis
    by (simp add: sample_row_def queued_message_new_def queued_ok_def blank_def i64_def)
qed

theorem push_queued_reads_back_witness:
  "\<exists>c'. push_queued value_queue_ops sample_row [] = Inr c'
    \<and> read_queue value_queue_ops c' = read_queue value_queue_ops [] @ [sample_row]"
  by (rule push_queued_reads_back [OF value_queue_ops_ok sample_row_ok])

section \<open>Taking a row\<close>

text \<open>Every row decodes, under the id its map carries, and no two share one.\<close>

definition queue_clean :: "json list \<Rightarrow> bool" where
  "queue_clean vs \<longleftrightarrow>
     list_all (\<lambda>v. case queued_from_json v of None \<Rightarrow> False | Some m \<Rightarrow> has_id (qm_id m) v) vs
     \<and> distinct (map (json_get ''id'') vs)"

definition row_of :: "json \<Rightarrow> queued_message" where
  "row_of v = the (queued_from_json v)"

lemma clean_row:
  assumes "queue_clean vs" "v \<in> set vs"
  shows "queued_from_json v = Some (row_of v)" "json_get ''id'' v = Some (JStr (qm_id (row_of v)))"
  using assms by (auto simp: queue_clean_def list_all_iff row_of_def has_id_def split: option.splits)

lemma clean_read:
  assumes "queue_clean (qo_value ops c)"
  shows "read_queue ops c = map row_of (qo_value ops c)"
  unfolding read_queue_def List.map_filter_def
  using clean_row(1) [OF assms] by (auto intro!: map_cong simp: filter_id_conv) 

lemma clean_ids:
  assumes "queue_clean vs"
  shows "distinct (map (\<lambda>v. qm_id (row_of v)) vs)"
proof -
  have "map (json_get ''id'') vs = map (Some \<circ> JStr) (map (\<lambda>v. qm_id (row_of v)) vs)"
    using clean_row(2) [OF assms] by simp
  moreover have "distinct (map (json_get ''id'') vs)" using assms by (simp only: queue_clean_def)
  ultimately show ?thesis by (simp only: distinct_map [of "Some \<circ> JStr"])
qed

lemma clean_position:
  assumes "queue_clean vs"
  shows "position (has_id i) vs = position (\<lambda>v. qm_id (row_of v) = i) vs"
proof -
  have "\<forall>v \<in> set vs. has_id i v = (qm_id (row_of v) = i)"
    using clean_row(2) [OF assms] by (auto simp: has_id_def)
  then show ?thesis by (induction vs) auto
qed

lemma position_map: "position P (map f xs) = position (\<lambda>x. P (f x)) xs"
  by (induction xs) auto

lemma map_remove_at: "map f (remove_at n xs) = remove_at n (map f xs)"
  by (simp add: remove_at_def take_map drop_map)

lemma set_remove_at: "set (remove_at n xs) \<subseteq> set xs"
  by (auto simp: remove_at_def dest: in_set_takeD in_set_dropD)

lemma distinct_remove_at: "distinct xs \<Longrightarrow> distinct (remove_at n xs)"
  by (simp add: remove_at_def distinct_take distinct_drop set_take_disj_set_drop_if_distinct)

lemma clean_remove: "queue_clean vs \<Longrightarrow> queue_clean (remove_at n vs)"
  unfolding queue_clean_def list_all_iff map_remove_at
  using set_remove_at [of n vs] distinct_remove_at [of "map (json_get ''id'') vs" n] by blast

lemma clean_find:
  assumes "queue_clean (qo_value ops c)" "m \<in> set (read_queue ops c)"
  shows "find (\<lambda>x. qm_id x = qm_id m) (read_queue ops c) = Some m"
    and "\<exists>n. index_of ops (qm_id m) c = Some n \<and> n < length (qo_value ops c)
      \<and> map row_of (remove_at n (qo_value ops c)) = filter (\<lambda>x. qm_id x \<noteq> qm_id m) (read_queue ops c)"
proof -
  let ?vs = "qo_value ops c"
  have ids: "distinct (map qm_id (read_queue ops c))"
    using clean_ids [OF assms(1)] by (simp add: clean_read [OF assms(1)] comp_def)
  show "find (\<lambda>x. qm_id x = qm_id m) (read_queue ops c) = Some m"
    using ids assms(2) by (rule find_distinct)
  have read: "read_queue ops c = map row_of ?vs" using assms(1) by (rule clean_read)
  with assms(2) obtain v where v: "v \<in> set ?vs" "row_of v = m" by auto
  have "position (\<lambda>v. qm_id (row_of v) = qm_id m) ?vs \<noteq> None"
    using v by (auto simp: position_None)
  then obtain n where n: "position (\<lambda>v. qm_id (row_of v) = qm_id m) ?vs = Some n" by auto
  have gone: "remove_at n ?vs = filter (\<lambda>v. qm_id (row_of v) \<noteq> qm_id m) ?vs"
    using clean_ids [OF assms(1)] n by (rule remove_at_filter)
  have at: "index_of ops (qm_id m) c = Some n"
    unfolding index_of_def clean_position [OF assms(1)] by (rule n)
  have len: "n < length ?vs" using position_Some_split [OF n] by blast
  show "\<exists>n. index_of ops (qm_id m) c = Some n \<and> n < length ?vs
      \<and> map row_of (remove_at n ?vs) = filter (\<lambda>x. qm_id x \<noteq> qm_id m) (read_queue ops c)"
    by (rule exI [of _ n]) (simp add: at len gone read filter_map comp_def)
qed

lemma take_row:
  assumes "queue_ops_ok ops" "queue_clean (qo_value ops c)" "m \<in> set (read_queue ops c)"
    and "qm_delivery_gate m = None"
  shows "\<exists>c'. take_queued ops (qm_id m) c = Inr (Some m, c')
    \<and> read_queue ops c' = filter (\<lambda>x. qm_id x \<noteq> qm_id m) (read_queue ops c)
    \<and> queue_clean (qo_value ops c') \<and> take_queued ops (qm_id m) c' = Inr (None, c')"
proof -
  from clean_find(2) [OF assms(2,3)] obtain n where
    n: "index_of ops (qm_id m) c = Some n" "n < length (qo_value ops c)"
      "map row_of (remove_at n (qo_value ops c)) = filter (\<lambda>x. qm_id x \<noteq> qm_id m) (read_queue ops c)"
    by blast
  from queue_ops_okD(3) [OF assms(1) n(2)] obtain c' where
    c': "qo_delete ops n c = Some c'" "qo_value ops c' = remove_at n (qo_value ops c)" by blast
  have clean: "queue_clean (qo_value ops c')" using clean_remove [OF assms(2)] c'(2) by simp
  have read: "read_queue ops c' = filter (\<lambda>x. qm_id x \<noteq> qm_id m) (read_queue ops c)"
    using clean_read [OF clean] c'(2) n(3) by simp
  have "\<forall>x \<in> set (map row_of (qo_value ops c')). qm_id x \<noteq> qm_id m"
    unfolding clean_read [OF clean, symmetric] read by simp
  then have gone: "index_of ops (qm_id m) c' = None"
    by (simp add: index_of_def clean_position [OF clean] position_None)
  have "take_queued ops (qm_id m) c = Inr (Some m, c')"
    using n(1) c'(1) clean_find(1) [OF assms(2,3)] assms(4) by (simp add: take_queued_def)
  with read clean gone show ?thesis by (simp add: take_queued_def)
qed


text \<open>A row is handed out once: taking it returns it and removes exactly it, and the
  second device that asks for the same row gets none.\<close>

theorem take_queued_once:
  assumes "queue_ops_ok ops" "queue_clean (qo_value ops c)" "m \<in> set (read_queue ops c)"
    and "qm_delivery_gate m = None"
  shows "\<exists>c'. take_queued ops (qm_id m) c = Inr (Some m, c')
    \<and> read_queue ops c' = filter (\<lambda>x. qm_id x \<noteq> qm_id m) (read_queue ops c)
    \<and> take_queued ops (qm_id m) c' = Inr (None, c')"
  using take_row [OF assms] by blast

text \<open>A row with a delivery gate, being edited or waiting for review, is never handed
  out, and the queue is left as it is.\<close>

theorem take_queued_gated:
  assumes "queue_clean (qo_value ops c)" "m \<in> set (read_queue ops c)" "qm_delivery_gate m \<noteq> None"
  shows "take_queued ops (qm_id m) c = Inr (None, c)"
  using clean_find [OF assms(1,2)] assms(3) by (auto simp: take_queued_def)

definition plain_row :: "string \<Rightarrow> string \<Rightarrow> json" where
  "plain_row i body = JObj (queued_fields (queued_message_new i body ''dev''))"

lemmas queue_eval = plain_row_def queued_message_new_def queued_ok_def blank_def i64_def
  value_queue_ops_def read_queue_def List.map_filter_simps queue_clean_def has_id_def trim_eval

lemma plain_row_decodes:
  "queued_from_json (plain_row ''a'' ''hello'') = Some (queued_message_new ''a'' ''hello'' ''dev'')"
  "queued_from_json (plain_row ''b'' ''hello'') = Some (queued_message_new ''b'' ''hello'' ''dev'')"
  unfolding plain_row_def by (rule queued_row_roundtrip; simp add: queue_eval)+

lemma plain_row_id: "json_get ''id'' (plain_row i body) = Some (JStr i)"
  by (simp add: plain_row_def queued_members queued_message_new_def)

theorem take_queued_once_witness:
  "\<exists>c'. take_queued value_queue_ops ''b'' [plain_row ''a'' ''hello'', plain_row ''b'' ''hello'']
      = Inr (Some (queued_message_new ''b'' ''hello'' ''dev''), c')
    \<and> read_queue value_queue_ops c' = [queued_message_new ''a'' ''hello'' ''dev'']"
  using take_queued_once [OF value_queue_ops_ok,
      of "[plain_row ''a'' ''hello'', plain_row ''b'' ''hello'']" "queued_message_new ''b'' ''hello'' ''dev''"]
  by (auto simp: value_queue_ops_def queue_clean_def plain_row_decodes plain_row_id has_id_def
      read_queue_def List.map_filter_simps queued_message_new_def)

theorem take_queued_gated_witness:
  "take_queued value_queue_ops ''m1'' [JObj (queued_fields sample_row)]
    = Inr (None, [JObj (queued_fields sample_row)])"
  using take_queued_gated [of value_queue_ops "[JObj (queued_fields sample_row)]" sample_row]
  by (simp add: value_queue_ops_def queue_clean_def queued_row_roundtrip [OF sample_row_ok] has_id_def
      read_queue_def List.map_filter_simps queued_members)
    (simp add: sample_row_def queued_message_new_def)

section \<open>Finishing an edit\<close>

lemma map_filter_all:
  "\<forall>v \<in> set vs. f v = Some (g v) \<Longrightarrow> List.map_filter f vs = map g vs"
  by (induction vs) (auto simp: List.map_filter_simps)

lemma update_at_position:
  "distinct (map k xs) \<Longrightarrow> position (\<lambda>x. k x = i) xs = Some n \<Longrightarrow>
    xs[n := f (xs ! n)] = map (\<lambda>x. if k x = i then f x else x) xs"
proof (induction xs arbitrary: n)
  case (Cons x xs)
  show ?case
  proof (cases "k x = i")
    case True
    with Cons.prems have "map (\<lambda>x. if k x = i then f x else x) xs = xs"
      by (auto simp: image_iff intro!: map_idI)
    with True Cons.prems(2) show ?thesis by simp
  next
    case False
    with Cons.prems(2) obtain m where m: "position (\<lambda>x. k x = i) xs = Some m" "n = Suc m" by auto
    with Cons.IH [OF _ m(1)] Cons.prems(1) False show ?thesis by simp
  qed
qed simp

lemma map_filter_update:
  "\<forall>v \<in> set vs. f v = Some (g v) \<Longrightarrow> n < length vs \<Longrightarrow> f v' = Some y \<Longrightarrow>
    List.map_filter f (vs[n := v']) = (map g vs)[n := y]"
  by (induction vs arbitrary: n) (auto simp: List.map_filter_simps split: nat.splits simp: map_filter_all)

lemma decoded_gate: "queued_from_json v = Some m \<Longrightarrow> qm_delivery_gate m = decode_gate v"
  unfolding queued_from_json_def by (auto split: option.splits if_splits)

lemma edited_row_decodes:
  assumes "queued_from_json (JObj ms) = Some m" "\<not> blank body" "i64 now"
  shows "queued_from_json (JObj (AList.delete ''deliveryGate''
      (AList.update ''editedAt'' (JInt now) (AList.update ''text'' (JStr body) ms))))
    = Some (m\<lparr>qm_text := body, qm_edited_at := Some now, qm_delivery_gate := None\<rparr>)"
proof -
  let ?v = "JObj (AList.delete ''deliveryGate'' (AList.update ''editedAt'' (JInt now) (AList.update ''text'' (JStr body) ms)))"
  have get: "json_get k ?v = (if k = ''deliveryGate'' then None else if k = ''editedAt'' then Some (JInt now)
      else if k = ''text'' then Some (JStr body) else json_get k (JObj ms))" for k
    by (simp add: update_conv' delete_conv')
  have new: "str_member ''text'' ?v = Some body" "i64_member ''editedAt'' ?v = Some now" "decode_gate ?v = None"
    using assms(3) by (simp_all only: str_member_def i64_member_def decode_gate_def get) simp_all
  have same: "str_member ''id'' ?v = str_member ''id'' (JObj ms)"
      "str_member ''issuedBy'' ?v = str_member ''issuedBy'' (JObj ms)"
      "str_member ''originChatId'' ?v = str_member ''originChatId'' (JObj ms)"
      "i64_member ''issuedAt'' ?v = i64_member ''issuedAt'' (JObj ms)"
      "json_get ''attachments'' ?v = json_get ''attachments'' (JObj ms)"
      "json_get ''holdForTurnEnd'' ?v = json_get ''holdForTurnEnd'' (JObj ms)"
      "json_get ''completionNotice'' ?v = json_get ''completionNotice'' (JObj ms)"
    by (simp_all only: str_member_def i64_member_def get) simp_all
  obtain raw old where row: "str_member ''id'' (JObj ms) = Some raw" "trim raw \<noteq> []"
      "str_member ''text'' (JObj ms) = Some old" "\<not> blank old"
    using assms(1) by (auto simp: queued_from_json_def split: option.splits if_splits)
  show ?thesis
    using assms(1,2) row unfolding queued_from_json_def new same by auto
qed

text \<open>Finishing an edit replaces the text of that one row, stamps it and opens its gate
  in the same step; every other row is unchanged.\<close>

theorem finish_queued_edit_releases:
  assumes "queue_ops_ok ops" "queue_clean (qo_value ops c)" "m \<in> set (read_queue ops c)"
    and "\<not> blank body" "body \<noteq> qm_text m" "i64 now"
  shows "\<exists>c'. finish_queued_edit ops (qm_id m) (Some body) None now c = Inr (True, c')
    \<and> read_queue ops c' = map (\<lambda>x. if qm_id x = qm_id m
        then x\<lparr>qm_text := body, qm_edited_at := Some now, qm_delivery_gate := None\<rparr> else x) (read_queue ops c)"
proof -
  let ?vs = "qo_value ops c"
  let ?edit = "\<lambda>x. x\<lparr>qm_text := body, qm_edited_at := Some now, qm_delivery_gate := None\<rparr>"
  let ?P = "\<lambda>x. qm_id x = qm_id m"
  have read: "read_queue ops c = map row_of ?vs" using assms(2) by (rule clean_read)
  from clean_find(2) [OF assms(2,3)] obtain n where
    n: "index_of ops (qm_id m) c = Some n" "n < length ?vs" by blast
  have pos: "position ?P (read_queue ops c) = Some n"
    using n(1) unfolding index_of_def clean_position [OF assms(2)] read by (simp add: position_map)
  have ids: "distinct (map qm_id (read_queue ops c))"
    using clean_ids [OF assms(2)] by (simp add: read comp_def)
  have nth: "row_of (?vs ! n) = m"
    using position_Some_split [OF pos] n(2) assms(3) ids
    by (metis distinct_map_same nth_map nth_mem read)
  have dec: "queued_from_json (?vs ! n) = Some m"
    using clean_row(1) [OF assms(2) nth_mem [OF n(2)]] nth by simp
  then obtain ms where ms: "?vs ! n = JObj ms"
    by (cases "?vs ! n") (auto simp: queued_from_json_def str_member_def)
  have old: "map_of ms ''text'' = Some (JStr (qm_text m))"
    using dec ms
    by (auto simp: queued_from_json_def str_member_def bind_eq_Some_conv split: option.splits if_splits
        elim: json_as_str.elims)
  from queue_ops_okD(2) [OF assms(1) n(2) ms, of "''text''" "JStr body"] obtain c1 where
    c1: "qo_map_insert ops n ''text'' (JStr body) c = Some c1"
      "qo_value ops c1 = ?vs[n := JObj (AList.update ''text'' (JStr body) ms)]" by blast
  then have "n < length (qo_value ops c1)" "qo_value ops c1 ! n = JObj (AList.update ''text'' (JStr body) ms)"
    using n(2) by simp_all
  from queue_ops_okD(2) [OF assms(1) this, of "''editedAt''" "JInt now"] c1(2) obtain c2 where
    c2: "qo_map_insert ops n ''editedAt'' (JInt now) c1 = Some c2"
      "qo_value ops c2 = ?vs[n := JObj (AList.update ''editedAt'' (JInt now)
         (AList.update ''text'' (JStr body) ms))]" by auto
  then have "n < length (qo_value ops c2)" "qo_value ops c2 ! n = JObj (AList.update ''editedAt'' (JInt now)
         (AList.update ''text'' (JStr body) ms))"
    using n(2) by simp_all
  from queue_ops_okD(5) [OF assms(1) this, of "''deliveryGate''"] c2(2) obtain c3 where
    c3: "qo_map_delete ops n ''deliveryGate'' c2 = Some c3"
      "qo_value ops c3 = ?vs[n := JObj (AList.delete ''deliveryGate'' (AList.update ''editedAt''
         (JInt now) (AList.update ''text'' (JStr body) ms)))]" by auto
  have "finish_queued_edit ops (qm_id m) (Some body) None now c = Inr (True, c3)"
    using n ms old c1(1) c2(1) c3(1) assms(4,5)
    by (simp add: finish_queued_edit_def map_at_def str_member_def)
  moreover have "read_queue ops c3 = (read_queue ops c)[n := ?edit (read_queue ops c ! n)]"
  proof -
    have all: "\<forall>v \<in> set ?vs. queued_from_json v = Some (row_of v)"
      using clean_row(1) [OF assms(2)] by blast
    have "read_queue ops c3 = (map row_of ?vs)[n := ?edit m]"
      unfolding read_queue_def c3(2) using all n(2)
      by (intro map_filter_update) (simp_all add: edited_row_decodes [OF dec [unfolded ms] assms(4,6)])
    then show ?thesis using n(2) nth by (simp add: read)
  qed
  ultimately show ?thesis
    using update_at_position [OF ids pos, of ?edit] by auto
qed


theorem finish_queued_edit_releases_witness:
  "\<exists>c'. finish_queued_edit value_queue_ops ''m1'' (Some ''a'') None 7 [JObj (queued_fields sample_row)]
      = Inr (True, c')
    \<and> read_queue value_queue_ops c' = [sample_row\<lparr>qm_text := ''a'', qm_edited_at := Some 7,
         qm_delivery_gate := None\<rparr>]"
  using finish_queued_edit_releases [OF value_queue_ops_ok,
      of "[JObj (queued_fields sample_row)]" sample_row "''a''" 7]
  by (simp add: value_queue_ops_def queue_clean_def queued_row_roundtrip [OF sample_row_ok] has_id_def
      read_queue_def List.map_filter_simps queued_members)
    (simp add: sample_row_def queued_message_new_def blank_def trim_eval i64_def)

text \<open>A gate this build does not know fails closed: the row reads as waiting for review.\<close>

theorem unknown_gate_fails_closed:
  assumes "json_get ''deliveryGate'' v = Some gate" "gate \<noteq> JNull" "gate_from_json gate = None"
    and "queued_from_json v = Some m"
  shows "qm_delivery_gate m = Some gate_closed"
proof -
  have "decode_gate v = Some gate_closed"
    using assms(1-3) by (cases gate) (simp_all add: decode_gate_def)
  then show ?thesis using decoded_gate [OF assms(4)] by simp
qed

theorem unknown_gate_fails_closed_witness:
  "qm_delivery_gate (the (queued_from_json (JObj [(''id'', JStr ''a''), (''text'', JStr ''hello''),
     (''deliveryGate'', JObj [(''kind'', JStr ''embargo'')])]))) = Some gate_closed"
  by (rule unknown_gate_fails_closed
      [of "JObj [(''id'', JStr ''a''), (''text'', JStr ''hello''),
         (''deliveryGate'', JObj [(''kind'', JStr ''embargo'')])]" "JObj [(''kind'', JStr ''embargo'')]"])
    (simp_all add: gate_from_json_def str_member_def queued_from_json_def queue_eval)

section \<open>Ids with white space\<close>

text \<open>A row whose id has surrounding white space is accepted and read, but its read id
  finds no row: the head of the queue can never be taken, and blocks every row behind it.\<close>

theorem untrimmed_id_blocks_head:
  "\<exists>c. push_queued value_queue_ops (queued_message_new '' a'' ''hello'' ''dev'') [] = Inr c
    \<and> map qm_id (read_queue value_queue_ops c) = [''a'']
    \<and> take_queue_head value_queue_ops c = Inr (None, c)"
proof -
  have blank: "\<not> blank '' a''" "trim '' a'' = ''a''"
  proof -
    have "trim_start '' a'' = trim_start ''a''"
      by (subst trim_start.simps) (simp add: white_chars_def)
    then show "trim '' a'' = ''a''" using trim_eval(1) by (simp add: trim_def)
    then show "\<not> blank '' a''" by (simp add: blank_def)
  qed
  let ?row = "JObj (queued_fields (queued_message_new '' a'' ''hello'' ''dev''))"
  have "push_queued value_queue_ops (queued_message_new '' a'' ''hello'' ''dev'') [] = Inr [?row]"
    using blank by (simp add: push_queued_def queue_eval with_map_def insert_at_def queued_fields_def
        opt_member_def)
  moreover have "queued_from_json ?row = Some (queued_message_new ''a'' ''hello'' ''dev'')"
    using blank by (simp add: queued_from_json_def queue_eval queued_members str_member_def
        i64_member_def decode_gate_def)
  moreover have "json_get ''id'' ?row = Some (JStr '' a'')"
    by (simp add: queued_members queued_message_new_def)
  ultimately show ?thesis
    by (intro exI [of _ "[?row]"])
      (simp add: take_queue_head_def take_queued_def index_of_def value_queue_ops_def has_id_def
        read_queue_def List.map_filter_simps queued_message_new_def)
qed

end
