(* ===== verification/Transcript_Delta.thy ===== *)
theory Transcript_Delta
  imports Message_Parts
begin

text \<open>
  \<open>crates/doc/src/transcript_delta.rs\<close>: the frames of the transcript watch. \<open>diff_transcript\<close>
  is the producer, \<open>apply_transcript_frame\<close> the consumer; the replay baseline marks what part
  of an entry is history. A \<open>HashMap\<close> is a map (\<open>'k \<rightharpoonup> 'v\<close>) where only lookups matter;
  collecting into one lets the last entry for a key win.
\<close>

section \<open>Entries and frames\<close>

datatype message_role = UserRole | AssistantRole | SystemRole

record message_entry =
  e_id :: string
  e_role :: message_role
  e_parts :: "message_part list"
  e_created_at :: int
  e_device_id :: string
  e_status :: "message_status option"
  e_continuation_of :: "string option"
  e_duration_ms :: "int option"
  e_origin_chat_id :: "string option"
  e_provider_turn :: "provider_turn_ref option"

record transcript_upsert =
  u_after :: "string option"
  u_entry :: message_entry

record text_append =
  ta_entry :: string
  ta_part :: string
  ta_text :: string
  ta_len :: nat

datatype transcript_frame =
    Reset "message_entry list"
  | Delta "transcript_upsert list" "text_append list" "string list" nat

fun is_empty_delta :: "transcript_frame \<Rightarrow> bool" where
  "is_empty_delta (Delta upsert appends remove _) \<longleftrightarrow> upsert = [] \<and> appends = [] \<and> remove = []"
| "is_empty_delta (Reset _) \<longleftrightarrow> False"

datatype transcript_desync = TranscriptDesync string

section \<open>Replay baseline\<close>

type_synonym transcript_baseline = "string \<Rightarrow> (string \<Rightarrow> nat option) option"

fun baseline_len :: "message_part \<Rightarrow> nat" where
  "baseline_len (TextPart _ t) = length t"
| "baseline_len (ReasoningPart _ t) = length t"
| "baseline_len _ = 0"

fun part_covered :: "nat \<Rightarrow> message_part \<Rightarrow> bool" where
  "part_covered len (TextPart _ t) \<longleftrightarrow> length t \<le> len"
| "part_covered len (ReasoningPart _ t) \<longleftrightarrow> length t \<le> len"
| "part_covered len _ \<longleftrightarrow> True"

definition baseline_covers :: "transcript_baseline \<Rightarrow> message_entry \<Rightarrow> bool" where
  "baseline_covers b entry =
     (case b (e_id entry) of
        None \<Rightarrow> False
      | Some parts \<Rightarrow>
          list_all (\<lambda>part. case parts (part_id part) of
              None \<Rightarrow> False | Some len \<Rightarrow> part_covered len part) (e_parts entry))"

definition baseline_capture :: "message_entry list \<Rightarrow> transcript_baseline" where
  "baseline_capture entries =
     collect_map (map (\<lambda>entry. (e_id entry,
       collect_map (map (\<lambda>part. (part_id part, baseline_len part)) (e_parts entry)))) entries)"

fun truncate_part :: "nat \<Rightarrow> message_part \<Rightarrow> message_part" where
  "truncate_part len (TextPart i t) = TextPart i (take (floor_boundary t (min len (length t))) t)"
| "truncate_part len (ReasoningPart i t) =
     ReasoningPart i (take (floor_boundary t (min len (length t))) t)"
| "truncate_part len p = p"

definition historical_entry :: "transcript_baseline \<Rightarrow> message_entry \<Rightarrow> message_entry option" where
  "historical_entry b entry =
     map_option (\<lambda>parts.
       entry\<lparr>e_parts := List.map_filter
         (\<lambda>part. map_option (\<lambda>len. truncate_part len part) (parts (part_id part))) (e_parts entry)\<rparr>)
       (b (e_id entry))"

section \<open>Producing a frame\<close>

text \<open>The bodies of two parts of the same text-bodied kind.\<close>

fun body_pair :: "message_part \<Rightarrow> message_part \<Rightarrow> ((string \<times> string) \<times> (string \<times> string)) option" where
  "body_pair (TextPart pid pt) (TextPart nid nt) = Some ((pid, pt), (nid, nt))"
| "body_pair (ReasoningPart pid pt) (ReasoningPart nid nt) = Some ((pid, pt), (nid, nt))"
| "body_pair _ _ = None"

text \<open>The loop over the zipped parts, with the append found so far.\<close>

fun append_scan :: "string \<Rightarrow> (message_part \<times> message_part) list \<Rightarrow> text_append option \<Rightarrow> text_append option" where
  "append_scan entry [] acc = acc"
| "append_scan entry ((p, n) # rest) acc =
     (if p = n then append_scan entry rest acc
      else case body_pair p n of
        None \<Rightarrow> None
      | Some ((pid, pt), (nid, nt)) \<Rightarrow>
          (if pid \<noteq> nid \<or> \<not> prefix pt nt \<or> acc \<noteq> None then None
           else append_scan entry rest
             (Some \<lparr>ta_entry = entry, ta_part = nid, ta_text = drop (length pt) nt,
                    ta_len = length nt\<rparr>)))"

definition try_text_append :: "message_entry \<Rightarrow> message_entry \<Rightarrow> text_append option" where
  "try_text_append prev next =
     (if e_id prev \<noteq> e_id next \<or> e_role prev \<noteq> e_role next
         \<or> e_created_at prev \<noteq> e_created_at next \<or> e_device_id prev \<noteq> e_device_id next
         \<or> e_status prev \<noteq> e_status next \<or> e_continuation_of prev \<noteq> e_continuation_of next
         \<or> length (e_parts prev) \<noteq> length (e_parts next)
      then None
      else append_scan (e_id next) (zip (e_parts prev) (e_parts next)) None)"

definition prev_by_id :: "message_entry list \<Rightarrow> string \<Rightarrow> (nat \<times> message_entry) option" where
  "prev_by_id prev = collect_map (map (\<lambda>(i, e). (e_id e, (i, e))) (List.enumerate 0 prev))"

text \<open>\<open>ix.checked_sub(1).map(|p| entries[p].id)\<close>\<close>

definition id_before :: "message_entry list \<Rightarrow> nat \<Rightarrow> string option" where
  "id_before entries ix = (if ix = 0 then None else Some (e_id (entries ! (ix - 1))))"

text \<open>The loop over the new entries; \<open>after\<close> is the id of the one before, if any.\<close>

fun diff_entries ::
    "message_entry list \<Rightarrow> string option \<Rightarrow> message_entry list \<Rightarrow> transcript_upsert list \<times> text_append list" where
  "diff_entries prev after [] = ([], [])"
| "diff_entries prev after (entry # rest) =
     (let (upsert, appends) = diff_entries prev (Some (e_id entry)) rest
      in case prev_by_id prev (e_id entry) of
           Some (prev_ix, prev_entry) \<Rightarrow>
             (let prev_after = id_before prev prev_ix
              in if prev_entry = entry \<and> prev_after = after then (upsert, appends)
                 else case (if prev_after = after then try_text_append prev_entry entry else None) of
                   Some text_append \<Rightarrow> (upsert, text_append # appends)
                 | None \<Rightarrow> (\<lparr>u_after = after, u_entry = entry\<rparr> # upsert, appends))
         | None \<Rightarrow> (\<lparr>u_after = after, u_entry = entry\<rparr> # upsert, appends))"

definition removed_ids :: "message_entry list \<Rightarrow> message_entry list \<Rightarrow> string list" where
  "removed_ids prev next = filter (\<lambda>i. i \<notin> set (map e_id next)) (map e_id prev)"

definition diff_transcript :: "message_entry list \<Rightarrow> message_entry list \<Rightarrow> transcript_frame" where
  "diff_transcript prev next =
     (let remove = removed_ids prev next;
          (upsert, appends) = diff_entries prev None next
      in if max (length next) 1 \<le> length upsert * 2 \<and> 4 < length next then Reset next
         else Delta upsert appends remove (length next))"

section \<open>Applying a frame\<close>

definition drop_removed :: "string list \<Rightarrow> message_entry list \<Rightarrow> message_entry list" where
  "drop_removed remove current =
     (if remove \<noteq> [] then filter (\<lambda>e. e_id e \<notin> set remove) current else current)"

definition apply_upsert ::
    "message_entry list \<Rightarrow> transcript_upsert \<Rightarrow> transcript_desync + message_entry list" where
  "apply_upsert current u =
     (let current = (case position (\<lambda>e. e_id e = e_id (u_entry u)) current of
            Some existing \<Rightarrow> remove_at existing current
          | None \<Rightarrow> current)
      in case u_after u of
           None \<Rightarrow> Inr (insert_at 0 (u_entry u) current)
         | Some anchor \<Rightarrow>
             (case position (\<lambda>e. e_id e = anchor) current of
                Some ix \<Rightarrow> Inr (insert_at (ix + 1) (u_entry u) current)
              | None \<Rightarrow> Inl (TranscriptDesync (''missing anchor '' @ anchor))))"

fun apply_upserts ::
    "message_entry list \<Rightarrow> transcript_upsert list \<Rightarrow> transcript_desync + message_entry list" where
  "apply_upserts current [] = Inr current"
| "apply_upserts current (u # us) =
     (case apply_upsert current u of Inl d \<Rightarrow> Inl d | Inr current' \<Rightarrow> apply_upserts current' us)"

fun is_body_with_id :: "string \<Rightarrow> message_part \<Rightarrow> bool" where
  "is_body_with_id i (TextPart j _) = (j = i)"
| "is_body_with_id i (ReasoningPart j _) = (j = i)"
| "is_body_with_id i _ = False"

fun push_body :: "string \<Rightarrow> message_part \<Rightarrow> message_part" where
  "push_body s (TextPart i t) = TextPart i (t @ s)"
| "push_body s (ReasoningPart i t) = ReasoningPart i (t @ s)"
| "push_body s p = p"

definition apply_append ::
    "message_entry list \<Rightarrow> text_append \<Rightarrow> transcript_desync + message_entry list" where
  "apply_append current a =
     (case find (\<lambda>e. e_id e = ta_entry a) current of
        None \<Rightarrow> Inl (TranscriptDesync (''missing append entry '' @ ta_entry a))
      | Some target \<Rightarrow>
          (case find (is_body_with_id (ta_part a)) (e_parts target) of
             None \<Rightarrow> Inl (TranscriptDesync (''missing append part '' @ ta_part a))
           | Some tail \<Rightarrow>
               (let tail' = push_body (ta_text a) tail
                in if length (part_body tail') \<noteq> ta_len a
                   then Inl (TranscriptDesync (''append length mismatch on '' @ ta_entry a @ ''#''
                          @ ta_part a @ '': have '' @ show_nat (length (part_body tail'))
                          @ '', expected '' @ show_nat (ta_len a)))
                   else Inr (update_first (\<lambda>e. e_id e = ta_entry a)
                          (\<lambda>e. e\<lparr>e_parts := update_first (is_body_with_id (ta_part a))
                             (push_body (ta_text a)) (e_parts e)\<rparr>) current))))"

fun apply_appends ::
    "message_entry list \<Rightarrow> text_append list \<Rightarrow> transcript_desync + message_entry list" where
  "apply_appends current [] = Inr current"
| "apply_appends current (a # rest) =
     (case apply_append current a of Inl d \<Rightarrow> Inl d | Inr current' \<Rightarrow> apply_appends current' rest)"

fun apply_transcript_frame ::
    "message_entry list \<Rightarrow> transcript_frame \<Rightarrow> transcript_desync + message_entry list" where
  "apply_transcript_frame current (Reset reset) = Inr reset"
| "apply_transcript_frame current (Delta upsert appends remove count) =
     (case apply_upserts (drop_removed remove current) upsert of
        Inl d \<Rightarrow> Inl d
      | Inr current1 \<Rightarrow>
          (case apply_appends current1 appends of
             Inl d \<Rightarrow> Inl d
           | Inr current2 \<Rightarrow>
               (if length current2 \<noteq> count
                then Inl (TranscriptDesync (''count mismatch: have '' @ show_nat (length current2)
                       @ '', expected '' @ show_nat count))
                else Inr current2)))"


section \<open>A frame reproduces the new transcript\<close>

abbreviation ids :: "message_entry list \<Rightarrow> string list" where
  "ids es \<equiv> map e_id es"

text \<open>The entries both transcripts hold stand in the same order in both.\<close>

definition order_kept :: "message_entry list \<Rightarrow> message_entry list \<Rightarrow> bool" where
  "order_kept prev next \<longleftrightarrow>
     filter (\<lambda>i. i \<in> set (ids next)) (ids prev) = filter (\<lambda>i. i \<in> set (ids prev)) (ids next)"

text \<open>
  The fields \<open>try_text_append\<close> does not compare are equal wherever it finds an append. It
  is the condition its doc comment promises and its guard does not test.
\<close>

definition quiet_fields_kept :: "message_entry list \<Rightarrow> message_entry list \<Rightarrow> bool" where
  "quiet_fields_kept prev next \<longleftrightarrow>
     list_all (\<lambda>p. list_all (\<lambda>n. try_text_append p n = None
        \<or> (e_duration_ms p = e_duration_ms n \<and> e_origin_chat_id p = e_origin_chat_id n
           \<and> e_provider_turn p = e_provider_turn n)) next) prev"

definition transcript_ok :: "message_entry list \<Rightarrow> bool" where
  "transcript_ok es \<longleftrightarrow>
     distinct (ids es) \<and> list_all (\<lambda>e. distinct (map part_id (e_parts e))) es"

subsection \<open>The text append\<close>

lemma append_scan_second:
  assumes "append_scan entry (zip ps ns) (Some a) = Some a'" "length ps = length ns"
  shows "a' = a \<and> ps = ns"
  using assms
proof (induction ps arbitrary: ns)
  case (Cons p ps)
  then obtain n ns' where ns: "ns = n # ns'" by (cases ns) auto
  with Cons show ?case
    by (auto split: if_splits option.splits prod.splits)
qed simp

lemma body_pair_Some:
  assumes "body_pair x y = Some ((pid, pt), (nid, nt))" "pid = nid" "prefix pt nt"
  shows "part_id x = nid" "is_body_with_id nid x" "push_body (drop (length pt) nt) x = y"
    and "part_body y = nt"
  using assms by (cases "(x, y)" rule: body_pair.cases; auto simp: prefix_def)+

lemma append_scan_split:
  assumes "append_scan entry (zip ps ns) None = Some a" "length ps = length ns"
  shows "\<exists>pre x y post. ps = pre @ x # post \<and> ns = pre @ y # post \<and> part_id x = ta_part a
    \<and> is_body_with_id (ta_part a) x \<and> push_body (ta_text a) x = y
    \<and> ta_len a = length (part_body y) \<and> ta_entry a = entry"
  using assms
proof (induction ps arbitrary: ns)
  case (Cons p ps)
  then obtain n ns' where ns: "ns = n # ns'" and len: "length ps = length ns'" by (cases ns) auto
  show ?case
  proof (cases "p = n")
    case True
    with Cons.prems ns have "append_scan entry (zip ps ns') None = Some a" by simp
    from Cons.IH [OF this len] obtain pre x y post where
      *: "ps = pre @ x # post" "ns' = pre @ y # post" "part_id x = ta_part a"
        "is_body_with_id (ta_part a) x" "push_body (ta_text a) x = y"
        "ta_len a = length (part_body y)" "ta_entry a = entry" by blast
    with True ns show ?thesis by (intro exI [of _ "p # pre"] exI [of _ x] exI [of _ y] exI [of _ post]) simp
  next
    case False
    with Cons.prems ns obtain pid pt nid nt where
      pair: "body_pair p n = Some ((pid, pt), (nid, nt))" and same: "pid = nid" "prefix pt nt"
      and rest: "append_scan entry (zip ps ns') (Some \<lparr>ta_entry = entry, ta_part = nid,
        ta_text = drop (length pt) nt, ta_len = length nt\<rparr>) = Some a"
      by (auto split: option.splits if_splits prod.splits)
    from append_scan_second [OF rest len] body_pair_Some [OF pair same] ns
    show ?thesis
      by (intro exI [of _ "[]"] exI [of _ p] exI [of _ n] exI [of _ ps]) auto
  qed
qed simp

lemma try_text_append_scan:
  assumes "try_text_append p n = Some a"
  shows "append_scan (e_id n) (zip (e_parts p) (e_parts n)) None = Some a"
    and "length (e_parts p) = length (e_parts n)"
    and "e_id p = e_id n" "e_role p = e_role n" "e_created_at p = e_created_at n"
    and "e_device_id p = e_device_id n" "e_status p = e_status n"
    and "e_continuation_of p = e_continuation_of n"
  using assms by (auto simp: try_text_append_def split: if_splits)

lemma is_body_part_id: "is_body_with_id i p \<Longrightarrow> part_id p = i"
  by (cases p) auto

lemma find_middle: "\<forall>x \<in> set xs. \<not> P x \<Longrightarrow> P y \<Longrightarrow> find P (xs @ y # ys) = Some y"
  by (induction xs) auto

lemma apply_append_emitted:
  assumes app: "try_text_append p n = Some a"
    and quiet: "e_duration_ms p = e_duration_ms n" "e_origin_chat_id p = e_origin_chat_id n"
      "e_provider_turn p = e_provider_turn n"
    and dist: "distinct (map part_id (e_parts p))"
    and fresh: "e_id n \<notin> set (ids before)"
  shows "apply_append (before @ p # after) a = Inr (before @ n # after)"
proof -
  note same = try_text_append_scan [OF app]
  from append_scan_split [OF same(1,2)] obtain pre x y post where
    s: "e_parts p = pre @ x # post" "e_parts n = pre @ y # post" "part_id x = ta_part a"
      "is_body_with_id (ta_part a) x" "push_body (ta_text a) x = y"
      "ta_len a = length (part_body y)" "ta_entry a = e_id n" by blast
  have pre: "\<forall>q \<in> set pre. \<not> is_body_with_id (ta_part a) q"
    using dist s(1,3) by (force dest: is_body_part_id)
  have before: "\<forall>e \<in> set before. \<not> e_id e = ta_entry a" using fresh s(7) by (simp only: fresh_iff)
  have head: "find (\<lambda>e. e_id e = ta_entry a) (before @ p # after) = Some p"
    using before same(3) s(7) by (simp add: find_middle)
  have tail: "find (is_body_with_id (ta_part a)) (e_parts p) = Some x"
    using pre s(1,4) by (simp add: find_middle)
  have parts: "update_first (is_body_with_id (ta_part a)) (push_body (ta_text a)) (e_parts p) = e_parts n"
    using pre s by (simp add: update_first_middle)
  have "update_first (\<lambda>e. e_id e = ta_entry a)
      (\<lambda>e. e\<lparr>e_parts := update_first (is_body_with_id (ta_part a)) (push_body (ta_text a)) (e_parts e)\<rparr>)
      (before @ p # after) = before @ p\<lparr>e_parts := e_parts n\<rparr> # after"
    using before same(3) s(7) parts by (simp add: update_first_middle)
  moreover have "p\<lparr>e_parts := e_parts n\<rparr> = n"
    using same(3-8) quiet by (intro message_entry.equality) simp_all
  ultimately show ?thesis
    using head tail s(5,6) by (simp add: apply_append_def Let_def)
qed

subsection \<open>The two phases\<close>

lemma prev_by_id_Some:
  assumes "distinct (ids prev)" "prev_by_id prev i = Some (ix, e)"
  shows "e \<in> set prev \<and> e_id e = i"
proof -
  from assms(2) have "(i, ix, e) \<in> set (map (\<lambda>(i, e). (e_id e, (i, e))) (List.enumerate 0 prev))"
    unfolding prev_by_id_def collect_map_def by (auto dest!: map_of_SomeD)
  then show ?thesis by (auto simp: in_set_enumerate_eq)
qed

lemma prev_by_id_None: "prev_by_id prev i = None \<longleftrightarrow> i \<notin> set (ids prev)"
proof -
  have "map fst (map (\<lambda>(i, e). (e_id e, (i, e))) (List.enumerate 0 prev))
      = map e_id (map snd (List.enumerate 0 prev))"
    by (simp add: split_def comp_def del: map_snd_enumerate)
  then have "fst ` set (map (\<lambda>(i, e). (e_id e, (i, e))) (List.enumerate 0 prev)) = set (ids prev)"
    by (metis list.set_map map_snd_enumerate)
  then show ?thesis by (simp add: prev_by_id_def collect_map_def map_of_eq_None_iff)
qed

text \<open>The entries as they stand when the upserts are applied and the appends are not.\<close>

fun base_entries :: "message_entry list \<Rightarrow> string option \<Rightarrow> message_entry list \<Rightarrow> message_entry list" where
  "base_entries prev after [] = []"
| "base_entries prev after (entry # rest) =
     (case prev_by_id prev (e_id entry) of
        Some (prev_ix, prev_entry) \<Rightarrow>
          (if \<not> (prev_entry = entry \<and> id_before prev prev_ix = after)
              \<and> id_before prev prev_ix = after \<and> try_text_append prev_entry entry \<noteq> None
           then prev_entry else entry)
      | None \<Rightarrow> entry) # base_entries prev (Some (e_id entry)) rest"

definition last_id :: "message_entry list \<Rightarrow> string option" where
  "last_id es = (if es = [] then None else Some (e_id (last es)))"

lemma last_id_snoc [simp]: "last_id (es @ [e]) = Some (e_id e)"
  by (simp add: last_id_def)

lemma last_id_Nil [simp]: "last_id [] = None"
  by (simp add: last_id_def)

lemma apply_upsert_at:
  assumes "distinct (ids settled)" "e_id e \<notin> set (ids settled)"
    and "(\<exists>old. R = old # R' \<and> e_id old = e_id e) \<or> (R = R' \<and> e_id e \<notin> set (ids R))"
  shows "apply_upsert (settled @ R) \<lparr>u_after = last_id settled, u_entry = e\<rparr> = Inr (settled @ e # R')"
proof -
  have none: "\<forall>x \<in> set settled. \<not> e_id x = e_id e" using assms(2) by (simp only: fresh_iff)
  have gone: "(case position (\<lambda>x. e_id x = e_id e) (settled @ R) of
      Some i \<Rightarrow> remove_at i (settled @ R) | None \<Rightarrow> settled @ R) = settled @ R'"
  proof -
    consider (old) old where "R = old # R'" "e_id old = e_id e" | (new) "R = R'" "e_id e \<notin> set (ids R)"
      using assms(3) by blast
    then show ?thesis
    proof cases
      case old
      with none show ?thesis by (simp add: position_middle)
    next
      case new
      with none have "position (\<lambda>x. e_id x = e_id e) (settled @ R) = None"
        by (simp only: position_None fresh_iff set_append ball_Un)
      with new show ?thesis by simp
    qed
  qed
  show ?thesis
  proof (cases settled rule: rev_cases)
    case Nil
    then show ?thesis using gone unfolding Nil append_Nil by (simp add: apply_upsert_def last_id_def)
  next
    case (snoc init l)
    with assms(1) have "e_id l \<notin> set (ids init)" by auto
    then have "\<forall>x \<in> set init. \<not> e_id x = e_id l" by (simp only: fresh_iff)
    then have "position (\<lambda>x. e_id x = e_id l) (settled @ R') = Some (length init)"
      using snoc by (simp add: position_middle)
    moreover have "insert_at (length init + 1) e (settled @ R') = settled @ e # R'"
      using snoc insert_at_middle [of "init @ [l]" e R'] by simp
    moreover have "last_id settled = Some (e_id l)" using snoc by simp
    ultimately show ?thesis
      unfolding apply_upsert_def Let_def transcript_upsert.simps gone by simp
  qed
qed

text \<open>
  First phase. \<open>R\<close> is what is left of the old list: the entries of the new list still to come
  that the old one holds, in the order of the new one.
\<close>

lemma apply_upserts_base:
  assumes "distinct (ids prev)" "distinct (ids (settled @ rest))"
    and "ids R = filter (\<lambda>i. i \<in> set (ids prev)) (ids rest)" "set R \<subseteq> set prev"
  shows "apply_upserts (settled @ R) (fst (diff_entries prev (last_id settled) rest))
    = Inr (settled @ base_entries prev (last_id settled) rest)"
  using assms(2-4)
proof (induction rest arbitrary: settled R)
  case Nil
  then show ?case by simp
next
  case (Cons e rest)
  have IH: "apply_upserts (settled @ x # R') (fst (diff_entries prev (Some (e_id e)) rest))
      = Inr (settled @ x # base_entries prev (Some (e_id e)) rest)"
    if "e_id x = e_id e" "ids R' = filter (\<lambda>i. i \<in> set (ids prev)) (ids rest)" "set R' \<subseteq> set R" for x R'
    using Cons.IH [of "settled @ [x]" R'] Cons.prems that by (auto simp: last_id_def)
  have e_new: "e_id e \<notin> set (ids settled)" and settled: "distinct (ids settled)"
    and e_rest: "e_id e \<notin> set (ids rest)"
    using Cons.prems(1) by auto
  show ?case
  proof (cases "prev_by_id prev (e_id e)")
    case None
    then have "e_id e \<notin> set (ids prev)" by (simp add: prev_by_id_None)
    moreover from this Cons.prems(2) have R: "ids R = filter (\<lambda>i. i \<in> set (ids prev)) (ids rest)" by simp
    moreover have "e_id e \<notin> set (ids R)" unfolding R using e_rest by auto
    ultimately have "apply_upsert (settled @ R) \<lparr>u_after = last_id settled, u_entry = e\<rparr>
        = Inr (settled @ e # R)"
      by (intro apply_upsert_at) (use settled e_new in auto)
    with None IH [OF refl R] show ?thesis by (simp add: split_def Let_def)
  next
    case (Some hit)
    obtain ix p where hit: "hit = (ix, p)" by (cases hit)
    from prev_by_id_Some [OF assms(1)] Some hit have p: "p \<in> set prev" "e_id p = e_id e" by auto
    then have "e_id e \<in> set (ids prev)" by (metis image_eqI list.set_map)
    with Cons.prems(2) obtain q R' where R: "R = q # R'" "e_id q = e_id e"
      "ids R' = filter (\<lambda>i. i \<in> set (ids prev)) (ids rest)" by auto
    with Cons.prems(3) p assms(1) have "q = p" by (auto intro: distinct_map_same)
    with R have R: "R = p # R'" "ids R' = filter (\<lambda>i. i \<in> set (ids prev)) (ids rest)" by auto
    have up: "apply_upsert (settled @ R) \<lparr>u_after = last_id settled, u_entry = e\<rparr>
        = Inr (settled @ e # R')"
      by (intro apply_upsert_at) (use settled e_new R p in auto)
    have R': "set R' \<subseteq> set R" using R by auto
    show ?thesis
      using Some hit R up IH [OF p(2) R(2) R'] IH [OF refl R(2) R']
      by (cases "try_text_append p e") (simp_all add: split_def Let_def)
  qed
qed

text \<open>Second phase: the appends turn each entry left in its old form into the new one.\<close>

lemma apply_appends_base:
  assumes "distinct (ids prev)" "distinct (ids (settled @ rest))"
    and "list_all (\<lambda>e. distinct (map part_id (e_parts e))) prev"
    and "quiet_fields_kept prev nw" "set rest \<subseteq> set nw"
  shows "apply_appends (settled @ base_entries prev after rest) (snd (diff_entries prev after rest))
    = Inr (settled @ rest)"
  using assms(2,5)
proof (induction rest arbitrary: settled after)
  case Nil
  then show ?case by simp
next
  case (Cons e rest)
  have IH: "apply_appends (settled @ e # base_entries prev (Some (e_id e)) rest)
      (snd (diff_entries prev (Some (e_id e)) rest)) = Inr (settled @ e # rest)"
    using Cons.IH [of "settled @ [e]" "Some (e_id e)"] Cons.prems by simp
  show ?case
  proof (cases "prev_by_id prev (e_id e)")
    case None
    with IH show ?thesis by (simp add: split_def Let_def)
  next
    case (Some hit)
    obtain ix p where hit: "hit = (ix, p)" by (cases hit)
    from prev_by_id_Some [OF assms(1)] Some hit have p: "p \<in> set prev" "e_id p = e_id e" by auto
    show ?thesis
    proof (cases "p \<noteq> e \<and> id_before prev ix = after \<and> try_text_append p e \<noteq> None")
      case False
      with IH Some hit show ?thesis
        by (cases "try_text_append p e") (auto simp: split_def Let_def)
    next
      case True
      then obtain a where a: "try_text_append p e = Some a" by auto
      have "e_duration_ms p = e_duration_ms e \<and> e_origin_chat_id p = e_origin_chat_id e
          \<and> e_provider_turn p = e_provider_turn e"
        using assms(4) p(1) Cons.prems(2) a by (force simp: quiet_fields_kept_def list_all_iff)
      then have "apply_append (settled @ p # base_entries prev (Some (e_id e)) rest) a
          = Inr (settled @ e # base_entries prev (Some (e_id e)) rest)"
        using assms(3) p(1) Cons.prems(1)
        by (intro apply_append_emitted [OF a]) (auto simp: list_all_iff)
      with IH Some hit True a show ?thesis by (simp add: split_def Let_def)
    qed
  qed
qed

lemma diff_apply:
  assumes "transcript_ok prev" "distinct (ids new)"
    and "order_kept prev new" "quiet_fields_kept prev new"
  shows "apply_transcript_frame prev (diff_transcript prev new) = Inr new"
proof -
  define R where "R = drop_removed (removed_ids prev new) prev"
  have R: "R = filter (\<lambda>e. e_id e \<in> set (ids new)) prev"
    unfolding R_def drop_removed_def removed_ids_def
    by (auto simp: filter_empty_conv intro!: filter_cong filter_True [symmetric])
  have ids: "ids R = filter (\<lambda>i. i \<in> set (ids prev)) (ids new)"
    using assms(3) unfolding R order_kept_def by (simp add: filter_map comp_def)
  have "apply_upserts R (fst (diff_entries prev None new)) = Inr (base_entries prev None new)"
    using apply_upserts_base [of prev "[]" new R] assms(1,2) ids R
    by (simp add: transcript_ok_def last_id_def)
  moreover have "apply_appends (base_entries prev None new) (snd (diff_entries prev None new)) = Inr new"
    using apply_appends_base [of prev "[]" new new None] assms by (simp add: transcript_ok_def)
  ultimately show ?thesis
    unfolding diff_transcript_def R_def by (simp add: split_def Let_def)
qed

text \<open>C2: applying the frame \<open>diff_transcript\<close> produced to the old transcript gives the new one
  exactly: removals, upserts at their anchors and text appends, when the entries both share
  keep their order and the append path met its documented condition.\<close>

theorem diff_apply_roundtrip:
  assumes "transcript_ok prev" "distinct (ids new)"
    and "order_kept prev new" "quiet_fields_kept prev new"
  shows "apply_transcript_frame prev (diff_transcript prev new) = Inr new"
  using assms by (rule diff_apply)

definition sample_entry :: "string \<Rightarrow> string \<Rightarrow> message_entry" where
  "sample_entry i body = \<lparr>e_id = i, e_role = AssistantRole, e_parts = [TextPart ''t0'' body],
     e_created_at = 7, e_device_id = ''d'', e_status = None, e_continuation_of = None,
     e_duration_ms = None, e_origin_chat_id = None, e_provider_turn = None\<rparr>"

lemmas delta_eval = sample_entry_def transcript_ok_def order_kept_def quiet_fields_kept_def
  diff_transcript_def prev_by_id_def collect_map_def id_before_def try_text_append_def
  removed_ids_def drop_removed_def apply_upsert_def apply_append_def

theorem diff_apply_roundtrip_witness:
  "apply_transcript_frame
     [sample_entry ''a'' ''one'', sample_entry ''b'' ''two'', sample_entry ''c'' ''th'']
     (diff_transcript
       [sample_entry ''a'' ''one'', sample_entry ''b'' ''two'', sample_entry ''c'' ''th'']
       [sample_entry ''a'' ''one'', sample_entry ''x'' ''new'', sample_entry ''c'' ''three''])
   = Inr [sample_entry ''a'' ''one'', sample_entry ''x'' ''new'', sample_entry ''c'' ''three'']"
  by (rule diff_apply_roundtrip) (simp_all add: delta_eval)

text \<open>An entry block that moves past another while its own inner order stays is sent with
  too few upserts, and the consumer ends in a third order with no desync reported.\<close>

theorem block_move_diverges:
  "apply_transcript_frame
     [sample_entry ''a'' [], sample_entry ''b'' [], sample_entry ''c'' [], sample_entry ''d'' []]
     (diff_transcript
       [sample_entry ''a'' [], sample_entry ''b'' [], sample_entry ''c'' [], sample_entry ''d'' []]
       [sample_entry ''c'' [], sample_entry ''d'' [], sample_entry ''a'' [], sample_entry ''b'' []])
   = Inr [sample_entry ''c'' [], sample_entry ''b'' [], sample_entry ''d'' [], sample_entry ''a'' []]"
  by (simp add: delta_eval enumerate_simps remove_at_def insert_at_def Let_def)

text \<open>A text append that comes with a new duration loses the duration: the guard of
  \<open>try_text_append\<close> does not compare it.\<close>

theorem append_drops_duration:
  "apply_transcript_frame [sample_entry ''a'' ''o'']
     (diff_transcript [sample_entry ''a'' ''o''] [(sample_entry ''a'' ''on'')\<lparr>e_duration_ms := Some 5\<rparr>])
   = Inr [sample_entry ''a'' ''on'']"
  by (simp add: delta_eval enumerate_simps remove_at_def insert_at_def Let_def)

subsection \<open>A stream of frames\<close>

definition frame_compatible :: "message_entry list \<Rightarrow> message_entry list \<Rightarrow> bool" where
  "frame_compatible prev new \<longleftrightarrow>
     transcript_ok prev \<and> distinct (ids new) \<and> order_kept prev new \<and> quiet_fields_kept prev new"

definition applied :: "message_entry list \<Rightarrow> transcript_frame \<Rightarrow> message_entry list option" where
  "applied current frame =
     (case apply_transcript_frame current frame of Inl d \<Rightarrow> None | Inr es \<Rightarrow> Some es)"

interpretation watch: frame_stream diff_transcript applied frame_compatible
  by unfold_locales (simp add: applied_def frame_compatible_def diff_apply)

text \<open>A client that applies the frames of a watch in order, each diffed against the
  transcript before it, holds the producer's last transcript.\<close>

theorem watch_stream_exact:
  assumes "chained frame_compatible start states"
  shows "consume_frames applied start (frames_from diff_transcript start states) = Some (last (start # states))"
  using assms by (rule watch.consume_exact)

theorem watch_stream_exact_witness:
  "consume_frames applied []
     (frames_from diff_transcript [] [[sample_entry ''a'' ''o''], [sample_entry ''a'' ''one'']])
   = Some [sample_entry ''a'' ''one'']"
  using watch_stream_exact [of "[]" "[[sample_entry ''a'' ''o''], [sample_entry ''a'' ''one'']]"]
  by (simp add: frame_compatible_def delta_eval del: consume_frames.simps frames_from.simps)

section \<open>History\<close>

text \<open>Valid UTF-8 text never starts with a continuation byte.\<close>

definition utf8_start :: "string \<Rightarrow> bool" where
  "utf8_start s \<longleftrightarrow> (case s of [] \<Rightarrow> True | c # _ \<Rightarrow> \<not> cont_byte c)"

lemma boundary_before_append: "utf8_start s \<Longrightarrow> is_char_boundary (t @ s) (length t)"
  by (cases s) (auto simp: utf8_start_def is_char_boundary_def)

lemma truncate_push_body:
  "utf8_start s \<Longrightarrow> truncate_part (baseline_len p) (push_body s p) = p"
  by (cases p) (simp_all add: floor_boundary_id boundary_before_append)

lemma part_id_push_body [simp]: "part_id (push_body s p) = part_id p"
  by (cases p) simp_all

lemma truncate_self: "truncate_part (baseline_len p) p = p"
  by (cases p) simp_all

definition grown :: "message_part \<Rightarrow> message_part \<Rightarrow> bool" where
  "grown p p' \<longleftrightarrow> part_id p' = part_id p \<and> truncate_part (baseline_len p) p' = p"

lemma map_filter_grown:
  assumes "list_all2 grown ps ps'" "\<And>p. p \<in> set ps \<Longrightarrow> m (part_id p) = Some (baseline_len p)"
  shows "List.map_filter (\<lambda>p. map_option (\<lambda>len. truncate_part len p) (m (part_id p))) ps' = ps"
  using assms by (induction ps ps' rule: list_all2_induct) (auto simp: grown_def List.map_filter_simps)

lemma captured:
  assumes "transcript_ok es" "e \<in> set es"
  obtains m where "baseline_capture es (e_id e) = Some m"
    and "\<And>p. p \<in> set (e_parts e) \<Longrightarrow> m (part_id p) = Some (baseline_len p)"
proof
  show "baseline_capture es (e_id e) =
      Some (collect_map (map (\<lambda>p. (part_id p, baseline_len p)) (e_parts e)))"
    unfolding baseline_capture_def using assms
    by (intro collect_map_distinct) (simp_all add: transcript_ok_def)
  show "collect_map (map (\<lambda>p. (part_id p, baseline_len p)) (e_parts e)) (part_id p) = Some (baseline_len p)"
    if "p \<in> set (e_parts e)" for p
    using assms that by (intro collect_map_distinct) (auto simp: transcript_ok_def list_all_iff)
qed

lemma historical_grown:
  assumes "transcript_ok es" "e \<in> set es" "list_all2 grown (e_parts e) ps"
  shows "historical_entry (baseline_capture es) (e\<lparr>e_parts := ps\<rparr>) = Some e"
proof -
  from captured [OF assms(1,2)] obtain m where
    m: "baseline_capture es (e_id e) = Some m"
      "\<And>p. p \<in> set (e_parts e) \<Longrightarrow> m (part_id p) = Some (baseline_len p)" by blast
  from map_filter_grown [OF assms(3) m(2)] m(1) show ?thesis
    by (simp add: historical_entry_def)
qed

text \<open>The baseline captured from a transcript covers each of its entries.\<close>

theorem baseline_covers_capture:
  assumes "transcript_ok es" "e \<in> set es"
  shows "baseline_covers (baseline_capture es) e"
proof -
  from captured [OF assms] obtain m where
    m: "baseline_capture es (e_id e) = Some m"
      "\<And>p. p \<in> set (e_parts e) \<Longrightarrow> m (part_id p) = Some (baseline_len p)" by blast
  moreover have "part_covered (baseline_len p) p" for p by (cases p) simp_all
  ultimately show ?thesis by (simp add: baseline_covers_def list_all_iff)
qed

lemma update_first_nth:
  "n < length xs \<Longrightarrow> update_first P f xs ! n = xs ! n \<or> (P (xs ! n) \<and> update_first P f xs ! n = f (xs ! n))"
  by (induction xs arbitrary: n) (auto simp: nth_Cons split: nat.splits)

text \<open>After a live text append, the baseline captured before it reconstructs every entry
  exactly as it was captured, so no history is animated and no live text is swallowed.\<close>

theorem historical_after_append:
  assumes "transcript_ok es" "apply_append es a = Inr es'" "utf8_start (ta_text a)" "n < length es"
  shows "historical_entry (baseline_capture es) (es' ! n) = Some (es ! n)"
proof -
  define f where "f = (\<lambda>e :: message_entry. e\<lparr>e_parts := update_first (is_body_with_id (ta_part a))
    (push_body (ta_text a)) (e_parts e)\<rparr>)"
  have es': "es' = update_first (\<lambda>e. e_id e = ta_entry a) f es"
    using assms(2) unfolding f_def apply_append_def by (auto simp: Let_def split: option.splits if_splits)
  have refl: "list_all2 grown ps ps" for ps
    by (simp add: list_all2_refl grown_def truncate_self)
  have "list_all2 grown ps (update_first (is_body_with_id (ta_part a)) (push_body (ta_text a)) ps)" for ps
    using assms(3) by (intro update_first_rel) (simp_all add: grown_def truncate_self truncate_push_body)
  with refl have "\<exists>ps. es' ! n = (es ! n)\<lparr>e_parts := ps\<rparr> \<and> list_all2 grown (e_parts (es ! n)) ps"
    using update_first_nth [OF assms(4), of "\<lambda>e. e_id e = ta_entry a" f] unfolding es'
    by (auto simp: f_def intro: exI [of _ "e_parts (es ! n)"])
  then obtain ps where "es' ! n = (es ! n)\<lparr>e_parts := ps\<rparr>" "list_all2 grown (e_parts (es ! n)) ps" by blast
  with historical_grown [OF assms(1) nth_mem [OF assms(4)]] show ?thesis by simp
qed

theorem historical_after_append_witness:
  "historical_entry (baseline_capture [sample_entry ''a'' ''one''])
     ([sample_entry ''a'' ''one two''] ! 0) = Some ([sample_entry ''a'' ''one''] ! 0)"
  by (rule historical_after_append [where a = "\<lparr>ta_entry = ''a'', ta_part = ''t0'', ta_text = '' two'', ta_len = 7\<rparr>"])
    (simp_all add: delta_eval utf8_start_def cont_byte_def)

theorem baseline_covers_capture_witness:
  "baseline_covers (baseline_capture [sample_entry ''a'' ''one'']) (sample_entry ''a'' ''one'')"
  by (rule baseline_covers_capture) (simp_all add: delta_eval)

end
