(* ===== verification/Completion_Notices.thy ===== *)
theory Completion_Notices
  imports Message_Queue Transcript_Delta
begin

text \<open>
  \<open>crates/engine/src/completion_notices.rs\<close> and the claims of \<open>sessions.rs\<close> it works with:
  the outcomes a parent chat is owed, their durable ledger, acknowledgement watermarks, the
  loop cap, and the delivery of a notice. The structure \<open>CompletionNotices\<close> with its locks
  is the record \<open>notices\<close>; a hash map is an association list with distinct keys. The clock,
  the host, the file system's success and the outcome of a dispatch are inputs.
\<close>

section \<open>Outcomes\<close>

datatype outcome =
    OutCompleted
  | OutErrored "string option"
  | OutStopped
  | OutInterrupted "string option"
  | OutWaitingForInput string

fun as_row :: "outcome \<Rightarrow> notice_outcome \<times> string option" where
  "as_row OutCompleted = (NoticeCompleted, None)"
| "as_row (OutErrored reason) = (NoticeErrored, reason)"
| "as_row OutStopped = (NoticeStopped, None)"
| "as_row (OutInterrupted reason) = (NoticeInterrupted, reason)"
| "as_row (OutWaitingForInput summary) = (NoticeWaitingForInput, Some summary)"

fun from_row :: "notice_outcome \<Rightarrow> string option \<Rightarrow> outcome" where
  "from_row NoticeCompleted detail = OutCompleted"
| "from_row NoticeErrored detail = OutErrored detail"
| "from_row NoticeStopped detail = OutStopped"
| "from_row NoticeInterrupted detail = OutInterrupted detail"
| "from_row NoticeWaitingForInput detail =
     OutWaitingForInput (case detail of None \<Rightarrow> ''input'' | Some d \<Rightarrow> d)"

record pending_outcome =
  po_side_chat_id :: string
  po_outcome :: outcome
  po_settle :: nat

record stored_outcome =
  so_side_chat_id :: string
  so_outcome :: notice_outcome
  so_detail :: "string option"

definition stored_of_pending :: "pending_outcome \<Rightarrow> stored_outcome" where
  "stored_of_pending p =
     \<lparr>so_side_chat_id = po_side_chat_id p, so_outcome = fst (as_row (po_outcome p)),
      so_detail = snd (as_row (po_outcome p))\<rparr>"

definition pending_of_stored :: "stored_outcome \<Rightarrow> pending_outcome" where
  "pending_of_stored s =
     \<lparr>po_side_chat_id = so_side_chat_id s, po_outcome = from_row (so_outcome s) (so_detail s),
      po_settle = 0\<rparr>"

definition stored_to_json :: "stored_outcome \<Rightarrow> json" where
  "stored_to_json s =
     JObj ([(''sideChatId'', JStr (so_side_chat_id s)),
            (''outcome'', JStr (notice_outcome_slug (so_outcome s)))]
           @ opt_member ''detail'' (so_detail s))"

definition stored_from_json :: "json \<Rightarrow> stored_outcome option" where
  "stored_from_json v =
     (case (str_member ''sideChatId'' v, Option.bind (json_get ''outcome'' v) notice_outcome_from_json,
            opt_str_member ''detail'' v) of
        (Some side, Some outcome, Some detail) \<Rightarrow>
          Some \<lparr>so_side_chat_id = side, so_outcome = outcome, so_detail = detail\<rparr>
      | _ \<Rightarrow> None)"

section \<open>The bookkeeping\<close>

definition SETTLE_HISTORY :: nat where "SETTLE_HISTORY = 1024"
definition NOTICE_DETAIL_MAX :: nat where "NOTICE_DETAIL_MAX = 160"
definition NOTICE_LOOP_CAP :: nat where "NOTICE_LOOP_CAP = 25"
definition NOTICE_ID_PREFIX :: string where "NOTICE_ID_PREFIX = ''notice:''"
definition INTERRUPTED_REASON :: string where "INTERRUPTED_REASON = ''engine restart''"

record settle_mark =
  sm_serial :: nat
  sm_at :: int

text \<open>What a read of the ledger's path gives: no file, an error, bytes that are no JSON, or a
  JSON value.\<close>

datatype ledger_file = NoFile | UnreadableFile | NotJson | LedgerJson json

record notices =
  n_pending :: "(string \<times> pending_outcome list) list"
  n_acks :: "((string \<times> string) \<times> nat) list"
  n_loops :: "(string \<times> nat) list"
  n_stopped_at :: "(string \<times> int) list"
  n_delivering :: "string list"
  n_settles :: "(string \<times> settle_mark list) list"
  n_store :: bool
  n_disk :: ledger_file
  n_disk_ok :: bool

definition fresh_notices :: "ledger_file \<Rightarrow> notices" where
  "fresh_notices disk =
     \<lparr>n_pending = [], n_acks = [], n_loops = [], n_stopped_at = [], n_delivering = [],
      n_settles = [], n_store = False, n_disk = disk, n_disk_ok = True\<rparr>"

definition owed :: "notices \<Rightarrow> string \<Rightarrow> pending_outcome list" where
  "owed s parent = (case map_of (n_pending s) parent of None \<Rightarrow> [] | Some os \<Rightarrow> os)"

subsection \<open>The ledger\<close>

record stored_ledger =
  sl_pending :: "(string \<times> stored_outcome list) list"
  sl_loops :: "(string \<times> nat) list"

definition ledger_snapshot :: "notices \<Rightarrow> stored_ledger" where
  "ledger_snapshot s =
     \<lparr>sl_pending = map (\<lambda>(parent, os). (parent, map stored_of_pending os)) (n_pending s),
      sl_loops = n_loops s\<rparr>"

definition ledger_to_json :: "stored_ledger \<Rightarrow> json" where
  "ledger_to_json l =
     JObj ([(''pending'', JObj (map (\<lambda>(parent, rows). (parent, JArr (map stored_to_json rows))) (sl_pending l)))]
           @ (if sl_loops l = [] then []
              else [(''loops'', JObj (map (\<lambda>(parent, n). (parent, JInt (int n))) (sl_loops l)))]))"

definition persist :: "notices \<Rightarrow> notices" where
  "persist s =
     (if n_store s \<and> n_disk_ok s
      then s\<lparr>n_disk := LedgerJson (ledger_to_json (ledger_snapshot s))\<rparr> else s)"

definition pending_from_json :: "json \<Rightarrow> (string \<times> stored_outcome list) list option" where
  "pending_from_json v =
     Option.bind (json_members v) (traverse (\<lambda>(parent, rows).
       map_option (Pair parent) (Option.bind (json_elems rows) (traverse stored_from_json))))"

definition loops_from_json :: "json \<Rightarrow> (string \<times> nat) list option" where
  "loops_from_json v =
     Option.bind (json_members v) (traverse (\<lambda>(parent, n). map_option (Pair parent) (json_u32 n)))"

text \<open>The wrapped form, and the older bare map of parents to rows.\<close>

definition ledger_from_json :: "json \<Rightarrow> stored_ledger option" where
  "ledger_from_json v =
     (case json_get ''pending'' v of
        Some pv \<Rightarrow>
          (case (pending_from_json pv,
                 case json_get ''loops'' v of None \<Rightarrow> Some [] | Some lv \<Rightarrow> loops_from_json lv) of
             (Some pending, Some loops) \<Rightarrow> Some \<lparr>sl_pending = pending, sl_loops = loops\<rparr>
           | _ \<Rightarrow> None)
      | None \<Rightarrow> map_option (\<lambda>pending. \<lparr>sl_pending = pending, sl_loops = []\<rparr>) (pending_from_json v))"

definition extend_pending :: "string \<times> stored_outcome list \<Rightarrow> notices \<Rightarrow> notices" where
  "extend_pending row s =
     s\<lparr>n_pending := AList.update (fst row) (owed s (fst row) @ map pending_of_stored (snd row)) (n_pending s)\<rparr>"

definition load :: "notices \<Rightarrow> notices" where
  "load s0 =
     (let s = s0\<lparr>n_store := True\<rparr>
      in case n_disk s of
           NoFile \<Rightarrow> s
         | UnreadableFile \<Rightarrow> s
         | NotJson \<Rightarrow> s
         | LedgerJson v \<Rightarrow>
             (case ledger_from_json v of
                None \<Rightarrow> s
              | Some l \<Rightarrow>
                  (let s' = fold extend_pending (sl_pending l) s
                   in s'\<lparr>n_loops := fold (\<lambda>(parent, n). AList.update parent n) (sl_loops l) (n_loops s')\<rparr>)))"

subsection \<open>Recording, taking, acknowledging\<close>

definition record_outcome :: "string \<Rightarrow> pending_outcome \<Rightarrow> notices \<Rightarrow> notices" where
  "record_outcome parent o1 s =
     (if (case map_of (n_acks s) (parent, po_side_chat_id o1) of
            None \<Rightarrow> False | Some watermark \<Rightarrow> po_settle o1 \<le> watermark)
      then s
      else persist (s\<lparr>n_pending := AList.update parent (owed s parent @ [o1]) (n_pending s)\<rparr>))"

definition take_for_delivery :: "string \<Rightarrow> notices \<Rightarrow> pending_outcome list option \<times> notices" where
  "take_for_delivery parent s =
     (let outcomes = (case map_of (n_pending s) parent of
            None \<Rightarrow> None | Some os \<Rightarrow> if os = [] then None else Some os);
          s' = s\<lparr>n_pending := AList.delete parent (n_pending s)\<rparr>
      in (outcomes, if outcomes = None then s' else persist s'))"

definition requeue :: "string \<Rightarrow> pending_outcome list \<Rightarrow> notices \<Rightarrow> notices" where
  "requeue parent outcomes s =
     (if outcomes = [] then s
      else persist (s\<lparr>n_pending := AList.update parent
        (fold (\<lambda>o1 os. insert_at 0 o1 os) (rev outcomes) (owed s parent)) (n_pending s)\<rparr>))"

definition drop_for :: "string \<Rightarrow> notices \<Rightarrow> notices" where
  "drop_for parent s =
     (case map_of (n_pending s) parent of
        None \<Rightarrow> s
      | Some _ \<Rightarrow> persist (s\<lparr>n_pending := AList.delete parent (n_pending s)\<rparr>))"

definition parents :: "notices \<Rightarrow> string list" where
  "parents s = map fst (n_pending s)"

definition settle_marks :: "notices \<Rightarrow> string \<Rightarrow> settle_mark list" where
  "settle_marks s chat = (case map_of (n_settles s) chat of None \<Rightarrow> [] | Some ms \<Rightarrow> ms)"

definition last_serial :: "settle_mark list \<Rightarrow> nat" where
  "last_serial marks = (if marks = [] then 0 else sm_serial (last marks))"

definition settle :: "string \<Rightarrow> int \<Rightarrow> notices \<Rightarrow> nat \<times> notices" where
  "settle chat now s =
     (let marks = settle_marks s chat;
          serial = last_serial marks + 1;
          marks = marks @ [\<lparr>sm_serial = serial, sm_at = now\<rparr>];
          marks = (if SETTLE_HISTORY < length marks then tl marks else marks)
      in (serial, s\<lparr>n_settles := AList.update chat marks (n_settles s)\<rparr>))"

definition settle_serial :: "notices \<Rightarrow> string \<Rightarrow> nat" where
  "settle_serial s chat = last_serial (settle_marks s chat)"

definition serial_observed_at :: "notices \<Rightarrow> string \<Rightarrow> int \<Rightarrow> nat" where
  "serial_observed_at s chat observed_at =
     (case find (\<lambda>m. sm_at m \<le> observed_at) (rev (settle_marks s chat)) of
        None \<Rightarrow> 0 | Some m \<Rightarrow> sm_serial m)"

definition ack :: "string \<Rightarrow> string \<Rightarrow> int option \<Rightarrow> notices \<Rightarrow> nat \<times> notices" where
  "ack parent side_chat observed_at s =
     (let watermark = (case observed_at of
            Some at \<Rightarrow> serial_observed_at s side_chat at | None \<Rightarrow> settle_serial s side_chat);
          kept = filter (\<lambda>o1. \<not> (po_side_chat_id o1 = side_chat \<and> po_settle o1 \<le> watermark)) (owed s parent);
          pending = (case map_of (n_pending s) parent of
            None \<Rightarrow> n_pending s
          | Some _ \<Rightarrow> if kept = [] then AList.delete parent (n_pending s)
                       else AList.update parent kept (n_pending s))
      in (watermark, persist (s\<lparr>n_pending := pending,
            n_acks := AList.update (parent, side_chat) watermark (n_acks s)\<rparr>)))"

definition begin_delivery :: "string \<Rightarrow> notices \<Rightarrow> bool \<times> notices" where
  "begin_delivery parent s =
     (parent \<notin> set (n_delivering s), s\<lparr>n_delivering := List.insert parent (n_delivering s)\<rparr>)"

definition end_delivery :: "string \<Rightarrow> notices \<Rightarrow> notices" where
  "end_delivery parent s = s\<lparr>n_delivering := removeAll parent (n_delivering s)\<rparr>"

subsection \<open>The loop cap and Stop\<close>

definition loop_turns :: "notices \<Rightarrow> string \<Rightarrow> nat" where
  "loop_turns s parent = (case map_of (n_loops s) parent of None \<Rightarrow> 0 | Some n \<Rightarrow> n)"

definition notice_turn_started :: "string \<Rightarrow> notices \<Rightarrow> notices" where
  "notice_turn_started parent s =
     persist (s\<lparr>n_loops := AList.update parent (loop_turns s parent + 1) (n_loops s)\<rparr>)"

definition loop_cap_reached :: "notices \<Rightarrow> string \<Rightarrow> bool" where
  "loop_cap_reached s parent \<longleftrightarrow> NOTICE_LOOP_CAP \<le> loop_turns s parent"

definition parent_stopped_at :: "notices \<Rightarrow> string \<Rightarrow> int option" where
  "parent_stopped_at s parent = map_of (n_stopped_at s) parent"

definition note_stop :: "string \<Rightarrow> int \<Rightarrow> notices \<Rightarrow> notices" where
  "note_stop parent at s = s\<lparr>n_stopped_at := AList.update parent at (n_stopped_at s)\<rparr>"

definition note_user_message :: "string \<Rightarrow> notices \<Rightarrow> notices" where
  "note_user_message parent s =
     (case map_of (n_loops s) parent of
        None \<Rightarrow> s
      | Some _ \<Rightarrow> persist (s\<lparr>n_loops := AList.delete parent (n_loops s)\<rparr>))"

text \<open>\<open>SessionsEngine::note_loop_counter\<close>\<close>

definition note_loop_counter :: "string \<Rightarrow> string \<Rightarrow> string option \<Rightarrow> notices \<Rightarrow> notices" where
  "note_loop_counter chat message_id origin s =
     (if prefix NOTICE_ID_PREFIX message_id then notice_turn_started chat s
      else if origin = None then note_user_message chat s else s)"

section \<open>The notice's wording\<close>

definition one_line :: "string option \<Rightarrow> string option" where
  "one_line t =
     (case t of None \<Rightarrow> None | Some raw \<Rightarrow>
        (let body = trim raw
         in if body = [] then None
            else let line = trim_end (case find (\<lambda>l. \<not> blank l) (text_lines body) of
                     Some l \<Rightarrow> l | None \<Rightarrow> body)
                 in if char_count line \<le> NOTICE_DETAIL_MAX then Some line
                    else Some (take_chars NOTICE_DETAIL_MAX line @ ellipsis)))"

definition question_summary :: "user_input_question list \<Rightarrow> string" where
  "question_summary questions =
     (let body = (case questions of
            [] \<Rightarrow> ''input''
          | q # _ \<Rightarrow> if blank (q_question q) then q_header q else q_question q)
      in case one_line (Some body) of None \<Rightarrow> ''input'' | Some l \<Rightarrow> l)"

definition with_detail :: "notice_side \<Rightarrow> string \<Rightarrow> string" where
  "with_detail side verb = (case ns_detail side of Some d \<Rightarrow> verb @ '': '' @ d | None \<Rightarrow> verb)"

definition short_id :: "string \<Rightarrow> string" where
  "short_id i = take (floor_boundary i (min (length i) 8)) i"

definition side_line :: "notice_side \<Rightarrow> string" where
  "side_line side =
     (let verb = notice_verb (ns_outcome side);
          outcome = (if ns_outcome side = NoticeCompleted \<or> ns_outcome side = NoticeStopped
                     then verb else with_detail side verb)
      in ''\"'' @ ns_title side @ ''\" ('' @ short_id (ns_chat_id side) @ '') '' @ outcome)"

definition read_line :: "notice_side list \<Rightarrow> string" where
  "read_line sides =
     (case sides of
        [only] \<Rightarrow> ''Read the full result with the Roboco `read_chat` tool, chat ''
          @ short_id (ns_chat_id only) @ ''.''
      | _ \<Rightarrow> ''Read each chat's full result with the Roboco `read_chat` tool.'')"

definition notice_text :: "notice_side list \<Rightarrow> string" where
  "notice_text sides =
     join_with [CHR 0x0A]
       ((case sides of
           [] \<Rightarrow> [''Side chats reached outcomes.'']
         | [only] \<Rightarrow> [''Side chat '' @ side_line only @ ''.'']
         | many \<Rightarrow> (show_nat (length many) @ '' side chats reached outcomes:'')
                    # map (\<lambda>side. ''- '' @ side_line side @ ''.'') many)
        @ [read_line sides])"

definition notice_entry ::
    "string \<Rightarrow> int \<Rightarrow> string \<Rightarrow> notice_side list \<Rightarrow> string \<Rightarrow> message_entry" where
  "notice_entry new_id now device_id sides body =
     \<lparr>e_id = NOTICE_ID_PREFIX @ new_id, e_role = SystemRole,
      e_parts = [CompletionNoticePart ''n0'' sides, TextPart ''t0'' body],
      e_created_at = now, e_device_id = device_id, e_status = Some Complete,
      e_continuation_of = None, e_duration_ms = None, e_origin_chat_id = None,
      e_provider_turn = None\<rparr>"


section \<open>Delivery\<close>

text \<open>
  What delivery reads from the rest of the engine: the shutdown flag, the parent's turn
  state (read twice, and other tasks may change it in between), chat rows, whether a host,
  a request and the document are there, and whether the entry write and the dispatch
  succeed.
\<close>

record chat_row =
  cr_archived :: bool
  cr_title :: "string option"
  cr_agent_origin :: "(bool \<times> string) option" \<comment> \<open>notify, chat id\<close>

datatype chat_read = ChatRow chat_row | ChatGone | RowUnreadable

record delivery_env =
  de_shutting_down :: bool
  de_turn_in_flight :: bool
  de_turn_in_flight_late :: bool
  de_host :: bool
  de_chat :: "string \<Rightarrow> chat_read"
  de_row_request :: bool
  de_last_request :: bool
  de_open :: bool
  de_push_ok :: bool
  de_dispatch_counts :: bool \<comment> \<open>the dispatch reached its loop bookkeeping\<close>
  de_new_id :: string
  de_now :: int
  de_device_id :: string

record 'c parent_state =
  ps_notices :: notices
  ps_queue :: 'c
  ps_paused :: bool
  ps_entries :: "message_entry list"
  ps_dispatched :: "(string \<times> string) list" \<comment> \<open>message id and prompt\<close>

definition chat_archived :: "delivery_env \<Rightarrow> string \<Rightarrow> bool" where
  "chat_archived env chat =
     (if \<not> de_host env then False
      else case de_chat env chat of
        ChatRow row \<Rightarrow> cr_archived row | ChatGone \<Rightarrow> True | RowUnreadable \<Rightarrow> False)"

definition side_row :: "delivery_env \<Rightarrow> pending_outcome \<Rightarrow> notice_side" where
  "side_row env o1 =
     (let title = (case de_chat env (po_side_chat_id o1) of
            ChatRow row \<Rightarrow> (case cr_title row of None \<Rightarrow> None
              | Some t \<Rightarrow> if trim t = [] then None else Some (trim t))
          | _ \<Rightarrow> None);
          (recorded, detail) = as_row (po_outcome o1)
      in \<lparr>ns_chat_id = po_side_chat_id o1,
          ns_title = (case title of Some t \<Rightarrow> t | None \<Rightarrow> ''Side chat''),
          ns_outcome = recorded, ns_detail = detail\<rparr>)"

fun remove_all_queued :: "'c queue_ops \<Rightarrow> string list \<Rightarrow> 'c \<Rightarrow> 'c" where
  "remove_all_queued ops [] c = c"
| "remove_all_queued ops (i # is) c =
     remove_all_queued ops is (case remove_queued ops i c of Inl _ \<Rightarrow> c | Inr (_, c') \<Rightarrow> c')"

definition drop_parked_notices :: "'c queue_ops \<Rightarrow> delivery_env \<Rightarrow> 'c parent_state \<Rightarrow> 'c parent_state" where
  "drop_parked_notices ops env w =
     (if \<not> de_host env \<or> \<not> de_open env then w
      else w\<lparr>ps_queue := remove_all_queued ops
             (map qm_id (filter (\<lambda>row. prefix NOTICE_ID_PREFIX (qm_id row)) (read_queue ops (ps_queue w))))
             (ps_queue w)\<rparr>)"

definition parked_row :: "delivery_env \<Rightarrow> string \<Rightarrow> notice_side list \<Rightarrow> queued_message" where
  "parked_row env body sides =
     \<lparr>qm_id = NOTICE_ID_PREFIX @ de_new_id env, qm_text = body, qm_attachments = [],
      qm_hold_for_turn_end = False, qm_issued_by = de_device_id env, qm_issued_at = de_now env,
      qm_edited_at = None, qm_delivery_gate = None, qm_origin_chat_id = None,
      qm_completion_notice = Some sides\<rparr>"

definition sides_of :: "queued_message \<Rightarrow> notice_side list" where
  "sides_of row = (case qm_completion_notice row of None \<Rightarrow> [] | Some sides \<Rightarrow> sides)"

definition merged_row :: "queued_message \<Rightarrow> notice_side list \<Rightarrow> queued_message" where
  "merged_row old sides =
     old\<lparr>qm_text := notice_text (sides_of old @ sides),
         qm_completion_notice := Some (sides_of old @ sides)\<rparr>"

definition park_notice ::
    "'c queue_ops \<Rightarrow> delivery_env \<Rightarrow> string \<Rightarrow> string \<Rightarrow> notice_side list \<Rightarrow> pending_outcome list
      \<Rightarrow> 'c parent_state \<Rightarrow> 'c parent_state" where
  "park_notice ops env parent body sides outcomes w =
     (if \<not> de_open env then w\<lparr>ps_notices := requeue parent outcomes (ps_notices w)\<rparr>
      else
        let w = w\<lparr>ps_paused := True\<rparr>;
            row = parked_row env body sides;
            rows = read_queue ops (ps_queue w);
            parked =
              (case position (\<lambda>row. prefix NOTICE_ID_PREFIX (qm_id row)) rows of
                 Some ix \<Rightarrow>
                   (case remove_queued ops (qm_id (rows ! ix)) (ps_queue w) of
                      Inl _ \<Rightarrow> (False, ps_queue w)
                    | Inr (_, c1) \<Rightarrow>
                        (case insert_queued ops ix (merged_row (rows ! ix) sides) c1 of
                           Inl _ \<Rightarrow> (False, c1)
                         | Inr c2 \<Rightarrow> (True, c2)))
               | None \<Rightarrow>
                   (case push_queued ops row (ps_queue w) of
                      Inl _ \<Rightarrow> (False, ps_queue w) | Inr c1 \<Rightarrow> (True, c1)));
            w = w\<lparr>ps_queue := snd parked\<rparr>
        in if fst parked then w else w\<lparr>ps_notices := requeue parent outcomes (ps_notices w)\<rparr>)"

text \<open>The body of \<open>deliver\<close> under the single-flight guard.\<close>

definition deliver_guarded :: "'c queue_ops \<Rightarrow> delivery_env \<Rightarrow> string \<Rightarrow> 'c parent_state \<Rightarrow> 'c parent_state" where
  "deliver_guarded ops env parent w =
     (if de_turn_in_flight env then w
      else if chat_archived env parent then
        drop_parked_notices ops env (w\<lparr>ps_notices := drop_for parent (ps_notices w)\<rparr>)
      else
        let (taken, ns) = take_for_delivery parent (ps_notices w);
            w = w\<lparr>ps_notices := ns\<rparr>
        in case taken of
             None \<Rightarrow> w
           | Some outcomes \<Rightarrow>
               let held = w\<lparr>ps_notices := requeue parent outcomes (ps_notices w)\<rparr>;
                   sides = map (side_row env) outcomes;
                   body = notice_text sides
               in if \<not> de_host env then held
                  else if loop_cap_reached (ps_notices w) parent
                  then park_notice ops env parent body sides outcomes w
                  else if \<not> de_row_request env \<and> \<not> de_last_request env then held
                  else if \<not> de_open env then held
                  else if de_turn_in_flight_late env then held
                  else if \<not> de_push_ok env then held
                  else let entry = notice_entry (de_new_id env) (de_now env) (de_device_id env) sides body
                       in w\<lparr>ps_entries := ps_entries w @ [entry],
                            ps_dispatched := ps_dispatched w @ [(e_id entry, body)],
                            ps_notices := (if de_dispatch_counts env
                              then note_loop_counter parent (e_id entry) None (ps_notices w)
                              else ps_notices w)\<rparr>)"

definition deliver :: "'c queue_ops \<Rightarrow> delivery_env \<Rightarrow> string \<Rightarrow> 'c parent_state \<Rightarrow> 'c parent_state" where
  "deliver ops env parent w =
     (if de_shutting_down env then w
      else let (begun, ns) = begin_delivery parent (ps_notices w);
               w = w\<lparr>ps_notices := ns\<rparr>
           in if \<not> begun then w
              else let w = deliver_guarded ops env parent w
                   in w\<lparr>ps_notices := end_delivery parent (ps_notices w)\<rparr>)"

definition record_and_deliver ::
    "'c queue_ops \<Rightarrow> delivery_env \<Rightarrow> string \<Rightarrow> string \<Rightarrow> nat \<Rightarrow> outcome \<Rightarrow> 'c parent_state \<Rightarrow> 'c parent_state" where
  "record_and_deliver ops env side_chat parent serial out w =
     (if chat_archived env side_chat \<or> chat_archived env parent then w
      else deliver ops env parent
        (w\<lparr>ps_notices := record_outcome parent
             \<lparr>po_side_chat_id = side_chat, po_outcome = out, po_settle = serial\<rparr> (ps_notices w)\<rparr>))"

section \<open>Claims of live runs\<close>

text \<open>Each live run's notifiable parent; \<open>suppress_notifiable_runs\<close> and \<open>mark_notifiable\<close>
  of \<open>sessions.rs\<close>.\<close>

type_synonym run_claims = "(string \<times> (string \<times> string option)) list" \<comment> \<open>chat, (run id, claim)\<close>

definition suppress_notifiable_runs :: "string \<Rightarrow> run_claims \<Rightarrow> run_claims" where
  "suppress_notifiable_runs parent runs =
     map (\<lambda>(chat, run, claim). (chat, run, if claim = Some parent then None else claim)) runs"

definition notifiable_parent_for ::
    "chat_read \<Rightarrow> notices \<Rightarrow> string option \<Rightarrow> int option \<Rightarrow> string option" where
  "notifiable_parent_for row s origin sent_at =
     (case origin of None \<Rightarrow> None | Some from_chat \<Rightarrow>
        (case row of
           ChatRow r \<Rightarrow>
             (case cr_agent_origin r of
                None \<Rightarrow> None
              | Some (notify, parent) \<Rightarrow>
                  (if \<not> notify then None
                   else if parent \<noteq> from_chat then None
                   else if (case sent_at of None \<Rightarrow> True | Some at \<Rightarrow>
                          (case parent_stopped_at s parent of None \<Rightarrow> True | Some stop \<Rightarrow> stop < at))
                   then Some parent else None))
         | _ \<Rightarrow> None))"

definition mark_notifiable ::
    "bool \<Rightarrow> chat_read \<Rightarrow> notices \<Rightarrow> string \<Rightarrow> string \<Rightarrow> string option \<Rightarrow> int option \<Rightarrow> run_claims \<Rightarrow> run_claims" where
  "mark_notifiable mid_turn row s chat run_id origin sent_at runs =
     (let from_parent = notifiable_parent_for row s origin sent_at
      in case map_of runs chat of
           None \<Rightarrow> runs
         | Some (run, current) \<Rightarrow>
             (if run \<noteq> run_id then runs
              else AList.update chat (run, if mid_turn \<and> from_parent = None then current else from_parent) runs))"

definition stop_parent ::
    "'c queue_ops \<Rightarrow> delivery_env \<Rightarrow> string \<Rightarrow> 'c parent_state \<Rightarrow> run_claims \<Rightarrow> 'c parent_state \<times> run_claims" where
  "stop_parent ops env parent w runs =
     (let ns = note_user_message parent (drop_for parent (note_stop parent (de_now env) (ps_notices w)))
      in (drop_parked_notices ops env (w\<lparr>ps_notices := ns\<rparr>), suppress_notifiable_runs parent runs))"


section \<open>Round trips of the ledger\<close>

lemma from_row_as_row [simp]: "from_row (fst (as_row o1)) (snd (as_row o1)) = o1"
  by (cases o1) simp_all

definition forget_settle :: "pending_outcome \<Rightarrow> pending_outcome" where
  "forget_settle p = p\<lparr>po_settle := 0\<rparr>"

lemma pending_of_stored_of_pending [simp]: "pending_of_stored (stored_of_pending p) = forget_settle p"
  by (simp add: pending_of_stored_def stored_of_pending_def forget_settle_def)

lemma stored_json_roundtrip [simp]: "stored_from_json (stored_to_json s) = Some s"
  by (cases "so_detail s")
    (simp_all add: stored_from_json_def stored_to_json_def str_member_def opt_str_member_def opt_member_def)

definition loops_u32 :: "(string \<times> nat) list \<Rightarrow> bool" where
  "loops_u32 loops \<longleftrightarrow> list_all (\<lambda>(p, n). n < 2 ^ 32) loops"

lemma traverse_pairs:
  "(\<And>k v. (k, v) \<in> set kvs \<Longrightarrow> f (g v) = Some v) \<Longrightarrow>
    traverse (\<lambda>(k, w). map_option (Pair k) (f w)) (map (\<lambda>(k, v). (k, g v)) kvs) = Some kvs"
  by (induction kvs) (fastforce split: option.splits)+

lemma ledger_json_roundtrip:
  assumes "loops_u32 (sl_loops l)"
  shows "ledger_from_json (ledger_to_json l) = Some l"
proof -
  have pending: "pending_from_json (JObj (map (\<lambda>(p, rows). (p, JArr (map stored_to_json rows))) (sl_pending l)))
      = Some (sl_pending l)"
    unfolding pending_from_json_def
    using traverse_pairs [where f = "\<lambda>rows. Option.bind (json_elems rows) (traverse stored_from_json)"
        and g = "\<lambda>rows. JArr (map stored_to_json rows)" and kvs = "sl_pending l"]
    by (simp add: traverse_map)
  have "json_u32 (JInt (int n)) = Some n" if "(p, n) \<in> set (sl_loops l)" for p n
    using assms that by (auto simp: loops_u32_def list_all_iff json_u32_def)
  then have loops: "loops_from_json (JObj (map (\<lambda>(p, n). (p, JInt (int n))) (sl_loops l))) = Some (sl_loops l)"
    unfolding loops_from_json_def
    using traverse_pairs [where f = json_u32 and g = "\<lambda>n. JInt (int n)" and kvs = "sl_loops l"] by simp
  show ?thesis
    using pending loops by (auto simp: ledger_from_json_def ledger_to_json_def)
qed

section \<open>The bookkeeping's invariant\<close>

text \<open>
  Keys are unique, no parent is kept with nothing owed, and the file mirrors the pending
  outcomes and the loop counters whenever writes succeed.
\<close>

definition notices_wf :: "notices \<Rightarrow> bool" where
  "notices_wf s \<longleftrightarrow> distinct (map fst (n_pending s)) \<and> distinct (map fst (n_loops s))
     \<and> [] \<notin> snd ` set (n_pending s)"

definition mirrored :: "notices \<Rightarrow> bool" where
  "mirrored s \<longleftrightarrow>
     (case n_disk s of
        NoFile \<Rightarrow> n_pending s = [] \<and> n_loops s = []
      | LedgerJson v \<Rightarrow> v = ledger_to_json (ledger_snapshot s)
      | _ \<Rightarrow> False)"

definition durable :: "notices \<Rightarrow> bool" where
  "durable s \<longleftrightarrow> notices_wf s \<and> (n_store s \<and> n_disk_ok s \<longrightarrow> mirrored s)"

datatype notice_op =
    OpRecord string pending_outcome
  | OpTake string
  | OpRequeue string "pending_outcome list"
  | OpDrop string
  | OpSettle string int
  | OpAck string string "int option"
  | OpBegin string
  | OpEnd string
  | OpTurnStarted string
  | OpStop string int
  | OpUserMessage string

fun notice_step :: "notices \<Rightarrow> notice_op \<Rightarrow> notices" where
  "notice_step s (OpRecord p o1) = record_outcome p o1 s"
| "notice_step s (OpTake p) = snd (take_for_delivery p s)"
| "notice_step s (OpRequeue p os) = requeue p os s"
| "notice_step s (OpDrop p) = drop_for p s"
| "notice_step s (OpSettle c now) = snd (settle c now s)"
| "notice_step s (OpAck p c at) = snd (ack p c at s)"
| "notice_step s (OpBegin p) = snd (begin_delivery p s)"
| "notice_step s (OpEnd p) = end_delivery p s"
| "notice_step s (OpTurnStarted p) = notice_turn_started p s"
| "notice_step s (OpStop p at) = note_stop p at s"
| "notice_step s (OpUserMessage p) = note_user_message p s"

lemma persist_fields [simp]:
  "n_pending (persist s) = n_pending s" "n_loops (persist s) = n_loops s" "n_acks (persist s) = n_acks s"
  "n_settles (persist s) = n_settles s" "n_stopped_at (persist s) = n_stopped_at s"
  "n_delivering (persist s) = n_delivering s" "n_store (persist s) = n_store s"
  "n_disk_ok (persist s) = n_disk_ok s" "owed (persist s) = owed s"
  by (simp_all add: persist_def owed_def fun_eq_iff)

lemma persist_durable: "notices_wf s \<Longrightarrow> durable (persist s)"
  by (auto simp: durable_def notices_wf_def mirrored_def persist_def ledger_snapshot_def)

lemma durable_wf: "durable s \<Longrightarrow> notices_wf s"
  by (simp add: durable_def)

text \<open>An update that touches neither the pending outcomes nor the counters.\<close>

lemma durable_other:
  assumes "durable s" "n_pending s' = n_pending s" "n_loops s' = n_loops s" "n_disk s' = n_disk s"
    and "n_store s' = n_store s" "n_disk_ok s' = n_disk_ok s"
  shows "durable s'"
  using assms by (simp add: durable_def notices_wf_def mirrored_def ledger_snapshot_def split: ledger_file.splits)

lemma snd_update: "snd ` set (AList.update k v m) \<subseteq> insert v (snd ` set m)"
  by (induction m) auto

lemma snd_delete: "snd ` set (AList.delete k m) \<subseteq> snd ` set m"
  by (induction m) auto

lemma wf_update_pending:
  "notices_wf s \<Longrightarrow> os \<noteq> [] \<Longrightarrow> notices_wf (s\<lparr>n_pending := AList.update p os (n_pending s)\<rparr>)"
  using snd_update [of p os "n_pending s"] by (auto simp: notices_wf_def distinct_update)

lemma wf_delete_pending:
  "notices_wf s \<Longrightarrow> notices_wf (s\<lparr>n_pending := AList.delete p (n_pending s)\<rparr>)"
  using snd_delete [of p "n_pending s"] by (auto simp: notices_wf_def distinct_delete)

lemma wf_nonempty: "notices_wf s \<Longrightarrow> map_of (n_pending s) p \<noteq> Some []"
  by (auto simp: notices_wf_def dest!: map_of_SomeD) (metis image_eqI snd_conv)

lemma requeue_order: "fold (\<lambda>o1 os. insert_at 0 o1 os) (rev outcomes) os = outcomes @ os"
  by (induction outcomes arbitrary: os rule: rev_induct) simp_all

lemma requeue_eq:
  "requeue p outcomes s = (if outcomes = [] then s
    else persist (s\<lparr>n_pending := AList.update p (outcomes @ owed s p) (n_pending s)\<rparr>))"
  unfolding requeue_def requeue_order ..

lemma durable_take: "durable s \<Longrightarrow> durable (snd (take_for_delivery p s))"
proof (cases "map_of (n_pending s) p")
  case None
  then have "AList.delete p (n_pending s) = n_pending s"
    by (intro delete_id) (simp add: map_of_eq_None_iff)
  moreover assume "durable s"
  ultimately show ?thesis using None by (simp add: take_for_delivery_def)
next
  case (Some os)
  assume "durable s"
  with Some wf_nonempty [of s p] have "os \<noteq> []" by (auto dest: durable_wf)
  with Some \<open>durable s\<close> show ?thesis
    by (simp add: take_for_delivery_def Let_def persist_durable wf_delete_pending durable_wf)
qed

lemma durable_ack: "durable s \<Longrightarrow> durable (snd (ack p c at s))"
proof -
  assume "durable s"
  define wm where "wm = fst (ack p c at s)"
  define kept where "kept = filter (\<lambda>o1. \<not> (po_side_chat_id o1 = c \<and> po_settle o1 \<le> wm)) (owed s p)"
  define acks where "acks = AList.update (p, c) wm (n_acks s)"
  have wf: "notices_wf (s'\<lparr>n_acks := acks\<rparr>)" if "notices_wf s'" for s'
    using that by (simp add: notices_wf_def)
  have "snd (ack p c at s) = persist ((case map_of (n_pending s) p of
      None \<Rightarrow> s
    | Some _ \<Rightarrow> if kept = [] then s\<lparr>n_pending := AList.delete p (n_pending s)\<rparr>
                 else s\<lparr>n_pending := AList.update p kept (n_pending s)\<rparr>)\<lparr>n_acks := acks\<rparr>)"
    by (simp add: ack_def Let_def wm_def kept_def acks_def split: option.splits)
  moreover have "notices_wf s" using \<open>durable s\<close> by (rule durable_wf)
  ultimately show ?thesis
    by (auto intro!: persist_durable wf wf_delete_pending wf_update_pending split: option.splits)
qed

lemma notice_step_durable: "durable s \<Longrightarrow> durable (notice_step s op)"
proof (cases op)
  case (OpTake p)
  then show "durable s \<Longrightarrow> ?thesis" by (simp add: durable_take)
next
  case (OpAck p c at)
  then show "durable s \<Longrightarrow> ?thesis" by (simp add: durable_ack)
next
  case (OpTurnStarted p)
  then show "durable s \<Longrightarrow> ?thesis"
    by (auto simp: notice_turn_started_def notices_wf_def distinct_update dest!: durable_wf intro!: persist_durable)
next
  case (OpUserMessage p)
  then show "durable s \<Longrightarrow> ?thesis"
    by (auto simp: note_user_message_def notices_wf_def distinct_delete dest: durable_wf
        intro!: persist_durable split: option.splits)
next
  case (OpSettle c now)
  then show "durable s \<Longrightarrow> ?thesis"
    by (auto simp: settle_def Let_def intro: durable_other)
next
  case (OpBegin p)
  then show "durable s \<Longrightarrow> ?thesis" by (auto simp: begin_delivery_def intro: durable_other)
next
  case (OpEnd p)
  then show "durable s \<Longrightarrow> ?thesis" by (auto simp: end_delivery_def intro: durable_other)
next
  case (OpStop p at)
  then show "durable s \<Longrightarrow> ?thesis" by (auto simp: note_stop_def intro: durable_other)
qed (auto simp: record_outcome_def requeue_eq drop_for_def split: option.splits
    intro!: persist_durable wf_update_pending wf_delete_pending dest: durable_wf)

interpretation bookkeeping: invariant_machine notice_step durable
  by unfold_locales (rule notice_step_durable)


section \<open>Restart\<close>

lemma fold_extend_pending:
  "distinct (map fst (n_pending s) @ map fst rows) \<Longrightarrow>
    fold extend_pending rows s =
      s\<lparr>n_pending := n_pending s @ map (\<lambda>(p, r). (p, map pending_of_stored r)) rows\<rparr>"
proof (induction rows arbitrary: s)
  case (Cons row rows)
  then have fresh: "fst row \<notin> fst ` set (n_pending s)" by auto
  then have "map_of (n_pending s) (fst row) = None" by (simp add: map_of_eq_None_iff)
  then have "owed s (fst row) = []" by (simp add: owed_def)
  with fresh have "extend_pending row s =
      s\<lparr>n_pending := n_pending s @ [(fst row, map pending_of_stored (snd row))]\<rparr>"
    by (simp add: extend_pending_def update_fresh)
  with Cons show ?case by (simp add: split_def)
qed simp

lemma fold_update_fresh:
  "distinct (map fst m @ map fst kvs) \<Longrightarrow> fold (\<lambda>(k, v). AList.update k v) kvs m = m @ kvs"
proof (induction kvs arbitrary: m)
  case (Cons kv kvs)
  then show ?case by (cases kv) (simp add: update_fresh)
qed simp

lemma load_mirror:
  assumes "notices_wf s" "mirrored s" "loops_u32 (n_loops s)"
  shows "n_pending (load (fresh_notices (n_disk s))) =
      map (\<lambda>(p, os). (p, map forget_settle os)) (n_pending s)"
    and "n_loops (load (fresh_notices (n_disk s))) = n_loops s"
proof -
  have "n_pending (load (fresh_notices (n_disk s))) = map (\<lambda>(p, os). (p, map forget_settle os)) (n_pending s)
    \<and> n_loops (load (fresh_notices (n_disk s))) = n_loops s"
  proof (cases "n_disk s = NoFile")
    case True
    with assms(2) show ?thesis by (simp add: mirrored_def load_def fresh_notices_def)
  next
    case False
    with assms(2) have disk: "n_disk s = LedgerJson (ledger_to_json (ledger_snapshot s))"
      by (cases "n_disk s") (simp_all add: mirrored_def)
    have dec: "ledger_from_json (ledger_to_json (ledger_snapshot s)) = Some (ledger_snapshot s)"
      using assms(3) by (intro ledger_json_roundtrip) (simp add: ledger_snapshot_def)
    have keys: "map fst (sl_pending (ledger_snapshot s)) = map fst (n_pending s)"
      by (simp add: ledger_snapshot_def split_def comp_def)
    have loops: "sl_loops (ledger_snapshot s) = n_loops s" by (simp add: ledger_snapshot_def)
    show ?thesis
      using assms(1) unfolding load_def disk
      by (simp add: fresh_notices_def dec fold_extend_pending keys loops notices_wf_def fold_update_fresh Let_def)
        (simp add: ledger_snapshot_def split_def comp_def)
  qed
  then show "n_pending (load (fresh_notices (n_disk s))) =
      map (\<lambda>(p, os). (p, map forget_settle os)) (n_pending s)"
    and "n_loops (load (fresh_notices (n_disk s))) = n_loops s" by auto
qed

lemma first_boot_durable: "durable (load (fresh_notices NoFile))"
  by (simp add: load_def fresh_notices_def durable_def notices_wf_def mirrored_def)

lemma notice_step_store [simp]:
  "n_store (notice_step s op) = n_store s" "n_disk_ok (notice_step s op) = n_disk_ok s"
  by (cases op; simp add: record_outcome_def take_for_delivery_def requeue_def drop_for_def settle_def
      ack_def begin_delivery_def end_delivery_def notice_turn_started_def note_stop_def
      note_user_message_def Let_def split: option.splits)+

lemma run_store: "n_store (foldl notice_step s ops) = n_store s" "n_disk_ok (foldl notice_step s ops) = n_disk_ok s"
  by (induction ops arbitrary: s) simp_all

text \<open>C16: whatever was recorded, taken, requeued, acknowledged or counted since the first
  boot, an engine restarted on the ledger owes every parent the same outcomes, in the same
  order, with settle serials forgotten, and the loop cap stands where it was.\<close>

theorem restart_keeps_owed:
  assumes "s = foldl notice_step (load (fresh_notices NoFile)) ops" "loops_u32 (n_loops s)"
  shows "owed (load (fresh_notices (n_disk s))) parent = map forget_settle (owed s parent)
    \<and> loop_turns (load (fresh_notices (n_disk s))) parent = loop_turns s parent"
proof -
  have "durable s" using first_boot_durable unfolding assms(1) by (rule bookkeeping.run_inv)
  moreover have "n_store s" "n_disk_ok s"
    unfolding assms(1) run_store by (simp_all add: load_def fresh_notices_def)
  ultimately have "notices_wf s" "mirrored s" by (auto simp: durable_def)
  note load_mirror [OF this assms(2)]
  then show ?thesis
    by (simp add: owed_def loop_turns_def map_of_map split: option.splits)
qed

definition sample_outcome :: "string \<Rightarrow> nat \<Rightarrow> pending_outcome" where
  "sample_outcome side n =
     \<lparr>po_side_chat_id = side, po_outcome = OutErrored (Some ''boom''), po_settle = n\<rparr>"

lemmas notice_eval = sample_outcome_def load_def fresh_notices_def record_outcome_def persist_def
  owed_def ledger_snapshot_def stored_of_pending_def notice_turn_started_def loop_turns_def

theorem restart_keeps_owed_witness:
  "owed (load (fresh_notices (n_disk (foldl notice_step (load (fresh_notices NoFile))
      [OpRecord ''p'' (sample_outcome ''a'' 3), OpTurnStarted ''p''])))) ''p''
    = [sample_outcome ''a'' 0]"
  using restart_keeps_owed [OF refl, of "[OpRecord ''p'' (sample_outcome ''a'' 3), OpTurnStarted ''p'']" "''p''"]
  by (simp add: loops_u32_def notice_eval forget_settle_def)

section \<open>Taking and putting back\<close>

text \<open>A delivery that could not start a turn puts back exactly what it took, in front of
  what was recorded meanwhile, and leaves the other parents alone.\<close>

theorem requeue_restores:
  assumes "take_for_delivery parent s = (Some outcomes, s1)"
    and "owed s2 = (owed s1)(parent := later)"
  shows "owed (requeue parent outcomes s2) = (owed s)(parent := owed s parent @ later)"
proof -
  from assms(1) have took: "map_of (n_pending s) parent = Some outcomes" "outcomes \<noteq> []"
    and s1: "s1 = persist (s\<lparr>n_pending := AList.delete parent (n_pending s)\<rparr>)"
    by (auto simp: take_for_delivery_def Let_def split: option.splits if_splits)
  have "owed s1 = (owed s)(parent := [])"
    unfolding s1 by (auto simp: owed_def delete_conv' fun_eq_iff)
  moreover have "owed (requeue parent outcomes s2) = (owed s2)(parent := outcomes @ owed s2 parent)"
    using took(2) by (auto simp: requeue_eq owed_def update_conv' fun_eq_iff)
  moreover have "owed s parent = outcomes" using took(1) by (simp add: owed_def)
  ultimately show ?thesis using assms(2) by (simp add: fun_upd_idem)
qed

theorem requeue_restores_witness:
  "owed (requeue ''p'' [sample_outcome ''a'' 3]
     (record_outcome ''p'' (sample_outcome ''b'' 1)
       (snd (take_for_delivery ''p'' (record_outcome ''p'' (sample_outcome ''a'' 3) (load (fresh_notices NoFile)))))))
     ''p'' = [sample_outcome ''a'' 3, sample_outcome ''b'' 1]"
proof -
  let ?s = "record_outcome ''p'' (sample_outcome ''a'' 3) (load (fresh_notices NoFile))"
  let ?s1 = "snd (take_for_delivery ''p'' ?s)"
  have "take_for_delivery ''p'' ?s = (Some [sample_outcome ''a'' 3], ?s1)"
    by (simp add: take_for_delivery_def notice_eval)
  moreover have "owed (record_outcome ''p'' (sample_outcome ''b'' 1) ?s1)
      = (owed ?s1)(''p'' := [sample_outcome ''b'' 1])"
    by (auto simp: take_for_delivery_def notice_eval fun_eq_iff)
  ultimately show ?thesis
    using requeue_restores by (simp add: notice_eval fun_eq_iff)
qed

section \<open>Acknowledgement\<close>

text \<open>
  The marks kept for a chat: serials count up by one, at most \<open>SETTLE_HISTORY\<close> of them are
  kept, and, on a clock that does not step back, their moments do not decrease.
\<close>

definition marks_ok :: "settle_mark list \<Rightarrow> bool" where
  "marks_ok marks \<longleftrightarrow>
     (\<exists>k. map sm_serial marks = [Suc k..<Suc k + length marks]) \<and> sorted (map sm_at marks)
     \<and> length marks \<le> SETTLE_HISTORY"

lemma marks_ok_Nil: "marks_ok []"
  by (simp add: marks_ok_def)

lemma marks_ok_push:
  assumes "marks_ok marks" "\<forall>m \<in> set marks. sm_at m \<le> now"
  defines "nm \<equiv> marks @ [\<lparr>sm_serial = last_serial marks + 1, sm_at = now\<rparr>]"
  shows "marks_ok (if SETTLE_HISTORY < length nm then tl nm else nm)"
proof -
  from assms(1) obtain k where k: "map sm_serial marks = [Suc k..<Suc k + length marks]"
    and len: "length marks \<le> SETTLE_HISTORY" and sorted: "sorted (map sm_at marks)"
    by (auto simp: marks_ok_def)
  have "last_serial marks = (if marks = [] then 0 else k + length marks)"
  proof (cases "marks = []")
    case False
    then have "sm_serial (last marks) = last (map sm_serial marks)" by (simp add: last_map)
    also have "\<dots> = k + length marks" unfolding k using False by (cases marks) simp_all
    finally show ?thesis using False by (simp add: last_serial_def)
  qed (simp add: last_serial_def)
  then have "\<exists>k. map sm_serial nm = [Suc k..<Suc k + length nm]"
  proof (cases "marks = []")
    case True
    then show ?thesis by (intro exI [of _ 0]) (simp add: nm_def last_serial_def)
  next
    case False
    with \<open>last_serial marks = _\<close> k show ?thesis by (intro exI [of _ k]) (simp add: nm_def)
  qed
  then obtain k' where k': "map sm_serial nm = [Suc k'..<Suc k' + length nm]" by blast
  have s: "sorted (map sm_at nm)" using sorted assms(2) by (auto simp: nm_def sorted_append)
  have "map sm_serial (tl nm) = [Suc (Suc k')..<Suc (Suc k') + length (tl nm)]"
  proof (cases nm)
    case (Cons a l)
    with k' have "sm_serial a # map sm_serial l = Suc k' # [Suc (Suc k')..<Suc k' + length nm]"
      by (simp add: upt_rec)
    with Cons show ?thesis by simp
  qed (simp add: nm_def)
  moreover have "sorted (map sm_at (tl nm))" using s by (cases nm) simp_all
  ultimately show ?thesis
    using k' s len by (auto simp: marks_ok_def nm_def)
qed


definition settles_ok :: "notices \<Rightarrow> bool" where
  "settles_ok s \<longleftrightarrow> list_all (\<lambda>(chat, marks). marks_ok marks) (n_settles s)"

lemma settles_ok_marks: "settles_ok s \<Longrightarrow> marks_ok (settle_marks s chat)"
  by (auto simp: settles_ok_def settle_marks_def marks_ok_Nil list_all_iff split: option.splits
      dest: map_of_SomeD)

lemma set_update_pair: "set (AList.update k v m) \<subseteq> insert (k, v) (set m)"
  by (induction m) auto

lemma settle_keeps_ok:
  assumes "settles_ok s" "\<forall>m \<in> set (settle_marks s chat). sm_at m \<le> now"
  shows "settles_ok (snd (settle chat now s))"
  using assms(1) marks_ok_push [OF settles_ok_marks [OF assms(1)] assms(2)]
    set_update_pair [of chat _ "n_settles s"]
  by (fastforce simp: settles_ok_def settle_def Let_def list_all_iff)

text \<open>Every settle of a chat gets a serial one above the last, the history keeps at most
  \<open>SETTLE_HISTORY\<close> marks, and the marks stay ordered by serial and by moment.\<close>

theorem settle_counts_up:
  assumes "settles_ok s" "\<forall>m \<in> set (settle_marks s chat). sm_at m \<le> now"
  shows "settles_ok (snd (settle chat now s))
    \<and> fst (settle chat now s) = settle_serial s chat + 1
    \<and> settle_serial (snd (settle chat now s)) chat = settle_serial s chat + 1
    \<and> length (settle_marks (snd (settle chat now s)) chat) \<le> SETTLE_HISTORY"
proof -
  have ok: "settles_ok (snd (settle chat now s))" using assms by (rule settle_keeps_ok)
  then have "length (settle_marks (snd (settle chat now s)) chat) \<le> SETTLE_HISTORY"
    using settles_ok_marks marks_ok_def by blast
  moreover have "settle_serial (snd (settle chat now s)) chat = settle_serial s chat + 1"
    by (auto simp: settle_serial_def settle_def Let_def settle_marks_def update_conv' last_serial_def
        SETTLE_HISTORY_def last_tl tl_append split: list.splits option.splits)
  ultimately show ?thesis using ok by (simp add: settle_def settle_serial_def Let_def)
qed

theorem settle_counts_up_witness:
  "fst (settle ''c'' 20 (snd (settle ''c'' 10 (fresh_notices NoFile)))) = 2"
proof -
  have "settles_ok (snd (settle ''c'' 10 (fresh_notices NoFile)))"
    by (rule settle_keeps_ok) (simp_all add: settles_ok_def fresh_notices_def settle_marks_def)
  then have "fst (settle ''c'' 20 (snd (settle ''c'' 10 (fresh_notices NoFile))))
      = settle_serial (snd (settle ''c'' 10 (fresh_notices NoFile))) ''c'' + 1"
    using settle_counts_up [of "snd (settle ''c'' 10 (fresh_notices NoFile))" "''c''" 20]
    by (simp add: settle_def fresh_notices_def settle_marks_def SETTLE_HISTORY_def)
  then show ?thesis
    by (simp add: settle_serial_def settle_def fresh_notices_def settle_marks_def last_serial_def
        SETTLE_HISTORY_def)
qed

lemma observed_iff:
  assumes "marks_ok (settle_marks s chat)" "m \<in> set (settle_marks s chat)"
  shows "sm_serial m \<le> serial_observed_at s chat at \<longleftrightarrow> sm_at m \<le> at"
proof -
  let ?ms = "settle_marks s chat"
  from assms(1) obtain k where k: "map sm_serial ?ms = [Suc k..<Suc k + length ?ms]"
    and sorted: "sorted (map sm_at ?ms)" by (auto simp: marks_ok_def)
  have pos: "Suc k \<le> sm_serial m"
  proof -
    have "sm_serial m \<in> set (map sm_serial ?ms)" using assms(2) by simp
    then show ?thesis unfolding k by auto
  qed
  show ?thesis
  proof (cases "find (\<lambda>m. sm_at m \<le> at) (rev ?ms)")
    case None
    then have "\<not> sm_at m \<le> at" using assms(2) by (auto simp: find_None_iff)
    with pos None show ?thesis by (simp add: serial_observed_at_def)
  next
    case (Some m0)
    from find_last_split [OF Some] obtain as bs where
      ms: "?ms = as @ m0 # bs" "sm_at m0 \<le> at" "\<forall>y \<in> set bs. \<not> sm_at y \<le> at" by blast
    have "sorted_wrt (<) (map sm_serial ?ms)" unfolding k by (simp only: sorted_wrt_upt)
    with ms(1) have "\<forall>x \<in> set as. sm_serial x < sm_serial m0" "\<forall>y \<in> set bs. sm_serial m0 < sm_serial y"
      by (auto simp: sorted_wrt_append)
    moreover have "\<forall>x \<in> set as. sm_at x \<le> sm_at m0"
      using sorted ms(1) by (auto simp: sorted_wrt_append)
    ultimately show ?thesis
      using assms(2) ms Some by (fastforce simp: serial_observed_at_def)
  qed
qed

lemma owed_ack:
  "owed (snd (ack parent side at s)) =
     (owed s)(parent := filter (\<lambda>o1. \<not> (po_side_chat_id o1 = side
        \<and> po_settle o1 \<le> fst (ack parent side at s))) (owed s parent))"
  by (auto simp: ack_def Let_def owed_def update_conv' delete_conv' fun_eq_iff split: option.splits)

lemma acks_ack: "map_of (n_acks (snd (ack parent side at s))) (parent, side) = Some (fst (ack parent side at s))"
  by (simp add: ack_def Let_def update_conv')

text \<open>Acknowledging an observation made at time \<open>at\<close> drops exactly the parent's outcomes of
  that side chat whose turn had settled by then; an outcome that settled later survives the
  report, other side chats and parents are untouched, and a record of an observed settle that
  lands after the report is dropped too.\<close>

theorem ack_drops_exactly_observed:
  assumes "settles_ok s" "m \<in> set (settle_marks s side)"
    and "o1 = \<lparr>po_side_chat_id = side, po_outcome = out, po_settle = sm_serial m\<rparr>"
    and "s' = snd (ack parent side (Some at) s)"
  shows "(o1 \<in> set (owed s' parent) \<longleftrightarrow> o1 \<in> set (owed s parent) \<and> at < sm_at m)
    \<and> filter (\<lambda>o1. po_side_chat_id o1 \<noteq> side) (owed s' parent)
      = filter (\<lambda>o1. po_side_chat_id o1 \<noteq> side) (owed s parent)
    \<and> (\<forall>other. other = parent \<or> owed s' other = owed s other)
    \<and> owed (record_outcome parent o1 s') parent = owed s' parent @ (if at < sm_at m then [o1] else [])"
proof (intro conjI)
  have wm: "fst (ack parent side (Some at) s) = serial_observed_at s side at"
    by (simp add: ack_def Let_def)
  have seen: "sm_serial m \<le> serial_observed_at s side at \<longleftrightarrow> sm_at m \<le> at"
    using settles_ok_marks [OF assms(1)] assms(2) by (rule observed_iff)
  show "o1 \<in> set (owed s' parent) \<longleftrightarrow> o1 \<in> set (owed s parent) \<and> at < sm_at m"
    using seen assms(3) by (auto simp: assms(4) owed_ack wm)
  show "filter (\<lambda>o1. po_side_chat_id o1 \<noteq> side) (owed s' parent)
      = filter (\<lambda>o1. po_side_chat_id o1 \<noteq> side) (owed s parent)"
    by (auto simp: assms(4) owed_ack intro!: filter_cong)
  show "\<forall>other. other = parent \<or> owed s' other = owed s other"
    by (simp add: assms(4) owed_ack)
  have "map_of (n_acks s') (parent, side) = Some (serial_observed_at s side at)"
    by (simp add: assms(4) acks_ack wm)
  then show "owed (record_outcome parent o1 s') parent = owed s' parent @ (if at < sm_at m then [o1] else [])"
    using seen assms(3) by (auto simp: record_outcome_def owed_def update_conv' not_le)
qed

definition sample_settled :: notices where
  "sample_settled = record_outcome ''p'' \<lparr>po_side_chat_id = ''c'', po_outcome = OutCompleted, po_settle = 2\<rparr>
     (record_outcome ''p'' \<lparr>po_side_chat_id = ''c'', po_outcome = OutCompleted, po_settle = 1\<rparr>
       (snd (settle ''c'' 20 (snd (settle ''c'' 10 (fresh_notices NoFile))))))"

lemmas settled_eval = sample_settled_def record_outcome_def settle_def fresh_notices_def settle_marks_def
  SETTLE_HISTORY_def last_serial_def persist_def owed_def

lemma sample_settled_ok: "settles_ok sample_settled"
  by (simp add: settled_eval settles_ok_def marks_ok_def)

theorem ack_drops_exactly_observed_witness:
  "map po_settle (owed (snd (ack ''p'' ''c'' (Some 15) sample_settled)) ''p'') = [2]
   \<and> \<lparr>po_side_chat_id = ''c'', po_outcome = OutCompleted, po_settle = 1\<rparr>
     \<notin> set (owed (snd (ack ''p'' ''c'' (Some 15) sample_settled)) ''p'')"
proof
  have "\<lparr>sm_serial = 1, sm_at = 10\<rparr> \<in> set (settle_marks sample_settled ''c'')"
    by (simp add: settled_eval)
  from ack_drops_exactly_observed [OF sample_settled_ok this refl refl, of OutCompleted "''p''" 15]
  show "\<lparr>po_side_chat_id = ''c'', po_outcome = OutCompleted, po_settle = 1\<rparr>
     \<notin> set (owed (snd (ack ''p'' ''c'' (Some 15) sample_settled)) ''p'')"
    by simp
  show "map po_settle (owed (snd (ack ''p'' ''c'' (Some 15) sample_settled)) ''p'') = [2]"
    by (simp add: settled_eval ack_def serial_observed_at_def)
qed

definition acked_in_flight :: notices where
  "acked_in_flight = snd (ack ''p'' ''c'' None (snd (take_for_delivery ''p'' (snd (ack ''p'' ''c'' (Some 15) sample_settled)))))"

text \<open>A delivery in flight that requeues after the parent acknowledged its outcome brings
  the acknowledged outcome back, where recording the same outcome would drop it:
  \<open>requeue\<close> does not look at the watermarks.\<close>

theorem requeue_revives_acknowledged:
  "owed (record_outcome ''p'' \<lparr>po_side_chat_id = ''c'', po_outcome = OutCompleted, po_settle = 2\<rparr>
       acked_in_flight) ''p'' = []
   \<and> owed (requeue ''p'' [\<lparr>po_side_chat_id = ''c'', po_outcome = OutCompleted, po_settle = 2\<rparr>]
       acked_in_flight) ''p'' = [\<lparr>po_side_chat_id = ''c'', po_outcome = OutCompleted, po_settle = 2\<rparr>]"
  by (simp add: acked_in_flight_def settled_eval take_for_delivery_def ack_def settle_serial_def
      serial_observed_at_def requeue_def)

section \<open>One line of detail\<close>

lemma prefix_no_newline: "prefix s t \<Longrightarrow> CHR 0x0A \<notin> set t \<Longrightarrow> CHR 0x0A \<notin> set s"
  by (auto simp: prefix_def)

lemma one_line_shape:
  assumes "one_line (Some raw) = Some l"
  obtains line where "CHR 0x0A \<notin> set line" "\<not> blank line"
    and "l = (if char_count line \<le> NOTICE_DETAIL_MAX then line
              else take_chars NOTICE_DETAIL_MAX line @ ellipsis)"
proof -
  let ?body = "trim raw"
  have body: "?body \<noteq> []" using assms by (auto simp: one_line_def split: if_splits)
  obtain l0 ls where first: "text_lines ?body = l0 # ls" "prefix l0 ?body" "\<not> blank l0"
    using text_lines_first [OF body trim_clean(1)] by blast
  then have find: "find (\<lambda>l. \<not> blank l) (text_lines ?body) = Some l0" by simp
  have "trim_end l0 \<noteq> []"
  proof
    assume "trim_end l0 = []"
    then have "l0 = [] \<or> starts_blank l0" by (rule trim_end_Nil)
    with first(2,3) trim_clean(1) [of raw] show False
      by (auto simp: blank_def starts_blank_def trim_def trim_start_id trim_end_id ends_blank_def
          intro: prefix_order.trans)
  qed
  moreover have "\<not> starts_blank (trim_end l0)"
    using first(2) trim_clean(1) [of raw] trim_end_prefix [of l0]
    by (auto simp: starts_blank_def intro: prefix_order.trans)
  ultimately have "\<not> blank (trim_end l0)" by (rule not_blank_start)
  moreover have "CHR 0x0A \<notin> set (trim_end l0)"
    using trim_end_prefix text_lines_no_newline [of l0 ?body] first(1) by (metis list.set_intros(1) prefix_no_newline)
  ultimately show thesis
    using that [of "trim_end l0"] assms body find by (auto simp: one_line_def Let_def split: if_splits)
qed

text \<open>The detail of a notice is one line: it has no newline, at most
  \<open>NOTICE_DETAIL_MAX\<close> characters and an ellipsis, and it is missing exactly when the text
  is blank.\<close>

theorem one_line_bound:
  "(one_line (Some raw) = None \<longleftrightarrow> blank raw)
   \<and> list_all (\<lambda>l. CHR 0x0A \<notin> set l \<and> char_count l \<le> NOTICE_DETAIL_MAX + 1)
       (case one_line (Some raw) of None \<Rightarrow> [] | Some l \<Rightarrow> [l])"
proof
  show "one_line (Some raw) = None \<longleftrightarrow> blank raw"
    by (simp add: one_line_def blank_def Let_def)
  have "CHR 0x0A \<notin> set l \<and> char_count l \<le> NOTICE_DETAIL_MAX + 1" if some: "one_line (Some raw) = Some l" for l
  proof -
    from one_line_shape [OF some] obtain line where line: "CHR 0x0A \<notin> set line"
      "l = (if char_count line \<le> NOTICE_DETAIL_MAX then line
            else take_chars NOTICE_DETAIL_MAX line @ ellipsis)" by blast
    have "char_count ellipsis = 1" "CHR 0x0A \<notin> set ellipsis"
      by (simp_all add: ellipsis_def char_count_def cont_byte_def)
    with line char_count_take_chars [of NOTICE_DETAIL_MAX line]
      prefix_no_newline [OF take_chars_prefix line(1), of NOTICE_DETAIL_MAX]
    show ?thesis by auto
  qed
  then show "list_all (\<lambda>l. CHR 0x0A \<notin> set l \<and> char_count l \<le> NOTICE_DETAIL_MAX + 1)
       (case one_line (Some raw) of None \<Rightarrow> [] | Some l \<Rightarrow> [l])"
    by (simp split: option.splits)
qed

end
