(* ===== verification/Notice_Delivery.thy ===== *)
theory Notice_Delivery
  imports Completion_Notices "HOL-Library.Multiset"
begin

text \<open>
  What \<open>deliver\<close>, \<open>park_notice\<close> and \<open>stop_parent\<close> of
  \<open>crates/engine/src/completion_notices.rs\<close> guarantee: no recorded outcome is lost on any
  path of a delivery, the loop cap bounds the turns notices start, and a Stop leaves nothing
  owed.
\<close>

section \<open>Rows that decode are well-formed\<close>

lemma i64_member_i64: "i64_member k v = Some i \<Longrightarrow> i64 i"
  by (auto simp: i64_member_def bind_eq_Some_conv json_as_i64.simps(1) i64_def elim!: json_as_i64.elims split: if_splits)

lemma gate_from_json_i64:
  "gate_from_json v = Some g \<Longrightarrow>
    (case g of Editing _ _ _ a e _ \<Rightarrow> i64 a \<and> i64 e | ReviewRequired _ _ s _ \<Rightarrow> i64 s)"
  by (auto simp: gate_from_json_def split: if_splits option.splits dest: i64_member_i64)

lemma decode_gate_i64:
  "decode_gate v = Some g \<Longrightarrow>
    (case g of Editing _ _ _ a e _ \<Rightarrow> i64 a \<and> i64 e | ReviewRequired _ _ s _ \<Rightarrow> i64 s)"
  by (auto simp: decode_gate_def gate_closed_def i64_def split: option.splits json.splits
      dest: gate_from_json_i64)

lemma queued_ok_decoded:
  assumes "queued_from_json v = Some m"
  shows "queued_ok m"
proof -
  have "i64 (qm_issued_at m)" "\<not> blank (qm_text m)" "trim (qm_id m) = qm_id m" "qm_id m \<noteq> []"
    and edited: "qm_edited_at m = i64_member ''editedAt'' v"
    and gate: "qm_delivery_gate m = decode_gate v"
    using assms by (auto simp: queued_from_json_def i64_def split: option.splits if_splits dest: i64_member_i64)
  moreover have "case qm_edited_at m of None \<Rightarrow> True | Some t \<Rightarrow> i64 t"
    unfolding edited by (auto split: option.splits dest: i64_member_i64)
  moreover have "case qm_delivery_gate m of None \<Rightarrow> True | Some g \<Rightarrow>
      (case g of Editing _ _ _ a e _ \<Rightarrow> i64 a \<and> i64 e | ReviewRequired _ _ s _ \<Rightarrow> i64 s)"
    unfolding gate by (auto split: option.splits dest: decode_gate_i64)
  ultimately show ?thesis
    by (auto simp: queued_ok_def blank_def split: option.splits)
qed

section \<open>The text of a notice is not blank\<close>

lemma plain_start:
  "48 \<le> (of_char c :: nat) \<Longrightarrow> (of_char c :: nat) < 128 \<Longrightarrow> \<not> starts_blank (c # r)"
  by (auto simp: starts_blank_def white_chars_def)

lemma show_nat_start: "\<exists>c r. show_nat n = c # r \<and> 48 \<le> (of_char c :: nat) \<and> (of_char c :: nat) < 128"
proof (induction n rule: show_nat.induct)
  case (1 n)
  show ?case
  proof (cases "n < 10")
    case True
    then show ?thesis by (subst show_nat.simps) (simp add: digit_char_def)
  next
    case False
    with 1 show ?thesis by (subst show_nat.simps) auto
  qed
qed

lemma join_with_start: "join_with sep ((c # r) # ls) = c # join_with sep (r # ls)"
  by (cases ls) simp_all

lemma notice_text_not_blank: "\<not> blank (notice_text sides)"
proof -
  have "\<exists>c r. notice_text sides = c # r \<and> 48 \<le> (of_char c :: nat) \<and> (of_char c :: nat) < 128"
  proof (cases sides rule: remdups_adj.cases)
    case (3 a b rest)
    obtain c r where "show_nat (length sides) = c # r" "48 \<le> (of_char c :: nat)" "(of_char c :: nat) < 128"
      using show_nat_start by blast
    with 3 show ?thesis by (simp add: notice_text_def join_with_start)
  qed (simp_all add: notice_text_def join_with_start)
  then show ?thesis using not_blank_start plain_start by fastforce
qed

section \<open>Inserting a row\<close>

lemma insert_reads:
  assumes "queue_ops_ok ops" "queued_ok item" "queue_clean (qo_value ops c)"
    and "n \<le> length (qo_value ops c)"
  shows "\<exists>c'. insert_queued ops n item c = Inr c' \<and> read_queue ops c' = insert_at n item (read_queue ops c)"
proof -
  from insert_row [OF assms(1,4)] obtain c1 c' where
    c': "qo_insert_map ops n c = Some c1" "insert_fields ops n (queued_fields item) c1 = Inr c'"
      "qo_value ops c' = insert_at n (JObj (queued_fields item)) (qo_value ops c)" by blast
  let ?vs = "qo_value ops c"
  have all: "\<forall>v \<in> set ?vs. queued_from_json v = Some (row_of v)"
    using clean_row(1) [OF assms(3)] by blast
  have "List.map_filter queued_from_json (take n ?vs) = map row_of (take n ?vs)"
    using all by (intro map_filter_all) (meson in_set_takeD)
  moreover have "List.map_filter queued_from_json (drop n ?vs) = map row_of (drop n ?vs)"
    using all by (intro map_filter_all) (meson in_set_dropD)
  ultimately have "read_queue ops c' = insert_at n item (map row_of ?vs)"
    unfolding read_queue_def c'(3) insert_at_def
    by (simp add: map_filter_append List.map_filter_simps queued_row_roundtrip [OF assms(2)] take_map drop_map)
  moreover have "insert_queued ops n item c = Inr c'"
    using assms(2,4) c' by (simp add: insert_queued_def queued_ok_def min_absorb1 Let_def)
  ultimately show ?thesis by (simp add: clean_read [OF assms(3)])
qed

section \<open>The outcomes carried by a parent's state\<close>

type_synonym outcome_row = "string \<times> notice_outcome \<times> string option"

definition row_of_side :: "notice_side \<Rightarrow> outcome_row" where
  "row_of_side s = (ns_chat_id s, ns_outcome s, ns_detail s)"

definition row_of_pending :: "pending_outcome \<Rightarrow> outcome_row" where
  "row_of_pending o1 = (po_side_chat_id o1, as_row (po_outcome o1))"

fun part_sides :: "message_part \<Rightarrow> notice_side list" where
  "part_sides (CompletionNoticePart i sides) = sides"
| "part_sides _ = []"

definition queue_sides :: "queued_message list \<Rightarrow> outcome_row multiset" where
  "queue_sides rows = sum_list (map (\<lambda>row. mset (map row_of_side (sides_of row))) rows)"

definition entry_sides :: "message_entry list \<Rightarrow> outcome_row multiset" where
  "entry_sides es =
     sum_list (map (\<lambda>e. sum_list (map (\<lambda>p. mset (map row_of_side (part_sides p))) (e_parts e))) es)"

text \<open>Owed in the ledger, parked in the queue, or written to the transcript.\<close>

definition carried :: "'c queue_ops \<Rightarrow> string \<Rightarrow> 'c parent_state \<Rightarrow> outcome_row multiset" where
  "carried ops parent w =
     mset (map row_of_pending (owed (ps_notices w) parent))
     + queue_sides (read_queue ops (ps_queue w)) + entry_sides (ps_entries w)"

lemma row_of_side_row [simp]: "row_of_side (side_row env o1) = row_of_pending o1"
  by (simp add: side_row_def row_of_side_def row_of_pending_def Let_def split: prod.splits)

lemma queue_sides_append [simp]: "queue_sides (xs @ ys) = queue_sides xs + queue_sides ys"
  by (simp add: queue_sides_def)

lemma queue_sides_Cons [simp]: "queue_sides (x # xs) = mset (map row_of_side (sides_of x)) + queue_sides xs"
  by (simp add: queue_sides_def)

lemma queue_sides_Nil [simp]: "queue_sides [] = {#}"
  by (simp add: queue_sides_def)

lemma entry_sides_notice:
  "entry_sides (es @ [notice_entry i now d sides body]) = entry_sides es + mset (map row_of_side sides)"
  by (simp add: entry_sides_def notice_entry_def)

lemma owed_begin [simp]: "owed (snd (begin_delivery p s)) = owed s"
  by (simp add: begin_delivery_def owed_def fun_eq_iff)

lemma owed_end [simp]: "owed (end_delivery p s) = owed s"
  by (simp add: end_delivery_def owed_def fun_eq_iff)

lemma owed_note_loop [simp]: "owed (note_loop_counter p i origin s) = owed s"
  by (auto simp: note_loop_counter_def notice_turn_started_def note_user_message_def owed_def fun_eq_iff
      split: option.splits)

lemma owed_requeue: "owed (requeue p os s) p = os @ owed s p"
  by (simp add: requeue_eq owed_def update_conv')

lemma take_None: "take_for_delivery p s = (None, s1) \<Longrightarrow> owed s1 p = owed s p"
  by (auto simp: take_for_delivery_def Let_def owed_def delete_conv' split: option.splits if_splits)

lemma take_Some: "take_for_delivery p s = (Some os, s1) \<Longrightarrow> owed s p = os \<and> owed s1 p = []"
  by (auto simp: take_for_delivery_def Let_def owed_def delete_conv' split: option.splits if_splits)

section \<open>Parking\<close>

definition env_ok :: "delivery_env \<Rightarrow> bool" where
  "env_ok env \<longleftrightarrow> i64 (de_now env) \<and> trim (NOTICE_ID_PREFIX @ de_new_id env) = NOTICE_ID_PREFIX @ de_new_id env"

lemma parked_row_ok:
  assumes "env_ok env"
  shows "queued_ok (parked_row env (notice_text sides) shown)"
proof -
  have "\<not> blank (NOTICE_ID_PREFIX @ de_new_id env)"
    by (rule not_blank_start) (simp_all add: NOTICE_ID_PREFIX_def plain_start)
  with assms show ?thesis
    by (simp add: queued_ok_def parked_row_def env_ok_def notice_text_not_blank)
qed

lemma merged_row_ok: "queued_ok old \<Longrightarrow> queued_ok (merged_row old sides)"
  by (simp add: queued_ok_def merged_row_def notice_text_not_blank)

lemma sides_of_parked [simp]: "sides_of (parked_row env body sides) = sides"
  by (simp add: sides_of_def parked_row_def)

lemma sides_of_merged [simp]: "sides_of (merged_row old sides) = sides_of old @ sides"
  by (simp add: sides_of_def merged_row_def)

lemma take_drop_position:
  assumes "position P xs = Some n"
  shows "xs = take n xs @ xs ! n # drop (Suc n) xs"
  using position_Some_split [OF assms] by (intro id_take_nth_drop) simp

text \<open>Merging into the row the cap already parked: the old row goes and the merged one takes
  its place.\<close>

lemma park_merges:
  assumes "queue_ops_ok ops" "queue_clean (qo_value ops c)"
    and "position (\<lambda>row. prefix NOTICE_ID_PREFIX (qm_id row)) (read_queue ops c) = Some ix"
  shows "\<exists>c1 c2. remove_queued ops (qm_id (read_queue ops c ! ix)) c = Inr (True, c1)
    \<and> insert_queued ops ix (merged_row (read_queue ops c ! ix) sides) c1 = Inr c2
    \<and> read_queue ops c2 = take ix (read_queue ops c) @ merged_row (read_queue ops c ! ix) sides
        # drop (Suc ix) (read_queue ops c)"
proof -
  let ?rows = "read_queue ops c" and ?vs = "qo_value ops c"
  let ?old = "?rows ! ix"
  have rows: "?rows = map row_of ?vs" using assms(2) by (rule clean_read)
  have ix: "ix < length ?rows" using position_Some_split [OF assms(3)] by blast
  then have len: "ix < length ?vs" by (simp add: rows)
  have old: "?old \<in> set ?rows" using ix by simp
  have ids: "distinct (map qm_id ?rows)"
    using clean_ids [OF assms(2)] by (simp add: rows comp_def)
  from clean_find(2) [OF assms(2) old] obtain n where n: "index_of ops (qm_id ?old) c = Some n" by blast
  then have "position (\<lambda>x. qm_id x = qm_id ?old) ?rows = Some n"
    by (simp add: index_of_def clean_position [OF assms(2)] rows position_map)
  from position_Some_split [OF this] ix ids have "n = ix"
    by (metis length_map nth_eq_iff_index_eq nth_map)
  with n have at: "index_of ops (qm_id ?old) c = Some ix" by simp
  from queue_ops_okD(3) [OF assms(1) len] obtain c1 where
    c1: "qo_delete ops ix c = Some c1" "qo_value ops c1 = remove_at ix ?vs" by blast
  have clean1: "queue_clean (qo_value ops c1)" using clean_remove [OF assms(2)] c1(2) by simp
  have read1: "read_queue ops c1 = remove_at ix ?rows"
    unfolding clean_read [OF clean1] c1(2) rows by (simp add: remove_at_def take_map drop_map)
  have "queued_from_json (?vs ! ix) = Some ?old"
    using clean_row(1) [OF assms(2) nth_mem [OF len]] len by (simp add: rows)
  then have "queued_ok (merged_row ?old sides)" by (intro merged_row_ok queued_ok_decoded)
  moreover have "ix \<le> length (qo_value ops c1)" using len by (simp add: c1(2) remove_at_def)
  ultimately obtain c2 where c2: "insert_queued ops ix (merged_row ?old sides) c1 = Inr c2"
    "read_queue ops c2 = insert_at ix (merged_row ?old sides) (read_queue ops c1)"
    using insert_reads [OF assms(1) _ clean1] by blast
  moreover have "remove_queued ops (qm_id ?old) c = Inr (True, c1)"
    using at c1(1) by (simp add: remove_queued_def)
  moreover have "insert_at ix y (remove_at ix ?rows) = take ix ?rows @ y # drop (Suc ix) ?rows" for y
    using ix by (simp add: insert_at_def remove_at_def)
  ultimately show ?thesis using read1 by auto
qed

lemma park_carries:
  assumes "queue_ops_ok ops" "queue_clean (qo_value ops (ps_queue w))" "env_ok env"
    and "owed (ps_notices w) parent = []" "sides = map (side_row env) outcomes"
  shows "carried ops parent (park_notice ops env parent (notice_text sides) sides outcomes w)
    = carried ops parent w + mset (map row_of_pending outcomes)"
proof -
  have sides: "mset (map row_of_side sides) = mset (map row_of_pending outcomes)"
    by (simp add: assms(5) comp_def)
  let ?rows = "read_queue ops (ps_queue w)"
  show ?thesis
  proof (cases "de_open env")
    case False
    then show ?thesis using assms(4) by (simp add: park_notice_def carried_def owed_requeue)
  next
    case open_ok: True
    show ?thesis
    proof (cases "position (\<lambda>row. prefix NOTICE_ID_PREFIX (qm_id row)) ?rows")
      case None
      from push_appends [OF assms(1) parked_row_ok [OF assms(3)], of sides sides "ps_queue w"] obtain c' where
        "push_queued ops (parked_row env (notice_text sides) sides) (ps_queue w) = Inr c'"
        "read_queue ops c' = ?rows @ [parked_row env (notice_text sides) sides]" by blast
      with None open_ok sides show ?thesis
        by (simp add: park_notice_def carried_def Let_def)
    next
      case (Some ix)
      from park_merges [OF assms(1,2) Some] obtain c1 c2 where
        c: "remove_queued ops (qm_id (?rows ! ix)) (ps_queue w) = Inr (True, c1)"
          "insert_queued ops ix (merged_row (?rows ! ix) sides) c1 = Inr c2"
          "read_queue ops c2 = take ix ?rows @ merged_row (?rows ! ix) sides # drop (Suc ix) ?rows" by blast
      have "queue_sides ?rows = queue_sides (take ix ?rows @ ?rows ! ix # drop (Suc ix) ?rows)"
        using take_drop_position [OF Some] by simp
      then have "queue_sides (read_queue ops c2) = queue_sides ?rows + mset (map row_of_side sides)"
        unfolding c(3) by simp
      with c(1,2) Some open_ok sides show ?thesis
        by (simp add: park_notice_def carried_def Let_def)
    qed
  qed
qed

section \<open>No delivery loses an outcome\<close>

lemma deliver_guarded_carries:
  assumes "queue_ops_ok ops" "queue_clean (qo_value ops (ps_queue w))" "env_ok env"
    and "\<not> chat_archived env parent"
  shows "carried ops parent (deliver_guarded ops env parent w) = carried ops parent w"
proof -
  obtain taken ns where tk: "take_for_delivery parent (ps_notices w) = (taken, ns)"
    by (cases "take_for_delivery parent (ps_notices w)")
  let ?w = "w\<lparr>ps_notices := ns\<rparr>"
  show ?thesis
  proof (cases taken)
    case None
    with tk assms(4) take_None [of parent "ps_notices w" ns] show ?thesis
      by (simp add: deliver_guarded_def carried_def)
  next
    case (Some outcomes)
    let ?sides = "map (side_row env) outcomes"
    from take_Some tk Some have owed: "owed (ps_notices w) parent = outcomes" "owed ns parent = []" by auto
    have here: "carried ops parent w = carried ops parent ?w + mset (map row_of_pending outcomes)"
      using owed by (simp add: carried_def)
    have held: "carried ops parent (?w\<lparr>ps_notices := requeue parent outcomes ns\<rparr>) = carried ops parent w"
      using owed by (simp add: carried_def owed_requeue)
    have park: "carried ops parent (park_notice ops env parent (notice_text ?sides) ?sides outcomes ?w)
        = carried ops parent w"
      using park_carries [of ops ?w env parent ?sides outcomes] assms(1-3) owed(2) here by simp
    have sent: "entry_sides (ps_entries w @ [notice_entry i now d ?sides body])
        = entry_sides (ps_entries w) + mset (map row_of_pending outcomes)" for i now d body
      by (simp add: entry_sides_notice comp_def)
    show ?thesis
      using Some tk assms(4) held park owed
      by (simp add: deliver_guarded_def Let_def) (simp add: carried_def sent)
  qed
qed

text \<open>C1: on every path of a delivery to a live parent (busy, capped, no configuration, no
  document, a failed write, a turn that started meanwhile, a dispatch that failed) each
  recorded outcome is afterwards owed in the ledger, parked in the queue or written in the
  transcript, exactly as often as before.\<close>

theorem deliver_loses_nothing:
  assumes "queue_ops_ok ops" "queue_clean (qo_value ops (ps_queue w))" "env_ok env"
    and "\<not> chat_archived env parent"
  shows "carried ops parent (deliver ops env parent w) = carried ops parent w"
proof -
  let ?w = "w\<lparr>ps_notices := snd (begin_delivery parent (ps_notices w))\<rparr>"
  have "carried ops parent (deliver_guarded ops env parent ?w) = carried ops parent ?w"
    using assms by (intro deliver_guarded_carries) simp_all
  moreover have "carried ops parent ?w = carried ops parent w" by (simp add: carried_def)
  moreover have "carried ops parent (w'\<lparr>ps_notices := end_delivery parent (ps_notices w')\<rparr>)
      = carried ops parent w'" for w' :: "'a parent_state"
    by (simp add: carried_def)
  ultimately show ?thesis
    by (cases "fst (begin_delivery parent (ps_notices w))") (simp_all add: deliver_def Let_def split_def)
qed


definition sample_env :: delivery_env where
  "sample_env =
     \<lparr>de_shutting_down = False, de_turn_in_flight = False, de_turn_in_flight_late = False, de_host = True,
      de_chat = \<lambda>_. ChatRow \<lparr>cr_archived = False, cr_title = None, cr_agent_origin = None\<rparr>,
      de_row_request = True, de_last_request = False, de_open = True, de_push_ok = True,
      de_dispatch_counts = True, de_new_id = ''m1'', de_now = 7, de_device_id = ''d''\<rparr>"

definition sample_parent :: "nat \<Rightarrow> json list parent_state" where
  "sample_parent n =
     \<lparr>ps_notices = (record_outcome ''p'' (sample_outcome ''c'' 3) (fresh_notices NoFile))\<lparr>n_loops := [(''p'', n)]\<rparr>,
      ps_queue = [], ps_paused = False, ps_entries = [], ps_dispatched = []\<rparr>"

lemma trim_notice_m1: "trim ''notice:m1'' = ''notice:m1''"
  by (rule trim_id; simp add: blank_eval suffix_def)

lemma sample_env_ok: "env_ok sample_env"
  by (simp add: env_ok_def sample_env_def i64_def NOTICE_ID_PREFIX_def trim_notice_m1)

theorem deliver_loses_nothing_witness:
  "carried value_queue_ops ''p'' (deliver value_queue_ops sample_env ''p'' (sample_parent 25))
    = {# (''c'', NoticeErrored, Some ''boom'') #}"
proof -
  have "carried value_queue_ops ''p'' (deliver value_queue_ops sample_env ''p'' (sample_parent 25))
      = carried value_queue_ops ''p'' (sample_parent 25)"
    by (rule deliver_loses_nothing [OF value_queue_ops_ok _ sample_env_ok])
      (simp_all add: sample_parent_def value_queue_ops_def queue_clean_def chat_archived_def sample_env_def)
  then show ?thesis
    by (simp add: carried_def sample_parent_def notice_eval read_queue_def value_queue_ops_def
        List.map_filter_simps entry_sides_def row_of_pending_def)
qed

section \<open>The loop cap\<close>

text \<open>
  A notice turn starts in two ways: a delivery dispatches it, or the drain of the queue sends a row
  that the cap had parked. Parking pauses the queue; \<open>Thaw\<close> is what lifts the pause without a
  message of the user's: a scheduled resume that fires (\<open>thaw_queue\<close> in \<open>sessions.rs\<close>), an agent's
  steer that is accepted (\<open>doc_host.rs\<close>). \<open>SendParked\<close> is the drain's send of a parked row at the
  head of the queue, and whether its dispatch got to the bookkeeping.
\<close>

datatype parent_event = NoticeOp notice_op | Delivery delivery_env | Thaw | SendParked bool

definition send_parked :: "'c queue_ops \<Rightarrow> string \<Rightarrow> bool \<Rightarrow> 'c parent_state \<Rightarrow> 'c parent_state" where
  "send_parked ops parent counts w =
     (case read_queue ops (ps_queue w) of
        [] \<Rightarrow> w
      | row # _ \<Rightarrow>
          if ps_paused w \<or> \<not> prefix NOTICE_ID_PREFIX (qm_id row) then w
          else case remove_queued ops (qm_id row) (ps_queue w) of
                 Inr (True, c) \<Rightarrow>
                   w\<lparr>ps_queue := c, ps_dispatched := ps_dispatched w @ [(qm_id row, qm_text row)],
                     ps_notices := (if counts then note_loop_counter parent (qm_id row) None (ps_notices w) else ps_notices w)\<rparr>
               | _ \<Rightarrow> w)"

fun parent_step :: "'c queue_ops \<Rightarrow> string \<Rightarrow> 'c parent_state \<Rightarrow> parent_event \<Rightarrow> 'c parent_state" where
  "parent_step ops parent w (NoticeOp op) = w\<lparr>ps_notices := notice_step (ps_notices w) op\<rparr>"
| "parent_step ops parent w (Delivery env) = deliver ops env parent w"
| "parent_step ops parent w Thaw = w\<lparr>ps_paused := False\<rparr>"
| "parent_step ops parent w (SendParked counts) = send_parked ops parent counts w"




lemma loop_turns_persist [simp]: "loop_turns (persist s) p = loop_turns s p"
  by (simp add: loop_turns_def)








text \<open>A delivery at the cap starts no turn, and the queue it parks the notice in is paused.\<close>

lemma park_pauses:
  "de_open env \<Longrightarrow> ps_paused (park_notice ops env parent body sides os w)
    \<and> ps_dispatched (send_parked ops parent counts (park_notice ops env parent body sides os w)) = ps_dispatched w"
  by (simp add: park_notice_def send_parked_def Let_def split: list.split)



text \<open>The excess is real: at the cap, a thaw lets the parked row start a turn no user asked for.\<close>

lemma parked_row_exceeds_cap:
  "ps_dispatched (foldl (parent_step value_queue_ops ''p'') (sample_parent NOTICE_LOOP_CAP)
      [Delivery sample_env, SendParked True]) = []
   \<and> length (ps_dispatched (foldl (parent_step value_queue_ops ''p'') (sample_parent NOTICE_LOOP_CAP)
      [Delivery sample_env, Thaw, SendParked True])) = 1"
  by code_simp

section \<open>Stop\<close>

lemma remove_row:
  assumes "queue_ops_ok ops" "queue_clean (qo_value ops c)"
  shows "\<exists>b c'. remove_queued ops i c = Inr (b, c') \<and> queue_clean (qo_value ops c')
    \<and> read_queue ops c' = filter (\<lambda>x. qm_id x \<noteq> i) (read_queue ops c)"
proof (cases "\<exists>m \<in> set (read_queue ops c). qm_id m = i")
  case True
  then obtain m where m: "m \<in> set (read_queue ops c)" "qm_id m = i" by blast
  from clean_find(2) [OF assms(2) m(1)] m(2) obtain n where
    n: "index_of ops i c = Some n" "n < length (qo_value ops c)"
      "map row_of (remove_at n (qo_value ops c)) = filter (\<lambda>x. qm_id x \<noteq> i) (read_queue ops c)" by blast
  from queue_ops_okD(3) [OF assms(1) n(2)] obtain c' where
    c': "qo_delete ops n c = Some c'" "qo_value ops c' = remove_at n (qo_value ops c)" by blast
  have "queue_clean (qo_value ops c')" using clean_remove [OF assms(2)] c'(2) by simp
  with n c' show ?thesis by (auto simp: remove_queued_def clean_read)
next
  case False
  then have "index_of ops i c = None"
    unfolding index_of_def clean_position [OF assms(2)]
    by (auto simp: position_None clean_read [OF assms(2)])
  moreover have "filter (\<lambda>x. qm_id x \<noteq> i) (read_queue ops c) = read_queue ops c"
    using False by (auto simp: filter_id_conv)
  ultimately show ?thesis using assms(2) by (auto simp: remove_queued_def)
qed

lemma remove_all_rows:
  assumes "queue_ops_ok ops" "queue_clean (qo_value ops c)"
  shows "read_queue ops (remove_all_queued ops is c) = filter (\<lambda>x. qm_id x \<notin> set is) (read_queue ops c)"
  using assms(2)
proof (induction "is" arbitrary: c)
  case (Cons i ids)
  from remove_row [OF assms(1) Cons.prems, of i] obtain b c' where
    c': "remove_queued ops i c = Inr (b, c')" "queue_clean (qo_value ops c')"
      "read_queue ops c' = filter (\<lambda>x. qm_id x \<noteq> i) (read_queue ops c)" by blast
  from Cons.IH [OF c'(2)] c'(1,3) show ?case by (simp add: conj_commute)
qed simp

lemma drop_parked:
  assumes "queue_ops_ok ops" "queue_clean (qo_value ops (ps_queue w))" "de_host env" "de_open env"
  shows "read_queue ops (ps_queue (drop_parked_notices ops env w))
    = filter (\<lambda>row. \<not> prefix NOTICE_ID_PREFIX (qm_id row)) (read_queue ops (ps_queue w))"
  using assms(3,4)
  by (auto simp: drop_parked_notices_def remove_all_rows [OF assms(1,2)] intro!: filter_cong)

lemma owed_stop: "owed (note_user_message p (drop_for p (note_stop p at s))) p = []"
  by (auto simp: note_user_message_def drop_for_def note_stop_def owed_def delete_conv' split: option.splits)

lemma turns_stop: "loop_turns (note_user_message p s) p = 0"
  by (auto simp: note_user_message_def loop_turns_def delete_conv' split: option.splits)

lemma stopped_stop: "parent_stopped_at (note_user_message p (drop_for p (note_stop p at s))) p = Some at"
  by (auto simp: note_user_message_def drop_for_def note_stop_def parent_stopped_at_def update_conv'
      persist_def split: option.splits)

text \<open>After a Stop the parent is owed nothing, its parked notice rows are gone and its other
  queued rows are all there, the loop count starts over, no running side chat claims the
  parent any more, and a message sent before the Stop does not re-arm one.\<close>

theorem stop_parent_quiets:
  assumes "queue_ops_ok ops" "queue_clean (qo_value ops (ps_queue w))" "de_host env" "de_open env"
    and "stop_parent ops env parent w runs = (w', runs')" "sent_at \<le> de_now env"
  shows "owed (ps_notices w') parent = [] \<and> loop_turns (ps_notices w') parent = 0
    \<and> read_queue ops (ps_queue w')
      = filter (\<lambda>row. \<not> prefix NOTICE_ID_PREFIX (qm_id row)) (read_queue ops (ps_queue w))
    \<and> (\<nexists>chat run. (chat, run, Some parent) \<in> set runs')
    \<and> notifiable_parent_for row (ps_notices w') (Some parent) (Some sent_at) = None"
proof -
  let ?ns = "note_user_message parent (drop_for parent (note_stop parent (de_now env) (ps_notices w)))"
  from assms(5) have w': "w' = drop_parked_notices ops env (w\<lparr>ps_notices := ?ns\<rparr>)"
    and runs': "runs' = suppress_notifiable_runs parent runs"
    by (simp_all add: stop_parent_def Let_def)
  have ns: "ps_notices w' = ?ns" by (simp add: w' drop_parked_notices_def)
  have "read_queue ops (ps_queue w') = filter (\<lambda>row. \<not> prefix NOTICE_ID_PREFIX (qm_id row)) (read_queue ops (ps_queue w))"
    unfolding w' using assms(1-4) by (subst drop_parked) simp_all
  moreover have "\<nexists>chat run. (chat, run, Some parent) \<in> set runs'"
    by (auto simp: runs' suppress_notifiable_runs_def split: if_splits)
  moreover have "notifiable_parent_for row ?ns (Some parent) (Some sent_at) = None"
    using assms(6) stopped_stop [of parent "de_now env" "ps_notices w"]
    by (auto simp: notifiable_parent_for_def split: chat_read.splits option.splits)
  ultimately show ?thesis using ns by (simp add: owed_stop turns_stop)
qed

theorem stop_parent_quiets_witness:
  "owed (ps_notices (fst (stop_parent value_queue_ops sample_env ''p'' (sample_parent 3)
     [(''c'', ''r'', Some ''p'')]))) ''p'' = []"
proof -
  obtain w' runs' where w': "stop_parent value_queue_ops sample_env ''p'' (sample_parent 3)
      [(''c'', ''r'', Some ''p'')] = (w', runs')"
    by (cases "stop_parent value_queue_ops sample_env ''p'' (sample_parent 3) [(''c'', ''r'', Some ''p'')]")
  have "owed (ps_notices w') ''p'' = []"
    using stop_parent_quiets [OF value_queue_ops_ok _ _ _ w', of 5]
    by (simp add: sample_env_def sample_parent_def value_queue_ops_def queue_clean_def)
  with w' show ?thesis by simp
qed

end
