(* ===== verification/Scheduled_Resumes.thy ===== *)
theory Scheduled_Resumes
  imports Completion_Notices
begin

text \<open>
  \<open>crates/engine/src/scheduled_resumes.rs\<close> and its users in \<open>sessions.rs\<close>: the durable
  Resume-at-reset continuations. A timer's disarm flag (an \<open>Arc<AtomicBool>\<close>) is a number;
  the flags that are set are the list \<open>sr_disarmed\<close>. The clock, the file system's success
  and the answers of the rest of the engine are inputs.
\<close>

section \<open>The store\<close>

record resume_entry =
  re_fire_at :: int
  re_flag :: nat

record resumes =
  sr_entries :: "(string \<times> resume_entry) list"
  sr_fired :: "(string \<times> int) list"
  sr_path :: bool
  sr_disk :: ledger_file
  sr_disk_ok :: bool
  sr_disarmed :: "nat list"
  sr_next_flag :: nat

definition fresh_resumes :: "ledger_file \<Rightarrow> resumes" where
  "fresh_resumes disk =
     \<lparr>sr_entries = [], sr_fired = [], sr_path = False, sr_disk = disk, sr_disk_ok = True,
      sr_disarmed = [], sr_next_flag = 0\<rparr>"

record resume_file =
  rf_resumes :: "(string \<times> int) list"
  rf_fired :: "(string \<times> int) list"

definition resume_snapshot :: "resumes \<Rightarrow> resume_file" where
  "resume_snapshot s =
     \<lparr>rf_resumes = map (\<lambda>(chat, e). (chat, re_fire_at e)) (sr_entries s), rf_fired = sr_fired s\<rparr>"

definition resume_record_to_json :: "string \<times> int \<Rightarrow> json" where
  "resume_record_to_json r = JObj [(''chatId'', JStr (fst r)), (''fireAt'', JInt (snd r))]"

definition resume_record_from_json :: "json \<Rightarrow> (string \<times> int) option" where
  "resume_record_from_json v =
     (case (str_member ''chatId'' v, i64_member ''fireAt'' v) of
        (Some chat, Some at) \<Rightarrow> Some (chat, at) | _ \<Rightarrow> None)"

definition resume_file_to_json :: "resume_file \<Rightarrow> json" where
  "resume_file_to_json f =
     JObj [(''resumes'', JArr (map resume_record_to_json (rf_resumes f))),
           (''fired'', JObj (map (\<lambda>(chat, at). (chat, JInt at)) (rf_fired f)))]"

text \<open>\<open>#[serde(default)]\<close> on the struct: a member that is absent is empty.\<close>

definition resume_file_from_json :: "json \<Rightarrow> resume_file option" where
  "resume_file_from_json v =
     (case json_members v of
        None \<Rightarrow> None
      | Some _ \<Rightarrow>
          (case (case json_get ''resumes'' v of
                   None \<Rightarrow> Some []
                 | Some rv \<Rightarrow> Option.bind (json_elems rv) (traverse resume_record_from_json),
                 case json_get ''fired'' v of
                   None \<Rightarrow> Some []
                 | Some fv \<Rightarrow> Option.bind (json_members fv)
                     (traverse (\<lambda>(chat, at). map_option (Pair chat) (json_as_i64 at)))) of
             (Some resumes, Some fired) \<Rightarrow> Some \<lparr>rf_resumes = resumes, rf_fired = fired\<rparr>
           | _ \<Rightarrow> None))"

definition load_resume_file :: "ledger_file \<Rightarrow> resume_file" where
  "load_resume_file disk =
     (case (case disk of LedgerJson v \<Rightarrow> resume_file_from_json v | _ \<Rightarrow> None) of
        None \<Rightarrow> \<lparr>rf_resumes = [], rf_fired = []\<rparr> | Some f \<Rightarrow> f)"

definition persist_resumes :: "resumes \<Rightarrow> resumes" where
  "persist_resumes s =
     (if sr_path s \<and> sr_disk_ok s
      then s\<lparr>sr_disk := LedgerJson (resume_file_to_json (resume_snapshot s))\<rparr> else s)"

text \<open>A fresh flag, not set.\<close>

definition new_entry :: "string \<Rightarrow> int \<Rightarrow> resumes \<Rightarrow> resumes" where
  "new_entry chat fire_at s =
     s\<lparr>sr_entries := AList.update chat \<lparr>re_fire_at = fire_at, re_flag = sr_next_flag s\<rparr> (sr_entries s),
       sr_next_flag := sr_next_flag s + 1\<rparr>"

definition set_path :: "resumes \<Rightarrow> resumes" where
  "set_path s =
     (let loaded = load_resume_file (sr_disk s);
          s = fold (\<lambda>(chat, at). new_entry chat at) (rf_resumes loaded) s;
          s = s\<lparr>sr_fired := fold (\<lambda>(chat, at). AList.update chat at) (rf_fired loaded) (sr_fired s)\<rparr>
      in persist_resumes (s\<lparr>sr_path := True\<rparr>))"

definition scheduled :: "resumes \<Rightarrow> string \<Rightarrow> int option" where
  "scheduled s chat = map_option re_fire_at (map_of (sr_entries s) chat)"

text \<open>Replacing an entry sets the flag of the one it replaces.\<close>

definition insert_entry :: "string \<Rightarrow> int \<Rightarrow> resumes \<Rightarrow> resumes" where
  "insert_entry chat fire_at s =
     (let s' = new_entry chat fire_at s
      in case map_of (sr_entries s) chat of
           None \<Rightarrow> s' | Some old \<Rightarrow> s'\<lparr>sr_disarmed := re_flag old # sr_disarmed s'\<rparr>)"

definition arm :: "string \<Rightarrow> int \<Rightarrow> resumes \<Rightarrow> nat \<times> resumes" where
  "arm chat fire_at s = (sr_next_flag s, persist_resumes (insert_entry chat fire_at s))"

definition cancel :: "string \<Rightarrow> resumes \<Rightarrow> bool \<times> resumes" where
  "cancel chat s =
     (case map_of (sr_entries s) chat of
        None \<Rightarrow> (False, s)
      | Some old \<Rightarrow> (True, persist_resumes
          (s\<lparr>sr_entries := AList.delete chat (sr_entries s), sr_disarmed := re_flag old # sr_disarmed s\<rparr>)))"

definition consume :: "string \<Rightarrow> int \<Rightarrow> resumes \<Rightarrow> bool \<times> resumes" where
  "consume chat fire_at s =
     (case map_of (sr_entries s) chat of
        None \<Rightarrow> (False, s)
      | Some entry \<Rightarrow>
          (if re_fire_at entry = fire_at
           then (True, persist_resumes (s\<lparr>sr_entries := AList.delete chat (sr_entries s)\<rparr>))
           else (False, s)))"

definition requeue_resume :: "string \<Rightarrow> int \<Rightarrow> resumes \<Rightarrow> resumes" where
  "requeue_resume chat fire_at s = persist_resumes (insert_entry chat fire_at s)"

definition pending_resumes :: "resumes \<Rightarrow> (string \<times> int \<times> nat) list" where
  "pending_resumes s = map (\<lambda>(chat, e). (chat, re_fire_at e, re_flag e)) (sr_entries s)"

definition note_fired :: "string \<Rightarrow> int \<Rightarrow> resumes \<Rightarrow> resumes" where
  "note_fired chat fire_at s =
     persist_resumes (s\<lparr>sr_fired := AList.update chat
       (case map_of (sr_fired s) chat of None \<Rightarrow> fire_at | Some at \<Rightarrow> max at fire_at) (sr_fired s)\<rparr>)"

definition i64_min :: int where "i64_min = - (2 ^ 63)"

definition advances :: "string \<Rightarrow> int \<Rightarrow> int \<Rightarrow> resumes \<Rightarrow> bool" where
  "advances chat resets_at now s \<longleftrightarrow>
     max (case map_of (sr_fired s) chat of None \<Rightarrow> i64_min | Some at \<Rightarrow> at) now < resets_at"

section \<open>Arming and firing\<close>

text \<open>\<open>schedule_resume_at_reset\<close>: the limit record of the chat, if any, is an input.\<close>

datatype schedule_error = NotLimited | ResetUnknown | AlreadyReset

definition schedule_resume_at_reset ::
    "int option option \<Rightarrow> int \<Rightarrow> string \<Rightarrow> resumes \<Rightarrow> schedule_error + resumes" where
  "schedule_resume_at_reset limit now chat s =
     (case limit of
        None \<Rightarrow> Inl NotLimited
      | Some None \<Rightarrow> Inl ResetUnknown
      | Some (Some fire_at) \<Rightarrow>
          (if fire_at \<le> now then Inl AlreadyReset else Inr (snd (arm chat fire_at s))))"

definition maybe_auto_arm_resume ::
    "bool \<Rightarrow> int option \<Rightarrow> int \<Rightarrow> string \<Rightarrow> resumes \<Rightarrow> resumes" where
  "maybe_auto_arm_resume auto_setting limit_resets_at now chat s =
     (if \<not> auto_setting then s
      else case limit_resets_at of
        None \<Rightarrow> s
      | Some resets_at \<Rightarrow> (if advances chat resets_at now s then snd (arm chat resets_at s) else s))"

record fire_env =
  fe_shutting_down :: bool
  fe_shutting_down_late :: bool
  fe_turn_in_flight :: bool
  fe_host :: bool
  fe_chat :: chat_read
  fe_request :: bool
  fe_dispatch_ok :: bool
  fe_shutting_down_after :: bool
  fe_doc_open :: bool

datatype fire_result =
    LeftArmed
  | Obsolete
  | PutBack
  | Dropped
  | Fired string bool \<comment> \<open>message id, queue thawed\<close>
  | DispatchFailed

definition fire_scheduled_resume ::
    "fire_env \<Rightarrow> string \<Rightarrow> int \<Rightarrow> resumes \<Rightarrow> fire_result \<times> resumes" where
  "fire_scheduled_resume env chat fire_at s =
     (if fe_shutting_down env then (LeftArmed, s)
      else let (consumed, s) = consume chat fire_at s
      in if \<not> consumed then (Obsolete, s)
      else let s = note_fired chat fire_at s
      in if fe_shutting_down_late env then (PutBack, requeue_resume chat fire_at s)
      else if fe_turn_in_flight env then (Dropped, s)
      else if \<not> fe_host env then (Dropped, s)
      else if fe_chat env = ChatGone then (Dropped, s)
      else if (case fe_chat env of ChatRow row \<Rightarrow> cr_archived row | _ \<Rightarrow> False) then (Dropped, s)
      else if \<not> fe_request env then (Dropped, s)
      else if fe_dispatch_ok env
      then (Fired (''resume-at-reset:'' @ show_int fire_at @ '':'' @ chat) (fe_doc_open env), s)
      else if fe_shutting_down_after env then (PutBack, requeue_resume chat fire_at s)
      else (DispatchFailed, s))"

text \<open>A timer that wakes at its time: the flag it holds, then the firing.\<close>

definition timer_wakes ::
    "fire_env \<Rightarrow> string \<Rightarrow> int \<Rightarrow> nat \<Rightarrow> resumes \<Rightarrow> fire_result \<times> resumes" where
  "timer_wakes env chat fire_at flag s =
     (if flag \<in> set (sr_disarmed s) then (Obsolete, s) else fire_scheduled_resume env chat fire_at s)"


section \<open>Restart\<close>

datatype resume_op =
    ArmOp string int
  | CancelOp string
  | ConsumeOp string int
  | RequeueOp string int
  | NoteFiredOp string int

fun resume_step :: "resumes \<Rightarrow> resume_op \<Rightarrow> resumes" where
  "resume_step s (ArmOp c at) = snd (arm c at s)"
| "resume_step s (CancelOp c) = snd (cancel c s)"
| "resume_step s (ConsumeOp c at) = snd (consume c at s)"
| "resume_step s (RequeueOp c at) = requeue_resume c at s"
| "resume_step s (NoteFiredOp c at) = note_fired c at s"

definition resumes_durable :: "resumes \<Rightarrow> bool" where
  "resumes_durable s \<longleftrightarrow>
     distinct (map fst (sr_entries s)) \<and> distinct (map fst (sr_fired s))
     \<and> (sr_path s \<and> sr_disk_ok s \<longrightarrow> sr_disk s = LedgerJson (resume_file_to_json (resume_snapshot s)))"

definition keys_ok :: "resumes \<Rightarrow> bool" where
  "keys_ok s \<longleftrightarrow> distinct (map fst (sr_entries s)) \<and> distinct (map fst (sr_fired s))"

lemma persist_resumes_fields [simp]:
  "sr_entries (persist_resumes s) = sr_entries s" "sr_fired (persist_resumes s) = sr_fired s"
  "sr_path (persist_resumes s) = sr_path s" "sr_disk_ok (persist_resumes s) = sr_disk_ok s"
  "sr_disarmed (persist_resumes s) = sr_disarmed s" "sr_next_flag (persist_resumes s) = sr_next_flag s"
  by (simp_all add: persist_resumes_def)

lemma persist_resumes_durable: "keys_ok s \<Longrightarrow> resumes_durable (persist_resumes s)"
  by (auto simp: keys_ok_def resumes_durable_def persist_resumes_def resume_snapshot_def)

lemma insert_entry_fields:
  "sr_entries (insert_entry c at s) = AList.update c \<lparr>re_fire_at = at, re_flag = sr_next_flag s\<rparr> (sr_entries s)"
  "sr_fired (insert_entry c at s) = sr_fired s" "sr_path (insert_entry c at s) = sr_path s"
  "sr_disk_ok (insert_entry c at s) = sr_disk_ok s" "sr_next_flag (insert_entry c at s) = sr_next_flag s + 1"
  by (simp_all add: insert_entry_def new_entry_def Let_def split: option.splits)

lemma resume_step_durable: "resumes_durable s \<Longrightarrow> resumes_durable (resume_step s op)"
  by (cases op) (auto simp: arm_def requeue_resume_def cancel_def consume_def note_fired_def keys_ok_def
      insert_entry_fields distinct_update distinct_delete resumes_durable_def [of s]
      intro!: persist_resumes_durable split: option.splits)

interpretation resume_store: invariant_machine resume_step resumes_durable
  by unfold_locales (rule resume_step_durable)

definition times_i64 :: "resumes \<Rightarrow> bool" where
  "times_i64 s \<longleftrightarrow> list_all (\<lambda>(c, e). i64 (re_fire_at e)) (sr_entries s) \<and> list_all (\<lambda>(c, at). i64 at) (sr_fired s)"

lemma resume_record_roundtrip: "i64 (snd r) \<Longrightarrow> resume_record_from_json (resume_record_to_json r) = Some r"
  by (cases r) (simp add: resume_record_from_json_def resume_record_to_json_def str_member_def i64_member_def)

lemma resume_file_roundtrip:
  assumes "times_i64 s"
  shows "resume_file_from_json (resume_file_to_json (resume_snapshot s)) = Some (resume_snapshot s)"
proof -
  have "i64 (snd r)" if "r \<in> set (rf_resumes (resume_snapshot s))" for r
    using assms that by (auto simp: times_i64_def list_all_iff resume_snapshot_def)
  then have "traverse resume_record_from_json (map resume_record_to_json (rf_resumes (resume_snapshot s)))
      = Some (rf_resumes (resume_snapshot s))"
    by (intro traverse_map resume_record_roundtrip)
  moreover have "traverse (\<lambda>(c, at). map_option (Pair c) (json_as_i64 at))
      (map (\<lambda>(c, at). (c, JInt at)) (rf_fired (resume_snapshot s))) = Some (rf_fired (resume_snapshot s))"
    using assms by (intro traverse_pairs) (auto simp: times_i64_def list_all_iff resume_snapshot_def)
  ultimately show ?thesis by (simp add: resume_file_from_json_def resume_file_to_json_def)
qed

lemma fold_new_entry:
  "distinct (map fst kvs) \<Longrightarrow>
    map_option re_fire_at (map_of (sr_entries (fold (\<lambda>(c, at). new_entry c at) kvs s)) c) =
      (case map_of kvs c of None \<Rightarrow> map_option re_fire_at (map_of (sr_entries s) c) | Some at \<Rightarrow> Some at)"
  "sr_fired (fold (\<lambda>(c, at). new_entry c at) kvs s) = sr_fired s"
proof (induction kvs arbitrary: s)
  case (Cons kv kvs)
  obtain k v where kv: "kv = (k, v)" by (cases kv)
  {
    case 1
    then have "k \<notin> fst ` set kvs" "distinct (map fst kvs)" by (auto simp: kv)
    then have "map_of kvs k = None" by (simp add: map_of_eq_None_iff)
    with Cons(1) \<open>distinct (map fst kvs)\<close> show ?case
      by (auto simp: kv new_entry_def update_conv' split: option.splits)
  next
    case 2
    show ?case using Cons(2) by (simp add: kv new_entry_def)
  }
qed simp_all

text \<open>After any sequence of arming, cancelling, consuming, putting back and firing, an
  engine restarted on the file has the same continuation armed for every chat and the same
  loop-guard floors.\<close>

theorem restart_keeps_resumes:
  assumes "s = foldl resume_step (set_path (fresh_resumes NoFile)) ops" "times_i64 s"
  shows "scheduled (set_path (fresh_resumes (sr_disk s))) chat = scheduled s chat
    \<and> advances chat resets_at now (set_path (fresh_resumes (sr_disk s))) = advances chat resets_at now s"
proof -
  have "resumes_durable (set_path (fresh_resumes NoFile))"
    unfolding set_path_def Let_def
    by (intro persist_resumes_durable) (simp add: keys_ok_def load_resume_file_def fresh_resumes_def)
  then have dur: "resumes_durable s" unfolding assms(1) by (rule resume_store.run_inv)
  have step: "sr_path (resume_step s op) = sr_path s \<and> sr_disk_ok (resume_step s op) = sr_disk_ok s" for s op
    by (cases op) (simp_all add: arm_def requeue_resume_def cancel_def consume_def note_fired_def
        insert_entry_fields split: option.splits)
  have "sr_path (foldl resume_step s ops) = sr_path s \<and> sr_disk_ok (foldl resume_step s ops) = sr_disk_ok s" for s
    by (induction ops arbitrary: s) (simp_all add: step)
  then have "sr_path s" "sr_disk_ok s"
    unfolding assms(1) by (simp_all add: set_path_def load_resume_file_def fresh_resumes_def)
  with dur have disk: "sr_disk s = LedgerJson (resume_file_to_json (resume_snapshot s))"
    by (simp add: resumes_durable_def)
  have load: "load_resume_file (sr_disk s) = resume_snapshot s"
    unfolding disk load_resume_file_def using resume_file_roundtrip [OF assms(2)] by simp
  let ?s' = "set_path (fresh_resumes (sr_disk s))"
  have keys: "distinct (map fst (rf_resumes (resume_snapshot s)))" "distinct (map fst (sr_fired s))"
    using dur by (simp_all add: resumes_durable_def resume_snapshot_def split_def comp_def)
  have "sr_fired ?s' = sr_fired s"
    using keys(2) fold_update_fresh [of "[]" "sr_fired s"]
    by (simp add: set_path_def fresh_resumes_def load [unfolded disk] disk fold_new_entry(2) Let_def)
      (simp add: resume_snapshot_def)
  moreover have "scheduled ?s' chat = scheduled s chat"
    using fold_new_entry(1) [OF keys(1)]
    by (simp add: scheduled_def set_path_def fresh_resumes_def load [unfolded disk] disk Let_def)
      (simp add: resume_snapshot_def map_of_map split: option.splits)
  ultimately show ?thesis by (simp add: advances_def)
qed

theorem restart_keeps_resumes_witness:
  "scheduled (set_path (fresh_resumes (sr_disk (foldl resume_step (set_path (fresh_resumes NoFile))
      [ArmOp ''a'' 5, ArmOp ''b'' 6, ConsumeOp ''a'' 5, NoteFiredOp ''a'' 5])))) ''b'' = Some 6"
  using restart_keeps_resumes [OF refl, of "[ArmOp ''a'' 5, ArmOp ''b'' 6, ConsumeOp ''a'' 5, NoteFiredOp ''a'' 5]" "''b''"]
  by (simp add: arm_def insert_entry_def new_entry_def consume_def note_fired_def set_path_def
      fresh_resumes_def load_resume_file_def persist_resumes_def times_i64_def i64_def scheduled_def)

section \<open>A timer fires only its own entry\<close>

definition flags_ok :: "resumes \<Rightarrow> bool" where
  "flags_ok s \<longleftrightarrow> (\<forall>c e. map_of (sr_entries s) c = Some e \<longrightarrow>
      re_flag e < sr_next_flag s \<and> re_flag e \<notin> set (sr_disarmed s)
      \<and> (\<forall>c' e'. map_of (sr_entries s) c' = Some e' \<longrightarrow> re_flag e' = re_flag e \<longrightarrow> c' = c))
    \<and> (\<forall>f \<in> set (sr_disarmed s). f < sr_next_flag s)"

lemma insert_entry_flags:
  "sr_disarmed (insert_entry c at s) = (case map_of (sr_entries s) c of None \<Rightarrow> sr_disarmed s
     | Some old \<Rightarrow> re_flag old # sr_disarmed s)"
  by (simp add: insert_entry_def new_entry_def Let_def split: option.splits)

lemma flags_okD:
  assumes "flags_ok s" "map_of (sr_entries s) c = Some e"
  shows "re_flag e < sr_next_flag s" "re_flag e \<notin> set (sr_disarmed s)"
    and "map_of (sr_entries s) c' = Some e' \<Longrightarrow> re_flag e' = re_flag e \<Longrightarrow> c' = c"
  using assms unfolding flags_ok_def by blast+

lemma flags_ok_disarmed: "flags_ok s \<Longrightarrow> f \<in> set (sr_disarmed s) \<Longrightarrow> f < sr_next_flag s"
  by (simp add: flags_ok_def)

lemma insert_entry_flags_ok:
  assumes "flags_ok s"
  shows "flags_ok (insert_entry c at s)"
proof -
  let ?s = "insert_entry c at s"
  have look: "map_of (sr_entries ?s) k = Some e \<longleftrightarrow>
      (if k = c then e = \<lparr>re_fire_at = at, re_flag = sr_next_flag s\<rparr> else map_of (sr_entries s) k = Some e)" for k e
    by (auto simp: insert_entry_fields update_conv')
  have disarmed: "f \<in> set (sr_disarmed ?s) \<longleftrightarrow>
      f \<in> set (sr_disarmed s) \<or> (\<exists>old. map_of (sr_entries s) c = Some old \<and> f = re_flag old)" for f
    by (auto simp: insert_entry_flags split: option.splits)
  have below: "f < sr_next_flag s" if "f \<in> set (sr_disarmed ?s)" for f
    using that flags_okD(1) [OF assms] flags_ok_disarmed [OF assms] by (auto simp: disarmed)
  have "re_flag e < sr_next_flag ?s \<and> re_flag e \<notin> set (sr_disarmed ?s)
      \<and> (\<forall>k' e'. map_of (sr_entries ?s) k' = Some e' \<longrightarrow> re_flag e' = re_flag e \<longrightarrow> k' = k)"
    if e: "map_of (sr_entries ?s) k = Some e" for k e
  proof (cases "k = c")
    case True
    with e have "e = \<lparr>re_fire_at = at, re_flag = sr_next_flag s\<rparr>" by (simp add: look)
    with True below show ?thesis
      by (auto simp: insert_entry_fields(5) look dest: flags_okD(1) [OF assms] split: if_splits)
  next
    case False
    with e have old: "map_of (sr_entries s) k = Some e" by (simp add: look)
    note old' = flags_okD [OF assms old]
    have "re_flag e \<notin> set (sr_disarmed ?s)"
      using old'(2,3) False unfolding disarmed by metis
    with old' False show ?thesis
      by (auto simp: insert_entry_fields(5) look split: if_splits)
  qed
  moreover have "\<forall>f \<in> set (sr_disarmed ?s). f < sr_next_flag ?s"
    using below by (auto simp: insert_entry_fields(5) intro: less_SucI)
  ultimately show ?thesis unfolding flags_ok_def by blast
qed

lemma persist_flags_ok [simp]: "flags_ok (persist_resumes s) = flags_ok s"
  by (simp add: flags_ok_def)

lemma resume_step_flags_ok: "flags_ok s \<Longrightarrow> flags_ok (resume_step s op)"
proof (cases op)
  case (CancelOp c)
  then show "flags_ok s \<Longrightarrow> ?thesis"
    by (auto simp: cancel_def flags_ok_def delete_conv' split: option.splits if_splits)
next
  case (ConsumeOp c at)
  then show "flags_ok s \<Longrightarrow> ?thesis"
    by (auto simp: consume_def flags_ok_def delete_conv' split: option.splits if_splits)
next
  case (NoteFiredOp c at)
  then show "flags_ok s \<Longrightarrow> ?thesis" by (simp add: note_fired_def flags_ok_def)
qed (simp_all add: arm_def requeue_resume_def insert_entry_flags_ok)

interpretation resume_flags: invariant_machine resume_step flags_ok
  by unfold_locales (rule resume_step_flags_ok)


definition owned :: "nat \<Rightarrow> string \<Rightarrow> int \<Rightarrow> resumes \<Rightarrow> bool" where
  "owned f chat at s \<longleftrightarrow>
     f \<in> set (sr_disarmed s) \<or> map_of (sr_entries s) chat = Some \<lparr>re_fire_at = at, re_flag = f\<rparr>"

fun consumes :: "string \<Rightarrow> resume_op \<Rightarrow> bool" where
  "consumes chat (ConsumeOp c at) \<longleftrightarrow> c = chat"
| "consumes chat _ \<longleftrightarrow> False"

lemma owned_persist [simp]: "owned f chat at (persist_resumes s) = owned f chat at s"
  by (simp add: owned_def)

lemma owned_insert: "owned f chat at s \<Longrightarrow> owned f chat at (insert_entry c t s)"
  by (auto simp: owned_def insert_entry_flags insert_entry_fields update_conv' split: option.splits)

lemma owned_step: "owned f chat at s \<Longrightarrow> \<not> consumes chat op \<Longrightarrow> owned f chat at (resume_step s op)"
proof (cases op)
  case (CancelOp c)
  then show "owned f chat at s \<Longrightarrow> ?thesis"
    by (auto simp: cancel_def owned_def delete_conv' split: option.splits)
next
  case (ConsumeOp c t)
  then show "owned f chat at s \<Longrightarrow> \<not> consumes chat op \<Longrightarrow> ?thesis"
    by (auto simp: consume_def owned_def delete_conv' split: option.splits)
qed (auto simp: arm_def requeue_resume_def owned_insert note_fired_def, auto simp: owned_def)

text \<open>Until a timer's continuation is consumed, its disarm flag says exactly whether the
  chat's entry is still the one it was spawned for: replacing or cancelling the entry sets the
  flag, and nothing else does.\<close>

theorem timer_flag_exact:
  assumes "flags_ok s" "arm chat at s = (f, s1)" "list_all (\<lambda>op. \<not> consumes chat op) ops"
    and "s2 = foldl resume_step s1 ops"
  shows "f \<notin> set (sr_disarmed s2) \<longleftrightarrow> map_of (sr_entries s2) chat = Some \<lparr>re_fire_at = at, re_flag = f\<rparr>"
proof -
  from assms(2) have f: "f = sr_next_flag s" and s1: "s1 = persist_resumes (insert_entry chat at s)"
    by (simp_all add: arm_def)
  have "owned f chat at s1"
    by (simp add: s1 f owned_def insert_entry_fields update_conv')
  then have "owned f chat at s2"
    using assms(3) unfolding assms(4)
    by (induction ops arbitrary: s1) (auto intro: owned_step)
  moreover have "flags_ok s2"
    unfolding assms(4) s1 using assms(1)
    by (intro resume_flags.run_inv) (simp add: insert_entry_flags_ok)
  ultimately show ?thesis by (auto simp: owned_def dest: flags_okD(2))
qed

theorem timer_flag_exact_witness:
  "0 \<notin> set (sr_disarmed (foldl resume_step (snd (arm ''a'' 5 (fresh_resumes NoFile)))
      [ArmOp ''b'' 6, NoteFiredOp ''a'' 2]))
   \<and> 0 \<in> set (sr_disarmed (foldl resume_step (snd (arm ''a'' 5 (fresh_resumes NoFile))) [ArmOp ''a'' 5]))"
proof -
  have ok: "flags_ok (fresh_resumes NoFile)" by (simp add: flags_ok_def fresh_resumes_def)
  have arm: "arm ''a'' 5 (fresh_resumes NoFile) = (0, snd (arm ''a'' 5 (fresh_resumes NoFile)))"
    by (simp add: arm_def fresh_resumes_def)
  show ?thesis
    using timer_flag_exact [OF ok arm _ refl, of "[ArmOp ''b'' 6, NoteFiredOp ''a'' 2]"]
      timer_flag_exact [OF ok arm _ refl, of "[ArmOp ''a'' 5]"]
    by (simp add: arm_def insert_entry_def new_entry_def note_fired_def persist_resumes_def fresh_resumes_def)
qed

section \<open>The loop guard\<close>

datatype auto_event = LimitSeen int "int option" | TimerWakes fire_env int nat

text \<open>A run under the auto-resume setting, with the times of the continuations that went out.\<close>

fun auto_step :: "string \<Rightarrow> resumes \<times> int list \<Rightarrow> auto_event \<Rightarrow> resumes \<times> int list" where
  "auto_step chat (s, fired) (LimitSeen now resets_at) = (maybe_auto_arm_resume True resets_at now chat s, fired)"
| "auto_step chat (s, fired) (TimerWakes env at flag) =
     (case timer_wakes env chat at flag s of
        (Fired _ _, s') \<Rightarrow> (s', fired @ [at]) | (_, s') \<Rightarrow> (s', fired))"

definition floor_of :: "resumes \<Rightarrow> string \<Rightarrow> int option" where
  "floor_of s chat = map_of (sr_fired s) chat"

definition guarded :: "string \<Rightarrow> resumes \<times> int list \<Rightarrow> bool" where
  "guarded chat st \<longleftrightarrow> (case st of (s, fired) \<Rightarrow>
     sorted_wrt (<) fired
     \<and> (\<forall>t \<in> set fired. \<exists>at. floor_of s chat = Some at \<and> t \<le> at)
     \<and> (\<forall>e. map_of (sr_entries s) chat = Some e \<longrightarrow> (\<forall>t \<in> set fired. t < re_fire_at e)))"

lemma guarded_arm:
  assumes "guarded chat (s, fired)" "advances chat at now s"
  shows "guarded chat (snd (arm chat at s), fired)"
  using assms
  by (fastforce simp: guarded_def arm_def insert_entry_fields update_conv' advances_def floor_of_def)

lemma guarded_consumed:
  assumes "guarded chat (s, fired)" "consume chat at s = (True, s1)"
  shows "guarded chat (note_fired chat at s1, fired @ [at])"
    and "guarded chat (note_fired chat at s1, fired)"
    and "guarded chat (requeue_resume chat at (note_fired chat at s1), fired)"
proof -
  from assms(2) obtain e where e: "map_of (sr_entries s) chat = Some e" "re_fire_at e = at"
    and s1: "s1 = persist_resumes (s\<lparr>sr_entries := AList.delete chat (sr_entries s)\<rparr>)"
    by (auto simp: consume_def split: option.splits if_splits)
  have lt: "\<forall>t \<in> set fired. t < at" using assms(1) e by (auto simp: guarded_def)
  have floor: "floor_of (note_fired chat at s1) chat = Some (case floor_of s chat of None \<Rightarrow> at | Some b \<Rightarrow> max b at)"
    by (simp add: note_fired_def s1 floor_of_def update_conv')
  have gone: "map_of (sr_entries (note_fired chat at s1)) chat = None"
    by (simp add: note_fired_def s1 delete_conv')
  have le: "\<forall>t \<in> set fired. \<exists>b. floor_of (note_fired chat at s1) chat = Some b \<and> t \<le> b"
    using lt unfolding floor by (auto split: option.splits intro: less_imp_le max.coboundedI2)
  show "guarded chat (note_fired chat at s1, fired @ [at])"
    using assms(1) lt le gone floor by (auto simp: guarded_def sorted_wrt_append split: option.splits)
  show base: "guarded chat (note_fired chat at s1, fired)"
    using assms(1) le gone by (auto simp: guarded_def)
  show "guarded chat (requeue_resume chat at (note_fired chat at s1), fired)"
    using base lt by (auto simp: guarded_def requeue_resume_def insert_entry_fields update_conv' floor_of_def)
qed

lemma guarded_fire:
  assumes "guarded chat (s, fired)"
  shows "guarded chat (auto_step chat (s, fired) (TimerWakes env at flag))"
proof (cases "flag \<in> set (sr_disarmed s) \<or> fe_shutting_down env \<or> \<not> fst (consume chat at s)")
  case True
  have "snd (consume chat at s) = s" if "\<not> fst (consume chat at s)"
    using that by (auto simp: consume_def split: option.splits)
  with True assms show ?thesis
    by (auto simp: timer_wakes_def fire_scheduled_resume_def split_def Let_def)
next
  case False
  then obtain s1 where s1: "consume chat at s = (True, s1)" by (cases "consume chat at s") auto
  with False guarded_consumed [OF assms s1] show ?thesis
    by (simp add: timer_wakes_def fire_scheduled_resume_def Let_def)
qed

lemma guarded_step: "guarded chat st \<Longrightarrow> guarded chat (auto_step chat st e)"
proof (cases st)
  case (Pair s fired)
  assume "guarded chat st"
  with Pair show ?thesis
    by (cases e) (auto simp del: auto_step.simps(2) simp: maybe_auto_arm_resume_def guarded_arm guarded_fire
        split: option.splits)
qed

interpretation loop_guard: invariant_machine "auto_step chat" "guarded chat" for chat
  by unfold_locales (rule guarded_step)

text \<open>C33: under auto-resume the continuations a chat sends have strictly increasing reset
  times: a limit record whose reset does not pass the last one fired never arms another, so
  the engine cannot loop into the same limit, shutdowns and put-backs included.\<close>

theorem auto_resume_makes_progress:
  assumes "sr_entries s = []"
  shows "sorted_wrt (<) (snd (foldl (auto_step chat) (s, []) events))"
proof -
  have "guarded chat (s, [])" using assms by (simp add: guarded_def)
  from loop_guard.run_inv [OF this, of events] show ?thesis
    by (simp add: guarded_def split_def)
qed

definition sample_fire :: fire_env where
  "sample_fire = \<lparr>fe_shutting_down = False, fe_shutting_down_late = False, fe_turn_in_flight = False,
     fe_host = True, fe_chat = RowUnreadable, fe_request = True, fe_dispatch_ok = True,
     fe_shutting_down_after = False, fe_doc_open = True\<rparr>"

theorem auto_resume_makes_progress_witness:
  "sorted_wrt (<) (snd (foldl (auto_step ''c'') (fresh_resumes NoFile, [])
     [LimitSeen 1 (Some 5), TimerWakes sample_fire 5 0, LimitSeen 5 (Some 5), LimitSeen 6 (Some 9),
      TimerWakes sample_fire 9 1]))
   \<and> snd (foldl (auto_step ''c'') (fresh_resumes NoFile, [])
     [LimitSeen 1 (Some 5), TimerWakes sample_fire 5 0, LimitSeen 5 (Some 5), LimitSeen 6 (Some 9),
      TimerWakes sample_fire 9 1]) = [5, 9]"
proof
  show "sorted_wrt (<) (snd (foldl (auto_step ''c'') (fresh_resumes NoFile, [])
     [LimitSeen 1 (Some 5), TimerWakes sample_fire 5 0, LimitSeen 5 (Some 5), LimitSeen 6 (Some 9),
      TimerWakes sample_fire 9 1]))"
    by (rule auto_resume_makes_progress) (simp add: fresh_resumes_def)
  show "snd (foldl (auto_step ''c'') (fresh_resumes NoFile, [])
     [LimitSeen 1 (Some 5), TimerWakes sample_fire 5 0, LimitSeen 5 (Some 5), LimitSeen 6 (Some 9),
      TimerWakes sample_fire 9 1]) = [5, 9]"
    by (simp add: fresh_resumes_def maybe_auto_arm_resume_def advances_def i64_min_def arm_def
        insert_entry_def new_entry_def persist_resumes_def timer_wakes_def fire_scheduled_resume_def
        sample_fire_def consume_def note_fired_def)
qed

section \<open>Two writers\<close>

text \<open>\<open>persist\<close> takes its snapshot under the locks and writes it after releasing them.\<close>

definition write_snapshot :: "resume_file \<Rightarrow> resumes \<Rightarrow> resumes" where
  "write_snapshot f s = s\<lparr>sr_disk := LedgerJson (resume_file_to_json f)\<rparr>"

text \<open>Two armings whose snapshots are written in the other order leave the older snapshot
  on disk: both continuations are armed, and the next boot has lost the second.\<close>

theorem late_write_loses_resume:
  "let s1 = insert_entry ''a'' 5 (set_path (fresh_resumes NoFile));
       s2 = insert_entry ''b'' 6 s1;
       s3 = write_snapshot (resume_snapshot s1) (write_snapshot (resume_snapshot s2) s2)
   in scheduled s3 ''b'' = Some 6 \<and> scheduled (set_path (fresh_resumes (sr_disk s3))) ''b'' = None"
  by (simp add: write_snapshot_def insert_entry_def new_entry_def set_path_def fresh_resumes_def
      load_resume_file_def persist_resumes_def resume_snapshot_def resume_file_to_json_def
      resume_file_from_json_def resume_record_to_json_def resume_record_from_json_def str_member_def
      i64_member_def i64_def scheduled_def Let_def)

end
