(* ===== verification/Transcript_Budget.thy ===== *)
theory Transcript_Budget
  imports Transcript_Delta
begin

text \<open>
  \<open>crates/engine/src/transcript_budget.rs\<close>: the budgeted transcript put in front of a prompt
  that starts a provider session without the chat's prior context, with
  \<open>join_continuation_entries\<close> of \<open>crates/doc/src/schema.rs\<close>. The loops over priorities
  and over the newest remaining messages are recursions over the indexes they visit; a
  \<open>saturating_sub\<close> is the subtraction of naturals.
\<close>

section \<open>Joining continuation entries\<close>

fun join_entries ::
    "message_entry list \<Rightarrow> message_entry list \<Rightarrow> (string \<times> nat) list \<Rightarrow> message_entry list" where
  "join_entries [] out root_index = out"
| "join_entries (entry # rest) out root_index =
     (case e_continuation_of entry of
        Some root_id \<Rightarrow>
          (case map_of root_index root_id of
             Some at \<Rightarrow>
               join_entries rest (out[at := (out ! at)\<lparr>
                 e_parts := e_parts (out ! at) @ e_parts entry,
                 e_duration_ms := (if e_duration_ms entry \<noteq> None then e_duration_ms entry
                                   else e_duration_ms (out ! at))\<rparr>]) root_index
           | None \<Rightarrow> join_entries rest (out @ [entry]) root_index)
      | None \<Rightarrow>
          join_entries rest (out @ [entry]) (AList.update (e_id entry) (length out) root_index))"

definition join_continuation_entries :: "message_entry list \<Rightarrow> message_entry list" where
  "join_continuation_entries entries =
     (if list_ex (\<lambda>e. e_continuation_of e \<noteq> None) entries then join_entries entries [] [] else entries)"

section \<open>Rendering\<close>

definition TRANSCRIPT_BUDGET_BYTES :: nat where "TRANSCRIPT_BUDGET_BYTES = 16 * 1024"
definition ITEM_CAP_BYTES :: nat where "ITEM_CAP_BYTES = TRANSCRIPT_BUDGET_BYTES div 4"
definition MIN_ITEM_BYTES :: nat where "MIN_ITEM_BYTES = 64"

definition newline :: string where "newline = [CHR 0x0A]"

definition LEAD :: string where
  "LEAD = ''Continue this chat using the following prior transcript as context.''"
definition TRANSCRIPT_OPEN :: string where
  "TRANSCRIPT_OPEN = ''<transcript>'' @ newline"
definition TRANSCRIPT_CLOSE :: string where
  "TRANSCRIPT_CLOSE = newline @ ''</transcript>'' @ newline @ newline"
definition TRUNCATION_MARKER :: string where
  "TRUNCATION_MARKER = '' '' @ ellipsis @ ''[truncated]''"

record transcript_item =
  ti_role :: message_role
  ti_text :: string

fun role_label :: "message_role \<Rightarrow> string" where
  "role_label UserRole = ''user''"
| "role_label AssistantRole = ''assistant''"
| "role_label SystemRole = ''system''"

fun describe_call :: "tool_call \<Rightarrow> string" where
  "describe_call (Exec command) = command"
| "describe_call (ReadFile path) = ''read '' @ path"
| "describe_call (WriteFile path _) = ''write '' @ path"
| "describe_call (EditFile path _ _) = ''edit '' @ path"
| "describe_call (ApplyPatch path) = (case path of Some p \<Rightarrow> ''patch '' @ p | None \<Rightarrow> ''patch'')"
| "describe_call (Search pattern _) = ''search '' @ pattern"
| "describe_call (Glob pattern) = ''glob '' @ pattern"
| "describe_call (WebFetch url _) = ''fetch '' @ url"
| "describe_call (WebSearch query) = ''search web '' @ query"
| "describe_call (Todo items) = ''todo ('' @ show_nat (length items) @ '' items)''"
| "describe_call (Mcp server tool _) = server @ ''/'' @ tool"
| "describe_call (UnknownTool name _) = name"

definition render_command_run :: "tool_part \<Rightarrow> string" where
  "render_command_run t =
     (let exit = (if \<not> tp_resolved t then ''unknown'' else if tp_is_error t then ''1'' else ''0'');
          paths = (case tp_diff_stats t of None \<Rightarrow> [] | Some stats \<Rightarrow> map ds_path stats)
                  @ (case tp_diff t of None \<Rightarrow> [] | Some d \<Rightarrow> [diff_path d])
      in join_with newline
           ([''Command: '' @ describe_call (tp_call t), ''Exit code: '' @ exit]
            @ (case tp_output t of None \<Rightarrow> [] | Some out \<Rightarrow> if blank out then [] else [out])
            @ (if paths = [] then [] else [''File changes: '' @ join_with '', '' paths])))"

fun render_part :: "message_part \<Rightarrow> string option" where
  "render_part (TextPart _ body) = (if blank body then None else Some body)"
| "render_part (ErrorPart _ message) = Some (''Error: '' @ message)"
| "render_part (ToolPart t) = Some (render_command_run t)"
| "render_part _ = None"

definition render_parts :: "message_part list \<Rightarrow> string" where
  "render_parts parts = join_with newline (List.map_filter render_part parts)"

definition transcript_items :: "message_entry list \<Rightarrow> transcript_item list" where
  "transcript_items entries =
     List.map_filter (\<lambda>entry.
       if e_role entry = SystemRole \<or> blank (render_parts (e_parts entry)) then None
       else Some \<lparr>ti_role = e_role entry, ti_text = render_parts (e_parts entry)\<rparr>)
     (join_continuation_entries entries)"

section \<open>Selection\<close>

definition truncate_line :: "string \<Rightarrow> nat \<Rightarrow> string" where
  "truncate_line line cap =
     (if length line \<le> cap then line
      else take (floor_boundary line (min (cap - length TRUNCATION_MARKER) (length line))) line
           @ TRUNCATION_MARKER)"

definition fill_line :: "string \<Rightarrow> nat \<Rightarrow> string option" where
  "fill_line line remaining =
     (if remaining \<le> MIN_ITEM_BYTES then None
      else let capped = truncate_line line ITEM_CAP_BYTES
           in if length capped + 1 \<le> remaining then Some capped else None)"

definition coverage_header :: "nat \<Rightarrow> string option \<Rightarrow> string" where
  "coverage_header omitted source_chat_id =
     (let lead = (if 0 < omitted
            then ''This transcript is partial: '' @ show_nat omitted @ '' messages were omitted.''
            else ''This transcript is partial: long messages were truncated.'')
      in case source_chat_id of
           Some chat_id \<Rightarrow> lead
             @ '' Read the full transcript with the `read_chat` MCP tool using chat id \"'' @ chat_id @ ''\".''
         | None \<Rightarrow> lead)"

definition coverage_header_max :: "nat \<Rightarrow> string option \<Rightarrow> nat" where
  "coverage_header_max items source_chat_id =
     max (length (coverage_header items source_chat_id)) (length (coverage_header 0 source_chat_id)) + 1"

definition wrap_with_lead :: "string option \<Rightarrow> string list \<Rightarrow> string \<Rightarrow> string" where
  "wrap_with_lead header lines lead =
     lead @ newline @ (case header of None \<Rightarrow> [] | Some h \<Rightarrow> h @ newline)
     @ TRANSCRIPT_OPEN @ join_with newline lines @ TRANSCRIPT_CLOSE"

type_synonym selection = "string option list \<times> nat" \<comment> \<open>delivered, remaining\<close>

fun deliver_priorities :: "string list \<Rightarrow> nat list \<Rightarrow> selection \<Rightarrow> selection" where
  "deliver_priorities lines [] st = st"
| "deliver_priorities lines (idx # rest) (delivered, remaining) =
     (if delivered ! idx \<noteq> None then deliver_priorities lines rest (delivered, remaining)
      else let cap = min ITEM_CAP_BYTES (remaining - 1)
           in if cap < MIN_ITEM_BYTES then (delivered, remaining)
              else let line = truncate_line (lines ! idx) cap
                   in deliver_priorities lines rest
                        (delivered[idx := Some line], remaining - (length line + 1)))"

fun deliver_newest :: "string list \<Rightarrow> nat list \<Rightarrow> selection \<Rightarrow> selection" where
  "deliver_newest lines [] st = st"
| "deliver_newest lines (idx # rest) (delivered, remaining) =
     (if delivered ! idx \<noteq> None then deliver_newest lines rest (delivered, remaining)
      else case fill_line (lines ! idx) remaining of
        None \<Rightarrow> deliver_newest lines rest (delivered, remaining)
      | Some line \<Rightarrow> deliver_newest lines rest
          (delivered[idx := Some line], remaining - (length line + 1)))"

definition item_line :: "transcript_item \<Rightarrow> string" where
  "item_line item = role_label (ti_role item) @ '': '' @ ti_text item"

definition priorities :: "transcript_item list \<Rightarrow> nat list" where
  "priorities items =
     List.map_filter (\<lambda>i. i)
       [rposition (\<lambda>i. ti_role i = UserRole) items, rposition (\<lambda>i. ti_role i = AssistantRole) items,
        position (\<lambda>i. ti_role i = UserRole) items]"

definition wrapper_fixed :: "string \<Rightarrow> nat" where
  "wrapper_fixed lead = length lead + 1 + length TRANSCRIPT_OPEN + length TRANSCRIPT_CLOSE"

definition select_lines :: "transcript_item list \<Rightarrow> nat \<Rightarrow> selection" where
  "select_lines items room =
     (let lines = map item_line items
      in deliver_newest lines (rev [0..<length lines])
           (deliver_priorities lines (priorities items) (replicate (length lines) None, room)))"

definition budgeted_transcript_prefix_with_lead ::
    "message_entry list \<Rightarrow> string option \<Rightarrow> string \<Rightarrow> string option" where
  "budgeted_transcript_prefix_with_lead entries source_chat_id lead =
     (let items = transcript_items entries;
          lines = map item_line items
      in if lines = [] then None
         else if wrapper_fixed lead + length (join_with newline lines) \<le> TRANSCRIPT_BUDGET_BYTES
         then Some (wrap_with_lead None lines lead)
         else let header_max = coverage_header_max (length items) source_chat_id;
                  remaining = TRANSCRIPT_BUDGET_BYTES - wrapper_fixed lead - header_max;
                  delivered = fst (select_lines items remaining);
                  omitted = length (filter (\<lambda>slot. slot = None) delivered);
                  selected = List.map_filter (\<lambda>slot. slot) delivered
              in if selected = [] then Some (wrap_with_lead None lines lead)
                 else Some (wrap_with_lead (Some (coverage_header omitted source_chat_id)) selected lead))"

definition budgeted_transcript_prefix :: "message_entry list \<Rightarrow> string option \<Rightarrow> string option" where
  "budgeted_transcript_prefix entries source_chat_id =
     budgeted_transcript_prefix_with_lead entries source_chat_id LEAD"


section \<open>Lengths\<close>

lemma marker_length: "length TRUNCATION_MARKER = 15"
  by (simp add: TRUNCATION_MARKER_def ellipsis_def)

lemma truncate_line_length: "15 \<le> cap \<Longrightarrow> length (truncate_line line cap) \<le> cap"
  using floor_boundary_le [of line "min (cap - 15) (length line)"]
  by (auto simp: truncate_line_def marker_length)

lemma join_with_length: "ls \<noteq> [] \<Longrightarrow>
    length (join_with newline ls) + 1 = sum_list (map (\<lambda>l. length l + 1) ls)"
proof (induction "newline" ls rule: join_with.induct)
  case (3 l l' ls)
  then show ?case by (simp add: newline_def)
qed simp_all

lemma show_nat_length_mono: "a \<le> b \<Longrightarrow> length (show_nat a) \<le> length (show_nat b)"
proof (induction b arbitrary: a rule: show_nat.induct)
  case (1 b)
  show ?case
  proof (cases "a < 10")
    case True
    then show ?thesis by (simp add: show_nat.simps [of a] show_nat.simps [of b])
  next
    case False
    with 1 have "length (show_nat (a div 10)) \<le> length (show_nat (b div 10))"
      by (auto simp: div_le_mono)
    with False 1 show ?thesis by (simp add: show_nat.simps [of a] show_nat.simps [of b])
  qed
qed

lemma coverage_header_bound:
  "omitted \<le> items \<Longrightarrow> length (coverage_header omitted src) + 1 \<le> coverage_header_max items src"
  using show_nat_length_mono [of omitted items]
  by (cases "omitted = 0"; cases src) (auto simp: coverage_header_max_def coverage_header_def)

section \<open>The selection stays in its room\<close>

definition slot_cost :: "string option \<Rightarrow> nat" where
  "slot_cost slot = (case slot of None \<Rightarrow> 0 | Some l \<Rightarrow> length l + 1)"

definition selection_cost :: "string option list \<Rightarrow> nat" where
  "selection_cost d = sum_list (map slot_cost d)"

lemma selection_cost_update:
  "i < length d \<Longrightarrow> d ! i = None \<Longrightarrow>
    selection_cost (d[i := Some l]) = selection_cost d + (length l + 1)"
  by (simp add: selection_cost_def map_update sum_list_update slot_cost_def)

text \<open>A delivered slot holds its line, or a part of it with the marker.\<close>

definition slot_ok :: "string list \<Rightarrow> string option list \<Rightarrow> bool" where
  "slot_ok lines d \<longleftrightarrow> length d = length lines
     \<and> (\<forall>i < length d. \<forall>l. d ! i = Some l \<longrightarrow> (\<exists>cap \<ge> MIN_ITEM_BYTES. l = truncate_line (lines ! i) cap))"

definition selection_ok :: "string list \<Rightarrow> nat \<Rightarrow> selection \<Rightarrow> bool" where
  "selection_ok lines room st \<longleftrightarrow>
     slot_ok lines (fst st) \<and> selection_cost (fst st) + snd st = room"

definition kept :: "string option list \<Rightarrow> string option list \<Rightarrow> bool" where
  "kept d d' \<longleftrightarrow> (\<forall>i < length d. d ! i \<noteq> None \<longrightarrow> d' ! i = d ! i)"

lemma kept_refl [simp]: "kept d d"
  by (simp add: kept_def)

lemma kept_update: "d ! i = None \<Longrightarrow> kept (d[i := x]) d' \<Longrightarrow> kept d d'"
  unfolding kept_def by (metis length_list_update nth_list_update_neq)

lemma selection_step:
  assumes "selection_ok lines room (d, r)" "i < length lines" "d ! i = None"
    and "MIN_ITEM_BYTES \<le> cap" "length (truncate_line (lines ! i) cap) + 1 \<le> r"
  shows "selection_ok lines room (d[i := Some (truncate_line (lines ! i) cap)],
      r - (length (truncate_line (lines ! i) cap) + 1))"
proof -
  have len: "length d = length lines" using assms(1) by (simp add: selection_ok_def slot_ok_def)
  then have "slot_ok lines (d[i := Some (truncate_line (lines ! i) cap)])"
    using assms(1,2,4) by (auto simp: selection_ok_def slot_ok_def nth_list_update)
  with assms len show ?thesis by (simp add: selection_ok_def selection_cost_update)
qed

lemma deliver_priorities_ok:
  "selection_ok lines room st \<Longrightarrow> \<forall>i \<in> set idxs. i < length lines \<Longrightarrow>
    selection_ok lines room (deliver_priorities lines idxs st)
    \<and> kept (fst st) (fst (deliver_priorities lines idxs st))"
proof (induction lines idxs st rule: deliver_priorities.induct)
  case (2 lines idx rest d r)
  show ?case
  proof (cases "d ! idx \<noteq> None \<or> min ITEM_CAP_BYTES (r - 1) < MIN_ITEM_BYTES")
    case True
    with 2 show ?thesis by (auto simp: Let_def)
  next
    case False
    let ?cap = "min ITEM_CAP_BYTES (r - 1)"
    let ?l = "truncate_line (lines ! idx) ?cap"
    have "15 \<le> ?cap" using False unfolding MIN_ITEM_BYTES_def by linarith
    then have "length ?l \<le> ?cap" by (rule truncate_line_length)
    moreover have "?cap + 1 \<le> r" using \<open>15 \<le> ?cap\<close> by linarith
    ultimately have "length ?l + 1 \<le> r" by linarith
    have cap: "MIN_ITEM_BYTES \<le> ?cap" using False by linarith
    have ok: "selection_ok lines room (d[idx := Some ?l], r - (length ?l + 1))"
      by (rule selection_step [OF 2(3) _ _ cap \<open>length ?l + 1 \<le> r\<close>]) (use 2(4) False in auto)
    with 2(2) [of ?cap ?l] 2(4) False have
      "selection_ok lines room (deliver_priorities lines rest (d[idx := Some ?l], r - (length ?l + 1)))
       \<and> kept (d[idx := Some ?l]) (fst (deliver_priorities lines rest (d[idx := Some ?l], r - (length ?l + 1))))"
      by simp
    with False show ?thesis by (auto simp: Let_def intro: kept_update)
  qed
qed simp

lemma fill_line_Some:
  "fill_line line r = Some l \<Longrightarrow> l = truncate_line line ITEM_CAP_BYTES \<and> length l + 1 \<le> r"
  by (auto simp: fill_line_def Let_def split: if_splits)

lemma deliver_newest_ok:
  "selection_ok lines room st \<Longrightarrow> \<forall>i \<in> set idxs. i < length lines \<Longrightarrow>
    selection_ok lines room (deliver_newest lines idxs st)
    \<and> kept (fst st) (fst (deliver_newest lines idxs st))"
proof (induction lines idxs st rule: deliver_newest.induct)
  case (2 lines idx rest d r)
  show ?case
  proof (cases "d ! idx \<noteq> None \<or> fill_line (lines ! idx) r = None")
    case True
    with 2 show ?thesis by (cases "fill_line (lines ! idx) r") auto
  next
    case False
    then obtain l where l: "fill_line (lines ! idx) r = Some l" by auto
    from fill_line_Some [OF l] 2(4,5) False have
      ok: "selection_ok lines room (d[idx := Some l], r - (length l + 1))"
      using selection_step [of lines room d r idx ITEM_CAP_BYTES]
      by (auto simp: ITEM_CAP_BYTES_def TRANSCRIPT_BUDGET_BYTES_def MIN_ITEM_BYTES_def)
    with 2(3) [OF _ l] 2(5) False have
      "selection_ok lines room (deliver_newest lines rest (d[idx := Some l], r - (length l + 1)))
       \<and> kept (d[idx := Some l]) (fst (deliver_newest lines rest (d[idx := Some l], r - (length l + 1))))"
      by simp
    with l False show ?thesis by (auto intro: kept_update)
  qed
qed simp

lemma set_somes: "x \<in> set (List.map_filter (\<lambda>i. i) xs) \<longleftrightarrow> Some x \<in> set xs"
  by (induction xs) (auto simp: List.map_filter_simps split: option.splits)

lemma priorities_bound: "i \<in> set (priorities items) \<Longrightarrow> i < length items"
  unfolding priorities_def set_somes
  by (auto dest!: sym [of "Some i"] dest: rposition_bound position_Some_split)

lemma start_ok: "selection_ok lines room (replicate (length lines) None, room)"
  by (simp add: selection_ok_def slot_ok_def selection_cost_def slot_cost_def sum_list_replicate)

lemma select_lines_ok:
  "selection_ok (map item_line items) room (select_lines items room)"
proof -
  let ?lines = "map item_line items"
  have "selection_ok ?lines room (deliver_priorities ?lines (priorities items)
      (replicate (length ?lines) None, room))"
    using priorities_bound by (intro conjunct1 [OF deliver_priorities_ok] start_ok) auto
  then show ?thesis
    unfolding select_lines_def Let_def by (intro conjunct1 [OF deliver_newest_ok]) auto
qed


lemma somes_cost: "sum_list (map (\<lambda>l. length l + 1) (List.map_filter (\<lambda>s. s) d)) = selection_cost d"
  by (induction d) (auto simp: selection_cost_def slot_cost_def List.map_filter_simps split: option.splits)

lemma head_delivered:
  assumes "selection_ok lines room (d, r)" "\<forall>i \<in> set (idx # rest). i < length lines" "MIN_ITEM_BYTES < r"
  shows "fst (deliver_priorities lines (idx # rest) (d, r)) ! idx \<noteq> None"
proof (cases "d ! idx = None")
  case False
  have "kept d (fst (deliver_priorities lines (idx # rest) (d, r)))"
    using deliver_priorities_ok [OF assms(1,2)] by simp
  with False assms(1,2) show ?thesis by (auto simp: kept_def selection_ok_def slot_ok_def)
next
  case True
  let ?cap = "min ITEM_CAP_BYTES (r - 1)"
  let ?l = "truncate_line (lines ! idx) ?cap"
  have cap: "MIN_ITEM_BYTES \<le> ?cap"
    using assms(3) by (auto simp: MIN_ITEM_BYTES_def ITEM_CAP_BYTES_def TRANSCRIPT_BUDGET_BYTES_def)
  then have "length ?l \<le> ?cap" by (intro truncate_line_length) (simp add: MIN_ITEM_BYTES_def)
  moreover have "?cap + 1 \<le> r" using assms(3) by linarith
  ultimately have "length ?l + 1 \<le> r" by linarith
  with cap True assms(1,2) have ok: "selection_ok lines room (d[idx := Some ?l], r - (length ?l + 1))"
    by (intro selection_step) auto
  have "kept (d[idx := Some ?l]) (fst (deliver_priorities lines rest (d[idx := Some ?l], r - (length ?l + 1))))"
    using deliver_priorities_ok [OF ok, of rest] assms(2) by simp
  moreover have "idx < length d" using assms(1,2) by (simp add: selection_ok_def slot_ok_def)
  ultimately have "fst (deliver_priorities lines rest (d[idx := Some ?l], r - (length ?l + 1))) ! idx \<noteq> None"
    by (simp add: kept_def)
  with True cap show ?thesis by (simp add: Let_def not_less)
qed

lemma all_delivered:
  "selection_ok lines room (d, r) \<Longrightarrow> \<forall>i \<in> set idxs. i < length lines \<Longrightarrow>
    length idxs * (ITEM_CAP_BYTES + 1) \<le> r \<Longrightarrow> i \<in> set idxs \<Longrightarrow>
    fst (deliver_priorities lines idxs (d, r)) ! i \<noteq> None"
proof (induction idxs arbitrary: d r)
  case (Cons idx rest)
  have cap: "min ITEM_CAP_BYTES (r - 1) = ITEM_CAP_BYTES" "\<not> ITEM_CAP_BYTES < MIN_ITEM_BYTES"
    using Cons.prems(3) by (auto simp: MIN_ITEM_BYTES_def ITEM_CAP_BYTES_def TRANSCRIPT_BUDGET_BYTES_def)
  let ?l = "truncate_line (lines ! idx) ITEM_CAP_BYTES"
  have len: "length ?l \<le> ITEM_CAP_BYTES"
    by (intro truncate_line_length) (simp add: ITEM_CAP_BYTES_def TRANSCRIPT_BUDGET_BYTES_def)
  show ?case
  proof (cases "i = idx")
    case True
    with head_delivered [OF Cons.prems(1,2)] Cons.prems(3) cap show ?thesis
      by (auto simp: MIN_ITEM_BYTES_def ITEM_CAP_BYTES_def TRANSCRIPT_BUDGET_BYTES_def)
  next
    case False
    show ?thesis
    proof (cases "d ! idx = None")
      case True
      have "selection_ok lines room (d[idx := Some ?l], r - (length ?l + 1))"
        using Cons.prems(1-3) True len cap(2) by (intro selection_step) auto
      moreover have "length rest * (ITEM_CAP_BYTES + 1) \<le> r - (length ?l + 1)"
        using Cons.prems(3) len by (simp add: le_diff_conv2 add.commute)
      ultimately have "fst (deliver_priorities lines rest (d[idx := Some ?l], r - (length ?l + 1))) ! i \<noteq> None"
        using Cons.prems(2,4) False by (intro Cons.IH) auto
      with True cap show ?thesis by (simp add: Let_def)
    next
      case no: False
      with Cons False show ?thesis by simp
    qed
  qed
qed simp

section \<open>The budget\<close>

lemma items_roles: "item \<in> set (transcript_items es) \<Longrightarrow> ti_role item \<noteq> SystemRole"
  by (auto simp: transcript_items_def List.map_filter_def split: if_splits)

lemma priorities_nonempty: "transcript_items es \<noteq> [] \<Longrightarrow> priorities (transcript_items es) \<noteq> []"
proof -
  let ?items = "transcript_items es"
  assume "?items \<noteq> []"
  then obtain item where item: "item \<in> set ?items" by (cases ?items) auto
  then have "ti_role item = UserRole \<or> ti_role item = AssistantRole"
    using items_roles [OF item] by (cases "ti_role item") auto
  with item have "rposition (\<lambda>i. ti_role i = UserRole) ?items \<noteq> None
      \<or> rposition (\<lambda>i. ti_role i = AssistantRole) ?items \<noteq> None"
    by (auto simp: rposition_None)
  then have "\<exists>i. Some i = rposition (\<lambda>i. ti_role i = UserRole) ?items
      \<or> Some i = rposition (\<lambda>i. ti_role i = AssistantRole) ?items" by (metis option.exhaust)
  then have "\<exists>i. i \<in> set (priorities ?items)" unfolding priorities_def set_somes by auto
  then show ?thesis by auto
qed

lemma select_lines_kept:
  "kept (fst (deliver_priorities (map item_line items) (priorities items)
      (replicate (length items) None, room))) (fst (select_lines items room))"
proof -
  let ?lines = "map item_line items"
  have "selection_ok ?lines room (deliver_priorities ?lines (priorities items) (replicate (length ?lines) None, room))"
    using priorities_bound by (intro conjunct1 [OF deliver_priorities_ok] start_ok) auto
  then show ?thesis
    unfolding select_lines_def Let_def
    using conjunct2 [OF deliver_newest_ok, of ?lines room _ "rev [0..<length ?lines]"] by simp
qed

lemma select_priorities:
  assumes "3 * (ITEM_CAP_BYTES + 1) \<le> room" "i \<in> set (priorities items)"
  shows "fst (select_lines items room) ! i \<noteq> None"
proof -
  let ?lines = "map item_line items" and ?start = "replicate (length items) None"
  have start: "selection_ok ?lines room (?start, room)" using start_ok [of ?lines room] by simp
  have bound: "\<forall>i \<in> set (priorities items). i < length ?lines" using priorities_bound by auto
  have "length (priorities items) \<le> 3"
    by (auto simp: priorities_def List.map_filter_simps split: option.splits)
  then have "length (priorities items) * (ITEM_CAP_BYTES + 1) \<le> room"
    using assms(1) by (meson le_trans mult_le_mono1)
  from all_delivered [OF start bound this assms(2)]
  have "fst (deliver_priorities ?lines (priorities items) (?start, room)) ! i \<noteq> None" .
  moreover have "i < length (fst (deliver_priorities ?lines (priorities items) (?start, room)))"
    using deliver_priorities_ok [OF start bound] bound assms(2)
    by (simp add: selection_ok_def slot_ok_def)
  ultimately show ?thesis using select_lines_kept [of items room] by (simp add: kept_def)
qed

lemma select_some:
  assumes "MIN_ITEM_BYTES < room" "priorities items \<noteq> []"
  shows "List.map_filter (\<lambda>s. s) (fst (select_lines items room)) \<noteq> []"
proof -
  let ?lines = "map item_line items" and ?start = "replicate (length items) None"
  obtain idx rest where p: "priorities items = idx # rest" using assms(2) by (cases "priorities items") auto
  have start: "selection_ok ?lines room (?start, room)" using start_ok [of ?lines room] by simp
  have bound: "\<forall>i \<in> set (idx # rest). i < length ?lines"
    using priorities_bound [of _ items] unfolding p by auto
  have len: "length (fst st) = length items" if "selection_ok ?lines room st" for st
    using that by (simp add: selection_ok_def slot_ok_def)
  have "fst (deliver_priorities ?lines (priorities items) (?start, room)) ! idx \<noteq> None"
    unfolding p by (rule head_delivered [OF start bound assms(1)])
  moreover have idx: "idx < length items" using bound by simp
  moreover have "length (fst (deliver_priorities ?lines (priorities items) (?start, room))) = length items"
    unfolding p by (rule len [OF conjunct1 [OF deliver_priorities_ok [OF start bound]]])
  ultimately have "fst (select_lines items room) ! idx \<noteq> None"
    using select_lines_kept [of items room] by (simp add: kept_def)
  then obtain l where "Some l \<in> set (fst (select_lines items room))"
    using idx len [OF select_lines_ok] by (metis nth_mem option.exhaust)
  then have "l \<in> set (List.map_filter (\<lambda>s. s) (fst (select_lines items room)))" by (simp only: set_somes)
  then show ?thesis by auto
qed

text \<open>What the wrapper and the longest coverage header take.\<close>

definition overhead :: "message_entry list \<Rightarrow> string option \<Rightarrow> string \<Rightarrow> nat" where
  "overhead es src lead = wrapper_fixed lead + coverage_header_max (length (transcript_items es)) src"

lemma wrap_length:
  "ls \<noteq> [] \<Longrightarrow> length (wrap_with_lead (Some h) ls lead) =
    wrapper_fixed lead + (length h + 1) + (sum_list (map (\<lambda>l. length l + 1) ls) - 1)"
  using join_with_length [of ls] by (simp add: wrap_with_lead_def wrapper_fixed_def newline_def)

definition selection_of :: "message_entry list \<Rightarrow> string option \<Rightarrow> string \<Rightarrow> string option list" where
  "selection_of es src lead =
     fst (select_lines (transcript_items es) (TRANSCRIPT_BUDGET_BYTES - overhead es src lead))"

definition whole_transcript :: "message_entry list \<Rightarrow> string" where
  "whole_transcript es = join_with newline (map item_line (transcript_items es))"

lemma prefix_None:
  "budgeted_transcript_prefix_with_lead es src lead = None \<longleftrightarrow> transcript_items es = []"
  by (simp add: budgeted_transcript_prefix_with_lead_def Let_def)

lemma prefix_eq:
  assumes "transcript_items es \<noteq> []"
  shows "budgeted_transcript_prefix_with_lead es src lead = Some
     (if wrapper_fixed lead + length (whole_transcript es) \<le> TRANSCRIPT_BUDGET_BYTES
         \<or> List.map_filter (\<lambda>s. s) (selection_of es src lead) = []
      then wrap_with_lead None (map item_line (transcript_items es)) lead
      else wrap_with_lead (Some (coverage_header (length (filter (\<lambda>s. s = None) (selection_of es src lead))) src))
        (List.map_filter (\<lambda>s. s) (selection_of es src lead)) lead)"
  using assms
  unfolding budgeted_transcript_prefix_with_lead_def Let_def selection_of_def whole_transcript_def
    overhead_def diff_diff_left
  by simp

lemma whole_length:
  "length (wrap_with_lead None (map item_line (transcript_items es)) lead)
     = wrapper_fixed lead + length (whole_transcript es)"
  by (simp add: wrap_with_lead_def wrapper_fixed_def newline_def whole_transcript_def)

lemma prefix_cases:
  assumes "budgeted_transcript_prefix_with_lead es src lead = Some out"
    and "overhead es src lead + MIN_ITEM_BYTES < TRANSCRIPT_BUDGET_BYTES"
  obtains (whole) "out = wrap_with_lead None (map item_line (transcript_items es)) lead"
      "length out \<le> TRANSCRIPT_BUDGET_BYTES"
    | (partial) "TRANSCRIPT_BUDGET_BYTES < wrapper_fixed lead + length (whole_transcript es)"
      "out = wrap_with_lead (Some (coverage_header (length (filter (\<lambda>s. s = None) (selection_of es src lead))) src))
        (List.map_filter (\<lambda>s. s) (selection_of es src lead)) lead"
      "List.map_filter (\<lambda>s. s) (selection_of es src lead) \<noteq> []"
proof -
  have items: "transcript_items es \<noteq> []"
    using assms(1) prefix_None [of es src lead] by auto
  have some: "List.map_filter (\<lambda>s. s) (selection_of es src lead) \<noteq> []"
    unfolding selection_of_def using assms(2) priorities_nonempty [OF items]
    by (intro select_some) linarith+
  note eq = prefix_eq [OF items, of src lead, unfolded assms(1) option.inject]
  show thesis
  proof (cases "wrapper_fixed lead + length (whole_transcript es) \<le> TRANSCRIPT_BUDGET_BYTES")
    case True
    then have "out = wrap_with_lead None (map item_line (transcript_items es)) lead" using eq by simp
    with True show thesis by (intro whole) (simp_all add: whole_length)
  next
    case False
    with eq some show thesis by (intro partial) simp_all
  qed
qed

text \<open>C18: everything put in front of the new message (lead, coverage header and transcript)
  stays within the budget, whatever the chat holds.\<close>

theorem budgeted_transcript_bounded:
  assumes "budgeted_transcript_prefix_with_lead es src lead = Some out"
    and "overhead es src lead + MIN_ITEM_BYTES < TRANSCRIPT_BUDGET_BYTES"
  shows "length out \<le> TRANSCRIPT_BUDGET_BYTES"
  using assms
proof (cases rule: prefix_cases)
  case whole
  then show ?thesis by simp
next
  case partial
  let ?d = "selection_of es src lead"
  let ?omitted = "length (filter (\<lambda>s. s = None) ?d)"
  have ok: "selection_ok (map item_line (transcript_items es)) (TRANSCRIPT_BUDGET_BYTES - overhead es src lead)
      (select_lines (transcript_items es) (TRANSCRIPT_BUDGET_BYTES - overhead es src lead))"
    by (rule select_lines_ok)
  then have cost: "selection_cost ?d \<le> TRANSCRIPT_BUDGET_BYTES - overhead es src lead"
    and len: "length ?d = length (transcript_items es)"
    by (auto simp: selection_of_def selection_ok_def slot_ok_def)
  have "?omitted \<le> length (transcript_items es)" using len by (metis length_filter_le)
  then have "length (coverage_header ?omitted src) + 1 \<le> coverage_header_max (length (transcript_items es)) src"
    by (rule coverage_header_bound)
  moreover have "length out = wrapper_fixed lead + (length (coverage_header ?omitted src) + 1) + (selection_cost ?d - 1)"
    using wrap_length [OF partial(3)] unfolding partial(2) somes_cost .
  ultimately show ?thesis using cost assms(2) by (simp add: overhead_def)
qed


text \<open>When the transcript must be selected, the latest user message, the latest assistant
  message and the first user message are delivered, and every delivered message is whole or a
  cut of it that ends with the truncation marker.\<close>

theorem priorities_always_delivered:
  assumes "overhead es src lead + 3 * (ITEM_CAP_BYTES + 1) \<le> TRANSCRIPT_BUDGET_BYTES"
    and "i \<in> set (priorities (transcript_items es))"
  shows "\<exists>l. selection_of es src lead ! i = Some l
    \<and> (l = item_line (transcript_items es ! i)
       \<or> (\<exists>s. prefix s (item_line (transcript_items es ! i)) \<and> l = s @ TRUNCATION_MARKER))"
proof -
  let ?items = "transcript_items es"
  let ?room = "TRANSCRIPT_BUDGET_BYTES - overhead es src lead"
  have "selection_of es src lead ! i \<noteq> None"
    unfolding selection_of_def using assms by (intro select_priorities) linarith+
  then obtain l where l: "selection_of es src lead ! i = Some l" by auto
  have "selection_ok (map item_line ?items) ?room (select_lines ?items ?room)" by (rule select_lines_ok)
  then obtain cap where "l = truncate_line (item_line (?items ! i)) cap"
    using l priorities_bound [OF assms(2)]
    unfolding selection_ok_def slot_ok_def selection_of_def by (metis length_map nth_map)
  then show ?thesis using l by (auto simp: truncate_line_def take_is_prefix)
qed

lemma sample_items:
  "transcript_items [sample_entry ''a'' ''hello''] = [\<lparr>ti_role = AssistantRole, ti_text = ''hello''\<rparr>]"
  by (simp add: transcript_items_def join_continuation_entries_def sample_entry_def render_parts_def
      List.map_filter_simps blank_def trim_eval)

lemma sample_overhead: "overhead [sample_entry ''a'' ''hello''] None LEAD \<le> 200"
  by (simp add: overhead_def sample_items wrapper_fixed_def LEAD_def TRANSCRIPT_OPEN_def
      TRANSCRIPT_CLOSE_def newline_def coverage_header_max_def coverage_header_def show_nat.simps)

theorem budgeted_transcript_bounded_witness:
  "length (the (budgeted_transcript_prefix_with_lead [sample_entry ''a'' ''hello''] None LEAD)) \<le> 16384"
proof -
  obtain out where "budgeted_transcript_prefix_with_lead [sample_entry ''a'' ''hello''] None LEAD = Some out"
    using prefix_eq [of "[sample_entry ''a'' ''hello'']" None LEAD] sample_items by auto
  moreover have "overhead [sample_entry ''a'' ''hello''] None LEAD + MIN_ITEM_BYTES < TRANSCRIPT_BUDGET_BYTES"
    using sample_overhead by (simp add: MIN_ITEM_BYTES_def TRANSCRIPT_BUDGET_BYTES_def)
  ultimately show ?thesis
    using budgeted_transcript_bounded by (simp add: TRANSCRIPT_BUDGET_BYTES_def)
qed

theorem priorities_always_delivered_witness:
  "selection_of [sample_entry ''a'' ''hello''] None LEAD ! 0 \<noteq> None"
proof -
  have "overhead [sample_entry ''a'' ''hello''] None LEAD + 3 * (ITEM_CAP_BYTES + 1) \<le> TRANSCRIPT_BUDGET_BYTES"
    using sample_overhead by (simp add: ITEM_CAP_BYTES_def TRANSCRIPT_BUDGET_BYTES_def)
  moreover have "0 \<in> set (priorities (transcript_items [sample_entry ''a'' ''hello'']))"
    by (simp add: sample_items priorities_def rposition_def List.map_filter_simps)
  ultimately show ?thesis using priorities_always_delivered by blast
qed

end
