(* ===== verification/Workspace_View.thy ===== *)
theory Workspace_View
  imports Agent_Types "HOL-Library.Char_ord" "HOL-Library.List_Lexorder" "HOL-Library.Product_Lexorder"
    "HOL-Library.Multiset"
begin

text \<open>
  The synced rows of \<open>crates/proto/src/entities.rs\<close> and the derivations every viewport shares:
  \<open>crates/proto/src/view.rs\<close> and \<open>projectless.rs\<close>. A \<open>DateTime<Utc>\<close> is the number of
  nanoseconds since the epoch. Text compares by bytes. Paths are those of a Unix host.
\<close>

section \<open>Rows\<close>

type_synonym instant = int

datatype reasoning_level =
    Minimal | Low | Medium | High | XHigh | Max | Ultra | Ultracode | Ultrathink

datatype sandbox_level = ReadOnly | WorkspaceWrite | DangerFullAccess

record device =
  dv_id :: string
  dv_name :: string
  dv_platform :: string
  dv_last_seen_at :: "instant option"
  dv_created_at :: "instant option"
  dv_version :: "string option"
  dv_cursor_sdk_version :: "string option"
  dv_capabilities :: "string list"

definition supports :: "device \<Rightarrow> string \<Rightarrow> bool" where
  "supports d capability \<longleftrightarrow> list_ex (\<lambda>v. v = capability) (dv_capabilities d)"

record space =
  sp_id :: string
  sp_device_id :: string
  sp_path :: string
  sp_name :: "string option"
  sp_git_detected :: bool
  sp_git_checked_at :: "instant option"
  sp_checkout_id :: "string option"
  sp_repository_id :: "string option"
  sp_created_at :: instant

record chat_config =
  cc_harness :: harness_id
  cc_model :: "string option"
  cc_reasoning :: "reasoning_level option"
  cc_model_options :: "(string \<times> json) list"
  cc_sandbox :: sandbox_level

record source_context =
  sc_checkout_id :: string
  sc_repo_root :: string
  sc_cwd :: string
  sc_branch :: string
  sc_head_sha :: "string option"
  sc_observed_at :: instant

record agent_origin =
  ao_chat_id :: string
  ao_notify :: bool

record chat =
  c_id :: string
  c_device_id :: string
  c_title :: "string option"
  c_archived :: bool
  c_cwd :: "string option"
  c_branch :: "string option"
  c_checkout_id :: "string option"
  c_source_context :: "source_context option"
  c_config :: "chat_config option"
  c_last_message_preview :: "string option"
  c_last_message_at :: "instant option"
  c_created_at :: instant
  c_harness_session_id :: "string option"
  c_harness_session_cwd :: "string option"
  c_space_id :: "string option"
  c_last_seen_at :: "instant option"
  c_room_gen :: "nat option"
  c_parent_chat_id :: "string option"
  c_agent_origin :: "agent_origin option"

definition on_chat2 :: "chat \<Rightarrow> bool" where
  "on_chat2 c \<longleftrightarrow> 2 \<le> (case c_room_gen c of None \<Rightarrow> 1 | Some g \<Rightarrow> g)"

definition unseen :: "chat \<Rightarrow> bool" where
  "unseen c \<longleftrightarrow>
     (case (c_last_message_at c, c_last_seen_at c) of
        (Some msg, Some seen) \<Rightarrow> seen < msg
      | (Some _, None) \<Rightarrow> True
      | (None, _) \<Rightarrow> False)"

datatype session_status = SessIdle | SessWorking | SessAwaitingInput | SessErrored

record session_limit =
  sl_harness :: harness_id
  sl_window :: string
  sl_resets_at :: "int option"
  sl_account_id :: "string option"

record session_row =
  s_last_completed_turn :: "string option"
  s_chat_id :: string
  s_device_id :: string
  s_status :: session_status
  s_started_at :: "instant option"
  s_updated_at :: instant
  s_limit :: "session_limit option"
  s_scheduled_resume :: "int option"
  s_running_subagents :: nat

datatype indicator_kind = ShowWorking | ShowAwaitingInput | ShowErrored | ShowCompleted | ShowIdle

definition chat_indicator :: "chat \<Rightarrow> session_row option \<Rightarrow> indicator_kind" where
  "chat_indicator c live =
     (case map_option s_status live of
        Some SessWorking \<Rightarrow> ShowWorking
      | Some SessAwaitingInput \<Rightarrow> ShowAwaitingInput
      | Some SessErrored \<Rightarrow> (if unseen c then ShowErrored else ShowIdle)
      | _ \<Rightarrow> (if unseen c then ShowCompleted else ShowIdle))"

record repo_ref =
  rr_name :: string
  rr_current :: bool
  rr_worktree_path :: "string option"

section \<open>Connection and status\<close>

datatype connection_status = Connecting | ConnReady | ConnFailed string

datatype indicator = NoIndicator | Working | AwaitingInput | Errored | Limited

definition SESSION_STALE_MS :: int where "SESSION_STALE_MS = 45000"

text \<open>A duration's whole units round toward zero.\<close>

definition whole :: "int \<Rightarrow> int \<Rightarrow> int" where
  "whole d unit = (if d < 0 then - ((- d) div unit) else d div unit)"

definition age_ms :: "session_row \<Rightarrow> instant \<Rightarrow> int" where
  "age_ms s now = whole (now - s_updated_at s) 1000000"

definition effective_indicator :: "session_row option \<Rightarrow> instant \<Rightarrow> indicator" where
  "effective_indicator session now =
     (case session of
        None \<Rightarrow> NoIndicator
      | Some s \<Rightarrow>
          (case s_status s of
             SessIdle \<Rightarrow> NoIndicator
           | SessErrored \<Rightarrow> (if s_limit s \<noteq> None then Limited else Errored)
           | _ \<Rightarrow> (if SESSION_STALE_MS < age_ms s now then NoIndicator
                   else if s_status s = SessWorking then Working else AwaitingInput)))"

definition running_subagents :: "session_row option \<Rightarrow> instant \<Rightarrow> nat" where
  "running_subagents session now =
     (case session of
        None \<Rightarrow> 0
      | Some s \<Rightarrow> (if age_ms s now \<le> SESSION_STALE_MS then s_running_subagents s else 0))"

definition two_digits :: "int \<Rightarrow> string" where
  "two_digits i = (if 0 \<le> i \<and> i < 10 then CHR ''0'' # show_int i else show_int i)"

definition relative_reset_text :: "string \<Rightarrow> int \<Rightarrow> instant \<Rightarrow> string" where
  "relative_reset_text verb at now =
     (let until = at - now div 1000000
      in if whole until 1000 \<le> 0 then verb @ '' now''
         else let minutes = whole until 60000
         in if minutes < 60 then verb @ '' in '' @ show_int minutes @ ''m''
         else let hours = minutes div 60; rest = minutes mod 60
         in if hours < 24 then
              (if rest = 0 then verb @ '' in '' @ show_int hours @ ''h''
               else verb @ '' in '' @ show_int hours @ ''h '' @ two_digits rest @ ''m'')
            else verb @ '' in '' @ show_int (hours div 24) @ ''d'')"

definition format_limit_reset :: "int \<Rightarrow> instant \<Rightarrow> string" where
  "format_limit_reset resets_at now = relative_reset_text ''resets'' resets_at now"

definition format_scheduled_resume :: "int \<Rightarrow> instant \<Rightarrow> string" where
  "format_scheduled_resume fire_at now = relative_reset_text ''resumes'' fire_at now"

definition display_status :: "chat \<Rightarrow> session_row option \<Rightarrow> instant \<Rightarrow> indicator_kind" where
  "display_status c session now =
     (let live = (case session of None \<Rightarrow> None
            | Some s \<Rightarrow> if effective_indicator (Some s) now \<noteq> NoIndicator then Some s else None)
      in chat_indicator c live)"

fun attention_rank :: "indicator_kind \<Rightarrow> nat" where
  "attention_rank ShowAwaitingInput = 0"
| "attention_rank ShowErrored = 1"
| "attention_rank ShowWorking = 2"
| "attention_rank ShowCompleted = 3"
| "attention_rank ShowIdle = 4"

text \<open>The rank orders the statuses: lower is more urgent.\<close>

lemma attention_rank_inj: "attention_rank a = attention_rank b \<Longrightarrow> a = b"
  by (cases a; cases b) simp_all

instantiation indicator_kind :: linorder
begin

definition less_eq_indicator_kind :: "indicator_kind \<Rightarrow> indicator_kind \<Rightarrow> bool" where
  "a \<le> b \<longleftrightarrow> attention_rank a \<le> attention_rank b"

definition less_indicator_kind :: "indicator_kind \<Rightarrow> indicator_kind \<Rightarrow> bool" where
  "a < b \<longleftrightarrow> attention_rank a < attention_rank b"

instance
  by intro_classes (auto simp: less_eq_indicator_kind_def less_indicator_kind_def dest: attention_rank_inj)

end

section \<open>Notifications\<close>

datatype notify_kind = NotifyDone | NotifyRequest | NotifyAttention

record notification_state =
  nst_indicator :: indicator
  nst_last_completed_turn :: "string option"
  nst_fresh :: bool

definition notification_state_new :: "session_row \<Rightarrow> instant \<Rightarrow> notification_state" where
  "notification_state_new s now =
     \<lparr>nst_indicator = effective_indicator (Some s) now,
      nst_last_completed_turn = s_last_completed_turn s,
      nst_fresh = (age_ms s now \<le> SESSION_STALE_MS)\<rparr>"

definition attention :: "indicator \<Rightarrow> bool" where
  "attention i \<longleftrightarrow> i = Errored \<or> i = Limited"

definition sound_since :: "notification_state \<Rightarrow> notification_state \<Rightarrow> bool \<Rightarrow> notify_kind option" where
  "sound_since s prev send_pending =
     (if attention (nst_indicator s) \<and> \<not> attention (nst_indicator prev) then Some NotifyAttention
      else if nst_indicator s = AwaitingInput \<and> nst_indicator prev \<noteq> AwaitingInput then Some NotifyRequest
      else if \<not> send_pending \<and> nst_fresh s \<and> nst_last_completed_turn s \<noteq> None
         \<and> nst_last_completed_turn s \<noteq> nst_last_completed_turn prev then Some NotifyDone
      else None)"

section \<open>Orders\<close>

definition recency :: "chat \<Rightarrow> instant" where
  "recency c = (case c_last_message_at c of Some t \<Rightarrow> t | None \<Rightarrow> c_created_at c)"

definition sort_active :: "(indicator_kind \<times> chat) list \<Rightarrow> (indicator_kind \<times> chat) list" where
  "sort_active rows = sort_key (\<lambda>(_, c). (- recency c, c_id c)) rows"

definition sort_tabs :: "chat list \<Rightarrow> chat list" where
  "sort_tabs chats = sort_key (\<lambda>c. (c_created_at c, c_id c)) chats"

definition sort_spaces :: "space list \<Rightarrow> space list" where
  "sort_spaces spaces = sort_key (\<lambda>s. (sp_created_at s, sp_id s)) spaces"

definition sort_chats :: "chat list \<Rightarrow> chat list" where
  "sort_chats chats = sort_key (\<lambda>c. (- recency c, - c_created_at c, c_id c)) chats"

definition project_key :: "space \<Rightarrow> string" where
  "project_key s = (case sp_repository_id s of Some r \<Rightarrow> ''repo:'' @ r | None \<Rightarrow> sp_id s)"

fun min_by_key :: "('a \<Rightarrow> 'b::linorder) \<Rightarrow> 'a list \<Rightarrow> 'a option" where
  "min_by_key f [] = None"
| "min_by_key f (x # xs) = Some (foldl (\<lambda>m y. if f y < f m then y else m) x xs)"

definition representative_space :: "space list \<Rightarrow> space \<Rightarrow> space" where
  "representative_space spaces s =
     (case sp_repository_id s of
        None \<Rightarrow> s
      | Some r \<Rightarrow>
          (case min_by_key (\<lambda>x. (sp_created_at x, sp_id x))
                  (filter (\<lambda>x. sp_repository_id x = Some r) spaces) of
             None \<Rightarrow> s | Some x \<Rightarrow> x))"

datatype gate_phase = GateLoading | GateFailed string | GateReady

fun gate_phase_for :: "connection_status \<Rightarrow> gate_phase" where
  "gate_phase_for Connecting = GateLoading"
| "gate_phase_for (ConnFailed error) = GateFailed error"
| "gate_phase_for ConnReady = GateReady"

section \<open>Paths and labels\<close>

text \<open>\<open>trim_end_matches(['/', '\\'])\<close>, and the last piece after either separator.\<close>

definition path_sep :: "char \<Rightarrow> bool" where
  "path_sep c \<longleftrightarrow> c = CHR ''/'' \<or> c = CHR 0x5C"

definition trim_seps :: "string \<Rightarrow> string" where
  "trim_seps s = rev (dropWhile path_sep (rev s))"

definition last_piece :: "string \<Rightarrow> string" where
  "last_piece s = rev (takeWhile (\<lambda>c. \<not> path_sep c) (rev s))"

definition display_name :: "space \<Rightarrow> string" where
  "display_name s =
     (case sp_name s of
        Some name \<Rightarrow> if \<not> blank name then name
          else (let l = last_piece (trim_seps (sp_path s)) in if l = [] then sp_path s else l)
      | None \<Rightarrow> (let l = last_piece (trim_seps (sp_path s)) in if l = [] then sp_path s else l))"

definition SCRATCH_ROOT :: string where "SCRATCH_ROOT = ''~/.roboco/scratch''"

definition ascii_alnum :: "char \<Rightarrow> bool" where
  "ascii_alnum c \<longleftrightarrow>
     (let n = (of_char c :: nat) in 48 \<le> n \<and> n \<le> 57 \<or> 65 \<le> n \<and> n \<le> 90 \<or> 97 \<le> n \<and> n \<le> 122)"

definition ascii_lower :: "char \<Rightarrow> char" where
  "ascii_lower c = (let n = (of_char c :: nat) in if 65 \<le> n \<and> n \<le> 90 then char_of (n + 32) else c)"

text \<open>The date's formatting is the \<open>chrono\<close> crate's: its text is an argument.\<close>

definition scratch_cwd :: "string \<Rightarrow> string \<Rightarrow> string" where
  "scratch_cwd chat_id date =
     (let i = map ascii_lower (filter ascii_alnum chat_id);
          i = drop (length i - 8) i
      in if i = [] then SCRATCH_ROOT @ ''/'' @ date else SCRATCH_ROOT @ ''/'' @ date @ ''-'' @ i)"

definition is_home_cwd :: "string \<Rightarrow> bool" where
  "is_home_cwd cwd \<longleftrightarrow> trim cwd = '''' \<or> trim cwd = ''~'' \<or> trim cwd = ''~/''"

definition strip_prefix :: "string \<Rightarrow> string \<Rightarrow> string option" where
  "strip_prefix p s = (if prefix p s then Some (drop (length p) s) else None)"

definition is_scratch_cwd :: "string \<Rightarrow> bool" where
  "is_scratch_cwd cwd \<longleftrightarrow>
     (case Option.bind (strip_prefix SCRATCH_ROOT (trim cwd)) (strip_prefix ''/'') of
        None \<Rightarrow> False | Some name \<Rightarrow> name \<noteq> [] \<and> \<not> list_ex path_sep name)"

definition is_projectless_cwd :: "string option \<Rightarrow> bool" where
  "is_projectless_cwd cwd \<longleftrightarrow>
     (case cwd of None \<Rightarrow> True | Some c \<Rightarrow> is_home_cwd c \<or> is_scratch_cwd c)"

text \<open>\<open>Path::file_name\<close> on Unix: the last component, when it is a normal one.\<close>

fun split_at :: "char \<Rightarrow> string \<Rightarrow> string \<Rightarrow> string list" where
  "split_at sep cur [] = [cur]"
| "split_at sep cur (c # cs) = (if c = sep then cur # split_at sep [] cs else split_at sep (cur @ [c]) cs)"

definition file_name :: "string \<Rightarrow> string option" where
  "file_name p =
     (let comps = filter (\<lambda>c. c \<noteq> [] \<and> c \<noteq> ''.'') (split_at (CHR ''/'') [] p)
      in if comps = [] \<or> last comps = ''..'' then None else Some (last comps))"

definition project_label :: "string option \<Rightarrow> string" where
  "project_label cwd =
     (case map_option trim cwd of
        None \<Rightarrow> ''No project''
      | Some c \<Rightarrow>
          (if c = [] then ''No project''
           else if is_projectless_cwd (Some c) then ''No project''
           else case file_name (trim_seps c) of None \<Rightarrow> c | Some n \<Rightarrow> n))"

record chat_group =
  cg_label :: string
  cg_chats :: "chat list"

definition add_to_group :: "chat_group list \<Rightarrow> chat \<Rightarrow> chat_group list" where
  "add_to_group groups c =
     (let label = project_label (c_cwd c)
      in case find (\<lambda>g. cg_label g = label) groups of
           Some _ \<Rightarrow> update_first (\<lambda>g. cg_label g = label) (\<lambda>g. g\<lparr>cg_chats := cg_chats g @ [c]\<rparr>) groups
         | None \<Rightarrow> groups @ [\<lparr>cg_label = label, cg_chats = [c]\<rparr>])"

definition group_chats :: "chat list \<Rightarrow> chat_group list" where
  "group_chats chats = foldl add_to_group [] chats"

definition format_time_ago :: "instant \<Rightarrow> instant \<Rightarrow> string" where
  "format_time_ago past now =
     (let s = max (whole (now - past) 1000000000) 0
      in if s < 60 then ''now''
      else let m = s div 60 in if m < 60 then show_int m @ ''m''
      else let h = m div 60 in if h < 24 then show_int h @ ''h''
      else let d = h div 24 in if d < 7 then show_int d @ ''d''
      else let w = d div 7 in if w < 5 then show_int w @ ''w''
      else let mo = d div 30 in if mo < 12 then show_int mo @ ''mo''
      else show_int (d div 365) @ ''y'')"

definition middot :: string where "middot = '' '' @ [CHR 0xC2, CHR 0xB7] @ '' ''"

definition chat_location :: "chat \<Rightarrow> string option" where
  "chat_location c =
     (let project = (case map_option trim (c_cwd c) of None \<Rightarrow> None
            | Some p \<Rightarrow> if is_projectless_cwd (Some p) then None else Some (project_label (Some p)));
          reference = (case map_option trim (c_branch c) of None \<Rightarrow> None
            | Some b \<Rightarrow> if b = [] then None else Some b)
      in case (project, reference) of
           (Some p, Some r) \<Rightarrow> Some (p @ middot @ r)
         | (Some p, None) \<Rightarrow> Some p
         | (None, Some r) \<Rightarrow> Some r
         | (None, None) \<Rightarrow> None)"


section \<open>Tool summaries\<close>

definition single_line :: "string \<Rightarrow> string" where
  "single_line s = join_with '' '' (split_words [] s)"

definition plural :: "nat \<Rightarrow> string \<Rightarrow> string \<Rightarrow> string" where
  "plural n one many = (if n = 1 then show_nat n @ '' '' @ one else show_nat n @ '' '' @ many)"

fun tool_chip_content_raw :: "tool_call \<Rightarrow> string \<times> string" where
  "tool_chip_content_raw (Exec command) = (''Run'', command)"
| "tool_chip_content_raw (ReadFile path) = (''Read'', path)"
| "tool_chip_content_raw (WriteFile path _) = (''Write'', path)"
| "tool_chip_content_raw (EditFile path _ _) = (''Edit'', path)"
| "tool_chip_content_raw (ApplyPatch path) = (''Patch'', case path of Some p \<Rightarrow> p | None \<Rightarrow> ''workspace'')"
| "tool_chip_content_raw (Search pattern path) =
     (''Search'', case path of Some p \<Rightarrow> pattern @ '' in '' @ p | None \<Rightarrow> pattern)"
| "tool_chip_content_raw (Glob pattern) = (''Glob'', pattern)"
| "tool_chip_content_raw (WebFetch url _) = (''Fetch'', url)"
| "tool_chip_content_raw (WebSearch query) = (''Web'', query)"
| "tool_chip_content_raw (Todo items) =
     (''Todo'', show_nat (length (filter todo_done items)) @ ''/'' @ show_nat (length items) @ '' done'')"
| "tool_chip_content_raw (Mcp server tool _) = (''MCP'', server @ middot @ tool)"
| "tool_chip_content_raw (UnknownTool name _) =
     (case strip_prefix ''Agent: '' name of
        Some description \<Rightarrow> (''Agent'', description)
      | None \<Rightarrow> if name = ''Agent'' then (''Agent'', []) else (''Tool'', name))"

definition tool_chip_content :: "tool_call \<Rightarrow> string \<times> string" where
  "tool_chip_content call =
     (fst (tool_chip_content_raw call), single_line (snd (tool_chip_content_raw call)))"

text \<open>The counters of \<open>tool_group_summary\<close>.\<close>

record tool_counts =
  tc_commands :: nat
  tc_edited :: "string list"
  tc_reads :: nat
  tc_searches :: nat
  tc_fetches :: nat
  tc_todos :: nat
  tc_other :: nat
  tc_failed :: nat

definition no_counts :: tool_counts where
  "no_counts = \<lparr>tc_commands = 0, tc_edited = [], tc_reads = 0, tc_searches = 0, tc_fetches = 0,
     tc_todos = 0, tc_other = 0, tc_failed = 0\<rparr>"

definition note_edited :: "string \<Rightarrow> tool_counts \<Rightarrow> tool_counts" where
  "note_edited path k = (if path \<in> set (tc_edited k) then k else k\<lparr>tc_edited := tc_edited k @ [path]\<rparr>)"

fun count_call :: "tool_call \<Rightarrow> tool_counts \<Rightarrow> tool_counts" where
  "count_call (Exec _) k = k\<lparr>tc_commands := tc_commands k + 1\<rparr>"
| "count_call (WriteFile path _) k = note_edited path k"
| "count_call (EditFile path _ _) k = note_edited path k"
| "count_call (ApplyPatch path) k = note_edited (case path of Some p \<Rightarrow> p | None \<Rightarrow> ''patch'') k"
| "count_call (ReadFile _) k = k\<lparr>tc_reads := tc_reads k + 1\<rparr>"
| "count_call (Search _ _) k = k\<lparr>tc_searches := tc_searches k + 1\<rparr>"
| "count_call (Glob _) k = k\<lparr>tc_searches := tc_searches k + 1\<rparr>"
| "count_call (WebSearch _) k = k\<lparr>tc_searches := tc_searches k + 1\<rparr>"
| "count_call (WebFetch _ _) k = k\<lparr>tc_fetches := tc_fetches k + 1\<rparr>"
| "count_call (Todo _) k = k\<lparr>tc_todos := tc_todos k + 1\<rparr>"
| "count_call (Mcp _ _ _) k = k\<lparr>tc_other := tc_other k + 1\<rparr>"
| "count_call (UnknownTool _ _) k = k\<lparr>tc_other := tc_other k + 1\<rparr>"

definition count_tool :: "tool_counts \<Rightarrow> tool_call \<times> bool \<Rightarrow> tool_counts" where
  "count_tool k t = count_call (fst t) (if snd t then k\<lparr>tc_failed := tc_failed k + 1\<rparr> else k)"

definition ascii_upper :: "char \<Rightarrow> char" where
  "ascii_upper c = (let n = (of_char c :: nat) in if 97 \<le> n \<and> n \<le> 122 then char_of (n - 32) else c)"

definition tool_group_summary :: "(tool_call \<times> bool) list \<Rightarrow> string" where
  "tool_group_summary tools =
     (let k = foldl count_tool no_counts tools;
          segments =
            (if 0 < tc_commands k then [''ran '' @ plural (tc_commands k) ''command'' ''commands''] else [])
            @ (if tc_edited k \<noteq> [] then [''edited '' @ plural (length (tc_edited k)) ''file'' ''files''] else [])
            @ (if 0 < tc_reads k then [''read '' @ plural (tc_reads k) ''file'' ''files''] else [])
            @ (if 0 < tc_searches k then [''searched '' @ plural (tc_searches k) ''time'' ''times''] else [])
            @ (if 0 < tc_fetches k then [''fetched '' @ plural (tc_fetches k) ''page'' ''pages''] else [])
            @ (if 0 < tc_todos k then [''updated todos''] else [])
            @ (if 0 < tc_other k then [''called '' @ plural (tc_other k) ''tool'' ''tools''] else []);
          segments = (if segments = [] then [plural (length tools) ''tool'' ''tools''] else segments);
          segments = segments @ (if 0 < tc_failed k then [show_nat (tc_failed k) @ '' failed''] else []);
          summary = join_with middot segments
      in case summary of [] \<Rightarrow> [] | c # cs \<Rightarrow> ascii_upper c # cs)"

section \<open>Checkout of a new session\<close>

datatype checkout_kind = LocalCheckout | FreshWorktree

datatype checkout_action =
    CurrentCheckout "string option"
  | ReuseWorktree string string
  | NewWorktree "string option"

definition checkout_plan :: "checkout_kind \<Rightarrow> repo_ref option \<Rightarrow> checkout_action" where
  "checkout_plan kind picked =
     (let name = map_option rr_name picked
      in case kind of
           FreshWorktree \<Rightarrow> NewWorktree name
         | LocalCheckout \<Rightarrow>
             (case Option.bind picked rr_worktree_path of
                Some path \<Rightarrow> ReuseWorktree path (case name of Some n \<Rightarrow> n | None \<Rightarrow> [])
              | None \<Rightarrow> CurrentCheckout name))"

definition checkout_label :: "checkout_kind \<Rightarrow> repo_ref option \<Rightarrow> string" where
  "checkout_label kind picked =
     (case kind of
        FreshWorktree \<Rightarrow> ''New worktree''
      | LocalCheckout \<Rightarrow>
          (if (case picked of None \<Rightarrow> False | Some r \<Rightarrow> rr_worktree_path r \<noteq> None)
           then ''Current worktree'' else ''Current checkout''))"


section \<open>Orders are total\<close>

text \<open>
  A stable sort by a key no two elements share gives one order for every order of the input:
  the rows a device received in another order are shown alike.
\<close>

lemma sort_chats_total:
  assumes "mset xs = mset ys" "distinct (map c_id xs)"
  shows "sort_chats xs = sort_chats ys"
proof -
  have "inj_on (\<lambda>c. (- recency c, - c_created_at c, c_id c)) (set xs)"
    using assms(2) by (auto simp: distinct_map inj_on_def)
  then show ?thesis unfolding sort_chats_def using assms(1) by (intro sort_key_inj_key_eq) simp_all
qed

text \<open>The sidebar, the active list, the tabs and the spaces come out in one order on every
  device, whatever order the rows arrived in; no row is lost or shown twice.\<close>

theorem orders_agree_everywhere:
  assumes "mset xs = mset ys" "distinct (map c_id xs)"
    and "mset us = mset vs" "distinct (map sp_id us)"
  shows "sort_chats xs = sort_chats ys \<and> sort_tabs xs = sort_tabs ys
    \<and> sort_active (map (\<lambda>c. (f c, c)) xs) = sort_active (map (\<lambda>c. (f c, c)) ys)
    \<and> sort_spaces us = sort_spaces vs \<and> mset (sort_chats xs) = mset xs"
proof (intro conjI)
  show "sort_chats xs = sort_chats ys" using assms(1,2) by (rule sort_chats_total)
  have "inj_on (\<lambda>c. (c_created_at c, c_id c)) (set xs)"
    using assms(2) by (auto simp: distinct_map inj_on_def)
  then show "sort_tabs xs = sort_tabs ys"
    unfolding sort_tabs_def using assms(1) by (intro sort_key_inj_key_eq) simp_all
  have "inj_on (\<lambda>(_, c). (- recency c, c_id c)) (set (map (\<lambda>c. (f c, c)) xs))"
    using assms(2) by (auto simp: distinct_map inj_on_def)
  then show "sort_active (map (\<lambda>c. (f c, c)) xs) = sort_active (map (\<lambda>c. (f c, c)) ys)"
    unfolding sort_active_def using assms(1) by (intro sort_key_inj_key_eq) simp_all
  have "inj_on (\<lambda>s. (sp_created_at s, sp_id s)) (set us)"
    using assms(4) by (auto simp: distinct_map inj_on_def)
  then show "sort_spaces us = sort_spaces vs"
    unfolding sort_spaces_def using assms(3) by (intro sort_key_inj_key_eq) simp_all
  show "mset (sort_chats xs) = mset xs" by (simp add: sort_chats_def)
qed

definition sample_chat :: "string \<Rightarrow> instant \<Rightarrow> chat" where
  "sample_chat i t = \<lparr>c_id = i, c_device_id = ''d'', c_title = None, c_archived = False, c_cwd = None,
     c_branch = None, c_checkout_id = None, c_source_context = None, c_config = None,
     c_last_message_preview = None, c_last_message_at = None, c_created_at = t,
     c_harness_session_id = None, c_harness_session_cwd = None, c_space_id = None,
     c_last_seen_at = None, c_room_gen = None, c_parent_chat_id = None, c_agent_origin = None\<rparr>"

definition sample_space :: "string \<Rightarrow> instant \<Rightarrow> space" where
  "sample_space i t = \<lparr>sp_id = i, sp_device_id = ''d'', sp_path = ''/p'', sp_name = None,
     sp_git_detected = True, sp_git_checked_at = None, sp_checkout_id = None,
     sp_repository_id = Some ''r'', sp_created_at = t\<rparr>"

theorem orders_agree_everywhere_witness:
  "sort_chats [sample_chat ''a'' 1, sample_chat ''b'' 2] = sort_chats [sample_chat ''b'' 2, sample_chat ''a'' 1]"
  using orders_agree_everywhere [of "[sample_chat ''a'' 1, sample_chat ''b'' 2]"
      "[sample_chat ''b'' 2, sample_chat ''a'' 1]" "[]" "[]"]
  by (simp add: sample_chat_def add_mset_commute)

lemma min_fold:
  fixes f :: "'a \<Rightarrow> 'b::linorder"
  shows "foldl (\<lambda>m y. if f y < f m then y else m) x xs \<in> set (x # xs)
   \<and> (\<forall>y \<in> set (x # xs). f (foldl (\<lambda>m y. if f y < f m then y else m) x xs) \<le> f y)"
proof (induction xs arbitrary: x)
  case (Cons a xs)
  let ?z = "if f a < f x then a else x"
  let ?m = "foldl (\<lambda>m y. if f y < f m then y else m) ?z xs"
  have "f ?z \<le> f x" "f ?z \<le> f a" "?z \<in> {x, a}" by auto
  moreover from Cons [of ?z] have "?m \<in> set (?z # xs)" "f ?m \<le> f ?z" "\<forall>y \<in> set xs. f ?m \<le> f y"
    by (simp_all del: if_split)
  ultimately have "?m \<in> set (x # a # xs) \<and> (\<forall>y \<in> set (x # a # xs). f ?m \<le> f y)"
    using order.trans [of "f ?m" "f ?z"] by (auto simp del: if_split)
  then show ?case by simp
qed simp

lemma min_by_key_None [simp]: "min_by_key f xs = None \<longleftrightarrow> xs = []"
  by (cases xs) simp_all

lemma min_by_key_least:
  "min_by_key f xs = Some m \<Longrightarrow> m \<in> set xs \<and> (\<forall>y \<in> set xs. f m \<le> f y)"
  using min_fold [of f "hd xs" "tl xs"] by (cases xs) auto

lemma min_by_key_unique:
  assumes "set xs = set ys" "inj_on f (set xs)"
  shows "min_by_key f xs = min_by_key f ys"
proof (cases "min_by_key f xs")
  case None
  with assms(1) show ?thesis by auto
next
  case (Some m)
  then have "ys \<noteq> []" using assms(1) min_by_key_least [OF Some] by auto
  then obtain n where n: "min_by_key f ys = Some n" by (cases "min_by_key f ys") auto
  have "f m = f n" using min_by_key_least [OF Some] min_by_key_least [OF n] assms(1)
    by (auto intro: antisym)
  then have "m = n" using min_by_key_least [OF Some] min_by_key_least [OF n] assms
    by (auto dest: inj_onD)
  with Some n show ?thesis by simp
qed

text \<open>Every space of a project is represented by the same space, on every device and for
  every order of the rows: a repository has one name and color everywhere.\<close>

theorem representative_is_shared:
  assumes "set spaces = set spaces'" "distinct (map sp_id spaces)"
    and "a \<in> set spaces" "b \<in> set spaces" "sp_repository_id a = Some r" "sp_repository_id b = Some r"
  shows "representative_space spaces a = representative_space spaces' b
    \<and> sp_repository_id (representative_space spaces a) = Some r"
proof -
  let ?f = "\<lambda>x. (sp_created_at x, sp_id x)" and ?P = "\<lambda>x. sp_repository_id x = Some r"
  have "inj_on ?f (set (filter ?P spaces))"
    using assms(2) by (auto simp: distinct_map inj_on_def)
  then have same: "min_by_key ?f (filter ?P spaces) = min_by_key ?f (filter ?P spaces')"
    using assms(1) by (intro min_by_key_unique) auto
  have "filter ?P spaces \<noteq> []" using assms(3,5) by (auto simp: filter_empty_conv)
  then obtain m where m: "min_by_key ?f (filter ?P spaces) = Some m"
    by (cases "min_by_key ?f (filter ?P spaces)") auto
  have m': "min_by_key ?f (filter ?P spaces') = Some m" using same m by simp
  have "sp_repository_id m = Some r" using min_by_key_least [OF m] by auto
  then show ?thesis using assms(5,6) m m' by (simp add: representative_space_def)
qed

theorem representative_is_shared_witness:
  "representative_space [sample_space ''a'' 1, sample_space ''b'' 2] (sample_space ''b'' 2)
   = representative_space [sample_space ''b'' 2, sample_space ''a'' 1] (sample_space ''a'' 1)"
  using representative_is_shared [of "[sample_space ''a'' 1, sample_space ''b'' 2]"
      "[sample_space ''b'' 2, sample_space ''a'' 1]" "sample_space ''b'' 2" "sample_space ''a'' 1" "''r''"]
  by (simp add: sample_space_def insert_commute)

section \<open>Grouping\<close>

fun first_labels :: "string list \<Rightarrow> string list" where
  "first_labels [] = []"
| "first_labels (l # ls) = l # filter (\<lambda>k. k \<noteq> l) (first_labels ls)"

lemma set_first_labels [simp]: "set (first_labels ls) = set ls"
  by (induction ls) auto

lemma distinct_first_labels: "distinct (first_labels ls)"
  by (induction ls) auto

lemma first_labels_snoc:
  "first_labels (ls @ [l]) = first_labels ls @ (if l \<in> set ls then [] else [l])"
  by (induction ls) auto

abbreviation label_of :: "chat \<Rightarrow> string" where
  "label_of c \<equiv> project_label (c_cwd c)"

lemma group_chats_eq:
  "group_chats chats =
     map (\<lambda>l. \<lparr>cg_label = l, cg_chats = filter (\<lambda>c. label_of c = l) chats\<rparr>) (first_labels (map label_of chats))"
proof (induction chats rule: rev_induct)
  case Nil
  then show ?case by (simp add: group_chats_def)
next
  case (snoc c chats)
  let ?G = "\<lambda>cs l. \<lparr>cg_label = l, cg_chats = filter (\<lambda>c. label_of c = l) cs\<rparr>"
  let ?ls = "first_labels (map label_of chats)"
  have step: "group_chats (chats @ [c]) = add_to_group (map (?G chats) ?ls) c"
    using snoc by (simp add: group_chats_def)
  show ?case
  proof (cases "label_of c \<in> set (map label_of chats)")
    case True
    then have "label_of c \<in> set ?ls" by simp
    then obtain as bs where ls: "?ls = as @ label_of c # bs" by (meson split_list)
    have fresh: "label_of c \<notin> set as" "label_of c \<notin> set bs"
      using distinct_first_labels [of "map label_of chats"] unfolding ls by auto
    have "find (\<lambda>g. cg_label g = label_of c) (map (?G chats) ?ls) = Some (?G chats (label_of c))"
      unfolding ls using fresh(1) by (induction as) auto
    moreover have "update_first (\<lambda>g. cg_label g = label_of c) (\<lambda>g. g\<lparr>cg_chats := cg_chats g @ [c]\<rparr>)
        (map (?G chats) ?ls) = map (?G (chats @ [c])) ?ls"
      unfolding ls map_append list.map using fresh
      by (subst update_first_middle) auto
    moreover have "first_labels (map label_of (chats @ [c])) = ?ls"
      using True by (simp add: first_labels_snoc)
    ultimately show ?thesis unfolding step by (simp add: add_to_group_def)
  next
    case False
    then have "find (\<lambda>g. cg_label g = label_of c) (map (?G chats) ?ls) = None"
      by (auto simp: find_None_iff)
    moreover have "filter (\<lambda>d. label_of d = label_of c) chats = []"
      using False by (auto simp: filter_empty_conv) (metis image_eqI)
    moreover have "map (?G (chats @ [c])) ?ls = map (?G chats) ?ls"
      using False by (auto intro!: map_cong)
    ultimately show ?thesis using False unfolding step
      by (simp add: add_to_group_def first_labels_snoc)
  qed
qed

text \<open>Grouping puts every chat in exactly one group, under its project label, groups in the
  order their first chat came and rows in the order they came.\<close>

theorem group_chats_partition:
  "distinct (map cg_label (group_chats chats))
   \<and> map cg_label (group_chats chats) = first_labels (map label_of chats)
   \<and> list_all (\<lambda>g. cg_chats g = filter (\<lambda>c. label_of c = cg_label g) chats \<and> cg_chats g \<noteq> []) (group_chats chats)
   \<and> mset (concat (map cg_chats (group_chats chats))) = mset chats"
proof (intro conjI)
  show labels: "map cg_label (group_chats chats) = first_labels (map label_of chats)"
    by (simp add: group_chats_eq comp_def)
  then show "distinct (map cg_label (group_chats chats))" by (simp add: distinct_first_labels)
  show "list_all (\<lambda>g. cg_chats g = filter (\<lambda>c. label_of c = cg_label g) chats \<and> cg_chats g \<noteq> []) (group_chats chats)"
    by (auto simp: group_chats_eq list_all_iff filter_empty_conv)
  have "mset (concat (map (\<lambda>l. filter (\<lambda>c. f c = l) cs) ls)) = mset (filter (\<lambda>c. f c \<in> set ls) cs)"
    if "distinct ls" for f :: "chat \<Rightarrow> string" and cs ls
    using that
  proof (induction ls)
    case (Cons l ls)
    have "mset (filter (\<lambda>c. f c = l) cs) + mset (filter (\<lambda>c. f c \<in> set ls) cs)
        = mset (filter (\<lambda>c. f c \<in> set (l # ls)) cs)"
      using Cons.prems by (induction cs) auto
    with Cons show ?case by simp
  qed simp
  from this [OF distinct_first_labels, of label_of chats "map label_of chats"]
  show "mset (concat (map cg_chats (group_chats chats))) = mset chats"
    by (simp add: group_chats_eq comp_def)
qed

section \<open>Freshness and sounds\<close>

text \<open>A row whose engine has gone silent shows no live state: whatever it last wrote, the
  indicator is none or an error, the badge is never working or awaiting input, and no subagents
  are counted.\<close>

theorem stale_rows_are_quiet:
  assumes "SESSION_STALE_MS < age_ms s now"
  shows "effective_indicator (Some s) now \<in> {NoIndicator, Errored, Limited}
    \<and> display_status c (Some s) now \<notin> {ShowWorking, ShowAwaitingInput}
    \<and> running_subagents (Some s) now = 0"
  using assms
  by (cases "s_status s")
    (auto simp: effective_indicator_def display_status_def chat_indicator_def running_subagents_def)

definition working_session :: "instant \<Rightarrow> session_row" where
  "working_session t = \<lparr>s_last_completed_turn = None, s_chat_id = ''c'', s_device_id = ''d'',
     s_status = SessWorking, s_started_at = None, s_updated_at = t, s_limit = None,
     s_scheduled_resume = None, s_running_subagents = 2\<rparr>"

theorem stale_rows_are_quiet_witness:
  "effective_indicator (Some (working_session 0)) 46000000000 = NoIndicator
   \<and> running_subagents (Some (working_session 0)) 46000000000 = 0"
  using stale_rows_are_quiet [of "working_session 0" 46000000000 "sample_chat ''a'' 1"]
  by (simp add: age_ms_def whole_def SESSION_STALE_MS_def working_session_def effective_indicator_def)

text \<open>Replaying a snapshot is silent, a pending send of ours is never announced as done, an
  attention sound marks exactly the entry into an error or limit, a request sound the entry into
  waiting for input.\<close>

theorem sounds_announce_changes:
  "sound_since s s pending = None
   \<and> sound_since s p True \<noteq> Some NotifyDone
   \<and> (sound_since s p pending = Some NotifyAttention \<longleftrightarrow>
        nst_indicator s \<in> {Errored, Limited} \<and> nst_indicator p \<notin> {Errored, Limited})
   \<and> (sound_since s p pending = Some NotifyRequest \<longleftrightarrow>
        nst_indicator s = AwaitingInput \<and> nst_indicator p \<noteq> AwaitingInput)
   \<and> (sound_since s p False = Some NotifyDone \<longleftrightarrow>
        nst_fresh s \<and> nst_last_completed_turn s \<notin> {None, nst_last_completed_turn p}
        \<and> sound_since s p True = None)"
  by (auto simp: sound_since_def attention_def)

section \<open>Ages\<close>

text \<open>An age between 360 and 364 days is twelve months to the month test and no year to the
  division, so it reads as zero years.\<close>

theorem almost_a_year_reads_zero:
  "format_time_ago 0 (360 * 24 * 3600 * 1000000000) = ''0y''
   \<and> format_time_ago 0 (359 * 24 * 3600 * 1000000000) = ''11mo''"
  by (simp add: format_time_ago_def whole_def show_int_def show_nat.simps digit_char_def Let_def) code_simp

end
