(* ===== verification/Text_Chars.thy ===== *)
theory Text_Chars
  imports Text_Prelude
begin

text \<open>
  A text as its characters: \<open>chars()\<close>, \<open>char::is_control\<close>, \<open>char::is_whitespace\<close>,
  \<open>pop()\<close>, and the fixed alphabet the pairing and room identifiers are written in.
\<close>

section \<open>Characters\<close>

function chars_of :: "string \<Rightarrow> string list" where
  "chars_of [] = []"
| "chars_of (c # cs) = (c # takeWhile cont_byte cs) # chars_of (dropWhile cont_byte cs)"
  by pat_completeness auto
termination
  by (relation "measure length") (simp_all add: le_imp_less_Suc length_dropWhile_le)

lemma concat_chars_of [simp]: "concat (chars_of s) = s"
  by (induction s rule: chars_of.induct) simp_all

lemma chars_of_nonempty: "ch \<in> set (chars_of s) \<Longrightarrow> ch \<noteq> []"
  by (induction s rule: chars_of.induct) auto

lemma chars_of_Nil_iff [simp]: "chars_of s = [] \<longleftrightarrow> s = []"
  by (cases s) simp_all

lemma length_chars_of: "length (chars_of s) \<le> length s"
proof (induction s rule: chars_of.induct)
  case (2 c cs)
  then show ?case using length_dropWhile_le [of cont_byte cs] by simp
qed simp

text \<open>
  The control characters (\<open>Cc\<close>) are U+0000 to U+001F and U+007F to U+009F; the upper ones are
  two bytes, the first of them C2.
\<close>

definition is_control :: "string \<Rightarrow> bool" where
  "is_control ch \<longleftrightarrow>
     (case ch of
        [c] \<Rightarrow> (of_char c :: nat) < 32 \<or> (of_char c :: nat) = 127
      | [c, d] \<Rightarrow> (of_char c :: nat) = 194 \<and> 128 \<le> (of_char d :: nat) \<and> (of_char d :: nat) < 160
      | _ \<Rightarrow> False)"

definition has_control :: "string \<Rightarrow> bool" where
  "has_control s \<longleftrightarrow> list_ex is_control (chars_of s)"

definition has_white :: "string \<Rightarrow> bool" where
  "has_white s \<longleftrightarrow> list_ex (List.member white_chars) (chars_of s)"

text \<open>\<open>while len() > n { pop(); }\<close>\<close>

function pop_to :: "nat \<Rightarrow> string list \<Rightarrow> string list" where
  "pop_to n cs = (if n < length (concat cs) \<and> cs \<noteq> [] then pop_to n (butlast cs) else cs)"
  by pat_completeness auto
termination
  by (relation "measure (\<lambda>(n, cs). length cs)") auto

declare pop_to.simps [simp del]

lemma pop_to_bound: "length (concat (pop_to n cs)) \<le> n"
proof (induction n cs rule: pop_to.induct)
  case (1 n cs)
  then show ?case by (subst pop_to.simps) auto
qed

lemma set_pop_to: "set (pop_to n cs) \<subseteq> set cs"
proof (induction n cs rule: pop_to.induct)
  case (1 n cs)
  then show ?case by (subst pop_to.simps) (auto dest: in_set_butlastD)
qed

section \<open>The URL-safe alphabet\<close>

definition url_safe_byte :: "char \<Rightarrow> bool" where
  "url_safe_byte c \<longleftrightarrow>
     (let n = (of_char c :: nat) in
      (48 \<le> n \<and> n \<le> 57) \<or> (65 \<le> n \<and> n \<le> 90) \<or> (97 \<le> n \<and> n \<le> 122) \<or> c = CHR ''-'' \<or> c = CHR ''_'')"

definition url_safe_43 :: "string \<Rightarrow> bool" where
  "url_safe_43 s \<longleftrightarrow> length s = 43 \<and> list_all url_safe_byte s"

lemma url_safe_byte_simps [simp]:
  "url_safe_byte CHR ''A''" "url_safe_byte CHR ''B''" "url_safe_byte CHR ''C''" "url_safe_byte CHR ''_''"
  by (simp_all add: url_safe_byte_def)

section \<open>UTF-8\<close>

text \<open>\<open>str::from_utf8(b).is_ok()\<close>: the well-formed byte sequences of the Unicode standard.\<close>

definition byte_in :: "nat \<Rightarrow> nat \<Rightarrow> char \<Rightarrow> bool" where
  "byte_in lo hi c \<longleftrightarrow> lo \<le> (of_char c :: nat) \<and> (of_char c :: nat) \<le> hi"

definition utf8_char :: "string \<Rightarrow> bool" where
  "utf8_char ch \<longleftrightarrow>
     (case ch of
        [c] \<Rightarrow> byte_in 0 0x7F c
      | [c, d] \<Rightarrow> byte_in 0xC2 0xDF c \<and> cont_byte d
      | [c, d, e] \<Rightarrow> byte_in 0xE0 0xEF c \<and> cont_byte e
          \<and> byte_in (if c = CHR 0xE0 then 0xA0 else 0x80) (if c = CHR 0xED then 0x9F else 0xBF) d
      | [c, d, e, f] \<Rightarrow> byte_in 0xF0 0xF4 c \<and> cont_byte e \<and> cont_byte f
          \<and> byte_in (if c = CHR 0xF0 then 0x90 else 0x80) (if c = CHR 0xF4 then 0x8F else 0xBF) d
      | _ \<Rightarrow> False)"

definition valid_utf8 :: "string \<Rightarrow> bool" where
  "valid_utf8 s \<longleftrightarrow> list_all utf8_char (chars_of s)"

lemma ascii_not_cont: "byte_in 0 0x7F c \<Longrightarrow> \<not> cont_byte c"
  by (simp add: byte_in_def cont_byte_def)

lemma chars_of_append:
  "\<not> cont_byte x \<Longrightarrow> chars_of (cs @ x # ds) = chars_of cs @ chars_of (x # ds)"
proof (induction cs rule: chars_of.induct)
  case (2 c cs)
  then have IH: "chars_of (dropWhile cont_byte cs @ x # ds) = chars_of (dropWhile cont_byte cs) @ chars_of (x # ds)" by blast
  show ?case
  proof (cases "list_all cont_byte cs")
    case True
    then have "takeWhile cont_byte cs = cs" "dropWhile cont_byte cs = []"
      by (auto simp: list_all_iff takeWhile_eq_all_conv dropWhile_eq_Nil_conv)
    then show ?thesis using 2(2) True
      by (auto simp: list_all_iff takeWhile_append2 dropWhile_append2 simp del: takeWhile_eq_all_conv)
  next
    case False
    then obtain y where "y \<in> set cs" "\<not> cont_byte y" by (auto simp: list_all_iff)
    then have "takeWhile cont_byte (cs @ x # ds) = takeWhile cont_byte cs"
      "dropWhile cont_byte (cs @ x # ds) = dropWhile cont_byte cs @ x # ds"
      by (auto intro: takeWhile_append1 dropWhile_append1)
    then show ?thesis using IH by simp
  qed
qed simp

lemma valid_utf8_Nil [simp]: "valid_utf8 []"
  by (simp add: valid_utf8_def)

lemma valid_utf8_ascii_append:
  assumes "byte_in 0 0x7F x"
  shows "valid_utf8 (cs @ x # ds) \<longleftrightarrow> valid_utf8 cs \<and> valid_utf8 (x # ds)"
  using chars_of_append [OF ascii_not_cont [OF assms]] by (simp add: valid_utf8_def)

text \<open>Appending an ASCII byte changes nothing.\<close>

lemma valid_utf8_snoc_ascii: "byte_in 0 0x7F x \<Longrightarrow> valid_utf8 (cs @ [x]) = valid_utf8 cs"
  using valid_utf8_ascii_append [of x cs "[]"] by (simp add: valid_utf8_def utf8_char_def)

section \<open>Numbers\<close>

text \<open>\<open>str::parse\<close> for \<open>u32\<close> and \<open>i64\<close>: an optional sign, at least one digit, within range.\<close>

definition all_digits :: "string \<Rightarrow> bool" where
  "all_digits s \<longleftrightarrow> s \<noteq> [] \<and> list_all (byte_in 48 57) s"

definition parse_u32 :: "string \<Rightarrow> nat option" where
  "parse_u32 s =
     (let d = (if prefix ''+'' s then tl s else s)
      in if all_digits d \<and> read_nat d < 2 ^ 32 then Some (read_nat d) else None)"

definition parse_i64 :: "string \<Rightarrow> int option" where
  "parse_i64 s =
     (let d = (if prefix ''+'' s \<or> prefix ''-'' s then tl s else s);
          v = (if prefix ''-'' s then - int (read_nat d) else int (read_nat d))
      in if all_digits d \<and> - (2 ^ 63) \<le> v \<and> v < 2 ^ 63 then Some v else None)"

lemma digit_char_byte: "d < 10 \<Longrightarrow> byte_in 48 57 (digit_char d)"
  by (simp add: byte_in_def digit_char_def)

lemma all_digits_show_nat [simp]: "all_digits (show_nat n)"
proof (induction n rule: show_nat.induct)
  case (1 n)
  show ?case
    using 1 by (subst show_nat.simps) (auto simp: all_digits_def digit_char_byte)
qed

lemma digits_no_sign: "all_digits s \<Longrightarrow> \<not> prefix ''+'' s \<and> \<not> prefix ''-'' s"
  by (cases s) (auto simp: all_digits_def byte_in_def)

lemma parse_show_u32 [simp]: "n < 2 ^ 32 \<Longrightarrow> parse_u32 (show_nat n) = Some n"
  using digits_no_sign [OF all_digits_show_nat, of n] by (simp add: parse_u32_def Let_def)

lemma parse_show_i64 [simp]:
  assumes "- (2 ^ 63) \<le> i" "i < 2 ^ 63"
  shows "parse_i64 (show_int i) = Some i"
  using assms digits_no_sign [OF all_digits_show_nat, of "nat i"]
  by (auto simp: parse_i64_def show_int_def Let_def)

end
