(* ===== verification/Room_Invites.thy ===== *)
theory Room_Invites
  imports Text_Chars Json_Codec
begin

text \<open>
  \<open>crates/proto/src/room.rs\<close>: the grammar of room invites, their validation and the ids
  derived from a room's secret. The serialiser, the base64 codec and SHA-256 are not part of
  the repository: they are the record \<open>wire\<close>, a parameter. The derived decoders accept an
  object; that they also accept a sequence of the fields is not modelled.
\<close>

section \<open>Grammar\<close>

definition INVITE_PREFIX :: string where "INVITE_PREFIX = ''roboco-room:''"
definition INVITE_VERSION :: nat where "INVITE_VERSION = 1"
definition MAX_INVITE_BYTES :: nat where "MAX_INVITE_BYTES = 65536"
definition MAX_SECRET_BYTES :: nat where "MAX_SECRET_BYTES = 4096"
definition MAX_MEMBER_ADDRESS_BYTES :: nat where "MAX_MEMBER_ADDRESS_BYTES = 4096"
definition MAX_MEMBERS :: nat where "MAX_MEMBERS = 512"
definition MAX_LABEL_BYTES :: nat where "MAX_LABEL_BYTES = 256"

datatype invite_error =
    NotAnInvite | NotBase64 | Malformed | BadVersion | BadName | BadSecret
  | BadMemberLabel | BadMemberAddress | TooManyMembers | EncodeFailed | MintFailed

fun invite_error_message :: "invite_error \<Rightarrow> string" where
  "invite_error_message NotAnInvite = ''a room invite starts with roboco-room:''"
| "invite_error_message NotBase64 = ''room invite payload is not base64url''"
| "invite_error_message Malformed = ''room invite payload is malformed''"
| "invite_error_message BadVersion = ''room invite grammar version is not 1''"
| "invite_error_message BadName = ''room name must be at most 256 bytes with no control characters''"
| "invite_error_message BadSecret = ''room secret must be 1 to 4096 bytes with no control characters''"
| "invite_error_message BadMemberLabel = ''member labels must be at most 256 bytes with no control characters''"
| "invite_error_message BadMemberAddress =
     ''member addresses must be 1 to 4096 bytes with no whitespace or control characters''"
| "invite_error_message TooManyMembers = ''room invites carry at most 512 members''"
| "invite_error_message EncodeFailed = ''room invite could not be encoded''"
| "invite_error_message MintFailed = ''operating system randomness unavailable''"

definition valid_room_label :: "string \<Rightarrow> bool" where
  "valid_room_label value \<longleftrightarrow> value \<noteq> [] \<and> length value \<le> MAX_LABEL_BYTES \<and> \<not> has_control value"

definition valid_room_secret :: "string \<Rightarrow> bool" where
  "valid_room_secret value \<longleftrightarrow> value \<noteq> [] \<and> length value \<le> MAX_SECRET_BYTES \<and> \<not> has_control value"

definition valid_member_address :: "string \<Rightarrow> bool" where
  "valid_member_address value \<longleftrightarrow>
     value \<noteq> [] \<and> length value \<le> MAX_MEMBER_ADDRESS_BYTES \<and> \<not> has_control value \<and> \<not> has_white value"

record room_member =
  mb_label :: string
  mb_address :: string

definition validate_room_member :: "room_member \<Rightarrow> invite_error option" where
  "validate_room_member m =
     (if \<not> valid_room_label (mb_label m) then Some BadMemberLabel
      else if \<not> valid_member_address (mb_address m) then Some BadMemberAddress
      else None)"

text \<open>The loop over the members: the first refusal, if any.\<close>

fun validate_members :: "room_member list \<Rightarrow> invite_error option" where
  "validate_members [] = None"
| "validate_members (m # ms) =
     (case validate_room_member m of Some e \<Rightarrow> Some e | None \<Rightarrow> validate_members ms)"

datatype room_kind = PlainRoom | FleetRoom

record room_invite =
  iv_v :: nat
  iv_name :: string
  iv_secret :: string
  iv_members :: "room_member list"
  iv_kind :: room_kind

definition is_fleet :: "room_invite \<Rightarrow> bool" where
  "is_fleet iv \<longleftrightarrow> iv_kind iv = FleetRoom"

definition invite_new :: "string \<Rightarrow> string \<Rightarrow> room_member list \<Rightarrow> invite_error + room_invite" where
  "invite_new name secret members =
     (if \<not> valid_room_label name then Inl BadName
      else if \<not> valid_room_secret secret then Inl BadSecret
      else if MAX_MEMBERS < length members then Inl TooManyMembers
      else case validate_members members of
             Some e \<Rightarrow> Inl e
           | None \<Rightarrow> Inr \<lparr>iv_v = INVITE_VERSION, iv_name = name, iv_secret = secret,
               iv_members = members, iv_kind = PlainRoom\<rparr>)"

definition invite_fleet :: "string \<Rightarrow> string \<Rightarrow> room_member list \<Rightarrow> invite_error + room_invite" where
  "invite_fleet name secret members =
     (case invite_new name secret members of Inl e \<Rightarrow> Inl e | Inr iv \<Rightarrow> Inr (iv\<lparr>iv_kind := FleetRoom\<rparr>))"

section \<open>Encoding\<close>

record wire =
  w_json :: "json \<Rightarrow> string"
  w_parse :: "string \<Rightarrow> json option"
  w_b64 :: "string \<Rightarrow> string"
  w_unb64 :: "string \<Rightarrow> string option"
  w_sha :: "string \<Rightarrow> string"

definition member_to_json :: "room_member \<Rightarrow> json" where
  "member_to_json m = JObj [(''label'', JStr (mb_label m)), (''address'', JStr (mb_address m))]"

text \<open>A derived decoder refuses an object that names one of its fields twice.\<close>

definition once :: "string list \<Rightarrow> (string \<times> json) list \<Rightarrow> bool" where
  "once keys ms \<longleftrightarrow> distinct (filter (List.member keys) (map fst ms))"

fun member_from_json :: "json \<Rightarrow> room_member option" where
  "member_from_json (JObj ms) =
     (if \<not> once [''label'', ''address''] ms then None
      else case (str_member ''label'' (JObj ms), str_member ''address'' (JObj ms)) of
             (Some l, Some a) \<Rightarrow> Some \<lparr>mb_label = l, mb_address = a\<rparr>
           | _ \<Rightarrow> None)"
| "member_from_json _ = None"

definition invite_to_json :: "room_invite \<Rightarrow> json" where
  "invite_to_json iv =
     JObj ([(''v'', JInt (int (iv_v iv))), (''name'', JStr (iv_name iv)), (''secret'', JStr (iv_secret iv)),
            (''members'', JArr (map member_to_json (iv_members iv)))]
           @ (if iv_kind iv = PlainRoom then [] else [(''kind'', JStr ''fleet'')]))"

definition kind_from_json :: "json option \<Rightarrow> room_kind option" where
  "kind_from_json v =
     (case v of
        None \<Rightarrow> Some PlainRoom
      | Some (JStr s) \<Rightarrow> (if s = ''room'' then Some PlainRoom else if s = ''fleet'' then Some FleetRoom else None)
      | Some _ \<Rightarrow> None)"

definition invite_keys :: "string list" where
  "invite_keys = [''v'', ''name'', ''secret'', ''members'', ''kind'']"

fun invite_from_json :: "json \<Rightarrow> room_invite option" where
  "invite_from_json (JObj ms) =
     (if \<not> list_all (\<lambda>(k, _). List.member invite_keys k) ms \<or> \<not> once invite_keys ms then None
      else case (Option.bind (map_of ms ''v'') json_u32, str_member ''name'' (JObj ms), str_member ''secret'' (JObj ms),
                 Option.bind (Option.bind (map_of ms ''members'') json_elems) (traverse member_from_json),
                 kind_from_json (map_of ms ''kind'')) of
             (Some v, Some name, Some secret, Some members, Some kind) \<Rightarrow>
               Some \<lparr>iv_v = v, iv_name = name, iv_secret = secret, iv_members = members, iv_kind = kind\<rparr>
           | _ \<Rightarrow> None)"
| "invite_from_json _ = None"

text \<open>The checks \<open>encode\<close> and \<open>decode\<close> share.\<close>

definition check_invite :: "room_invite \<Rightarrow> invite_error option" where
  "check_invite iv =
     (if iv_v iv \<noteq> INVITE_VERSION then Some BadVersion
      else if \<not> valid_room_label (iv_name iv) then Some BadName
      else if \<not> valid_room_secret (iv_secret iv) then Some BadSecret
      else if MAX_MEMBERS < length (iv_members iv) then Some TooManyMembers
      else validate_members (iv_members iv))"

definition invite_encode :: "wire \<Rightarrow> room_invite \<Rightarrow> invite_error + string" where
  "invite_encode w iv =
     (case check_invite iv of
        Some e \<Rightarrow> Inl e
      | None \<Rightarrow>
          let encoded = INVITE_PREFIX @ w_b64 w (w_json w (invite_to_json iv))
          in if MAX_INVITE_BYTES < length encoded then Inl EncodeFailed else Inr encoded)"

definition invite_decode :: "wire \<Rightarrow> string \<Rightarrow> invite_error + room_invite" where
  "invite_decode w value =
     (if \<not> prefix INVITE_PREFIX (trim value) then Inl NotAnInvite
      else let payload = drop (length INVITE_PREFIX) (trim value)
      in if MAX_INVITE_BYTES < length payload + length INVITE_PREFIX then Inl NotBase64
      else case w_unb64 w payload of
             None \<Rightarrow> Inl NotBase64
           | Some bytes \<Rightarrow>
               (case Option.bind (w_parse w bytes) invite_from_json of
                  None \<Rightarrow> Inl Malformed
                | Some iv \<Rightarrow> (case check_invite iv of Some e \<Rightarrow> Inl e | None \<Rightarrow> Inr iv)))"

section \<open>Derived ids\<close>

definition tagged_text :: "string \<Rightarrow> string \<Rightarrow> string" where
  "tagged_text kind secret = ''roboco-room-v1'' @ [CHR 0x00] @ kind @ [CHR 0x00] @ secret"

definition tagged_digest :: "wire \<Rightarrow> string \<Rightarrow> string \<Rightarrow> string" where
  "tagged_digest w kind secret = w_sha w (tagged_text kind secret)"

definition room_id_bytes :: "wire \<Rightarrow> string \<Rightarrow> string" where
  "room_id_bytes w secret = tagged_digest w ''id'' secret"

definition room_id :: "wire \<Rightarrow> string \<Rightarrow> string" where
  "room_id w secret = w_b64 w (room_id_bytes w secret)"

section \<open>Round trip\<close>

lemma member_roundtrip [simp]: "member_from_json (member_to_json m) = Some m"
  by (simp add: member_to_json_def str_member_def once_def)

lemma members_roundtrip [simp]: "traverse member_from_json (map member_to_json ms) = Some ms"
  by (rule traverse_map) simp

lemma invite_json_roundtrip:
  "iv_v iv < 2 ^ 32 \<Longrightarrow> invite_from_json (invite_to_json iv) = Some iv"
  by (cases "iv_kind iv")
    (simp_all add: invite_to_json_def str_member_def once_def invite_keys_def json_u32_def kind_from_json_def)

lemma check_invite_None:
  "check_invite iv = None \<longleftrightarrow>
     iv_v iv = INVITE_VERSION \<and> valid_room_label (iv_name iv) \<and> valid_room_secret (iv_secret iv)
     \<and> length (iv_members iv) \<le> MAX_MEMBERS \<and> validate_members (iv_members iv) = None"
  by (auto simp: check_invite_def)

lemma validate_members_None:
  "validate_members ms = None \<longleftrightarrow> list_all (\<lambda>m. validate_room_member m = None) ms"
  by (induction ms) (auto split: option.splits)

lemma white_last: "w \<in> set white_chars \<Longrightarrow> \<not> url_safe_byte (last w) \<and> last w \<noteq> CHR '':''"
  by (auto simp: white_chars_def url_safe_byte_def Let_def)

lemma encoded_clean:
  assumes "list_all url_safe_byte body"
  shows "trim (INVITE_PREFIX @ body) = INVITE_PREFIX @ body"
proof (rule trim_id)
  show "\<not> starts_blank (INVITE_PREFIX @ body)"
    by (auto simp: starts_blank_def INVITE_PREFIX_def white_chars_def)
  have "url_safe_byte (last (INVITE_PREFIX @ body)) \<or> last (INVITE_PREFIX @ body) = CHR '':''"
    using assms by (cases body rule: rev_cases) (simp_all add: INVITE_PREFIX_def)
  moreover have "last w = last s" if "suffix w s" "w \<noteq> []" for w s :: string
    using that by (auto simp: suffix_def)
  ultimately show "\<not> ends_blank (INVITE_PREFIX @ body)"
    unfolding ends_blank_def using white_last white_chars_nonempty by metis
qed

text \<open>What \<open>encode\<close> writes, \<open>decode\<close> reads back as the same invite, given that the serialiser
  and the base64 codec read back this payload.\<close>

theorem invite_roundtrip:
  assumes "invite_encode w iv = Inr t"
    and "w_parse w (w_json w (invite_to_json iv)) = Some (invite_to_json iv)"
    and "w_unb64 w (w_b64 w (w_json w (invite_to_json iv))) = Some (w_json w (invite_to_json iv))"
    and "list_all url_safe_byte (w_b64 w (w_json w (invite_to_json iv)))"
  shows "invite_decode w t = Inr iv"
proof -
  from assms(1) have ok: "check_invite iv = None"
    and t: "t = INVITE_PREFIX @ w_b64 w (w_json w (invite_to_json iv))" "length t \<le> MAX_INVITE_BYTES"
    by (auto simp: invite_encode_def Let_def split: option.splits if_splits)
  have "iv_v iv < 2 ^ 32" using ok by (simp add: check_invite_None INVITE_VERSION_def)
  then have "invite_from_json (invite_to_json iv) = Some iv" by (rule invite_json_roundtrip)
  moreover have "trim t = t" unfolding t(1) using assms(4) by (rule encoded_clean)
  ultimately show ?thesis using t assms(2,3) ok by (simp add: invite_decode_def add.commute)
qed

definition sample_invite :: room_invite where
  "sample_invite = \<lparr>iv_v = 1, iv_name = ''m1'', iv_secret = ''a'', iv_members = [], iv_kind = FleetRoom\<rparr>"

definition sample_wire :: wire where
  "sample_wire = \<lparr>w_json = (\<lambda>_. ''j''), w_parse = (\<lambda>s. if s = ''j'' then Some (invite_to_json sample_invite) else None),
     w_b64 = (\<lambda>s. if s = ''j'' then ''abc'' else s), w_unb64 = (\<lambda>s. if s = ''abc'' then Some ''j'' else Some s),
     w_sha = (\<lambda>s. s)\<rparr>"

lemma sample_encodes: "invite_encode sample_wire sample_invite = Inr ''roboco-room:abc''"
  by (simp add: invite_encode_def check_invite_def sample_invite_def INVITE_VERSION_def valid_room_label_def
      valid_room_secret_def MAX_LABEL_BYTES_def MAX_SECRET_BYTES_def MAX_MEMBERS_def has_control_def is_control_def
      cont_byte_def sample_wire_def INVITE_PREFIX_def MAX_INVITE_BYTES_def)

theorem invite_roundtrip_witness: "invite_decode sample_wire ''roboco-room:abc'' = Inr sample_invite"
  by (rule invite_roundtrip [OF sample_encodes]) (simp_all add: sample_wire_def url_safe_byte_def)

text \<open>An invite that decodes is valid in every field, whatever text was pasted: version, name,
  secret, the number of members and each of them.\<close>

theorem decoded_invite_is_valid:
  assumes "invite_decode w value = Inr iv"
  shows "iv_v iv = INVITE_VERSION \<and> valid_room_label (iv_name iv) \<and> valid_room_secret (iv_secret iv)
    \<and> length (iv_members iv) \<le> MAX_MEMBERS
    \<and> list_all (\<lambda>m. valid_room_label (mb_label m) \<and> valid_member_address (mb_address m)) (iv_members iv)"
proof -
  have "check_invite iv = None"
    using assms by (auto simp: invite_decode_def Let_def split: if_splits option.splits)
  then show ?thesis
    by (auto simp: check_invite_None validate_members_None validate_room_member_def list_all_iff split: if_splits)
qed

end
