(* ===== verification/Pairing.thy ===== *)
theory Pairing
  imports Text_Chars "HOL-Library.Char_ord" "HOL-Library.List_Lexorder" "HOL-Library.Product_Lexorder"
begin

text \<open>
  \<open>crates/engine/src/pairing.rs\<close>: the pairing credentials of an engine. A table of the SQLite
  database is the list of its rows in insertion order, a statement that a \<open>PRIMARY KEY\<close> or
  \<open>UNIQUE\<close> constraint refuses is the error \<open>ConstraintFailed\<close>, and a transaction that
  returns early changes nothing. SHA-256 is not part of the repository: it is the parameter
  \<open>sha\<close>; the operating system's randomness, the clock and fresh identifiers are inputs.
\<close>

section \<open>Tables\<close>

record paired_session =
  pd_id :: string
  pd_label :: string
  pd_created_at :: int
  pd_last_seen :: int
  pd_revoked_at :: "int option"

record code_row =
  pc_id :: string
  pc_verifier :: string
  pc_label :: string
  pc_created_at :: int
  pc_expires_at :: int

record session_entry =
  sn_verifier :: string
  sn_session :: paired_session

record pairing_db =
  pair_codes :: "code_row list"
  paired_sessions :: "session_entry list"

datatype store_error = BadLifetime | BadLabel | NoRandomness | ConstraintFailed

record pairing_code =
  co_id :: string
  co_credential :: string
  co_expires_at :: int

record session_grant =
  gr_session :: paired_session
  gr_credential :: string

definition MAX_TTL_SECONDS :: int where "MAX_TTL_SECONDS = 3600"

section \<open>Secrets and labels\<close>

definition valid_pair_secret :: "string \<Rightarrow> bool" where
  "valid_pair_secret value \<longleftrightarrow> url_safe_43 value"

definition NUL :: char where "NUL = CHR 0x00"

definition pairing_verifier :: "(string \<Rightarrow> string) \<Rightarrow> string \<Rightarrow> string \<Rightarrow> string" where
  "pairing_verifier sha kind credential = sha (''roboco-pairing-v1'' @ [NUL] @ kind @ [NUL] @ credential)"

definition validate_label :: "string \<Rightarrow> bool" where
  "validate_label label \<longleftrightarrow> length label \<le> 256 \<and> \<not> has_control label"

section \<open>Operations\<close>

text \<open>
  \<open>rnd\<close> is the credential made of 32 random bytes, \<open>None\<close> when the system has no randomness;
  \<open>uuid\<close> the fresh identifier.
\<close>

definition insert_session :: "session_entry \<Rightarrow> 'a pairing_db_scheme \<Rightarrow> store_error + 'a pairing_db_scheme" where
  "insert_session row db =
     (if list_ex (\<lambda>r. pd_id (sn_session r) = pd_id (sn_session row) \<or> sn_verifier r = sn_verifier row)
           (paired_sessions db)
      then Inl ConstraintFailed
      else Inr (db\<lparr>paired_sessions := paired_sessions db @ [row]\<rparr>))"

definition create_code ::
    "(string \<Rightarrow> string) \<Rightarrow> string option \<Rightarrow> string \<Rightarrow> int \<Rightarrow> string \<Rightarrow> int \<Rightarrow> 'a pairing_db_scheme
      \<Rightarrow> store_error + pairing_code \<times> 'a pairing_db_scheme" where
  "create_code sha rnd uuid now label ttl_seconds db =
     (if \<not> (1 \<le> ttl_seconds \<and> ttl_seconds \<le> MAX_TTL_SECONDS) then Inl BadLifetime
      else if \<not> validate_label label then Inl BadLabel
      else case rnd of None \<Rightarrow> Inl NoRandomness
        | Some credential \<Rightarrow>
            let expires_at = now + ttl_seconds * 1000;
                row = \<lparr>pc_id = uuid, pc_verifier = pairing_verifier sha ''pair'' credential, pc_label = label,
                  pc_created_at = now, pc_expires_at = expires_at\<rparr>
            in if list_ex (\<lambda>r. pc_id r = uuid \<or> pc_verifier r = pc_verifier row) (pair_codes db)
               then Inl ConstraintFailed
               else Inr (\<lparr>co_id = uuid, co_credential = credential, co_expires_at = expires_at\<rparr>,
                         db\<lparr>pair_codes := pair_codes db @ [row]\<rparr>))"

definition new_session :: "string \<Rightarrow> string \<Rightarrow> int \<Rightarrow> paired_session" where
  "new_session uuid label now =
     \<lparr>pd_id = uuid, pd_label = label, pd_created_at = now, pd_last_seen = now, pd_revoked_at = None\<rparr>"

definition redeem ::
    "(string \<Rightarrow> string) \<Rightarrow> string option \<Rightarrow> string \<Rightarrow> int \<Rightarrow> string \<Rightarrow> string \<Rightarrow> 'a pairing_db_scheme
      \<Rightarrow> store_error + session_grant option \<times> 'a pairing_db_scheme" where
  "redeem sha rnd uuid now code label db =
     (if \<not> validate_label label then Inl BadLabel
      else if \<not> valid_pair_secret code then Inr (None, db)
      else case rnd of None \<Rightarrow> Inl NoRandomness
        | Some credential \<Rightarrow>
            let hit = (\<lambda>r. pc_verifier r = pairing_verifier sha ''pair'' code \<and> now < pc_expires_at r)
            in case find hit (pair_codes db) of
                 None \<Rightarrow> Inr (None, db)
               | Some row \<Rightarrow>
                   let session = new_session uuid (if trim label = [] then pc_label row else trim label) now;
                       db1 = db\<lparr>pair_codes := filter (\<lambda>r. \<not> hit r) (pair_codes db)\<rparr>
                   in case insert_session \<lparr>sn_verifier = pairing_verifier sha ''session'' credential,
                             sn_session = session\<rparr> db1 of
                        Inl e \<Rightarrow> Inl e
                      | Inr db2 \<Rightarrow> Inr (Some \<lparr>gr_session = session, gr_credential = credential\<rparr>, db2))"

definition live_holder :: "string \<Rightarrow> session_entry \<Rightarrow> bool" where
  "live_holder v r \<longleftrightarrow> sn_verifier r = v \<and> pd_revoked_at (sn_session r) = None"

definition authenticate ::
    "(string \<Rightarrow> string) \<Rightarrow> int \<Rightarrow> string \<Rightarrow> 'a pairing_db_scheme
      \<Rightarrow> paired_session option \<times> 'a pairing_db_scheme" where
  "authenticate sha now credential db =
     (if \<not> valid_pair_secret credential then (None, db)
      else let hit = live_holder (pairing_verifier sha ''session'' credential);
               seen = (\<lambda>r. r\<lparr>sn_session := sn_session r\<lparr>pd_last_seen := now\<rparr>\<rparr>)
           in (map_option (\<lambda>r. sn_session (seen r)) (find hit (paired_sessions db)),
               db\<lparr>paired_sessions := map (\<lambda>r. if hit r then seen r else r) (paired_sessions db)\<rparr>))"

definition list_sessions :: "'a pairing_db_scheme \<Rightarrow> paired_session list" where
  "list_sessions db = sort_key (\<lambda>s. (pd_created_at s, pd_id s)) (map sn_session (paired_sessions db))"

definition mint_session ::
    "(string \<Rightarrow> string) \<Rightarrow> string option \<Rightarrow> string \<Rightarrow> int \<Rightarrow> string \<Rightarrow> 'a pairing_db_scheme
      \<Rightarrow> store_error + session_grant \<times> 'a pairing_db_scheme" where
  "mint_session sha rnd uuid now label db =
     (if \<not> validate_label label then Inl BadLabel
      else case rnd of None \<Rightarrow> Inl NoRandomness
        | Some credential \<Rightarrow>
            let session = new_session uuid (trim label) now
            in case insert_session \<lparr>sn_verifier = pairing_verifier sha ''session'' credential,
                      sn_session = session\<rparr> db of
                 Inl e \<Rightarrow> Inl e
               | Inr db1 \<Rightarrow> Inr (\<lparr>gr_session = session, gr_credential = credential\<rparr>, db1))"

definition live_session :: "string \<Rightarrow> session_entry \<Rightarrow> bool" where
  "live_session sid r \<longleftrightarrow> pd_id (sn_session r) = sid \<and> pd_revoked_at (sn_session r) = None"

definition reissue_session ::
    "(string \<Rightarrow> string) \<Rightarrow> string option \<Rightarrow> int \<Rightarrow> string \<Rightarrow> 'a pairing_db_scheme
      \<Rightarrow> store_error + session_grant option \<times> 'a pairing_db_scheme" where
  "reissue_session sha rnd now session_id db =
     (case rnd of None \<Rightarrow> Inl NoRandomness
      | Some credential \<Rightarrow>
          let hit = live_session session_id; v = pairing_verifier sha ''session'' credential;
              rekey = (\<lambda>r. r\<lparr>sn_verifier := v, sn_session := sn_session r\<lparr>pd_last_seen := now\<rparr>\<rparr>)
          in case find hit (paired_sessions db) of
               None \<Rightarrow> Inr (None, db)
             | Some row \<Rightarrow>
                 if list_ex (\<lambda>r. \<not> hit r \<and> sn_verifier r = v) (paired_sessions db) then Inl ConstraintFailed
                 else Inr (Some \<lparr>gr_session = sn_session (rekey row), gr_credential = credential\<rparr>,
                           db\<lparr>paired_sessions := map (\<lambda>r. if hit r then rekey r else r) (paired_sessions db)\<rparr>))"

definition revoke :: "int \<Rightarrow> string \<Rightarrow> 'a pairing_db_scheme \<Rightarrow> bool \<times> 'a pairing_db_scheme" where
  "revoke now i db =
     (list_ex (live_session i) (paired_sessions db),
      db\<lparr>paired_sessions := map (\<lambda>r. if live_session i r
           then r\<lparr>sn_session := sn_session r\<lparr>pd_revoked_at := Some now\<rparr>\<rparr> else r) (paired_sessions db)\<rparr>)"

section \<open>The constraints as an invariant\<close>

definition pairing_ok :: "'a pairing_db_scheme \<Rightarrow> bool" where
  "pairing_ok db \<longleftrightarrow>
     distinct (map (\<lambda>r. pd_id (sn_session r)) (paired_sessions db))
     \<and> distinct (map sn_verifier (paired_sessions db))
     \<and> distinct (map pc_id (pair_codes db)) \<and> distinct (map pc_verifier (pair_codes db))"

datatype pairing_op =
    CreateCode "string option" string int string int
  | Redeem "string option" string int string string
  | Authenticate int string
  | MintSession "string option" string int string
  | ReissueSession "string option" int string
  | Revoke int string

fun pairing_step :: "(string \<Rightarrow> string) \<Rightarrow> 'a pairing_db_scheme \<Rightarrow> pairing_op \<Rightarrow> 'a pairing_db_scheme" where
  "pairing_step sha db (CreateCode rnd uuid now label ttl) =
     (case create_code sha rnd uuid now label ttl db of Inl _ \<Rightarrow> db | Inr (_, db') \<Rightarrow> db')"
| "pairing_step sha db (Redeem rnd uuid now code label) =
     (case redeem sha rnd uuid now code label db of Inl _ \<Rightarrow> db | Inr (_, db') \<Rightarrow> db')"
| "pairing_step sha db (Authenticate now credential) = snd (authenticate sha now credential db)"
| "pairing_step sha db (MintSession rnd uuid now label) =
     (case mint_session sha rnd uuid now label db of Inl _ \<Rightarrow> db | Inr (_, db') \<Rightarrow> db')"
| "pairing_step sha db (ReissueSession rnd now sid) =
     (case reissue_session sha rnd now sid db of Inl _ \<Rightarrow> db | Inr (_, db') \<Rightarrow> db')"
| "pairing_step sha db (Revoke now i) = snd (revoke now i db)"

text \<open>Every operation that changes the sessions is one of three changes of the table.\<close>

lemma insert_session_cases:
  "insert_session row db = Inr db' \<Longrightarrow>
     db' = db\<lparr>paired_sessions := paired_sessions db @ [row]\<rparr>
     \<and> pd_id (sn_session row) \<notin> (\<lambda>r. pd_id (sn_session r)) ` set (paired_sessions db)
     \<and> sn_verifier row \<notin> sn_verifier ` set (paired_sessions db)"
  by (auto simp: insert_session_def list_ex_iff split: if_splits)

lemma insert_session_ok:
  "pairing_ok db \<Longrightarrow> insert_session row db = Inr db' \<Longrightarrow> pairing_ok db'"
  by (drule insert_session_cases) (simp add: pairing_ok_def image_iff)

lemma pairing_ok_codes:
  "pairing_ok db \<Longrightarrow> pairing_ok (db\<lparr>pair_codes := filter P (pair_codes db)\<rparr>)"
  by (simp add: pairing_ok_def distinct_map_filter)

lemma pairing_ok_map:
  assumes "pairing_ok db" "\<And>r. pd_id (sn_session (f r)) = pd_id (sn_session r)" "\<And>r. sn_verifier (f r) = sn_verifier r"
  shows "pairing_ok (db\<lparr>paired_sessions := map f (paired_sessions db)\<rparr>)"
  using assms by (simp add: pairing_ok_def comp_def)

lemma distinct_rekey:
  assumes "distinct (map i xs)" "distinct (map v xs)" "\<And>r. i (f r) = i r" "\<And>r. v (f r) = w"
    and "\<not> list_ex (\<lambda>r. \<not> (i r = k \<and> P r) \<and> v r = w) xs"
  shows "distinct (map v (map (\<lambda>r. if i r = k \<and> P r then f r else r) xs))"
  using assms(1,2,5)
proof (induction xs)
  case (Cons x xs)
  have others: "\<forall>r \<in> set xs. \<not> (i r = k \<and> P r)" if "i x = k"
    using Cons.prems(1) that by (metis distinct.simps(2) fresh_iff list.simps(9))
  have tail: "distinct (map v (map (\<lambda>r. if i r = k \<and> P r then f r else r) xs))"
    using Cons by simp
  have "v (if i x = k \<and> P x then f x else x)
      \<notin> v ` (\<lambda>r. if i r = k \<and> P r then f r else r) ` set xs"
  proof (cases "i x = k \<and> P x")
    case True
    then have "(\<lambda>r. if i r = k \<and> P r then f r else r) ` set xs = set xs"
      using others by (auto simp: image_iff)
    with True Cons.prems(3) others assms(4) show ?thesis by (auto simp: list_ex_iff)
  next
    case False
    with Cons.prems(2,3) assms(4) show ?thesis by (auto simp: list_ex_iff)
  qed
  with tail show ?case unfolding list.map distinct.simps set_map by blast
qed simp

lemma authenticate_ok: "pairing_ok db \<Longrightarrow> pairing_ok (snd (authenticate sha now c db))"
  by (auto simp: authenticate_def Let_def intro: pairing_ok_map)

lemma revoke_ok: "pairing_ok db \<Longrightarrow> pairing_ok (snd (revoke now i db))"
  by (auto simp: revoke_def intro: pairing_ok_map)

lemma distinct_map_snoc: "distinct (map f (xs @ [y])) \<longleftrightarrow> distinct (map f xs) \<and> (\<forall>x \<in> set xs. f x \<noteq> f y)"
  by (auto simp: image_iff)

lemma create_code_cases:
  assumes "create_code sha rnd uuid now label ttl db = Inr (c, db')"
  obtains credential row where "rnd = Some credential" "pc_verifier row = pairing_verifier sha ''pair'' credential"
    "pc_id row = uuid" "db' = db\<lparr>pair_codes := pair_codes db @ [row]\<rparr>" "co_credential c = credential"
    "\<forall>r \<in> set (pair_codes db). pc_id r \<noteq> uuid \<and> pc_verifier r \<noteq> pc_verifier row"
proof (cases rnd)
  case None
  with assms show ?thesis by (simp add: create_code_def split: if_splits)
next
  case (Some credential)
  let ?row = "\<lparr>pc_id = uuid, pc_verifier = pairing_verifier sha ''pair'' credential, pc_label = label,
    pc_created_at = now, pc_expires_at = now + ttl * 1000\<rparr>"
  show ?thesis
    by (rule that [of credential ?row])
      (use assms Some in \<open>simp_all add: create_code_def Let_def list_ex_iff split: if_splits\<close>, auto)
qed

lemma create_code_ok:
  "pairing_ok db \<Longrightarrow> create_code sha rnd uuid now label ttl db = Inr (c, db') \<Longrightarrow> pairing_ok db'"
  by (erule create_code_cases) (simp add: pairing_ok_def distinct_map_snoc del: map_append)

lemma redeem_ok:
  "pairing_ok db \<Longrightarrow> redeem sha rnd uuid now code label db = Inr (g, db') \<Longrightarrow> pairing_ok db'"
  by (auto simp: redeem_def Let_def intro: insert_session_ok [OF pairing_ok_codes]
      split: if_splits option.splits sum.splits)

lemma mint_session_ok:
  "pairing_ok db \<Longrightarrow> mint_session sha rnd uuid now label db = Inr (g, db') \<Longrightarrow> pairing_ok db'"
  by (auto simp: mint_session_def Let_def intro: insert_session_ok split: if_splits option.splits sum.splits)

lemma reissue_session_ok:
  assumes "pairing_ok db" "reissue_session sha rnd now sid db = Inr (g, db')"
  shows "pairing_ok db'"
proof (cases "rnd")
  case None
  with assms show ?thesis by (simp add: reissue_session_def)
next
  case (Some c)
  let ?v = "pairing_verifier sha ''session'' c"
  let ?f = "\<lambda>r. r\<lparr>sn_verifier := ?v, sn_session := sn_session r\<lparr>pd_last_seen := now\<rparr>\<rparr>"
  let ?P = "\<lambda>r. pd_revoked_at (sn_session r) = None"
  show ?thesis
  proof (cases "find (live_session sid) (paired_sessions db)")
    case None
    with assms Some show ?thesis by (simp add: reissue_session_def)
  next
    case (Some row)
    with assms \<open>rnd = Some c\<close>
    have free: "\<not> list_ex (\<lambda>r. \<not> (pd_id (sn_session r) = sid \<and> ?P r) \<and> sn_verifier r = ?v) (paired_sessions db)"
      and db': "db' = db\<lparr>paired_sessions :=
        map (\<lambda>r. if pd_id (sn_session r) = sid \<and> ?P r then ?f r else r) (paired_sessions db)\<rparr>"
      by (auto simp: reissue_session_def live_session_def Let_def split: if_splits)
    have "distinct (map sn_verifier (map (\<lambda>r. if pd_id (sn_session r) = sid \<and> ?P r then ?f r else r)
        (paired_sessions db)))"
      using assms(1) free by (intro distinct_rekey) (auto simp: pairing_ok_def)
    moreover have "map (\<lambda>r. pd_id (sn_session r)) (map (\<lambda>r. if pd_id (sn_session r) = sid \<and> ?P r then ?f r else r)
        (paired_sessions db)) = map (\<lambda>r. pd_id (sn_session r)) (paired_sessions db)" by simp
    ultimately show ?thesis using assms(1) unfolding db' pairing_ok_def by (simp del: map_map)
  qed
qed

lemma pairing_step_ok: "pairing_ok db \<Longrightarrow> pairing_ok (pairing_step sha db op)"
  by (cases op)
    (auto intro: create_code_ok redeem_ok authenticate_ok mint_session_ok reissue_session_ok revoke_ok
      split: sum.splits)

interpretation pairing_table: invariant_machine "pairing_step sha" pairing_ok
  by unfold_locales (rule pairing_step_ok)

section \<open>Revocation\<close>

definition revoked_row :: "string \<Rightarrow> 'a pairing_db_scheme \<Rightarrow> bool" where
  "revoked_row sid db \<longleftrightarrow>
     list_ex (\<lambda>r. pd_id (sn_session r) = sid) (paired_sessions db)
     \<and> list_all (\<lambda>r. pd_id (sn_session r) = sid \<longrightarrow> pd_revoked_at (sn_session r) \<noteq> None) (paired_sessions db)"

lemma revoked_row_map:
  assumes "revoked_row sid db" "\<And>r. pd_id (sn_session (f r)) = pd_id (sn_session r)"
    and "\<And>r. pd_revoked_at (sn_session r) \<noteq> None \<Longrightarrow> pd_revoked_at (sn_session (f r)) \<noteq> None"
  shows "revoked_row sid (db\<lparr>paired_sessions := map f (paired_sessions db)\<rparr>)"
  using assms by (auto simp: revoked_row_def list_ex_iff list_all_iff)

lemma revoked_row_insert:
  "revoked_row sid db \<Longrightarrow> insert_session row db = Inr db' \<Longrightarrow> revoked_row sid db'"
  by (drule insert_session_cases) (auto simp: revoked_row_def list_ex_iff list_all_iff image_iff)

lemma revoked_row_codes [simp]: "revoked_row sid (db\<lparr>pair_codes := cs\<rparr>) = revoked_row sid db"
  by (simp add: revoked_row_def)

lemma revoked_row_create:
  "revoked_row sid db \<Longrightarrow> create_code sha rnd uuid now label ttl db = Inr (c, db') \<Longrightarrow> revoked_row sid db'"
  by (erule create_code_cases) simp

lemma revoked_row_redeem:
  "revoked_row sid db \<Longrightarrow> redeem sha rnd uuid now code label db = Inr (g, db') \<Longrightarrow> revoked_row sid db'"
  by (auto simp: redeem_def Let_def intro: revoked_row_insert [rotated] split: if_splits option.splits sum.splits)

lemma mint_session_shape:
  "mint_session sha rnd uuid now label db = Inr (g, db') \<Longrightarrow>
     \<exists>row. db' = db\<lparr>paired_sessions := paired_sessions db @ [row]\<rparr> \<and> sn_session row = gr_session g
       \<and> pd_revoked_at (gr_session g) = None"
  by (auto simp: mint_session_def Let_def new_session_def dest!: insert_session_cases
      split: if_splits option.splits sum.splits)

lemma reissue_session_shape:
  "reissue_session sha rnd now sid db = Inr (g, db') \<Longrightarrow>
     \<exists>ss. db' = db\<lparr>paired_sessions := ss\<rparr> \<and> length ss = length (paired_sessions db)"
  by (cases rnd; cases "find (live_session sid) (paired_sessions db)")
    (auto simp: reissue_session_def Let_def intro: exI [of _ "paired_sessions db"] split: if_splits)

lemma revoked_row_mint:
  "revoked_row sid db \<Longrightarrow> mint_session sha rnd uuid now label db = Inr (g, db') \<Longrightarrow> revoked_row sid db'"
  by (auto simp: mint_session_def Let_def intro: revoked_row_insert split: if_splits option.splits sum.splits)

lemma revoked_row_reissue:
  "revoked_row sid db \<Longrightarrow> reissue_session sha rnd now i db = Inr (g, db') \<Longrightarrow> revoked_row sid db'"
  by (auto simp: reissue_session_def Let_def intro!: revoked_row_map split: if_splits option.splits)

lemma revoked_row_step: "revoked_row sid db \<Longrightarrow> revoked_row sid (pairing_step sha db op)"
  by (cases op)
    (auto simp: authenticate_def revoke_def Let_def intro!: revoked_row_map
      intro: revoked_row_create revoked_row_redeem revoked_row_mint revoked_row_reissue split: sum.splits)

interpretation revocation: invariant_machine "pairing_step sha" "revoked_row sid" for sha sid
  by unfold_locales (rule revoked_row_step)

lemma list_ex_map_same:
  "(\<And>r. Q (f r) = Q r) \<Longrightarrow> list_ex Q (map f xs) = list_ex Q xs"
  by (induction xs) simp_all

lemma list_all_mapI: "(\<And>x. x \<in> set xs \<Longrightarrow> P (f x)) \<Longrightarrow> list_all P (map f xs)"
  by (induction xs) simp_all

lemma revoke_revokes:
  assumes "revoke now sid db = (True, db')"
  shows "revoked_row sid db'"
proof -
  let ?f = "\<lambda>r. if live_session sid r then r\<lparr>sn_session := sn_session r\<lparr>pd_revoked_at := Some now\<rparr>\<rparr> else r"
  have "list_ex (live_session sid) (paired_sessions db)" and db': "db' = db\<lparr>paired_sessions := map ?f (paired_sessions db)\<rparr>"
    using assms by (simp_all add: revoke_def)
  then have "list_ex (\<lambda>r. pd_id (sn_session r) = sid) (paired_sessions db)"
    by (auto simp: list_ex_iff live_session_def)
  then have "list_ex (\<lambda>r. pd_id (sn_session r) = sid) (map ?f (paired_sessions db))"
    by (subst list_ex_map_same) simp_all
  moreover have "list_all (\<lambda>r. pd_id (sn_session r) = sid \<longrightarrow> pd_revoked_at (sn_session r) \<noteq> None)
      (map ?f (paired_sessions db))"
    by (rule list_all_mapI) (auto simp: live_session_def)
  ultimately show ?thesis unfolding db' revoked_row_def by simp
qed

lemma revoked_no_auth:
  "revoked_row sid db \<Longrightarrow> map_option pd_id (fst (authenticate sha now c db)) \<noteq> Some sid"
  by (auto simp: authenticate_def Let_def revoked_row_def list_all_iff live_holder_def find_Some_iff)

lemma revoked_no_reissue:
  "revoked_row sid db \<Longrightarrow> reissue_session sha rnd now sid db \<noteq> Inr (Some g, db')"
  by (auto simp: reissue_session_def Let_def revoked_row_def list_all_iff live_session_def find_Some_iff
      split: option.splits if_splits)

text \<open>C22: once a session is revoked, no credential authenticates as it and no presentation renews it,
  whatever pairing operations follow.\<close>

theorem revoked_session_stays_dead:
  assumes "revoke now sid db = (True, db1)"
  shows "map_option pd_id (fst (authenticate sha now' credential (foldl (pairing_step sha) db1 ops))) \<noteq> Some sid
    \<and> reissue_session sha rnd now' sid (foldl (pairing_step sha) db1 ops) \<noteq> Inr (Some g, db2)"
  using revocation.run_inv [OF revoke_revokes [OF assms], of sha ops] revoked_no_auth revoked_no_reissue
  by metis

definition sample_db :: pairing_db where
  "sample_db = \<lparr>pair_codes = [], paired_sessions = [\<lparr>sn_verifier = ''v'', sn_session = new_session ''s1'' ''phone'' 5\<rparr>]\<rparr>"

theorem revoked_session_stays_dead_witness:
  "map_option pd_id (fst (authenticate (\<lambda>s. s) 9 ''c'' (foldl (pairing_step (\<lambda>s. s)) (snd (revoke 7 ''s1'' sample_db))
     [MintSession (Some ''x'') ''s2'' 8 ''laptop'']))) \<noteq> Some ''s1''"
  using revoked_session_stays_dead [of 7 "''s1''" sample_db "snd (revoke 7 ''s1'' sample_db)" "\<lambda>s. s" 9 "''c''"
      "[MintSession (Some ''x'') ''s2'' 8 ''laptop'']"]
  by (simp add: revoke_def sample_db_def live_session_def new_session_def)

section \<open>Redemption\<close>

definition code_spent :: "(string \<Rightarrow> string) \<Rightarrow> string \<Rightarrow> 'a pairing_db_scheme \<Rightarrow> bool" where
  "code_spent sha code db \<longleftrightarrow> list_all (\<lambda>r. pc_verifier r \<noteq> pairing_verifier sha ''pair'' code) (pair_codes db)"

text \<open>The operations that mint the same code again, which 32 random bytes do not.\<close>

fun mints_code :: "(string \<Rightarrow> string) \<Rightarrow> string \<Rightarrow> pairing_op \<Rightarrow> bool" where
  "mints_code sha code (CreateCode (Some c) _ _ _ _) \<longleftrightarrow>
     pairing_verifier sha ''pair'' c = pairing_verifier sha ''pair'' code"
| "mints_code sha code _ \<longleftrightarrow> False"

lemma insert_session_codes [simp]: "insert_session row db = Inr db' \<Longrightarrow> pair_codes db' = pair_codes db"
  by (drule insert_session_cases) simp

lemma redeem_codes:
  "redeem sha rnd uuid now code label db = Inr (g, db') \<Longrightarrow> set (pair_codes db') \<subseteq> set (pair_codes db)"
  by (auto simp: redeem_def Let_def split: if_splits option.splits sum.splits)

lemma other_codes [simp]:
  "pair_codes (snd (authenticate sha now c db)) = pair_codes db" "pair_codes (snd (revoke now i db)) = pair_codes db"
  "mint_session sha rnd uuid now label db = Inr (g, db') \<Longrightarrow> pair_codes db' = pair_codes db"
  "reissue_session sha rnd now i db = Inr (g', db') \<Longrightarrow> pair_codes db' = pair_codes db"
  by (auto simp: authenticate_def revoke_def mint_session_def reissue_session_def Let_def
      split: if_splits option.splits sum.splits)

lemma code_spent_step:
  "code_spent sha code db \<Longrightarrow> \<not> mints_code sha code op \<Longrightarrow> code_spent sha code (pairing_step sha db op)"
proof (cases op)
  case (CreateCode rnd uuid now label ttl)
  assume "code_spent sha code db" "\<not> mints_code sha code op"
  then show ?thesis unfolding CreateCode
    by (auto simp: code_spent_def split: sum.splits elim!: create_code_cases)
qed (auto simp: code_spent_def list_all_iff split: sum.splits dest: redeem_codes)

lemma code_spent_run:
  "code_spent sha code db \<Longrightarrow> list_all (\<lambda>op. \<not> mints_code sha code op) ops \<Longrightarrow>
     code_spent sha code (foldl (pairing_step sha) db ops)"
  by (induction ops arbitrary: db) (simp_all add: code_spent_step)

lemma spent_no_grant: "code_spent sha code db \<Longrightarrow> redeem sha rnd uuid now code label db \<noteq> Inr (Some g, db')"
  by (auto simp: redeem_def Let_def code_spent_def list_all_iff find_Some_iff split: if_splits option.splits sum.splits)

lemma find_SomeD: "find P xs = Some x \<Longrightarrow> x \<in> set xs \<and> P x"
  by (auto simp: find_Some_iff)

lemma redeem_row:
  "redeem sha rnd uuid now code label db = Inr (Some g, db') \<Longrightarrow>
     (\<exists>row \<in> set (pair_codes db). pc_verifier row = pairing_verifier sha ''pair'' code \<and> now < pc_expires_at row)
     \<and> pair_codes db' = filter (\<lambda>r. \<not> (pc_verifier r = pairing_verifier sha ''pair'' code \<and> now < pc_expires_at r)) (pair_codes db)"
  by (auto simp: redeem_def Let_def dest!: find_SomeD split: if_splits option.splits sum.splits)

lemma redeem_session:
  "redeem sha rnd uuid now code label db = Inr (Some g, db') \<Longrightarrow>
     paired_sessions db' = paired_sessions db @ [\<lparr>sn_verifier = pairing_verifier sha ''session'' (gr_credential g),
       sn_session = gr_session g\<rparr>] \<and> pd_revoked_at (gr_session g) = None"
  by (auto simp: redeem_def Let_def new_session_def dest!: insert_session_cases split: if_splits option.splits sum.splits)

lemma redeem_spends:
  assumes "pairing_ok db" "redeem sha rnd uuid now code label db = Inr (Some g, db1)"
  shows "code_spent sha code db1"
proof -
  from redeem_row [OF assms(2)] obtain row where row: "row \<in> set (pair_codes db)"
    "pc_verifier row = pairing_verifier sha ''pair'' code" "now < pc_expires_at row" by auto
  note left = redeem_row [OF assms(2), THEN conjunct2]
  have "r = row" if "r \<in> set (pair_codes db)" "pc_verifier r = pairing_verifier sha ''pair'' code" for r
    using assms(1) that row(1,2) by (intro distinct_map_same [of pc_verifier "pair_codes db"]) (simp_all add: pairing_ok_def)
  with row(3) left show ?thesis by (auto simp: code_spent_def list_all_iff)
qed

lemma find_only:
  assumes "y \<in> set xs" "P y" "\<And>x. x \<in> set xs \<Longrightarrow> P x \<Longrightarrow> x = y"
  shows "find P xs = Some y"
  using assms by (metis find_None_iff find_SomeD not_None_eq)

lemma authenticate_holder:
  assumes "pairing_ok db" "r \<in> set (paired_sessions db)" "live_holder (pairing_verifier sha ''session'' c) r" "valid_pair_secret c"
  shows "fst (authenticate sha now c db) = Some (sn_session r\<lparr>pd_last_seen := now\<rparr>)"
proof -
  have "find (live_holder (pairing_verifier sha ''session'' c)) (paired_sessions db) = Some r"
    using assms(2,3)
  proof (rule find_only)
    fix x assume "x \<in> set (paired_sessions db)" "live_holder (pairing_verifier sha ''session'' c) x"
    with assms(1-3) show "x = r"
      by (intro distinct_map_same [of sn_verifier "paired_sessions db"]) (simp_all add: pairing_ok_def live_holder_def)
  qed
  then show ?thesis using assms(4) by (simp add: authenticate_def Let_def)
qed

text \<open>C21: a pairing code is worth one session: a redemption that grants one spends the code for good,
  whoever tries it again and whatever happens in between, and the granted credential
  authenticates as exactly the granted session.\<close>

theorem code_is_worth_one_session:
  assumes "pairing_ok db" "redeem sha rnd uuid now code label db = Inr (Some g, db1)"
    and "list_all (\<lambda>op. \<not> mints_code sha code op) ops" "valid_pair_secret (gr_credential g)"
  shows "redeem sha rnd' uuid' now' code label' (foldl (pairing_step sha) db1 ops) \<noteq> Inr (Some g', db2)
    \<and> fst (authenticate sha now'' (gr_credential g) db1) = Some (gr_session g\<lparr>pd_last_seen := now''\<rparr>)"
proof (intro conjI)
  show "redeem sha rnd' uuid' now' code label' (foldl (pairing_step sha) db1 ops) \<noteq> Inr (Some g', db2)"
    by (intro spent_no_grant code_spent_run redeem_spends [OF assms(1,2)] assms(3))
  note row = redeem_session [OF assms(2)]
  show "fst (authenticate sha now'' (gr_credential g) db1) = Some (gr_session g\<lparr>pd_last_seen := now''\<rparr>)"
    using authenticate_holder [OF redeem_ok [OF assms(1,2)], of "last (paired_sessions db1)"] assms(4) row
    by (simp add: live_holder_def)
qed

definition sample_code :: string where "sample_code = replicate 43 CHR ''A''"
definition other_code :: string where "other_code = replicate 43 CHR ''B''"

lemma sample_codes [simp]: "valid_pair_secret sample_code" "valid_pair_secret other_code" "sample_code \<noteq> other_code"
  by (simp_all add: sample_code_def other_code_def valid_pair_secret_def url_safe_43_def list_all_iff)

definition coded_db :: pairing_db where
  "coded_db = \<lparr>pair_codes = [\<lparr>pc_id = ''p1'', pc_verifier = pairing_verifier (\<lambda>s. s) ''pair'' sample_code,
     pc_label = ''m1'', pc_created_at = 0, pc_expires_at = 300000\<rparr>], paired_sessions = []\<rparr>"

lemma has_control_simps [simp]: "\<not> has_control ''m1''" "\<not> has_control ''a''" "\<not> has_control ''b''"
  by (simp_all add: has_control_def is_control_def cont_byte_def)

lemma coded_db_redeems:
  "redeem (\<lambda>s. s) (Some other_code) ''s1'' 10 sample_code ''m1'' coded_db
   = Inr (Some \<lparr>gr_session = new_session ''s1'' ''m1'' 10, gr_credential = other_code\<rparr>,
       \<lparr>pair_codes = [], paired_sessions = [\<lparr>sn_verifier = pairing_verifier (\<lambda>s. s) ''session'' other_code,
          sn_session = new_session ''s1'' ''m1'' 10\<rparr>]\<rparr>)"
  by (simp add: redeem_def validate_label_def coded_db_def insert_session_def trim_eval Let_def)

theorem code_is_worth_one_session_witness:
  "redeem (\<lambda>s. s) (Some sample_code) ''s2'' 20 sample_code ''b''
     (foldl (pairing_step (\<lambda>s. s)) \<lparr>pair_codes = [], paired_sessions =
        [\<lparr>sn_verifier = pairing_verifier (\<lambda>s. s) ''session'' other_code, sn_session = new_session ''s1'' ''m1'' 10\<rparr>]\<rparr>
      [Revoke 15 ''s1'']) \<noteq> Inr (Some \<lparr>gr_session = new_session ''s2'' ''b'' 20, gr_credential = sample_code\<rparr>, coded_db)"
  using code_is_worth_one_session [OF _ coded_db_redeems, of "[Revoke 15 ''s1'']"]
  by (simp add: pairing_ok_def coded_db_def)

definition rekeyed :: "(string \<Rightarrow> string) \<Rightarrow> string \<Rightarrow> int \<Rightarrow> session_entry \<Rightarrow> session_entry" where
  "rekeyed sha c now r =
     r\<lparr>sn_verifier := pairing_verifier sha ''session'' c, sn_session := sn_session r\<lparr>pd_last_seen := now\<rparr>\<rparr>"

lemma reissue_row:
  assumes "reissue_session sha rnd now sid db = Inr (Some g, db1)" "find (live_session sid) (paired_sessions db) = Some r"
  shows "gr_session g = sn_session (rekeyed sha (gr_credential g) now r)"
    and "db1 = db\<lparr>paired_sessions := map (\<lambda>x. if live_session sid x then rekeyed sha (gr_credential g) now x else x)
          (paired_sessions db)\<rparr>"
proof -
  obtain c where c: "rnd = Some c" using assms(1) by (cases rnd) (simp_all add: reissue_session_def)
  have "\<lparr>gr_session = sn_session (rekeyed sha c now r), gr_credential = c\<rparr> = g
    \<and> db\<lparr>paired_sessions := map (\<lambda>x. if live_session sid x then rekeyed sha c now x else x)
          (paired_sessions db)\<rparr> = db1"
    using assms(1) unfolding reissue_session_def c rekeyed_def Let_def option.case assms(2)
    by (simp only: split: if_splits) simp_all
  then show "gr_session g = sn_session (rekeyed sha (gr_credential g) now r)"
    and "db1 = db\<lparr>paired_sessions := map (\<lambda>x. if live_session sid x then rekeyed sha (gr_credential g) now x else x)
          (paired_sessions db)\<rparr>" by fastforce+
qed

lemma find_map_None: "(\<And>x. x \<in> set xs \<Longrightarrow> \<not> P (f x)) \<Longrightarrow> find P (map f xs) = None"
  by (induction xs) simp_all

text \<open>Renewing a session keeps its row and its label, makes the new credential authenticate as it
  and the old one as nothing.\<close>

theorem reissue_retires_old_credential:
  assumes "pairing_ok db" "fst (authenticate sha now old db) = Some s"
    and "reissue_session sha rnd now' (pd_id s) db = Inr (Some g, db1)"
    and "pairing_verifier sha ''session'' old \<noteq> pairing_verifier sha ''session'' (gr_credential g)"
    and "valid_pair_secret (gr_credential g)"
  shows "gr_session g = s\<lparr>pd_last_seen := now'\<rparr>
    \<and> fst (authenticate sha now'' old db1) = None
    \<and> fst (authenticate sha now'' (gr_credential g) db1) = Some (s\<lparr>pd_last_seen := now''\<rparr>)
    \<and> length (paired_sessions db1) = length (paired_sessions db)"
proof -
  let ?v = "pairing_verifier sha ''session'' old" and ?w = "pairing_verifier sha ''session'' (gr_credential g)"
  let ?f = "rekeyed sha (gr_credential g) now'"
  obtain r where r: "r \<in> set (paired_sessions db)" "live_holder ?v r" "s = sn_session r\<lparr>pd_last_seen := now\<rparr>"
    using assms(2) by (auto simp: authenticate_def Let_def dest!: find_SomeD split: if_splits)
  have same: "x = r" if "x \<in> set (paired_sessions db)" "pd_id (sn_session x) = pd_id s" for x
    using assms(1) that r by (intro distinct_map_same [of "\<lambda>r. pd_id (sn_session r)" "paired_sessions db"])
      (simp_all add: pairing_ok_def)
  have holder: "x = r" if "x \<in> set (paired_sessions db)" "sn_verifier x = ?v" for x
    using assms(1) that r by (intro distinct_map_same [of sn_verifier "paired_sessions db"])
      (simp_all add: pairing_ok_def live_holder_def)
  have live: "live_session (pd_id s) r" using r by (simp add: live_session_def live_holder_def)
  have "find (live_session (pd_id s)) (paired_sessions db) = Some r"
    using r(1) live by (rule find_only) (rule same, assumption, simp add: live_session_def)
  note row = reissue_row [OF assms(3) this]
  note db1 = row(2)
  have "?f r \<in> set (paired_sessions db1)" using r(1) live unfolding db1 by force
  moreover have "live_holder ?w (?f r)" using r by (simp add: live_holder_def rekeyed_def)
  ultimately have "fst (authenticate sha now'' (gr_credential g) db1) = Some (sn_session (?f r)\<lparr>pd_last_seen := now''\<rparr>)"
    using assms(5) by (rule authenticate_holder [OF reissue_session_ok [OF assms(1,3)]])
  moreover have "find (live_holder ?v) (paired_sessions db1) = None"
  proof -
    have "\<not> live_holder ?v (if live_session (pd_id s) x then ?f x else x)" if "x \<in> set (paired_sessions db)" for x
      using assms(4) holder [OF that] live by (auto simp: live_holder_def rekeyed_def)
    then show ?thesis unfolding db1 by (simp add: find_map_None del: if_split)
  qed
  then have "fst (authenticate sha now'' old db1) = None" by (simp add: authenticate_def Let_def)
  ultimately show ?thesis using r(3) row(1) by (simp add: db1 rekeyed_def)
qed

theorem reissue_retires_old_credential_witness:
  "fst (authenticate (\<lambda>s. s) 30 other_code
     \<lparr>pair_codes = [], paired_sessions = [\<lparr>sn_verifier = pairing_verifier (\<lambda>s. s) ''session'' sample_code,
        sn_session = (new_session ''s1'' ''m1'' 10)\<lparr>pd_last_seen := 20\<rparr>\<rparr>]\<rparr>) = None"
proof -
  let ?db = "\<lparr>pair_codes = [], paired_sessions = [\<lparr>sn_verifier = pairing_verifier (\<lambda>s. s) ''session'' other_code,
    sn_session = new_session ''s1'' ''m1'' 10\<rparr>]\<rparr>"
  have "fst (authenticate (\<lambda>s. s) 15 other_code ?db) = Some ((new_session ''s1'' ''m1'' 10)\<lparr>pd_last_seen := 15\<rparr>)"
    by (simp add: authenticate_def live_holder_def new_session_def)
  from reissue_retires_old_credential [OF _ this, of "Some sample_code" 20 _ _ 30] show ?thesis
    by (simp add: pairing_ok_def reissue_session_def live_session_def new_session_def pairing_verifier_def Let_def
        not_sym [OF sample_codes(3)])
qed

end
