(* ===== verification/Rooms.thy ===== *)
theory Rooms
  imports Room_Invites Pairing
begin

text \<open>
  \<open>crates/engine/src/rooms.rs\<close>: the rooms an engine has joined. The three room tables live in the
  pairing database, so \<open>rooms_db\<close> extends its record; the book files are a function from room
  ids, the failure window the list of its instants (nanoseconds). An operation returns its
  result with the world it leaves, because an error after a commit keeps the commit.
\<close>

section \<open>State\<close>

record room_row =
  rm_id :: string
  rm_label :: string
  rm_verifier :: string
  rm_joined_at :: int

record rooms_db = pairing_db +
  room_rows :: "room_row list"
  room_presentations :: "((string \<times> string) \<times> string) list"
  fleet_rooms :: "(string \<times> string) list"

datatype book_file = NoBook | CorruptBook | UnreadableBook | BookFile "room_member list"

record room_store =
  rs_db :: rooms_db
  rs_books :: "string \<Rightarrow> book_file"
  rs_writable :: bool
  rs_failures :: "int list"

record room_record =
  rc_id :: string
  rc_label :: string
  rc_joined_at :: int
  rc_kind :: room_kind
  rc_members :: "room_member list"

datatype room_error =
    FleetConflict | PairingError store_error | InviteError invite_error
  | BadRoomId | BookReadFailed | BookWriteFailed | RoomVanished | MissingLabel

datatype presentation_outcome = Granted session_grant | Refused | Throttled

definition MAX_PRESENTATION_FAILURES :: nat where "MAX_PRESENTATION_FAILURES = 5"
definition PRESENTATION_FAILURE_WINDOW :: int where "PRESENTATION_FAILURE_WINDOW = 60 * 1000000000"

text \<open>The room's verifier is the tagged digest of the kind \<open>verifier\<close>.\<close>

definition room_verifier :: "wire \<Rightarrow> string \<Rightarrow> string" where
  "room_verifier cr secret = w_sha cr (tagged_text ''verifier'' secret)"

definition valid_room_id :: "string \<Rightarrow> bool" where
  "valid_room_id i \<longleftrightarrow> url_safe_43 i"

definition kind_of :: "bool \<Rightarrow> room_kind" where
  "kind_of fleet = (if fleet then FleetRoom else PlainRoom)"

section \<open>Books\<close>

definition read_book :: "string \<Rightarrow> room_store \<Rightarrow> room_error + room_member list" where
  "read_book i w =
     (if \<not> valid_room_id i then Inl BadRoomId
      else case rs_books w i of
             BookFile ms \<Rightarrow> Inr ms
           | CorruptBook \<Rightarrow> Inr []
           | NoBook \<Rightarrow> Inr []
           | UnreadableBook \<Rightarrow> Inl BookReadFailed)"

definition write_book :: "string \<Rightarrow> room_member list \<Rightarrow> room_store \<Rightarrow> (room_error + unit) \<times> room_store" where
  "write_book i ms w =
     (if \<not> valid_room_id i then (Inl BadRoomId, w)
      else if \<not> rs_writable w then (Inl BookWriteFailed, w)
      else (Inr (), w\<lparr>rs_books := (rs_books w)(i := BookFile ms)\<rparr>))"

definition member_key :: "room_member \<Rightarrow> string \<times> string" where
  "member_key m = (mb_label m, mb_address m)"

text \<open>\<open>sort_by\<close> on the pair and \<open>dedup_by\<close> on equal pairs.\<close>

definition merge_members :: "room_member list \<Rightarrow> room_member list \<Rightarrow> room_member list" where
  "merge_members old fresh = remdups_adj (sort_key member_key (old @ fresh))"

definition room_known :: "string \<Rightarrow> room_store \<Rightarrow> bool" where
  "room_known i w \<longleftrightarrow> list_ex (\<lambda>r. rm_id r = i) (room_rows (rs_db w))"

definition merge_book ::
    "string \<Rightarrow> room_member list \<Rightarrow> room_store \<Rightarrow> (room_error + room_member list option) \<times> room_store" where
  "merge_book i members w =
     (if MAX_MEMBERS < length members then (Inl (InviteError TooManyMembers), w)
      else case validate_members members of
             Some e \<Rightarrow> (Inl (InviteError e), w)
           | None \<Rightarrow>
               if \<not> room_known i w then (Inr None, w)
               else case read_book i w of
                      Inl e \<Rightarrow> (Inl e, w)
                    | Inr old \<Rightarrow>
                        let merged = merge_members old members
                        in case write_book i merged w of
                             (Inl e, w1) \<Rightarrow> (Inl e, w1)
                           | (Inr _, w1) \<Rightarrow> (Inr (Some merged), w1))"

section \<open>Records\<close>

definition has_fleet :: "string \<Rightarrow> room_store \<Rightarrow> bool" where
  "has_fleet i w \<longleftrightarrow> list_ex (\<lambda>(r, _). r = i) (fleet_rooms (rs_db w))"

definition record_of :: "room_row \<Rightarrow> room_store \<Rightarrow> room_error + room_record" where
  "record_of row w =
     (case read_book (rm_id row) w of
        Inl e \<Rightarrow> Inl e
      | Inr ms \<Rightarrow> Inr \<lparr>rc_id = rm_id row, rc_label = rm_label row, rc_joined_at = rm_joined_at row,
          rc_kind = kind_of (has_fleet (rm_id row) w), rc_members = ms\<rparr>)"

definition record_room :: "string \<Rightarrow> room_store \<Rightarrow> room_error + room_record option" where
  "record_room i w =
     (case find (\<lambda>r. rm_id r = i) (room_rows (rs_db w)) of
        None \<Rightarrow> Inr None
      | Some row \<Rightarrow> (case record_of row w of Inl e \<Rightarrow> Inl e | Inr r \<Rightarrow> Inr (Some r)))"

fun records_of :: "room_row list \<Rightarrow> room_store \<Rightarrow> room_error + room_record list" where
  "records_of [] w = Inr []"
| "records_of (row # rows) w =
     (case record_of row w of
        Inl e \<Rightarrow> Inl e
      | Inr r \<Rightarrow> (case records_of rows w of Inl e \<Rightarrow> Inl e | Inr rs \<Rightarrow> Inr (r # rs)))"

definition list_rooms :: "room_store \<Rightarrow> room_error + room_record list" where
  "list_rooms w = records_of (sort_key (\<lambda>r. (rm_joined_at r, rm_id r)) (room_rows (rs_db w))) w"

text \<open>The fleet rows joined with their rooms, by room id.\<close>

definition joined_fleets :: "room_store \<Rightarrow> (string \<times> string) list" where
  "joined_fleets w = sort_key fst (filter (\<lambda>(r, _). room_known r w) (fleet_rooms (rs_db w)))"

definition fleet_room :: "room_store \<Rightarrow> room_error + room_record option" where
  "fleet_room w =
     (case joined_fleets w of [] \<Rightarrow> Inr None | (i, _) # _ \<Rightarrow> record_room i w)"

definition fleet_invite :: "string \<Rightarrow> room_store \<Rightarrow> room_error + room_invite option" where
  "fleet_invite i w =
     (case (find (\<lambda>r. rm_id r = i) (room_rows (rs_db w)), map_of (fleet_rooms (rs_db w)) i) of
        (Some row, Some secret) \<Rightarrow>
          (case read_book i w of
             Inl e \<Rightarrow> Inl e
           | Inr ms \<Rightarrow> (case invite_fleet (rm_label row) secret ms of
               Inl e \<Rightarrow> Inl (InviteError e) | Inr iv \<Rightarrow> Inr (Some iv)))
      | _ \<Rightarrow> Inr None)"

section \<open>Joining and leaving\<close>

definition upsert_room :: "room_row \<Rightarrow> room_row list \<Rightarrow> store_error + room_row list" where
  "upsert_room row rows =
     (if list_ex (\<lambda>r. rm_id r \<noteq> rm_id row \<and> rm_verifier r = rm_verifier row) rows then Inl ConstraintFailed
      else if list_ex (\<lambda>r. rm_id r = rm_id row) rows
      then Inr (map (\<lambda>r. if rm_id r = rm_id row then r\<lparr>rm_label := rm_label row\<rparr> else r) rows)
      else Inr (rows @ [row]))"

text \<open>The transaction of \<open>join\<close>; a refusal rolls it back.\<close>

definition join_tx :: "wire \<Rightarrow> int \<Rightarrow> string \<Rightarrow> string \<Rightarrow> string \<Rightarrow> bool \<Rightarrow> rooms_db \<Rightarrow> room_error + rooms_db" where
  "join_tx cr now i label secret fleet db =
     (let known = (\<lambda>r. list_ex (\<lambda>x. rm_id x = r) (room_rows db));
          fleets = (if fleet then filter (\<lambda>(r, _). known r) (fleet_rooms db) else fleet_rooms db)
      in if fleet \<and> list_ex (\<lambda>(r, _). r \<noteq> i) fleets then Inl FleetConflict
         else case upsert_room \<lparr>rm_id = i, rm_label = label, rm_verifier = room_verifier cr secret, rm_joined_at = now\<rparr>
                (room_rows db) of
                Inl e \<Rightarrow> Inl (PairingError e)
              | Inr rows \<Rightarrow>
                  Inr (db\<lparr>room_rows := rows,
                          fleet_rooms := (if fleet \<and> \<not> list_ex (\<lambda>(r, _). r = i) fleets then fleets @ [(i, secret)]
                                          else fleets)\<rparr>))"

definition introduce_self :: "string \<Rightarrow> room_member option \<Rightarrow> room_member list \<Rightarrow> room_store \<Rightarrow> (room_error + unit) \<times> room_store" where
  "introduce_self i own book w =
     (case own of
        None \<Rightarrow> (Inr (), w)
      | Some m \<Rightarrow>
          if list_ex (\<lambda>x. mb_address x = mb_address m) book then (Inr (), w)
          else (case merge_book i [m] w of (Inl e, w1) \<Rightarrow> (Inl e, w1) | (Inr _, w1) \<Rightarrow> (Inr (), w1)))"

definition join ::
    "wire \<Rightarrow> int \<Rightarrow> room_member option \<Rightarrow> room_invite \<Rightarrow> room_store \<Rightarrow> (room_error + room_record) \<times> room_store" where
  "join cr now own iv w =
     (let i = room_id cr (iv_secret iv); label = trim (iv_name iv)
      in if \<not> validate_label label then (Inl (PairingError BadLabel), w)
         else case join_tx cr now i label (iv_secret iv) (is_fleet iv) (rs_db w) of
                Inl e \<Rightarrow> (Inl e, w)
              | Inr db \<Rightarrow>
                  (case merge_book i (iv_members iv) (w\<lparr>rs_db := db\<rparr>) of
                     (Inl e, w1) \<Rightarrow> (Inl e, w1)
                   | (Inr None, w1) \<Rightarrow> (Inl RoomVanished, w1)
                   | (Inr (Some book), w1) \<Rightarrow>
                       (case (if is_fleet iv then introduce_self i own book w1 else (Inr (), w1)) of
                          (Inl e, w2) \<Rightarrow> (Inl e, w2)
                        | (Inr _, w2) \<Rightarrow>
                            ((case record_room i w2 of
                                Inl e \<Rightarrow> Inl e | Inr None \<Rightarrow> Inl RoomVanished | Inr (Some r) \<Rightarrow> Inr r), w2))))"

definition create_fleet ::
    "wire \<Rightarrow> int \<Rightarrow> string option \<Rightarrow> room_member option \<Rightarrow> string \<Rightarrow> room_member list \<Rightarrow> room_store
      \<Rightarrow> (room_error + room_record) \<times> room_store" where
  "create_fleet cr now minted own name members w =
     (case fleet_room w of
        Inl e \<Rightarrow> (Inl e, w)
      | Inr (Some _) \<Rightarrow> (Inl FleetConflict, w)
      | Inr None \<Rightarrow>
          (case minted of
             None \<Rightarrow> (Inl (InviteError MintFailed), w)
           | Some secret \<Rightarrow>
               (case invite_fleet (trim name) secret members of
                  Inl e \<Rightarrow> (Inl (InviteError e), w)
                | Inr iv \<Rightarrow> join cr now own iv w)))"

definition leave :: "string \<Rightarrow> room_store \<Rightarrow> bool \<times> room_store" where
  "leave i w =
     (let db = rs_db w; deleted = list_ex (\<lambda>r. rm_id r = i) (room_rows db)
      in (deleted,
          w\<lparr>rs_db := db\<lparr>room_rows := filter (\<lambda>r. rm_id r \<noteq> i) (room_rows db),
                        fleet_rooms := filter (\<lambda>(r, _). r \<noteq> i) (fleet_rooms db),
                        room_presentations := filter (\<lambda>((r, _), _). r \<noteq> i) (room_presentations db)\<rparr>,
            rs_books := (if deleted \<and> valid_room_id i then (rs_books w)(i := NoBook) else rs_books w)\<rparr>))"

section \<open>Presentations\<close>

definition prune_failures :: "int \<Rightarrow> int list \<Rightarrow> int list" where
  "prune_failures now failures = filter (\<lambda>t. max 0 (now - t) < PRESENTATION_FAILURE_WINDOW) failures"

definition failures_allowed :: "int \<Rightarrow> int list \<Rightarrow> bool \<times> int list" where
  "failures_allowed now failures =
     (let kept = prune_failures now failures in (length kept < MAX_PRESENTATION_FAILURES, kept))"

definition record_failure :: "int \<Rightarrow> int list \<Rightarrow> int list" where
  "record_failure now failures = prune_failures now failures @ [now]"

text \<open>
  What the system gives a presentation: the monotonic clock, the wall clock, the random bytes of
  a renewal and of a minted session, and a fresh session id.
\<close>

record present_env =
  pe_instant :: int
  pe_now :: int
  pe_reissue_rnd :: "string option"
  pe_mint_rnd :: "string option"
  pe_uuid :: string

definition mint_for ::
    "wire \<Rightarrow> present_env \<Rightarrow> string \<Rightarrow> string \<Rightarrow> room_store \<Rightarrow> (room_error + presentation_outcome) \<times> room_store" where
  "mint_for cr env room label w =
     (case mint_session (w_sha cr) (pe_mint_rnd env) (pe_uuid env) (pe_now env) label (rs_db w) of
        Inl e \<Rightarrow> (Inl (PairingError e), w)
      | Inr (grant, db) \<Rightarrow>
          (Inr (Granted grant),
           w\<lparr>rs_db := db\<lparr>room_presentations :=
               AList.update (room, label) (pd_id (gr_session grant)) (room_presentations db)\<rparr>\<rparr>))"

definition present ::
    "wire \<Rightarrow> present_env \<Rightarrow> string \<Rightarrow> string \<Rightarrow> room_store \<Rightarrow> (room_error + presentation_outcome) \<times> room_store" where
  "present cr env secret raw_label w =
     (let label = trim raw_label
      in if label = [] then (Inl MissingLabel, w)
         else if \<not> validate_label label then (Inl (PairingError BadLabel), w)
         else case (if secret = [] then None
                    else find (\<lambda>r. rm_verifier r = room_verifier cr secret) (room_rows (rs_db w))) of
                None \<Rightarrow>
                  let (allowed, kept) = failures_allowed (pe_instant env) (rs_failures w)
                  in if \<not> allowed then (Inr Throttled, w\<lparr>rs_failures := kept\<rparr>)
                     else (Inr Refused, w\<lparr>rs_failures := record_failure (pe_instant env) kept\<rparr>)
              | Some room \<Rightarrow>
                  (case map_of (room_presentations (rs_db w)) (rm_id room, label) of
                     None \<Rightarrow> mint_for cr env (rm_id room) label w
                   | Some session_id \<Rightarrow>
                       (case reissue_session (w_sha cr) (pe_reissue_rnd env) (pe_now env) session_id (rs_db w) of
                          Inl e \<Rightarrow> (Inl (PairingError e), w)
                        | Inr (Some grant, db) \<Rightarrow> (Inr (Granted grant), w\<lparr>rs_db := db\<rparr>)
                        | Inr (None, db) \<Rightarrow> mint_for cr env (rm_id room) label (w\<lparr>rs_db := db\<rparr>))))"

definition book_verified :: "wire \<Rightarrow> string \<Rightarrow> string \<Rightarrow> room_store \<Rightarrow> room_error + room_member list option" where
  "book_verified cr i secret w =
     (case find (\<lambda>r. rm_id r = i) (room_rows (rs_db w)) of
        None \<Rightarrow> Inr None
      | Some row \<Rightarrow>
          if rm_verifier row \<noteq> room_verifier cr secret then Inr None
          else (case read_book i w of Inl e \<Rightarrow> Inl e | Inr ms \<Rightarrow> Inr (Some ms)))"

text \<open>The recorded Tailcat address and the device's name are inputs.\<close>

definition own_member :: "string option \<Rightarrow> string \<Rightarrow> room_member option" where
  "own_member recorded device_name =
     (case recorded of
        None \<Rightarrow> None
      | Some address \<Rightarrow>
          let kept = concat (filter (\<lambda>c. \<not> is_control c) (chars_of (trim device_name)));
              label = concat (pop_to MAX_LABEL_BYTES (chars_of kept));
              m = \<lparr>mb_label = (if label = [] then ''Engine'' else label), mb_address = address\<rparr>
          in if validate_room_member m = None then Some m else None)"

section \<open>Merging books\<close>

lemma member_key_inj: "inj_on member_key A"
  by (auto simp: inj_on_def member_key_def)

lemma sorted_remdups_adj: "sorted (map f xs) \<Longrightarrow> sorted (map f (remdups_adj xs))"
  by (induction xs rule: remdups_adj.induct) auto

lemma distinct_remdups_adj_sorted:
  "inj_on f (set xs) \<Longrightarrow> sorted (map f xs) \<Longrightarrow> distinct (remdups_adj xs)"
proof (induction xs rule: remdups_adj.induct)
  case (3 x y xs)
  show ?case
  proof (cases "x = y")
    case False
    with "3.prems" have "f x < f y" by (auto simp: inj_on_def order.strict_iff_order)
    then have "x \<notin> set (y # xs)" using "3.prems"(2) by auto
    then show ?thesis using False "3.IH"(2) "3.prems" by (simp add: inj_on_def del: remdups_adj_set) simp
  qed (use 3 in \<open>simp add: inj_on_def\<close>)
qed simp_all

lemma set_merge_members [simp]: "set (merge_members a b) = set a \<union> set b"
  by (simp add: merge_members_def)

lemma merge_members_normal:
  "sorted (map member_key (merge_members a b)) \<and> distinct (merge_members a b)"
  unfolding merge_members_def
  by (intro conjI sorted_remdups_adj distinct_remdups_adj_sorted [of member_key] member_key_inj) simp_all

lemma normal_unique:
  assumes "sorted (map member_key xs)" "distinct xs" "sorted (map member_key ys)" "distinct ys" "set xs = set ys"
  shows "xs = ys"
proof -
  have "map member_key xs = map member_key ys"
    using assms by (intro sorted_distinct_set_unique) (simp_all add: distinct_map member_key_inj)
  then show ?thesis using member_key_inj [of "set xs \<union> set ys"] by (rule map_inj_on)
qed

text \<open>C29: merging books is a union: nothing is ever dropped or repeated, and the book depends only on
  which entries were ever merged, not on the order or the grouping of the merges, so all
  members of a room end with the same book.\<close>

theorem books_converge:
  "set (merge_members a b) = set a \<union> set b \<and> distinct (merge_members a b)
   \<and> merge_members a b = merge_members b a
   \<and> merge_members (merge_members a b) c = merge_members a (merge_members b c)
   \<and> merge_members (merge_members a b) b = merge_members a b"
proof -
  have eq: "merge_members x y = merge_members u v" if "set x \<union> set y = set u \<union> set v" for x y u v
    using merge_members_normal [of x y] merge_members_normal [of u v] that by (intro normal_unique) simp_all
  show ?thesis using merge_members_normal [of a b] by (auto intro!: eq)
qed

text \<open>A book is only written by a merge.\<close>

lemma merge_book_cases:
  assumes "merge_book i ms w = (r, w')"
  shows "rs_db w' = rs_db w \<and> rs_failures w' = rs_failures w \<and> rs_writable w' = rs_writable w"
  using assms by (auto simp: merge_book_def write_book_def Let_def split: if_splits option.splits sum.splits)

section \<open>One fleet\<close>

definition fleet_ok :: "wire \<Rightarrow> rooms_db \<Rightarrow> bool" where
  "fleet_ok cr db \<longleftrightarrow> length (fleet_rooms db) \<le> 1
     \<and> list_all (\<lambda>(r, secret). r = room_id cr secret \<and> list_ex (\<lambda>x. rm_id x = r) (room_rows db)) (fleet_rooms db)"

lemma upsert_ids:
  assumes up: "upsert_room row rows = Inr rows'"
  shows "set (map rm_id rows') = insert (rm_id row) (set (map rm_id rows))"
proof (cases "list_ex (\<lambda>r. rm_id r = rm_id row) rows")
  case True
  let ?f = "\<lambda>r. if rm_id r = rm_id row then r\<lparr>rm_label := rm_label row\<rparr> else r"
  from True have "rm_id row \<in> set (map rm_id rows)" unfolding list_ex_iff set_map by (metis image_eqI)
  moreover have "rows' = map ?f rows" using up True by (simp add: upsert_room_def split: if_splits)
  then have "map rm_id rows' = map rm_id rows" by simp
  ultimately show ?thesis by (simp only: insert_absorb)
next
  case False
  with up have "rows' = rows @ [row]" by (simp add: upsert_room_def split: if_splits)
  then show ?thesis by simp
qed

lemma filter_all_same: "list_all P xs \<Longrightarrow> filter P xs = xs"
  by (induction xs) simp_all

lemma join_tx_fleet_ok:
  assumes "fleet_ok cr db" "join_tx cr now (room_id cr secret) label secret fleet db = Inr db'"
  shows "fleet_ok cr db'"
proof -
  let ?i = "room_id cr secret"
  have known: "list_all (\<lambda>(r, _). list_ex (\<lambda>x. rm_id x = r) (room_rows db)) (fleet_rooms db)"
    using assms(1) by (auto simp: fleet_ok_def list_all_iff)
  then have swept: "(if fleet then filter (\<lambda>(r, _). list_ex (\<lambda>x. rm_id x = r) (room_rows db)) (fleet_rooms db)
      else fleet_rooms db) = fleet_rooms db"
    by (simp add: filter_all_same)
  from assms(2) obtain rows where
    rows: "upsert_room \<lparr>rm_id = ?i, rm_label = label, rm_verifier = room_verifier cr secret, rm_joined_at = now\<rparr>
        (room_rows db) = Inr rows"
    and none: "\<not> (fleet \<and> list_ex (\<lambda>(r, _). r \<noteq> ?i) (fleet_rooms db))"
    and db': "db' = db\<lparr>room_rows := rows, fleet_rooms :=
       (if fleet \<and> \<not> list_ex (\<lambda>(r, _). r = ?i) (fleet_rooms db) then fleet_rooms db @ [(?i, secret)] else fleet_rooms db)\<rparr>"
    unfolding join_tx_def Let_def swept by (auto split: if_splits sum.splits)
  have ids: "list_ex (\<lambda>x. rm_id x = r) rows" if "r = ?i \<or> list_ex (\<lambda>x. rm_id x = r) (room_rows db)" for r
  proof -
    from upsert_ids [OF rows] that have "r \<in> set (map rm_id rows)" by (auto simp: list_ex_iff)
    then show ?thesis by (auto simp: list_ex_iff)
  qed
  have "fleet_rooms db = []" if "fleet" "\<not> list_ex (\<lambda>(r, _). r = ?i) (fleet_rooms db)"
    using none that by (cases "fleet_rooms db") auto
  then show ?thesis
    using assms(1) ids unfolding db' fleet_ok_def by (auto simp: list_all_iff)
qed

lemma leave_fleet_ok:
  "fleet_ok cr (rs_db w) \<Longrightarrow> fleet_ok cr (rs_db (snd (leave i w)))"
  by (fastforce simp: leave_def Let_def fleet_ok_def list_all_iff list_ex_iff intro: order.trans [OF length_filter_le])

lemma mint_rooms:
  assumes "mint_session sha rnd uuid now label (db :: rooms_db) = Inr (g, db')"
  shows "room_rows db' = room_rows db \<and> fleet_rooms db' = fleet_rooms db
    \<and> room_presentations db' = room_presentations db"
  using mint_session_shape [OF assms] by auto

lemma reissue_rooms:
  assumes "reissue_session sha rnd now i (db :: rooms_db) = Inr (g, db')"
  shows "room_rows db' = room_rows db \<and> fleet_rooms db' = fleet_rooms db
    \<and> room_presentations db' = room_presentations db"
  using reissue_session_shape [OF assms] by auto

lemma mint_for_rooms:
  assumes "mint_for cr env room label w = (r, w')"
  shows "room_rows (rs_db w') = room_rows (rs_db w) \<and> fleet_rooms (rs_db w') = fleet_rooms (rs_db w)
    \<and> rs_books w' = rs_books w \<and> rs_failures w' = rs_failures w"
proof (cases "mint_session (w_sha cr) (pe_mint_rnd env) (pe_uuid env) (pe_now env) label (rs_db w)")
  case (Inl e)
  with assms show ?thesis by (auto simp: mint_for_def)
next
  case (Inr gdb)
  obtain g db where "gdb = (g, db)" by (cases gdb)
  with Inr assms mint_rooms [of "w_sha cr" "pe_mint_rnd env" "pe_uuid env" "pe_now env" label "rs_db w" g db]
  show ?thesis by (auto simp: mint_for_def)
qed

lemma present_rooms:
  assumes "present cr env secret label w = (r, w')"
  shows "room_rows (rs_db w') = room_rows (rs_db w) \<and> fleet_rooms (rs_db w') = fleet_rooms (rs_db w)
    \<and> rs_books w' = rs_books w"
  using assms
  by (auto simp: present_def Let_def failures_allowed_def split: if_splits option.splits sum.splits
      dest!: mint_for_rooms reissue_rooms)

lemma merge_book_fleet_ok: "merge_book i ms w = (r, w') \<Longrightarrow> fleet_ok cr (rs_db w') = fleet_ok cr (rs_db w)"
  by (simp add: merge_book_cases)

lemma join_fleet_ok:
  assumes "fleet_ok cr (rs_db w)" "join cr now own iv w = (r, w')"
  shows "fleet_ok cr (rs_db w')"
proof (cases "join_tx cr now (room_id cr (iv_secret iv)) (trim (iv_name iv)) (iv_secret iv) (is_fleet iv) (rs_db w)")
  case (Inl e)
  with assms show ?thesis by (auto simp: join_def Let_def split: if_splits)
next
  case (Inr db)
  then have ok: "fleet_ok cr db" using assms(1) by (rule join_tx_fleet_ok [rotated])
  have self: "fleet_ok cr (rs_db w2)"
    if "introduce_self i own book w1 = (res, w2)" "fleet_ok cr (rs_db w1)" for i book res w1 w2
    using that by (auto simp: introduce_self_def dest: merge_book_fleet_ok split: option.splits if_splits sum.splits prod.splits)
  show ?thesis
    using assms Inr ok
    by (auto simp: join_def Let_def split: if_splits sum.splits option.splits prod.splits
        dest!: merge_book_fleet_ok [of _ _ "w\<lparr>rs_db := db\<rparr>", where cr = cr] intro: self)
qed

datatype room_op =
    JoinOp int "room_member option" room_invite
  | CreateOp int "string option" "room_member option" string "room_member list"
  | LeaveOp string
  | PresentOp present_env string string
  | MergeOp string "room_member list"

fun room_step :: "wire \<Rightarrow> room_store \<Rightarrow> room_op \<Rightarrow> room_store" where
  "room_step cr w (JoinOp now own iv) = snd (join cr now own iv w)"
| "room_step cr w (CreateOp now minted own name members) = snd (create_fleet cr now minted own name members w)"
| "room_step cr w (LeaveOp i) = snd (leave i w)"
| "room_step cr w (PresentOp env secret label) = snd (present cr env secret label w)"
| "room_step cr w (MergeOp i members) = snd (merge_book i members w)"

lemma create_fleet_ok:
  "fleet_ok cr (rs_db w) \<Longrightarrow> fleet_ok cr (rs_db (snd (create_fleet cr now minted own name members w)))"
  by (auto simp: create_fleet_def split: sum.splits option.splits)
    (metis join_fleet_ok prod.collapse)

lemma present_fleet_ok: "fleet_ok cr (rs_db w) \<Longrightarrow> fleet_ok cr (rs_db (snd (present cr' env secret label w)))"
  using present_rooms [of cr' env secret label w] by (cases "present cr' env secret label w") (auto simp: fleet_ok_def)

lemma room_step_fleet_ok: "fleet_ok cr (rs_db w) \<Longrightarrow> fleet_ok cr (rs_db (room_step cr w op))"
  by (cases op)
    (auto intro: create_fleet_ok leave_fleet_ok present_fleet_ok elim: join_fleet_ok [OF _ surjective_pairing]
      dest: merge_book_fleet_ok [OF surjective_pairing, THEN iffD2])

interpretation fleets: invariant_machine "room_step cr" "\<lambda>w. fleet_ok cr (rs_db w)" for cr
  by unfold_locales (rule room_step_fleet_ok)

definition empty_store :: room_store where
  "empty_store = \<lparr>rs_db = \<lparr>pair_codes = [], paired_sessions = [], room_rows = [], room_presentations = [],
     fleet_rooms = []\<rparr>, rs_books = (\<lambda>_. NoBook), rs_writable = True, rs_failures = []\<rparr>"

lemma invite_fleet_Inr:
  "invite_fleet name secret ms = Inr iv \<Longrightarrow> iv_secret iv = secret \<and> iv_name iv = name \<and> iv_members iv = ms \<and> is_fleet iv"
  by (auto simp: invite_fleet_def invite_new_def is_fleet_def split: if_splits option.splits sum.splits)

text \<open>C28: an engine holds at most one fleet, whatever joins, leaves and presentations it has seen, and the
  invite it hands out for a room is a fleet invite whose secret is that very room's.\<close>

theorem one_fleet_per_engine:
  assumes "w = foldl (room_step cr) empty_store ops"
  shows "length (fleet_rooms (rs_db w)) \<le> 1 \<and> length (joined_fleets w) \<le> 1
    \<and> (case fleet_invite i w of Inr (Some iv) \<Rightarrow> is_fleet iv \<and> room_id cr (iv_secret iv) = i | _ \<Rightarrow> True)"
proof -
  have "fleet_ok cr (rs_db empty_store)" by (simp add: empty_store_def fleet_ok_def)
  from fleets.run_inv [OF this] have ok: "fleet_ok cr (rs_db w)" by (simp add: assms)
  then have "length (fleet_rooms (rs_db w)) \<le> 1" by (simp add: fleet_ok_def)
  moreover have "length (joined_fleets w) \<le> length (fleet_rooms (rs_db w))"
    by (simp add: joined_fleets_def)
  moreover have "is_fleet iv \<and> room_id cr (iv_secret iv) = i" if "fleet_invite i w = Inr (Some iv)" for iv
    using that ok
    by (auto simp: fleet_invite_def fleet_ok_def list_all_iff dest!: invite_fleet_Inr map_of_SomeD
        split: option.splits sum.splits)
  ultimately show ?thesis by (auto split: sum.splits option.splits)
qed

definition fleet_founder :: room_op where
  "fleet_founder = CreateOp 5 (Some ''s'') None ''home'' []"

theorem one_fleet_per_engine_witness:
  "length (joined_fleets (foldl (room_step sample_wire) empty_store [fleet_founder, fleet_founder, LeaveOp ''x''])) \<le> 1"
  using one_fleet_per_engine [OF refl] by blast

section \<open>Leaving\<close>

definition rooms_unique :: "rooms_db \<Rightarrow> bool" where
  "rooms_unique db \<longleftrightarrow> distinct (map rm_id (room_rows db)) \<and> distinct (map rm_verifier (room_rows db))"

lemma present_unknown:
  assumes "find (\<lambda>r. rm_verifier r = room_verifier cr secret) (room_rows (rs_db w)) = None"
  shows "fst (present cr env secret label w) \<noteq> Inr (Granted g)"
  using assms by (simp add: present_def Let_def failures_allowed_def)

text \<open>A room left is forgotten: no record, no invite and no retained secret of it remain, its book
  is removed, and whoever presents its secret is not admitted.\<close>

theorem left_room_is_forgotten:
  assumes "rooms_unique (rs_db w)" "row \<in> set (room_rows (rs_db w))"
    and "rm_verifier row = room_verifier cr secret" "leave (rm_id row) w = (deleted, w1)"
  shows "deleted \<and> record_room (rm_id row) w1 = Inr None \<and> fleet_invite (rm_id row) w1 = Inr None
    \<and> \<not> has_fleet (rm_id row) w1 \<and> fst (present cr env secret label w1) \<noteq> Inr (Granted g)
    \<and> read_book (rm_id row) w1 \<in> {Inr [], Inl BadRoomId}"
proof -
  let ?i = "rm_id row"
  from assms(4) have w1: "room_rows (rs_db w1) = filter (\<lambda>r. rm_id r \<noteq> ?i) (room_rows (rs_db w))"
    "fleet_rooms (rs_db w1) = filter (\<lambda>(r, _). r \<noteq> ?i) (fleet_rooms (rs_db w))"
    and deleted: "deleted = list_ex (\<lambda>r. rm_id r = ?i) (room_rows (rs_db w))"
    and books: "rs_books w1 = (if deleted \<and> valid_room_id ?i then (rs_books w)(?i := NoBook) else rs_books w)"
    by (auto simp: leave_def Let_def)
  have yes: "deleted" using assms(2) by (auto simp: deleted list_ex_iff)
  have gone: "find (\<lambda>r. rm_id r = ?i) (room_rows (rs_db w1)) = None"
    by (auto simp: w1 find_None_iff)
  have "r = row" if "r \<in> set (room_rows (rs_db w))" "rm_verifier r = rm_verifier row" for r
    using assms(1,2) that by (intro distinct_map_same [of rm_verifier "room_rows (rs_db w)"]) (simp_all add: rooms_unique_def)
  then have "find (\<lambda>r. rm_verifier r = room_verifier cr secret) (room_rows (rs_db w1)) = None"
    using assms(3) by (fastforce simp: w1 find_None_iff)
  then show ?thesis
    using yes gone books present_unknown
    by (auto simp: record_room_def fleet_invite_def has_fleet_def w1 list_ex_iff read_book_def)
qed

section \<open>Presenting\<close>

text \<open>Whoever holds a joined room's secret is never refused and never throttled, however many guesses
  failed before, and its presentation does not count as a failure.\<close>

theorem holder_is_never_locked_out:
  assumes "row \<in> set (room_rows (rs_db w))" "rm_verifier row = room_verifier cr secret" "secret \<noteq> []"
    and "present cr env secret label w = (r, w')"
  shows "r \<noteq> Inr Refused \<and> r \<noteq> Inr Throttled \<and> rs_failures w' = rs_failures w"
proof -
  obtain room where room: "find (\<lambda>r. rm_verifier r = room_verifier cr secret) (room_rows (rs_db w)) = Some room"
    using assms(1,2) by (cases "find (\<lambda>r. rm_verifier r = room_verifier cr secret) (room_rows (rs_db w))")
      (auto simp: find_None_iff)
  have mint: "r' \<noteq> Inr Refused \<and> r' \<noteq> Inr Throttled \<and> rs_failures w2 = rs_failures w1"
    if "mint_for cr env i l w1 = (r', w2)" for i l w1 w2 r'
    using that by (auto simp: mint_for_def split: sum.splits)
  show ?thesis
    using assms(3,4) room mint
    by (fastforce simp: present_def Let_def split: if_splits option.splits sum.splits)
qed

definition sample_room :: room_row where
  "sample_room = \<lparr>rm_id = ''r1'', rm_label = ''m1'', rm_verifier = room_verifier sample_wire ''a'', rm_joined_at = 1\<rparr>"

definition sample_store :: room_store where
  "sample_store = empty_store\<lparr>rs_db := (rs_db empty_store)\<lparr>room_rows := [sample_room]\<rparr>,
     rs_failures := [9, 9, 9, 9, 9]\<rparr>"

definition sample_present :: present_env where
  "sample_present = \<lparr>pe_instant = 9, pe_now = 9, pe_reissue_rnd = Some sample_code, pe_mint_rnd = Some other_code,
     pe_uuid = ''s1''\<rparr>"

theorem left_room_is_forgotten_witness:
  "\<forall>g. fst (present sample_wire sample_present ''a'' ''m1'' (snd (leave ''r1'' sample_store))) \<noteq> Inr (Granted g)"
proof -
  have "leave (rm_id sample_room) sample_store = (True, snd (leave ''r1'' sample_store))"
    by (simp add: leave_def Let_def sample_store_def sample_room_def)
  from left_room_is_forgotten [OF _ _ _ this, of sample_wire "''a''" sample_present "''m1''"] show ?thesis
    by (simp add: rooms_unique_def sample_store_def sample_room_def)
qed

theorem holder_is_never_locked_out_witness:
  "fst (present sample_wire sample_present ''a'' ''m1'' sample_store) \<noteq> Inr Throttled
   \<and> rs_failures (snd (present sample_wire sample_present ''a'' ''m1'' sample_store)) = [9, 9, 9, 9, 9]"
  using holder_is_never_locked_out [of sample_room sample_store sample_wire "''a''" sample_present "''m1''"
      "fst (present sample_wire sample_present ''a'' ''m1'' sample_store)"
      "snd (present sample_wire sample_present ''a'' ''m1'' sample_store)"]
  by (simp add: sample_store_def sample_room_def)

text \<open>The instants at which presentations were refused, in order.\<close>

fun refusals :: "wire \<Rightarrow> room_store \<Rightarrow> (present_env \<times> string \<times> string) list \<Rightarrow> int list" where
  "refusals cr w [] = []"
| "refusals cr w ((env, secret, label) # ps) =
     (case present cr env secret label w of
        (r, w1) \<Rightarrow> (if r = Inr Refused then [pe_instant env] else []) @ refusals cr w1 ps)"

lemma prune_prune:
  "now \<le> now' \<Longrightarrow> prune_failures now' (prune_failures now fs) = prune_failures now' fs"
  unfolding prune_failures_def filter_filter by (rule filter_cong) auto

lemma prune_append: "prune_failures now (as @ bs) = prune_failures now as @ prune_failures now bs"
  by (simp add: prune_failures_def)

lemma present_failures:
  assumes "present cr env secret label w = (r, w')"
  shows "(r \<noteq> Inr Refused \<and> (rs_failures w' = rs_failures w \<or> rs_failures w' = prune_failures (pe_instant env) (rs_failures w)))
    \<or> (r = Inr Refused \<and> length (prune_failures (pe_instant env) (rs_failures w)) < MAX_PRESENTATION_FAILURES
        \<and> rs_failures w' = prune_failures (pe_instant env) (rs_failures w) @ [pe_instant env])"
proof (cases "find (\<lambda>r. rm_verifier r = room_verifier cr secret) (room_rows (rs_db w)) = None \<or> secret = []")
  case True
  then have miss: "(if secret = [] then None
      else find (\<lambda>r. rm_verifier r = room_verifier cr secret) (room_rows (rs_db w))) = None" by auto
  show ?thesis
    using assms unfolding present_def Let_def miss
    by (auto simp: failures_allowed_def record_failure_def prune_prune Let_def split: if_splits)
next
  case False
  then obtain row where "row \<in> set (room_rows (rs_db w))" "rm_verifier row = room_verifier cr secret"
    by (auto simp: find_None_iff)
  from holder_is_never_locked_out [OF this _ assms] False show ?thesis by auto
qed

text \<open>What the store remembers agrees with the refusals that happened, as far as any later prune can see.\<close>

definition remembers :: "int \<Rightarrow> int list \<Rightarrow> int list \<Rightarrow> bool" where
  "remembers now past fs \<longleftrightarrow> (\<forall>t. now \<le> t \<longrightarrow> prune_failures t fs = prune_failures t past)"

lemma refusals_window:
  assumes "remembers t0 past (rs_failures w)" "\<forall>x \<in> set past. x \<le> t0" "list_all (\<lambda>(env, _). t0 \<le> pe_instant env) ps"
    and "sorted (map (\<lambda>(env, _). pe_instant env) ps)"
    and "\<forall>a. length (filter (\<lambda>x. a \<le> x \<and> x < a + PRESENTATION_FAILURE_WINDOW) past) \<le> MAX_PRESENTATION_FAILURES"
  shows "length (filter (\<lambda>x. a \<le> x \<and> x < a + PRESENTATION_FAILURE_WINDOW) (past @ refusals cr w ps))
    \<le> MAX_PRESENTATION_FAILURES"
  using assms
proof (induction ps arbitrary: t0 past w)
  case (Cons p ps)
  obtain env secret label where p: "p = (env, secret, label)" by (cases p) auto
  let ?t = "pe_instant env" and ?in = "\<lambda>b x. b \<le> x \<and> x < b + PRESENTATION_FAILURE_WINDOW"
  obtain r w' where step: "present cr env secret label w = (r, w')" by fastforce
  have later: "list_all (\<lambda>(env, _). ?t \<le> pe_instant env) ps" "sorted (map (\<lambda>(env, _). pe_instant env) ps)"
    using Cons.prems(4) p by (auto simp: list_all_iff)
  have t0: "t0 \<le> ?t" using Cons.prems(3) p by simp
  have mem: "prune_failures t (rs_failures w) = prune_failures t past" if "?t \<le> t" for t
    using Cons.prems(1) t0 that by (simp add: remembers_def)
  show ?case
  proof (cases "r = Inr Refused")
    case False
    with present_failures [OF step] mem have "remembers ?t past (rs_failures w')"
      by (auto simp: remembers_def prune_prune)
    moreover have "\<forall>x \<in> set past. x \<le> ?t" using Cons.prems(2) t0 by auto
    ultimately show ?thesis using Cons.IH [of ?t past w'] later Cons.prems(5) False p step by simp
  next
    case True
    with present_failures [OF step] have few: "length (prune_failures ?t past) < MAX_PRESENTATION_FAILURES"
      and fs: "rs_failures w' = prune_failures ?t past @ [?t]"
      using mem by auto
    have "remembers ?t (past @ [?t]) (rs_failures w')"
      by (simp add: remembers_def fs prune_append prune_prune)
    moreover have "\<forall>x \<in> set (past @ [?t]). x \<le> ?t" using Cons.prems(2) t0 by auto
    moreover have "length (filter (?in b) (past @ [?t])) \<le> MAX_PRESENTATION_FAILURES" for b
    proof (cases "?in b ?t")
      case True
      have "filter (?in b) past = filter (?in b) (prune_failures ?t past)"
        unfolding prune_failures_def filter_filter
        using True Cons.prems(2) t0 by (intro filter_cong) (auto simp: max_def PRESENTATION_FAILURE_WINDOW_def)
      then have "length (filter (?in b) past) \<le> length (prune_failures ?t past)" by simp
      with few True show ?thesis by simp
    qed (use Cons.prems(5) in auto)
    ultimately show ?thesis using Cons.IH [of ?t "past @ [?t]" w'] later True p step by simp
  qed
qed simp

text \<open>Guesses are rate limited: however presentations are interleaved, no more than five are answered
  \<open>Refused\<close> within any sixty seconds; the others learn only that they are throttled.\<close>

theorem guesses_are_throttled:
  assumes "rs_failures w = []" "sorted (map (\<lambda>(env, _). pe_instant env) ps)"
  shows "length (filter (\<lambda>x. a \<le> x \<and> x < a + PRESENTATION_FAILURE_WINDOW) (refusals cr w ps)) \<le> MAX_PRESENTATION_FAILURES"
proof (cases ps)
  case (Cons p qs)
  then have "list_all (\<lambda>(env, _). pe_instant (fst p) \<le> pe_instant env) ps"
    using assms(2) by (cases p) (auto simp: list_all_iff)
  with refusals_window [of "pe_instant (fst p)" "[]" w ps a cr] assms show ?thesis by (simp add: remembers_def)
qed simp

theorem guesses_are_throttled_witness:
  "length (filter (\<lambda>x. 9 \<le> x \<and> x < 9 + PRESENTATION_FAILURE_WINDOW)
     (refusals sample_wire empty_store [(sample_present, ''x'', ''m1''), (sample_present, ''y'', ''m1'')])) \<le> MAX_PRESENTATION_FAILURES"
  by (rule guesses_are_throttled) (simp_all add: empty_store_def)

lemma mint_for_granted:
  assumes "mint_for cr env room label w = (Inr (Granted g), w')"
  shows "room_rows (rs_db w') = room_rows (rs_db w)
    \<and> map_of (room_presentations (rs_db w')) (room, label) = Some (pd_id (gr_session g))
    \<and> list_ex (live_session (pd_id (gr_session g))) (paired_sessions (rs_db w'))"
proof (cases "mint_session (w_sha cr) (pe_mint_rnd env) (pe_uuid env) (pe_now env) label (rs_db w)")
  case (Inl e)
  with assms show ?thesis by (simp add: mint_for_def)
next
  case (Inr gdb)
  obtain db where db: "gdb = (g, db)"
    and w': "w' = w\<lparr>rs_db := db\<lparr>room_presentations :=
      AList.update (room, label) (pd_id (gr_session g)) (room_presentations db)\<rparr>\<rparr>"
    using assms Inr by (cases gdb) (auto simp: mint_for_def)
  from mint_session_shape [OF Inr [unfolded db]] mint_rooms [OF Inr [unfolded db]] show ?thesis
    by (auto simp: w' update_conv' live_session_def)
qed

lemma reissue_granted:
  assumes "reissue_session sha rnd now sid (db :: rooms_db) = Inr (Some g, db')"
  shows "pd_id (gr_session g) = sid \<and> list_ex (live_session sid) (paired_sessions db')
    \<and> length (paired_sessions db') = length (paired_sessions db)"
proof -
  have "find (live_session sid) (paired_sessions db) \<noteq> None"
  proof
    assume "find (live_session sid) (paired_sessions db) = None"
    with assms show False by (cases rnd) (simp_all add: reissue_session_def Let_def)
  qed
  then obtain r where r: "find (live_session sid) (paired_sessions db) = Some r" by auto
  then have "r \<in> set (paired_sessions db)" "live_session sid r" by (auto dest: find_SomeD)
  moreover from this have "live_session sid (rekeyed sha (gr_credential g) now r)"
    by (simp add: live_session_def rekeyed_def)
  ultimately have "list_ex (live_session sid)
      (map (\<lambda>x. if live_session sid x then rekeyed sha (gr_credential g) now x else x) (paired_sessions db))"
    unfolding list_ex_iff set_map by force
  with reissue_row [OF assms r] \<open>live_session sid r\<close> show ?thesis
    by (simp add: live_session_def rekeyed_def)
qed

lemma present_granted:
  assumes "present cr env secret label w = (Inr (Granted g), w')"
  obtains room where "find (\<lambda>r. rm_verifier r = room_verifier cr secret) (room_rows (rs_db w)) = Some room"
    "map_of (room_presentations (rs_db w')) (rm_id room, trim label) = Some (pd_id (gr_session g))"
    "list_ex (live_session (pd_id (gr_session g))) (paired_sessions (rs_db w'))"
    "room_rows (rs_db w') = room_rows (rs_db w)"
proof -
  from assms obtain room where room: "secret \<noteq> []" "trim label \<noteq> []" "validate_label (trim label)"
    "find (\<lambda>r. rm_verifier r = room_verifier cr secret) (room_rows (rs_db w)) = Some room"
    by (auto simp: present_def Let_def failures_allowed_def split: if_splits option.splits)
  show ?thesis
  proof (cases "map_of (room_presentations (rs_db w)) (rm_id room, trim label)")
    case None
    with assms room have "mint_for cr env (rm_id room) (trim label) w = (Inr (Granted g), w')"
      by (simp add: present_def Let_def)
    from mint_for_granted [OF this] that [OF room(4)] show ?thesis by blast
  next
    case (Some sid)
    show ?thesis
    proof (cases "reissue_session (w_sha cr) (pe_reissue_rnd env) (pe_now env) sid (rs_db w)")
      case (Inl e)
      with assms room Some show ?thesis by (simp add: present_def Let_def)
    next
      case (Inr gdb)
      obtain o' db where gdb: "gdb = (o', db)" by (cases gdb)
      note rooms = reissue_rooms [OF Inr [unfolded gdb]]
      show ?thesis
      proof (cases o')
        case None
        with assms room Some Inr gdb
        have "mint_for cr env (rm_id room) (trim label) (w\<lparr>rs_db := db\<rparr>) = (Inr (Granted g), w')"
          by (simp add: present_def Let_def)
        from mint_for_granted [OF this] that [OF room(4)] rooms show ?thesis by simp
      next
        case (Some g')
        with assms room \<open>map_of _ _ = Some sid\<close> Inr gdb have "g' = g" "w' = w\<lparr>rs_db := db\<rparr>"
          by (auto simp: present_def Let_def)
        with reissue_granted [of "w_sha cr" "pe_reissue_rnd env" "pe_now env" sid "rs_db w" g db] Inr gdb Some
          that [OF room(4)] rooms \<open>map_of _ _ = Some sid\<close> show ?thesis by simp
      qed
    qed
  qed
qed

text \<open>A member that presents again under the same label keeps its session: the credential is new, the
  session row is the same and no row is added.\<close>

theorem repeated_presentation_keeps_session:
  assumes "present cr env secret label w = (Inr (Granted g), w1)"
    and "present cr env' secret label w1 = (Inr (Granted g'), w2)"
  shows "pd_id (gr_session g') = pd_id (gr_session g)
    \<and> length (paired_sessions (rs_db w2)) = length (paired_sessions (rs_db w1))"
proof -
  let ?sid = "pd_id (gr_session g)"
  from assms(1) obtain room where room: "find (\<lambda>r. rm_verifier r = room_verifier cr secret) (room_rows (rs_db w1)) = Some room"
    "map_of (room_presentations (rs_db w1)) (rm_id room, trim label) = Some ?sid"
    and live: "list_ex (live_session ?sid) (paired_sessions (rs_db w1))"
    by (rule present_granted) simp
  from live have found: "find (live_session ?sid) (paired_sessions (rs_db w1)) \<noteq> None"
    by (auto simp: find_None_iff list_ex_iff)
  have ok: "secret \<noteq> []" "trim label \<noteq> []" "validate_label (trim label)"
    using assms(1) by (auto simp: present_def Let_def failures_allowed_def split: if_splits)
  show ?thesis
  proof (cases "reissue_session (w_sha cr) (pe_reissue_rnd env') (pe_now env') ?sid (rs_db w1)")
    case (Inl e)
    with assms(2) ok room show ?thesis by (simp add: present_def Let_def)
  next
    case (Inr gdb)
    obtain o' db where gdb: "gdb = (o', db)" by (cases gdb)
    have "o' \<noteq> None"
    proof
      assume "o' = None"
      with Inr found gdb show False
        by (cases "pe_reissue_rnd env'"; cases "find (live_session ?sid) (paired_sessions (rs_db w1))")
          (simp_all add: reissue_session_def Let_def split: if_splits)
    qed
    then obtain h where h: "o' = Some h" by auto
    with assms(2) ok room Inr gdb have "h = g'" "w2 = w1\<lparr>rs_db := db\<rparr>"
      by (auto simp: present_def Let_def)
    with reissue_granted [OF Inr [unfolded gdb h]] show ?thesis by simp
  qed
qed

definition first_session :: paired_session where
  "first_session = new_session ''s1'' ''m1'' 9"

definition presented_store :: "string \<Rightarrow> room_store" where
  "presented_store credential = sample_store\<lparr>rs_db := (rs_db sample_store)
     \<lparr>paired_sessions := [\<lparr>sn_verifier = pairing_verifier (w_sha sample_wire) ''session'' credential,
        sn_session = first_session\<rparr>], room_presentations := [((''r1'', ''m1''), ''s1'')]\<rparr>\<rparr>"

lemma sample_first_presentation:
  "present sample_wire sample_present ''a'' ''m1'' sample_store
   = (Inr (Granted \<lparr>gr_session = first_session, gr_credential = other_code\<rparr>), presented_store other_code)"
  by (simp add: present_def Let_def trim_eval validate_label_def sample_store_def sample_room_def empty_store_def
      mint_for_def mint_session_def sample_present_def insert_session_def first_session_def presented_store_def
      new_session_def)

lemma sample_second_presentation:
  "present sample_wire sample_present ''a'' ''m1'' (presented_store other_code)
   = (Inr (Granted \<lparr>gr_session = first_session, gr_credential = sample_code\<rparr>), presented_store sample_code)"
  by (simp add: present_def Let_def trim_eval validate_label_def sample_store_def sample_room_def empty_store_def
      reissue_session_def sample_present_def first_session_def presented_store_def new_session_def live_session_def)

theorem repeated_presentation_keeps_session_witness:
  "length (paired_sessions (rs_db (presented_store sample_code)))
   = length (paired_sessions (rs_db (presented_store other_code)))"
  using repeated_presentation_keeps_session [OF sample_first_presentation sample_second_presentation] by blast

section \<open>Secrets at rest\<close>

text \<open>What a plain join leaves behind depends on the secret only through the room's id and its
  verifier: two secrets with the same digests leave the same database, books and result, so no
  usable secret of a plain room is at rest.\<close>

theorem plain_join_keeps_only_digests:
  assumes "iv_kind iv = PlainRoom" "room_id cr (iv_secret iv) = room_id cr s"
    and "room_verifier cr (iv_secret iv) = room_verifier cr s"
  shows "join cr now own (iv\<lparr>iv_secret := s\<rparr>) w = join cr now own iv w"
proof -
  have plain: "is_fleet iv = False" "is_fleet (iv\<lparr>iv_secret := s\<rparr>) = False"
    using assms(1) by (simp_all add: is_fleet_def)
  have sel: "iv_secret (iv\<lparr>iv_secret := s\<rparr>) = s" "iv_name (iv\<lparr>iv_secret := s\<rparr>) = iv_name iv"
    "iv_members (iv\<lparr>iv_secret := s\<rparr>) = iv_members iv" by simp_all
  have tx: "join_tx cr now i label (iv_secret iv) False db = join_tx cr now i label s False db" for i label db
    unfolding join_tx_def Let_def assms(3) by simp
  show ?thesis
    unfolding join_def Let_def plain sel assms(2) tx by (rule refl)
qed

theorem plain_join_keeps_only_digests_witness:
  "join (sample_wire\<lparr>w_sha := \<lambda>_. ''d''\<rparr>) 5 None ((sample_invite\<lparr>iv_kind := PlainRoom\<rparr>)\<lparr>iv_secret := ''zz''\<rparr>) empty_store
   = join (sample_wire\<lparr>w_sha := \<lambda>_. ''d''\<rparr>) 5 None (sample_invite\<lparr>iv_kind := PlainRoom\<rparr>) empty_store"
  by (rule plain_join_keeps_only_digests)
    (simp_all add: room_id_def room_id_bytes_def tagged_digest_def room_verifier_def)

section \<open>A book outgrows its invite\<close>

lemma chars_of_replicate: "chars_of (replicate n CHR ''a'') = replicate n ''a''"
proof (induction n)
  case (Suc n)
  have "takeWhile cont_byte (replicate n CHR ''a'') = []" "dropWhile cont_byte (replicate n CHR ''a'') = replicate n CHR ''a''"
    by (cases n; simp add: cont_byte_def)+
  with Suc show ?case by simp
qed simp

definition nth_member :: "nat \<Rightarrow> room_member" where
  "nth_member n = \<lparr>mb_label = ''a'', mb_address = replicate (Suc n) CHR ''a''\<rparr>"

lemma nth_member_valid: "n < 4096 \<Longrightarrow> validate_room_member (nth_member n) = None"
  by (simp add: validate_room_member_def nth_member_def valid_room_label_def valid_member_address_def MAX_LABEL_BYTES_def
      MAX_MEMBER_ADDRESS_BYTES_def has_control_def has_white_def chars_of_replicate list_ex_iff is_control_def
      white_chars_def del: replicate_Suc)

lemma nth_member_inj: "inj nth_member"
  by (auto simp: inj_def nth_member_def)

lemma length_merge_members: "length (merge_members a b) = card (set a \<union> set b)"
  using merge_members_normal [of a b] distinct_card [of "merge_members a b"] by simp

definition full_store :: room_store where
  "full_store = \<lparr>rs_db = \<lparr>pair_codes = [], paired_sessions = [], room_rows =
       [\<lparr>rm_id = sample_code, rm_label = ''a'', rm_verifier = ''v'', rm_joined_at = 1\<rparr>],
     room_presentations = [], fleet_rooms = [(sample_code, ''a'')]\<rparr>,
     rs_books = (\<lambda>_. BookFile (merge_members [] (map nth_member [0..<512]))), rs_writable = True, rs_failures = []\<rparr>"

text \<open>A book only grows, an invite carries at most 512 members: when the 513th member joins a fleet's
  book the merge succeeds, and from then on the fleet can hand out no invite.\<close>

theorem book_outgrows_invite:
  "(case merge_book sample_code [nth_member 512] full_store of
      (r, w) \<Rightarrow> r \<noteq> Inr None \<and> (\<exists>book. r = Inr (Some book)) \<and> fleet_invite sample_code w = Inl (InviteError TooManyMembers))
   \<and> (\<exists>iv. fleet_invite sample_code full_store = Inr (Some iv))"
proof -
  let ?old = "merge_members [] (map nth_member [0..<512])"
  let ?new = "merge_members ?old [nth_member 512]"
  have id: "valid_room_id sample_code" using sample_codes(1) by (simp add: valid_room_id_def valid_pair_secret_def)
  have "set [] \<union> set (map nth_member [0..<512]) = nth_member ` {0..<512}" by auto
  then have old: "length ?old = 512"
    using card_image [OF inj_on_subset [OF nth_member_inj], of "{0..<512}"] by (simp add: length_merge_members)
  have "set ?old \<union> set [nth_member 512] = nth_member ` insert 512 {0..<512}" by auto
  also have "insert 512 {0..<512} = {0..<513 :: nat}" by auto
  finally have "set ?old \<union> set [nth_member 512] = nth_member ` {0..<513}" .
  then have new: "length ?new = 513"
    using card_image [OF inj_on_subset [OF nth_member_inj], of "{0..<513}"] by (simp add: length_merge_members)
  have "merge_book sample_code [nth_member 512] full_store
    = (Inr (Some ?new), full_store\<lparr>rs_books := (rs_books full_store)(sample_code := BookFile ?new)\<rparr>)"
    using id by (simp add: merge_book_def full_store_def nth_member_valid room_known_def read_book_def write_book_def
        MAX_MEMBERS_def Let_def)
  moreover have label: "valid_room_label ''a''" "valid_room_secret ''a''"
    by (simp_all add: valid_room_label_def valid_room_secret_def MAX_LABEL_BYTES_def MAX_SECRET_BYTES_def)
  have "validate_members ?old = None"
    unfolding validate_members_None list_all_iff by (auto intro: nth_member_valid)
  then have "\<exists>iv. fleet_invite sample_code full_store = Inr (Some iv)"
    using id label old by (simp add: fleet_invite_def full_store_def read_book_def invite_fleet_def invite_new_def MAX_MEMBERS_def)
  ultimately show ?thesis
    using id label new
    by (simp add: fleet_invite_def full_store_def read_book_def invite_fleet_def invite_new_def MAX_MEMBERS_def)
qed

end
