(* ===== verification/Run_Journal.thy ===== *)
theory Run_Journal
  imports Text_Chars "HOL-Library.Char_ord" "HOL-Library.List_Lexorder" "HOL-Library.Product_Lexorder" "HOL-Library.AList"
begin

text \<open>
  \<open>crates/engine/src/run_journal.rs\<close>: the append-only event journal of every chat, its tail
  reader and the marker files beside it. A file is its bytes; the directory maps file stems to
  them. The journal never looks inside an event, so the event type is a parameter \<open>'e\<close>, and
  so are the JSON writer and parser of a journal line (\<open>line_codec\<close>). How many bytes of a
  write reach the file is an input.
\<close>

section \<open>The lines of a file\<close>

abbreviation NL :: char where "NL \<equiv> CHR 0x0A"

text \<open>The pieces between line feeds; the last one is empty when the file ends with a line feed.\<close>

fun pieces :: "string \<Rightarrow> string list" where
  "pieces [] = [[]]"
| "pieces (c # cs) = (if c = NL then [] # pieces cs else (c # hd (pieces cs)) # tl (pieces cs))"

lemma pieces_nonempty [simp]: "pieces s \<noteq> []"
  by (cases s) auto

lemma pieces_append_line: "pieces (a @ NL # b) = pieces a @ pieces b"
  by (induction a) (auto simp: hd_append)

lemma pieces_single: "NL \<notin> set l \<Longrightarrow> pieces l = [l]"
  by (induction l) auto

lemma pieces_no_newline: "l \<in> set (pieces s) \<Longrightarrow> NL \<notin> set l"
proof (induction s arbitrary: l)
  case (Cons c s)
  obtain h t where "pieces s = h # t" using pieces_nonempty [of s] by (cases "pieces s") auto
  with Cons show ?case by (auto split: if_splits)
qed simp

text \<open>\<open>BufRead::lines\<close> gives the same pieces, without an empty last one and without carriage returns.\<close>

lemma lines_from_pieces:
  "NL \<notin> set cur \<Longrightarrow>
    lines_from cur s = map strip_cr (butlast (pieces (cur @ s)))
      @ (if last (pieces (cur @ s)) = [] then [] else [last (pieces (cur @ s))])"
proof (induction cur s rule: lines_from.induct)
  case (1 cur)
  then show ?case by (simp add: pieces_single)
next
  case (2 cur c cs)
  show ?case
  proof (cases "c = NL")
    case True
    then show ?thesis
      using 2 pieces_append_line [of cur cs] by (simp add: pieces_single butlast_append)
  next
    case False
    then show ?thesis using 2 by simp
  qed
qed

lemma text_lines_pieces:
  "text_lines s = map strip_cr (butlast (pieces s)) @ (if last (pieces s) = [] then [] else [last (pieces s)])"
  unfolding text_lines_def using lines_from_pieces [of "[]" s] by simp

section \<open>Journal lines\<close>

datatype journal_error = JournalIo

record 'e line_codec =
  lc_encode :: "nat \<times> 'e \<Rightarrow> string"
  lc_decode :: "string \<Rightarrow> (nat \<times> 'e) option"

definition parse_line :: "('e, 'm) line_codec_scheme \<Rightarrow> string \<Rightarrow> (nat \<times> 'e) option" where
  "parse_line cd line = (if blank line then None else lc_decode cd line)"

text \<open>A line that is not UTF-8 ends the read with an error.\<close>

fun collect_lines :: "('e, 'm) line_codec_scheme \<Rightarrow> string list \<Rightarrow> journal_error + (nat \<times> 'e) list" where
  "collect_lines cd [] = Inr []"
| "collect_lines cd (line # rest) =
     (if \<not> valid_utf8 line then Inl JournalIo
      else case collect_lines cd rest of
             Inl e \<Rightarrow> Inl e
           | Inr events \<Rightarrow> Inr (case parse_line cd line of None \<Rightarrow> events | Some ev \<Rightarrow> ev # events))"

definition read_lines :: "('e, 'm) line_codec_scheme \<Rightarrow> string option \<Rightarrow> journal_error + (nat \<times> 'e) list" where
  "read_lines cd file = (case file of None \<Rightarrow> Inr [] | Some f \<Rightarrow> collect_lines cd (text_lines f))"

section \<open>Reading backwards\<close>

definition TAIL_CHUNK :: nat where "TAIL_CHUNK = 64 * 1024"

record rev_lines =
  rl_file :: string
  rl_pos :: nat
  rl_buf :: string
  rl_finished :: bool

definition rev_open :: "string option \<Rightarrow> rev_lines option" where
  "rev_open file = map_option (\<lambda>f. \<lparr>rl_file = f, rl_pos = length f, rl_buf = [], rl_finished = False\<rparr>) file"

definition fill :: "rev_lines \<Rightarrow> rev_lines" where
  "fill r =
     (let want = max TAIL_CHUNK (length (rl_buf r)); n = min want (rl_pos r); p = rl_pos r - n
      in r\<lparr>rl_pos := p, rl_buf := take n (drop p (rl_file r)) @ rl_buf r\<rparr>)"

definition ends_mid_line :: "rev_lines \<Rightarrow> bool \<times> rev_lines" where
  "ends_mid_line r =
     (let r1 = (if rl_buf r = [] \<and> 0 < rl_pos r then fill r else r)
      in (rl_buf r1 \<noteq> [] \<and> last (rl_buf r1) \<noteq> NL, r1))"

lemma fill_pos: "0 < rl_pos r \<Longrightarrow> rl_pos (fill r) < rl_pos r"
  by (simp add: fill_def Let_def TAIL_CHUNK_def)

function next_line :: "rev_lines \<Rightarrow> string option \<times> rev_lines" where
  "next_line r =
     (if rl_finished r then (None, r)
      else case rposition (\<lambda>b. b = NL) (rl_buf r) of
             Some i \<Rightarrow> (Some (drop (i + 1) (rl_buf r)), r\<lparr>rl_buf := take i (rl_buf r)\<rparr>)
           | None \<Rightarrow>
               if rl_pos r = 0 then (Some (rl_buf r), r\<lparr>rl_finished := True, rl_buf := []\<rparr>)
               else next_line (fill r))"
  by pat_completeness auto
termination
  by (relation "measure rl_pos") (simp_all add: fill_pos)

declare next_line.simps [simp del]

text \<open>What the reader has not yielded yet, and the measure of its loops.\<close>

definition unread :: "rev_lines \<Rightarrow> string" where
  "unread r = take (rl_pos r) (rl_file r) @ rl_buf r"

definition left_to_read :: "rev_lines \<Rightarrow> nat" where
  "left_to_read r = (if rl_finished r then 0 else 1 + rl_pos r + length (rl_buf r))"

lemma unread_fill [simp]: "unread (fill r) = unread r"
proof -
  have "take (rl_pos r - n) f @ take n (drop (rl_pos r - n) f) = take (rl_pos r) f"
    if "n \<le> rl_pos r" for n and f :: string
    using that take_add [of "rl_pos r - n" n f] by simp
  then show ?thesis by (simp add: unread_def fill_def Let_def)
qed

lemma fill_finished [simp]: "rl_finished (fill r) = rl_finished r"
  by (simp add: fill_def Let_def)

lemma fill_left: "left_to_read (fill r) \<le> left_to_read r"
  by (auto simp: left_to_read_def fill_def Let_def)

lemma rposition_split:
  assumes "rposition P xs = Some i"
  shows "i < length xs \<and> P (xs ! i) \<and> (\<forall>x \<in> set (drop (i + 1) xs). \<not> P x)"
proof -
  from assms obtain k where k: "position P (rev xs) = Some k" and i: "i = length xs - 1 - k"
    by (auto simp: rposition_def)
  from position_Some_split [OF k] have "k < length xs" "P (rev xs ! k)" "\<forall>x \<in> set (take k (rev xs)). \<not> P x" by auto
  moreover from this have "take k (rev xs) = rev (drop (i + 1) xs)" unfolding i by (simp add: take_rev Suc_diff_Suc)
  ultimately show ?thesis using i by (simp add: rev_nth)
qed

lemma next_line_spec:
  assumes "next_line r = (Some l, r')"
  shows "NL \<notin> set l \<and> left_to_read r' < left_to_read r
    \<and> (if rl_finished r' then unread r = l else unread r = unread r' @ NL # l)"
  using assms
proof (induction r rule: next_line.induct)
  case (1 r)
  show ?case
  proof (cases "rposition (\<lambda>b. b = NL) (rl_buf r)")
    case None
    then have none: "NL \<notin> set (rl_buf r)" by (auto simp: rposition_None)
    show ?thesis
    proof (cases "rl_pos r = 0")
      case True
      then show ?thesis
        using None none 1(2) by (auto simp: next_line.simps [of r] unread_def left_to_read_def split: if_splits)
    next
      case False
      with None 1(2) have go: "\<not> rl_finished r" "next_line (fill r) = (Some l, r')"
        by (auto simp: next_line.simps [of r] split: if_splits)
      with 1(1) [OF go(1) None False go(2)] fill_left [of r] show ?thesis by auto
    qed
  next
    case (Some i)
    from rposition_split [OF Some] have i: "i < length (rl_buf r)" "rl_buf r ! i = NL" "NL \<notin> set (drop (i + 1) (rl_buf r))"
      by auto
    from Some 1(2) have nf: "\<not> rl_finished r" and l: "l = drop (i + 1) (rl_buf r)"
      and r': "r' = r\<lparr>rl_buf := take i (rl_buf r)\<rparr>"
      by (auto simp: next_line.simps [of r] split: if_splits)
    have "rl_buf r = take i (rl_buf r) @ NL # l"
      using id_take_nth_drop [OF i(1)] i(2) l by simp
    then show ?thesis using i l nf r' by (auto simp: unread_def left_to_read_def)
  qed
qed

lemma next_line_None: "next_line r = (None, r') \<Longrightarrow> rl_finished r \<and> r' = r"
proof (induction r rule: next_line.induct)
  case (1 r)
  then show ?case
    by (cases "rposition (\<lambda>b. b = NL) (rl_buf r)") (auto simp: next_line.simps [of r] split: if_splits)
qed

section \<open>Events, newest first\<close>

text \<open>
  \<open>RevEvents::next\<close>: lines that are blank, malformed or not UTF-8 are skipped. The iterator
  drops its lines when they are exhausted; the finished reader yields none either way.
\<close>

function rev_event :: "('e, 'm) line_codec_scheme \<Rightarrow> rev_lines \<Rightarrow> (nat \<times> 'e) option \<times> rev_lines" where
  "rev_event cd r =
     (case next_line r of
        (None, r1) \<Rightarrow> (None, r1)
      | (Some raw, r1) \<Rightarrow>
          if \<not> valid_utf8 raw then rev_event cd r1
          else case parse_line cd raw of
                 Some parsed \<Rightarrow> (Some parsed, r1)
               | None \<Rightarrow> rev_event cd r1)"
  by pat_completeness auto
termination
  by (relation "measure (\<lambda>(cd, r). left_to_read r)") (auto dest!: sym [of "(_, _)" "next_line _"] dest: next_line_spec)

declare rev_event.simps [simp del]

text \<open>What a line holds, and what an unfinished reader will still yield.\<close>

definition line_event :: "('e, 'm) line_codec_scheme \<Rightarrow> string \<Rightarrow> (nat \<times> 'e) option" where
  "line_event cd raw = (if valid_utf8 raw then parse_line cd raw else None)"

definition line_events :: "('e, 'm) line_codec_scheme \<Rightarrow> string \<Rightarrow> (nat \<times> 'e) list" where
  "line_events cd f = List.map_filter (line_event cd) (pieces f)"

definition to_yield :: "('e, 'm) line_codec_scheme \<Rightarrow> rev_lines \<Rightarrow> (nat \<times> 'e) list" where
  "to_yield cd r = (if rl_finished r then [] else rev (line_events cd (unread r)))"

lemma map_filter_pieces: "List.map_filter f (xs @ ys) = List.map_filter f xs @ List.map_filter f ys"
  by (simp add: List.map_filter_def)

lemma map_filter_last:
  "xs \<noteq> [] \<Longrightarrow> List.map_filter f xs = List.map_filter f (butlast xs)
    @ (case f (last xs) of None \<Rightarrow> [] | Some y \<Rightarrow> [y])"
  by (cases xs rule: rev_cases) (simp_all add: map_filter_pieces List.map_filter_simps split: option.splits)

lemma line_events_append_line:
  "line_events cd (a @ NL # b) = line_events cd a @ line_events cd b"
  by (simp add: line_events_def pieces_append_line map_filter_pieces)

lemma line_events_single:
  "NL \<notin> set l \<Longrightarrow> line_events cd l = (case line_event cd l of None \<Rightarrow> [] | Some ev \<Rightarrow> [ev])"
  by (simp add: line_events_def pieces_single List.map_filter_simps split: option.splits)

lemma to_yield_next:
  assumes "next_line r = (Some l, r')"
  shows "to_yield cd r = (case line_event cd l of None \<Rightarrow> [] | Some ev \<Rightarrow> [ev]) @ to_yield cd r'"
proof -
  have "\<not> rl_finished r" using assms by (auto simp: next_line.simps [of r])
  with next_line_spec [OF assms] show ?thesis
    by (cases "line_event cd l") (auto simp: to_yield_def line_events_append_line line_events_single split: if_splits)
qed

lemma rev_event_spec:
  "to_yield cd r = (case rev_event cd r of (None, r') \<Rightarrow> [] | (Some ev, r') \<Rightarrow> ev # to_yield cd r')
   \<and> (\<forall>ev r'. rev_event cd r = (Some ev, r') \<longrightarrow> left_to_read r' < left_to_read r)"
proof (induction cd r rule: rev_event.induct)
  case (1 cd r)
  show ?case
  proof (cases "next_line r")
    case (Pair l r1)
    show ?thesis
    proof (cases l)
      case None
      with Pair next_line_None [of r r1] show ?thesis by (simp add: rev_event.simps [of cd r] to_yield_def)
    next
      case (Some raw)
      with Pair have nl: "next_line r = (Some raw, r1)" by simp
      from next_line_spec [OF nl] have lt: "left_to_read r1 < left_to_read r" by simp
      show ?thesis
      proof (cases "line_event cd raw")
        case None
        then have rec: "rev_event cd r = rev_event cd r1"
          using nl by (simp add: rev_event.simps [of cd r] line_event_def split: option.splits if_splits)
        have "to_yield cd r1 = (case rev_event cd r1 of (None, r') \<Rightarrow> [] | (Some ev, r') \<Rightarrow> ev # to_yield cd r')
            \<and> (\<forall>ev r'. rev_event cd r1 = (Some ev, r') \<longrightarrow> left_to_read r' < left_to_read r1)"
        proof (cases "valid_utf8 raw")
          case True
          with None have "parse_line cd raw = None" by (simp add: line_event_def)
          from 1(2) [OF nl [symmetric] refl _ this] True show ?thesis by simp
        next
          case False
          from 1(1) [OF nl [symmetric] refl False] show ?thesis .
        qed
        then show ?thesis using to_yield_next [OF nl, of cd] None lt unfolding rec by auto
      next
        case (Some ev)
        then have "rev_event cd r = (Some ev, r1)"
          using nl by (simp add: rev_event.simps [of cd r] line_event_def split: option.splits if_splits)
        then show ?thesis using to_yield_next [OF nl, of cd] Some lt by simp
      qed
    qed
  qed
qed

lemma rev_event_left: "rev_event cd r = (Some ev, r') \<Longrightarrow> left_to_read r' < left_to_read r"
  using rev_event_spec by blast

function drain :: "('e, 'm) line_codec_scheme \<Rightarrow> rev_lines \<Rightarrow> (nat \<times> 'e) list" where
  "drain cd r = (case rev_event cd r of (None, _) \<Rightarrow> [] | (Some ev, r1) \<Rightarrow> ev # drain cd r1)"
  by pat_completeness auto
termination
  by (relation "measure (\<lambda>(cd, r). left_to_read r)") (auto dest!: sym [of "(_, _)" "rev_event _ _"] dest: rev_event_left)

declare drain.simps [simp del]

lemma drain_yields: "drain cd r = to_yield cd r"
proof (induction cd r rule: drain.induct)
  case (1 cd r)
  show ?case
  proof (cases "rev_event cd r")
    case (Pair ev r1)
    with 1 [OF Pair [symmetric]] rev_event_spec [of cd r] show ?thesis
      by (cases ev) (auto simp: drain.simps [of cd r])
  qed
qed

definition last_valid_line :: "('e, 'm) line_codec_scheme \<Rightarrow> string option \<Rightarrow> (nat \<times> 'e) option" where
  "last_valid_line cd file = (case rev_open file of None \<Rightarrow> None | Some r \<Rightarrow> fst (rev_event cd r))"

definition scan_tail :: "('e, 'm) line_codec_scheme \<Rightarrow> string option \<Rightarrow> nat \<times> bool" where
  "scan_tail cd file =
     (case rev_open file of
        None \<Rightarrow> (1, False)
      | Some r \<Rightarrow>
          let (needs_newline, r1) = ends_mid_line r
          in (case fst (rev_event cd r1) of None \<Rightarrow> 1 | Some (seq, _) \<Rightarrow> seq + 1, needs_newline))"

definition rev_events :: "('e, 'm) line_codec_scheme \<Rightarrow> string option \<Rightarrow> (nat \<times> 'e) list" where
  "rev_events cd file = (case rev_open file of None \<Rightarrow> [] | Some r \<Rightarrow> drain cd r)"

lemma rev_event_head: "fst (rev_event cd r) = (case to_yield cd r of [] \<Rightarrow> None | ev # _ \<Rightarrow> Some ev)"
  using rev_event_spec [of cd r] by (auto split: prod.splits option.splits)

lemma rev_events_Some: "rev_events cd (Some f) = rev (line_events cd f)"
  by (simp add: rev_events_def rev_open_def drain_yields to_yield_def unread_def)

lemma last_valid_line_Some:
  "last_valid_line cd (Some f) = (if line_events cd f = [] then None else Some (last (line_events cd f)))"
proof (cases "line_events cd f" rule: rev_cases)
  case Nil
  then show ?thesis by (simp add: last_valid_line_def rev_open_def rev_event_head to_yield_def unread_def)
next
  case (snoc ys y)
  then show ?thesis by (simp add: last_valid_line_def rev_open_def rev_event_head to_yield_def unread_def)
qed

lemma ends_mid_line_spec:
  assumes "ends_mid_line \<lparr>rl_file = f, rl_pos = length f, rl_buf = [], rl_finished = False\<rparr> = (mid, r)"
  shows "mid \<longleftrightarrow> f \<noteq> [] \<and> last f \<noteq> NL" "to_yield cd r = rev (line_events cd f)"
proof -
  let ?r = "\<lparr>rl_file = f, rl_pos = length f, rl_buf = [], rl_finished = False\<rparr>"
  have r: "r = (if f \<noteq> [] then fill ?r else ?r)" and mid: "mid \<longleftrightarrow> rl_buf r \<noteq> [] \<and> last (rl_buf r) \<noteq> NL"
    using assms by (auto simp: ends_mid_line_def Let_def split: if_splits)
  have same: "unread ?r = f" by (simp add: unread_def)
  have un: "unread r = f" using same unread_fill [of ?r] r by metis
  have "\<not> rl_finished r" unfolding r by simp
  with un show "to_yield cd r = rev (line_events cd f)" by (simp add: to_yield_def)
  show "mid \<longleftrightarrow> f \<noteq> [] \<and> last f \<noteq> NL"
  proof (cases "f = []")
    case True
    then show ?thesis using mid r by simp
  next
    case False
    then have "rl_buf r \<noteq> []"
      unfolding r by (simp add: fill_def Let_def TAIL_CHUNK_def not_le diff_less)
    then have "last (rl_buf r) = last f" using un unfolding unread_def by (metis last_appendR)
    then show ?thesis using mid \<open>rl_buf r \<noteq> []\<close> False by simp
  qed
qed

lemma scan_tail_Some:
  "scan_tail cd (Some f) =
     (case rev (line_events cd f) of [] \<Rightarrow> 1 | (seq, _) # _ \<Rightarrow> seq + 1, f \<noteq> [] \<and> last f \<noteq> NL)"
proof -
  obtain mid r where em: "ends_mid_line \<lparr>rl_file = f, rl_pos = length f, rl_buf = [], rl_finished = False\<rparr> = (mid, r)"
    by fastforce
  have "fst (rev_event cd r) = (case rev (line_events cd f) of [] \<Rightarrow> None | ev # _ \<Rightarrow> Some ev)"
    unfolding rev_event_head ends_mid_line_spec(2) [OF em] ..
  then show ?thesis
    using ends_mid_line_spec(1) [OF em] em
    by (cases "rev (line_events cd f)") (simp_all add: scan_tail_def rev_open_def)
qed

section \<open>The journal\<close>

record journal_handle =
  jh_next_seq :: nat
  jh_needs_newline :: bool

record run_journal =
  rj_files :: "(string \<times> string) list"
  rj_open :: "(string \<times> journal_handle) list"
  rj_resume :: "(string \<times> string) list"
  rj_shutdown :: "(string \<times> string) list"
  rj_stopped :: "(string \<times> string) list"
  rj_steers :: "(string \<times> string) list"

definition OPEN_FILE_CAP :: nat where "OPEN_FILE_CAP = 16"

definition sanitize_id :: "string \<Rightarrow> string" where
  "sanitize_id chat =
     concat (map (\<lambda>ch. case ch of [c] \<Rightarrow> if url_safe_byte c then ch else ''_'' | _ \<Rightarrow> ''_'') (chars_of chat))"

definition journal_file :: "string \<Rightarrow> run_journal \<Rightarrow> string option" where
  "journal_file chat st = map_of (rj_files st) (sanitize_id chat)"

definition open_journal ::
    "('e, 'm) line_codec_scheme \<Rightarrow> string \<Rightarrow> bool \<Rightarrow> run_journal \<Rightarrow> (journal_error + journal_handle) \<times> run_journal" where
  "open_journal cd chat can_open st =
     (case map_of (rj_open st) chat of
        Some h \<Rightarrow> (Inr h, st)
      | None \<Rightarrow>
          let st1 = (if OPEN_FILE_CAP \<le> length (rj_open st) then st\<lparr>rj_open := []\<rparr> else st);
              (next_seq, needs_newline) = scan_tail cd (journal_file chat st1);
              h = \<lparr>jh_next_seq = next_seq, jh_needs_newline = needs_newline\<rparr>
          in if \<not> can_open then (Inl JournalIo, st1)
             else (Inr h, st1\<lparr>rj_files := AList.update (sanitize_id chat)
                                 (case journal_file chat st1 of None \<Rightarrow> [] | Some f \<Rightarrow> f) (rj_files st1),
                              rj_open := AList.update chat h (rj_open st1)\<rparr>))"

definition line_bytes :: "('e, 'm) line_codec_scheme \<Rightarrow> journal_handle \<Rightarrow> 'e \<Rightarrow> string" where
  "line_bytes cd h event =
     (if jh_needs_newline h then [NL] else []) @ lc_encode cd (jh_next_seq h, event) @ [NL]"

text \<open>\<open>written\<close>: \<open>None\<close> when the whole write succeeds, else the bytes that reached the file before it failed.\<close>

definition append_event ::
    "('e, 'm) line_codec_scheme \<Rightarrow> string \<Rightarrow> 'e \<Rightarrow> bool \<Rightarrow> nat option \<Rightarrow> run_journal
      \<Rightarrow> (journal_error + nat) \<times> run_journal" where
  "append_event cd chat event can_open written st =
     (case open_journal cd chat can_open st of
        (Inl e, st1) \<Rightarrow> (Inl e, st1)
      | (Inr h, st1) \<Rightarrow>
          let buf = line_bytes cd h event;
              old = (case journal_file chat st1 of None \<Rightarrow> [] | Some f \<Rightarrow> f);
              put = (\<lambda>bytes. st1\<lparr>rj_files := AList.update (sanitize_id chat) (old @ bytes) (rj_files st1)\<rparr>)
          in case written of
               Some k \<Rightarrow> (Inl JournalIo, put (take k buf))
             | None \<Rightarrow>
                 (Inr (jh_next_seq h),
                  (put buf)\<lparr>rj_open := AList.update chat
                     \<lparr>jh_next_seq = jh_next_seq h + 1, jh_needs_newline = False\<rparr> (rj_open st1)\<rparr>))"

definition replay ::
    "('e, 'm) line_codec_scheme \<Rightarrow> string \<Rightarrow> nat \<Rightarrow> run_journal \<Rightarrow> journal_error + (nat \<times> 'e) list" where
  "replay cd chat after_seq st =
     (case read_lines cd (journal_file chat st) of
        Inl e \<Rightarrow> Inl e
      | Inr all \<Rightarrow>
          let last_seq = (if all = [] then 0 else fst (last all));
              start = (if last_seq < after_seq then 0 else after_seq)
          in Inr (filter (\<lambda>(seq, _). start < seq) all))"

definition last_event :: "('e, 'm) line_codec_scheme \<Rightarrow> string \<Rightarrow> run_journal \<Rightarrow> (nat \<times> 'e) option" where
  "last_event cd chat st = last_valid_line cd (journal_file chat st)"

definition events_rev :: "('e, 'm) line_codec_scheme \<Rightarrow> string \<Rightarrow> run_journal \<Rightarrow> (nat \<times> 'e) list" where
  "events_rev cd chat st = rev_events cd (journal_file chat st)"

definition stale_sessions :: "('e, 'm) line_codec_scheme \<Rightarrow> ('e \<Rightarrow> bool) \<Rightarrow> run_journal \<Rightarrow> string list" where
  "stale_sessions cd is_done st =
     sort (map fst (filter (\<lambda>(_, f). case last_valid_line cd (Some f) of
        None \<Rightarrow> False | Some (_, event) \<Rightarrow> \<not> is_done event) (rj_files st)))"

definition discard :: "string \<Rightarrow> run_journal \<Rightarrow> run_journal" where
  "discard chat st =
     (let stem = sanitize_id chat
      in st\<lparr>rj_open := AList.delete chat (rj_open st), rj_files := AList.delete stem (rj_files st),
            rj_resume := AList.delete stem (rj_resume st), rj_steers := AList.delete stem (rj_steers st)\<rparr>)"

section \<open>The files beside it\<close>

text \<open>The revival ledger, \<open>{count} {last_ms}\<close>.\<close>

definition resume_attempts :: "string \<Rightarrow> int \<Rightarrow> run_journal \<Rightarrow> nat" where
  "resume_attempts chat since_ms st =
     (case map_of (rj_resume st) (sanitize_id chat) of
        None \<Rightarrow> 0
      | Some raw \<Rightarrow>
          if \<not> valid_utf8 raw then 0
          else let ws = split_words [] raw;
                   count = (case ws of [] \<Rightarrow> 0 | w # _ \<Rightarrow> (case parse_u32 w of None \<Rightarrow> 0 | Some n \<Rightarrow> n))
               in case (case ws of _ # w # _ \<Rightarrow> parse_i64 w | _ \<Rightarrow> None) of
                    Some last_ms \<Rightarrow> (if last_ms < since_ms then 0 else count)
                  | None \<Rightarrow> count)"

definition note_resume_attempt :: "string \<Rightarrow> int \<Rightarrow> int \<Rightarrow> bool \<Rightarrow> run_journal \<Rightarrow> nat \<times> run_journal" where
  "note_resume_attempt chat at_ms since_ms ok st =
     (let n = resume_attempts chat since_ms st + 1
      in (n, if ok then st\<lparr>rj_resume := AList.update (sanitize_id chat) (show_nat n @ '' '' @ show_int at_ms) (rj_resume st)\<rparr>
             else st))"

definition clear_resume_attempts :: "string \<Rightarrow> run_journal \<Rightarrow> run_journal" where
  "clear_resume_attempts chat st = st\<lparr>rj_resume := AList.delete (sanitize_id chat) (rj_resume st)\<rparr>"

definition note_shutdown_interrupt :: "string \<Rightarrow> int \<Rightarrow> bool \<Rightarrow> run_journal \<Rightarrow> run_journal" where
  "note_shutdown_interrupt chat at_ms ok st =
     (if ok then st\<lparr>rj_shutdown := AList.update (sanitize_id chat) (show_int at_ms) (rj_shutdown st)\<rparr> else st)"

definition shutdown_interrupts :: "run_journal \<Rightarrow> (string \<times> int) list" where
  "shutdown_interrupts st =
     sort (map (\<lambda>(stem, raw). (stem, case (if valid_utf8 raw then parse_i64 (trim raw) else None) of
        None \<Rightarrow> 0 | Some at \<Rightarrow> at)) (rj_shutdown st))"

definition clear_shutdown_interrupt :: "string \<Rightarrow> run_journal \<Rightarrow> run_journal" where
  "clear_shutdown_interrupt chat st = st\<lparr>rj_shutdown := AList.delete (sanitize_id chat) (rj_shutdown st)\<rparr>"

definition note_user_stop :: "string \<Rightarrow> bool \<Rightarrow> run_journal \<Rightarrow> run_journal" where
  "note_user_stop chat ok st =
     (if ok then st\<lparr>rj_stopped := AList.update (sanitize_id chat) [] (rj_stopped st)\<rparr> else st)"

definition user_stopped :: "string \<Rightarrow> run_journal \<Rightarrow> bool" where
  "user_stopped chat st \<longleftrightarrow> map_of (rj_stopped st) (sanitize_id chat) \<noteq> None"

definition clear_user_stop :: "string \<Rightarrow> run_journal \<Rightarrow> run_journal" where
  "clear_user_stop chat st = st\<lparr>rj_stopped := AList.delete (sanitize_id chat) (rj_stopped st)\<rparr>"

text \<open>The steers a harness has consumed, one id per line; \<open>written\<close> as for an append.\<close>

definition note_steer_consumed :: "string \<Rightarrow> string \<Rightarrow> nat option \<Rightarrow> run_journal \<Rightarrow> run_journal" where
  "note_steer_consumed chat message_id written st =
     (let stem = sanitize_id chat; buf = message_id @ [NL];
          old = (case map_of (rj_steers st) stem of None \<Rightarrow> [] | Some f \<Rightarrow> f)
      in st\<lparr>rj_steers := AList.update stem (old @ (case written of None \<Rightarrow> buf | Some k \<Rightarrow> take k buf)) (rj_steers st)\<rparr>)"

definition steer_consumed :: "string \<Rightarrow> string \<Rightarrow> run_journal \<Rightarrow> bool" where
  "steer_consumed chat message_id st \<longleftrightarrow>
     (case map_of (rj_steers st) (sanitize_id chat) of
        None \<Rightarrow> False
      | Some raw \<Rightarrow> valid_utf8 raw \<and> list_ex (\<lambda>line. trim line = message_id) (text_lines raw))"

definition clear_consumed_steers :: "string \<Rightarrow> run_journal \<Rightarrow> run_journal" where
  "clear_consumed_steers chat st = st\<lparr>rj_steers := AList.delete (sanitize_id chat) (rj_steers st)\<rparr>"

section \<open>A journal is a log\<close>

text \<open>
  What the journal relies on of the JSON writer and parser: a written line is one line of UTF-8
  and reads back, none of its proper prefixes is a document, blank text is no document, and a
  trailing carriage return is white space.
\<close>

definition codec_ok :: "('e, 'm) line_codec_scheme \<Rightarrow> bool" where
  "codec_ok cd \<longleftrightarrow>
     (\<forall>x. lc_decode cd (lc_encode cd x) = Some x \<and> NL \<notin> set (lc_encode cd x) \<and> valid_utf8 (lc_encode cd x)
        \<and> (\<forall>p. strict_prefix p (lc_encode cd x) \<longrightarrow> lc_decode cd p = None))
     \<and> (\<forall>l. (blank l \<longrightarrow> lc_decode cd l = None) \<and> lc_decode cd (l @ [CHR 0x0D]) = lc_decode cd l)"

lemma parse_line_ok: "codec_ok cd \<Longrightarrow> parse_line cd l = lc_decode cd l"
  by (auto simp: parse_line_def codec_ok_def)

lemma codec_okD:
  assumes "codec_ok cd"
  shows "lc_decode cd (lc_encode cd x) = Some x" "NL \<notin> set (lc_encode cd x)" "valid_utf8 (lc_encode cd x)"
    and "strict_prefix p (lc_encode cd x) \<Longrightarrow> lc_decode cd p = None"
  using assms unfolding codec_ok_def by blast+

lemma line_event_encoded: "codec_ok cd \<Longrightarrow> line_event cd (lc_encode cd x) = Some x"
  by (simp add: line_event_def parse_line_ok codec_okD)

lemma line_event_torn: "codec_ok cd \<Longrightarrow> strict_prefix p (lc_encode cd x) \<Longrightarrow> line_event cd p = None"
  by (simp add: line_event_def parse_line_ok codec_okD(4))

lemma line_event_Nil [simp]: "line_event cd [] = None"
proof -
  have "blank []" by (simp add: blank_def trim_def trim_start_id trim_end_id blank_eval)
  then show ?thesis by (simp add: line_event_def parse_line_def)
qed

lemma line_events_Nil [simp]: "line_events cd [] = []"
  by (simp add: line_events_single)

text \<open>A file that ends in the middle of a line, and the line an append starts.\<close>

definition mid_line :: "string \<Rightarrow> bool" where
  "mid_line f \<longleftrightarrow> f \<noteq> [] \<and> last f \<noteq> NL"

definition on_new_line :: "string \<Rightarrow> string \<Rightarrow> string" where
  "on_new_line f t = f @ (if mid_line f then [NL] else []) @ t"

lemma line_events_new_line: "line_events cd (on_new_line f t) = line_events cd f @ line_events cd t"
proof (cases "mid_line f")
  case False
  then consider "f = []" | g where "f = g @ [NL]" by (cases f rule: rev_cases) (auto simp: mid_line_def)
  then show ?thesis
  proof cases
    case 2
    then have "line_events cd f = line_events cd g" using line_events_append_line [of cd g "[]"] by simp
    then show ?thesis using 2 line_events_append_line [of cd g t] False by (simp add: on_new_line_def)
  qed (simp add: on_new_line_def mid_line_def)
qed (simp add: on_new_line_def line_events_append_line)

lemma line_events_whole: "codec_ok cd \<Longrightarrow> line_events cd (lc_encode cd x @ [NL]) = [x]"
  using line_events_append_line [of cd "lc_encode cd x" "[]"]
  by (simp add: line_events_single line_event_encoded codec_okD(2))

text \<open>Whatever part of a write reaches the file, it is the whole event or nothing.\<close>

lemma torn_write:
  assumes ok: "codec_ok cd" and h: "jh_needs_newline h \<longleftrightarrow> mid_line f"
  shows "line_events cd (f @ take k (line_bytes cd h e)) = line_events cd f
    \<or> line_events cd (f @ take k (line_bytes cd h e)) = line_events cd f @ [(jh_next_seq h, e)]"
proof (cases "mid_line f \<and> k = 0")
  case False
  let ?x = "(jh_next_seq h, e)"
  define j where "j = k - (if mid_line f then 1 else 0)"
  have "take k (line_bytes cd h e) = (if mid_line f then [NL] else []) @ take j (lc_encode cd ?x @ [NL])"
    using False h by (cases k) (auto simp: line_bytes_def j_def)
  then have whole: "f @ take k (line_bytes cd h e) = on_new_line f (take j (lc_encode cd ?x @ [NL]))"
    by (simp add: on_new_line_def)
  consider "length (lc_encode cd ?x) < j" | "j = length (lc_encode cd ?x)" | "j < length (lc_encode cd ?x)" by linarith
  then show ?thesis
  proof cases
    case 1
    then show ?thesis unfolding whole line_events_new_line by (simp add: line_events_whole [OF ok])
  next
    case 2
    then show ?thesis
      using ok unfolding whole line_events_new_line
      by (simp add: line_events_single line_event_encoded codec_okD(2))
  next
    case 3
    then have t: "take j (lc_encode cd ?x @ [NL]) = take j (lc_encode cd ?x)" by simp
    have "strict_prefix (take j (lc_encode cd ?x)) (lc_encode cd ?x)"
      using 3 by (auto simp: strict_prefix_def take_is_prefix)
    moreover have "NL \<notin> set (take j (lc_encode cd ?x))" using codec_okD(2) [OF ok] by (auto dest: in_set_takeD)
    ultimately show ?thesis
      unfolding whole line_events_new_line t by (simp add: line_events_single line_event_torn [OF ok])
  qed
qed simp

lemma whole_write:
  assumes "codec_ok cd" "jh_needs_newline h \<longleftrightarrow> mid_line f"
  shows "line_events cd (f @ line_bytes cd h e) = line_events cd f @ [(jh_next_seq h, e)]"
    and "\<not> mid_line (f @ line_bytes cd h e)"
proof -
  have "f @ line_bytes cd h e = on_new_line f (lc_encode cd (jh_next_seq h, e) @ [NL])"
    using assms(2) by (simp add: line_bytes_def on_new_line_def)
  then show "line_events cd (f @ line_bytes cd h e) = line_events cd f @ [(jh_next_seq h, e)]"
    using assms(1) by (simp add: line_events_new_line line_events_whole)
  show "\<not> mid_line (f @ line_bytes cd h e)" by (simp add: mid_line_def line_bytes_def)
qed

subsection \<open>Forward and backward\<close>

lemma line_event_strip_cr:
  assumes "codec_ok cd"
  shows "line_event cd (strip_cr l) = line_event cd l"
proof (cases "l \<noteq> [] \<and> last l = CHR 0x0D")
  case True
  then obtain b where l: "l = b @ [CHR 0x0D]" by (cases l rule: rev_cases) auto
  have "valid_utf8 (b @ [CHR 0x0D]) = valid_utf8 b" by (rule valid_utf8_snoc_ascii) (simp add: byte_in_def)
  moreover have "lc_decode cd (b @ [CHR 0x0D]) = lc_decode cd b" using assms by (simp add: codec_ok_def)
  ultimately show ?thesis by (simp add: l strip_cr_def line_event_def parse_line_ok [OF assms])
qed (auto simp: strip_cr_def)

lemma map_filter_cr:
  "codec_ok cd \<Longrightarrow> List.map_filter (line_event cd) (map strip_cr ls) = List.map_filter (line_event cd) ls"
  by (induction ls) (simp_all add: List.map_filter_simps line_event_strip_cr split: option.splits)

lemma collect_lines_total:
  "collect_lines cd ls =
    (if list_all valid_utf8 ls then Inr (List.map_filter (line_event cd) ls) else Inl JournalIo)"
proof (induction ls)
  case (Cons l ls)
  then show ?case using line_event_def [of cd l] by (auto simp: List.map_filter_simps split: option.splits)
qed (simp add: List.map_filter_simps)

lemma line_events_text_lines:
  assumes "codec_ok cd"
  shows "line_events cd f = List.map_filter (line_event cd) (text_lines f)"
proof -
  have "line_events cd f = List.map_filter (line_event cd) (butlast (pieces f))
      @ (case line_event cd (last (pieces f)) of None \<Rightarrow> [] | Some ev \<Rightarrow> [ev])"
    unfolding line_events_def by (simp add: map_filter_last)
  then show ?thesis
    unfolding text_lines_pieces
    by (auto simp: map_filter_pieces map_filter_cr [OF assms] List.map_filter_simps split: option.splits)
qed

lemma read_lines_events:
  assumes "codec_ok cd" "read_lines cd (Some f) = Inr es"
  shows "es = line_events cd f"
  using assms(2) by (simp add: read_lines_def collect_lines_total line_events_text_lines [OF assms(1)] split: if_splits)

lemma line_event_valid: "List.map_filter (line_event cd) ls = List.map_filter (parse_line cd) (filter valid_utf8 ls)"
proof (induction ls)
  case (Cons l ls)
  then show ?case using line_event_def [of cd l] by (auto simp: List.map_filter_simps split: option.splits)
qed (simp add: List.map_filter_simps)

text \<open>C5: whatever bytes a journal file holds, reading it backwards in growing chunks yields exactly the
  events of its lines that are text and parse, newest first, and the last event is the newest of
  them; the forward reader gives the same events in order when every line is text, and an error, no
  event at all, when one is not.\<close>

theorem tail_reader_agrees:
  assumes "codec_ok cd"
  shows "let lines = text_lines f; events = List.map_filter (parse_line cd) (filter valid_utf8 lines)
    in rev_events cd (Some f) = rev events
      \<and> last_valid_line cd (Some f) = (if events = [] then None else Some (last events))
      \<and> read_lines cd (Some f) = (if list_all valid_utf8 lines then Inr events else Inl JournalIo)"
  by (simp add: Let_def rev_events_Some last_valid_line_Some line_events_text_lines [OF assms] read_lines_def
      collect_lines_total line_event_valid)

subsection \<open>Crashes\<close>

text \<open>
  A journal under use: an event written, the engine dying with only \<open>k\<close> bytes of a line in the
  file, a restart. \<open>log_step\<close> is what an operation may do to the logs of the chats: a write
  adds its event, a crash adds its event or nothing.
\<close>

datatype 'e journal_op = Write string 'e | Crash string 'e nat | Restart

fun journal_step :: "('e, 'm) line_codec_scheme \<Rightarrow> run_journal \<Rightarrow> 'e journal_op \<Rightarrow> run_journal" where
  "journal_step cd st (Write chat e) = snd (append_event cd chat e True None st)"
| "journal_step cd st (Crash chat e k) = (snd (append_event cd chat e True (Some k) st))\<lparr>rj_open := []\<rparr>"
| "journal_step cd st Restart = st\<lparr>rj_open := []\<rparr>"

inductive log_step :: "'e journal_op \<Rightarrow> (string \<Rightarrow> 'e list) \<Rightarrow> (string \<Rightarrow> 'e list) \<Rightarrow> bool" where
  written: "log_step (Write chat e) L (L(chat := L chat @ [e]))"
| torn: "log_step (Crash chat e k) L L"
| saved: "log_step (Crash chat e k) L (L(chat := L chat @ [e]))"
| restarted: "log_step Restart L L"

inductive runs :: "('op \<Rightarrow> 'a \<Rightarrow> 'a \<Rightarrow> bool) \<Rightarrow> 'op list \<Rightarrow> 'a \<Rightarrow> 'a \<Rightarrow> bool" for astep where
  ended: "runs astep [] a a"
| stepped: "astep op a a1 \<Longrightarrow> runs astep ops a1 a2 \<Longrightarrow> runs astep (op # ops) a a2"

inductive_cases log_step_writeE: "log_step (Write chat e) L L'"
inductive_cases log_step_crashE: "log_step (Crash chat e k) L L'"

definition numbered :: "'e list \<Rightarrow> (nat \<times> 'e) list" where
  "numbered es = zip [1..<Suc (length es)] es"

lemma numbered_snoc: "numbered (es @ [e]) = numbered es @ [(Suc (length es), e)]"
proof -
  have "[1..<Suc (length (es @ [e]))] = [1..<Suc (length es)] @ [Suc (length es)]"
    by (simp add: upt_Suc_append del: upt_Suc)
  then show ?thesis unfolding numbered_def by (simp del: upt_Suc)
qed

lemma numbered_Nil [simp]: "numbered [] = []"
  by (simp add: numbered_def)

definition contents :: "string \<Rightarrow> run_journal \<Rightarrow> string" where
  "contents chat st = (case journal_file chat st of None \<Rightarrow> [] | Some f \<Rightarrow> f)"

definition op_chats :: "string set \<Rightarrow> 'e journal_op \<Rightarrow> bool" where
  "op_chats S op \<longleftrightarrow> (case op of Write c _ \<Rightarrow> c \<in> S | Crash c _ _ \<Rightarrow> c \<in> S | Restart \<Rightarrow> True)"

text \<open>The files hold the numbered logs, and an open handle knows where its file ends.\<close>

definition holds :: "('e, 'm) line_codec_scheme \<Rightarrow> string set \<Rightarrow> run_journal \<Rightarrow> (string \<Rightarrow> 'e list) \<Rightarrow> bool" where
  "holds cd S st L \<longleftrightarrow> (\<forall>c \<in> S. line_events cd (contents c st) = numbered (L c)
     \<and> (\<forall>h. map_of (rj_open st) c = Some h \<longrightarrow>
          h = \<lparr>jh_next_seq = Suc (length (L c)), jh_needs_newline = mid_line (contents c st)\<rparr>))"

lemma contents_simps [simp]:
  "contents c (st\<lparr>rj_open := x\<rparr>) = contents c st"
  "contents c (st\<lparr>rj_files := AList.update (sanitize_id c') f (rj_files st)\<rparr>)
     = (if sanitize_id c = sanitize_id c' then f else contents c st)"
  by (simp_all add: contents_def journal_file_def update_conv')

lemma scan_tail_contents:
  assumes "line_events cd (contents c st) = numbered l"
  shows "scan_tail cd (journal_file c st) = (Suc (length l), mid_line (contents c st))"
proof (cases "journal_file c st")
  case None
  then have "numbered l = []" using assms by (simp add: contents_def)
  then have "l = []" by (cases l) (simp_all add: numbered_def upt_rec)
  then show ?thesis using None by (simp add: scan_tail_def rev_open_def contents_def mid_line_def)
next
  case (Some f)
  then show ?thesis
    using assms by (cases l rule: rev_cases) (simp_all add: scan_tail_Some contents_def mid_line_def numbered_snoc)
qed

lemma open_journal_holds:
  assumes "holds cd S st L" "c \<in> S" "open_journal cd c True st = (r, st1)"
  shows "holds cd S st1 L \<and> r = Inr \<lparr>jh_next_seq = Suc (length (L c)), jh_needs_newline = mid_line (contents c st)\<rparr>
    \<and> (\<forall>d. contents d st1 = contents d st)"
proof (cases "map_of (rj_open st) c")
  case None
  define st0 where "st0 = (if OPEN_FILE_CAP \<le> length (rj_open st) then st\<lparr>rj_open := []\<rparr> else st)"
  have same: "contents d st0 = contents d st" "journal_file d st0 = journal_file d st" for d
    by (simp_all add: st0_def journal_file_def)
  have h0: "holds cd S st0 L" using assms(1) by (auto simp: holds_def st0_def)
  have tail: "scan_tail cd (journal_file c st0) = (Suc (length (L c)), mid_line (contents c st0))"
    using h0 assms(2) by (intro scan_tail_contents) (simp add: holds_def)
  have st1: "st1 = st0\<lparr>rj_files := AList.update (sanitize_id c) (contents c st0) (rj_files st0),
      rj_open := AList.update c \<lparr>jh_next_seq = Suc (length (L c)), jh_needs_newline = mid_line (contents c st0)\<rparr> (rj_open st0)\<rparr>"
    and r: "r = Inr \<lparr>jh_next_seq = Suc (length (L c)), jh_needs_newline = mid_line (contents c st0)\<rparr>"
    using assms(3) None tail by (simp_all add: open_journal_def st0_def [symmetric] Let_def contents_def)
  have con: "contents d st1 = contents d st0" for d
    unfolding st1 by (auto simp: contents_def journal_file_def update_conv')
  have "holds cd S st1 L"
    using h0 con by (auto simp: holds_def st1 update_conv' split: if_splits)
  then show ?thesis using r con same by simp
next
  case (Some h)
  then show ?thesis using assms by (auto simp: open_journal_def holds_def)
qed

lemma holds_update:
  assumes "holds cd S st L" "c \<in> S" "inj_on sanitize_id S"
    and "line_events cd f = numbered l"
    and "\<And>h. map_of hs c = Some h \<Longrightarrow> h = \<lparr>jh_next_seq = Suc (length l), jh_needs_newline = mid_line f\<rparr>"
    and "\<And>d h. d \<noteq> c \<Longrightarrow> map_of hs d = Some h \<Longrightarrow> map_of (rj_open st) d = Some h"
  shows "holds cd S (st\<lparr>rj_files := AList.update (sanitize_id c) f (rj_files st), rj_open := hs\<rparr>) (L(c := l))"
proof -
  have "sanitize_id d = sanitize_id c \<longleftrightarrow> d = c" if "d \<in> S" for d
    using assms(2,3) that by (auto dest: inj_onD)
  then show ?thesis
    using assms unfolding holds_def by (auto simp: contents_def journal_file_def update_conv')
qed

lemma journal_step_holds:
  assumes "codec_ok cd" "inj_on sanitize_id S" "holds cd S st L" "op_chats S op"
  shows "\<exists>L'. log_step op L L' \<and> holds cd S (journal_step cd st op) L'"
proof (cases op)
  case (Write c e)
  then have c: "c \<in> S" using assms(4) by (simp add: op_chats_def)
  obtain r st1 where op1: "open_journal cd c True st = (r, st1)" by fastforce
  from open_journal_holds [OF assms(3) c op1] have h1: "holds cd S st1 L" and con: "contents c st1 = contents c st"
    and r: "r = Inr \<lparr>jh_next_seq = Suc (length (L c)), jh_needs_newline = mid_line (contents c st)\<rparr>" by auto
  let ?h = "\<lparr>jh_next_seq = Suc (length (L c)), jh_needs_newline = mid_line (contents c st)\<rparr>"
  have old: "line_events cd (contents c st) = numbered (L c)" using assms(3) c by (simp add: holds_def)
  note w = whole_write [OF assms(1), of ?h "contents c st" e]
  have "journal_step cd st op = st1\<lparr>rj_files := AList.update (sanitize_id c) (contents c st @ line_bytes cd ?h e) (rj_files st1),
      rj_open := AList.update c \<lparr>jh_next_seq = Suc (Suc (length (L c))), jh_needs_newline = False\<rparr> (rj_open st1)\<rparr>"
    using con by (simp add: Write append_event_def op1 r Let_def contents_def)
  moreover have "holds cd S (st1\<lparr>rj_files := AList.update (sanitize_id c) (contents c st @ line_bytes cd ?h e) (rj_files st1),
      rj_open := AList.update c \<lparr>jh_next_seq = Suc (Suc (length (L c))), jh_needs_newline = False\<rparr> (rj_open st1)\<rparr>)
      (L(c := L c @ [e]))"
    using w old by (intro holds_update [OF h1 c assms(2)]) (auto simp: numbered_snoc update_conv' split: if_splits)
  ultimately show ?thesis using log_step.written [of c e L] Write by auto
next
  case (Crash c e k)
  then have c: "c \<in> S" using assms(4) by (simp add: op_chats_def)
  obtain r st1 where op1: "open_journal cd c True st = (r, st1)" by fastforce
  from open_journal_holds [OF assms(3) c op1] have h1: "holds cd S st1 L" and con: "contents c st1 = contents c st"
    and r: "r = Inr \<lparr>jh_next_seq = Suc (length (L c)), jh_needs_newline = mid_line (contents c st)\<rparr>" by auto
  let ?h = "\<lparr>jh_next_seq = Suc (length (L c)), jh_needs_newline = mid_line (contents c st)\<rparr>"
  let ?f = "contents c st @ take k (line_bytes cd ?h e)"
  have old: "line_events cd (contents c st) = numbered (L c)" using assms(3) c by (simp add: holds_def)
  have st': "journal_step cd st op = st1\<lparr>rj_files := AList.update (sanitize_id c) ?f (rj_files st1), rj_open := []\<rparr>"
    using con by (simp add: Crash append_event_def op1 r Let_def contents_def)
  have upd: "holds cd S (st1\<lparr>rj_files := AList.update (sanitize_id c) ?f (rj_files st1), rj_open := []\<rparr>) (L(c := l))"
    if "line_events cd ?f = numbered l" for l
    by (intro holds_update [OF h1 c assms(2) that]) auto
  from torn_write [OF assms(1), of ?h "contents c st" k e] old
  consider "line_events cd ?f = numbered (L c)" | "line_events cd ?f = numbered (L c @ [e])"
    by (auto simp: numbered_snoc)
  then show ?thesis
  proof cases
    case 1
    from upd [OF 1] show ?thesis using log_step.torn [of c e k L] Crash st' by auto
  next
    case 2
    from upd [OF 2] show ?thesis using log_step.saved [of c e k L] Crash st' by auto
  qed
next
  case Restart
  then show ?thesis using assms(3) log_step.restarted [of L] by (auto simp: holds_def)
qed

text \<open>A simulation: every concrete step is one the abstract relation allows.\<close>

locale simulation =
  fixes cstep :: "'s \<Rightarrow> 'op \<Rightarrow> 's"
    and astep :: "'op \<Rightarrow> 'a \<Rightarrow> 'a \<Rightarrow> bool"
    and legal :: "'op \<Rightarrow> bool"
    and represents :: "'s \<Rightarrow> 'a \<Rightarrow> bool"
  assumes sim_step: "represents s a \<Longrightarrow> legal op \<Longrightarrow> \<exists>a'. astep op a a' \<and> represents (cstep s op) a'"
begin

lemma sim_run:
  "represents s a \<Longrightarrow> list_all legal ops \<Longrightarrow> \<exists>a'. runs astep ops a a' \<and> represents (foldl cstep s ops) a'"
proof (induction ops arbitrary: s a)
  case Nil
  then show ?case by (auto intro: runs.ended)
next
  case (Cons op ops)
  then obtain a1 where a1: "astep op a a1" "represents (cstep s op) a1"
    using sim_step [of s a op] by auto
  with Cons.IH [OF a1(2)] Cons.prems obtain a2 where "runs astep ops a1 a2"
    "represents (foldl cstep (cstep s op) ops) a2" by auto
  with a1(1) show ?case by (auto intro: runs.stepped)
qed

end

interpretation journal: simulation "journal_step cd" log_step "op_chats S"
    "\<lambda>st L. codec_ok cd \<and> inj_on sanitize_id S \<and> holds cd S st L" for cd S
  by unfold_locales (meson journal_step_holds)

definition empty_journal :: run_journal where
  "empty_journal = \<lparr>rj_files = [], rj_open = [], rj_resume = [], rj_shutdown = [], rj_stopped = [], rj_steers = []\<rparr>"

lemma empty_holds: "holds cd S empty_journal (\<lambda>_. [])"
  by (simp add: holds_def empty_journal_def contents_def journal_file_def)

text \<open>C3: the journals are logs: whatever was written and however often the engine died in the middle of a
  line, each chat's file holds exactly its events in order, numbered from one without a gap; a
  crash loses at most the event being written, and never hides or repeats another.\<close>

theorem journal_refines_log:
  assumes "codec_ok cd" "inj_on sanitize_id S" "list_all (op_chats S) ops"
    and "st = foldl (journal_step cd) empty_journal ops"
  shows "\<exists>L. runs log_step ops (\<lambda>_. []) L \<and> (\<forall>c \<in> S. rev (events_rev cd c st) = numbered (L c)
    \<and> (\<forall>es. read_lines cd (journal_file c st) = Inr es \<longrightarrow> es = numbered (L c)))"
proof -
  from journal.sim_run [of cd S empty_journal "\<lambda>_. []" ops] empty_holds assms
  obtain L where run: "runs log_step ops (\<lambda>_. []) L" and h: "holds cd S st L" by blast
  have "rev (events_rev cd c st) = numbered (L c)
    \<and> (\<forall>es. read_lines cd (journal_file c st) = Inr es \<longrightarrow> es = numbered (L c))" if "c \<in> S" for c
  proof -
    have "line_events cd (contents c st) = numbered (L c)" using h that by (simp add: holds_def)
    moreover have "rev (events_rev cd c st) = line_events cd (contents c st)"
      by (cases "journal_file c st") (simp_all add: events_rev_def contents_def rev_events_Some,
          simp add: rev_events_def rev_open_def)
    moreover have "es = line_events cd (contents c st)" if "read_lines cd (journal_file c st) = Inr es" for es
      using that read_lines_events [OF assms(1)]
      by (cases "journal_file c st") (simp_all add: contents_def, simp add: read_lines_def)
    ultimately show ?thesis by simp
  qed
  with run show ?thesis by blast
qed

subsection \<open>A concrete codec\<close>

text \<open>Numbers as events, written in unary.\<close>

definition unary_codec :: "nat line_codec" where
  "unary_codec = \<lparr>
     lc_encode = (\<lambda>(s, e). replicate s CHR ''s'' @ replicate e CHR ''e'' @ ''.''),
     lc_decode = (\<lambda>l.
       let t = rev (dropWhile (\<lambda>c. c = CHR 0x0D) (rev l));
           s = count_list t CHR ''s''; e = count_list t CHR ''e''
       in if t = replicate s CHR ''s'' @ replicate e CHR ''e'' @ ''.'' then Some (s, e) else None)\<rparr>"

lemma ascii_valid: "list_all (byte_in 0 0x7F) s \<Longrightarrow> valid_utf8 s"
proof (induction s rule: rev_induct)
  case (snoc x xs)
  then show ?case by (simp add: valid_utf8_snoc_ascii)
qed simp

lemma count_list_replicate: "count_list (replicate n a) b = (if a = b then n else 0)"
  by (induction n) auto

lemma unary_codec_ok: "codec_ok unary_codec"
  unfolding codec_ok_def
proof (intro conjI allI impI)
  fix x :: "nat \<times> nat"
  obtain s e where x: "x = (s, e)" by (cases x)
  let ?t = "replicate s CHR ''s'' @ replicate e CHR ''e'' @ ''.''"
  have enc: "lc_encode unary_codec x = ?t" by (simp add: unary_codec_def x)
  have "dropWhile (\<lambda>c. c = CHR 0x0D) (rev ?t) = rev ?t" by simp
  then show "lc_decode unary_codec (lc_encode unary_codec x) = Some x"
    unfolding enc by (simp add: unary_codec_def x Let_def count_list_replicate)
  show "NL \<notin> set (lc_encode unary_codec x)" unfolding enc by auto
  show "valid_utf8 (lc_encode unary_codec x)"
    unfolding enc by (rule ascii_valid) (auto simp: list_all_iff byte_in_def)
  fix p assume p: "strict_prefix p (lc_encode unary_codec x)"
  then have "prefix p (replicate s CHR ''s'' @ replicate e CHR ''e'')"
    using prefix_snoc [of p "replicate s CHR ''s'' @ replicate e CHR ''e''" "CHR ''.''"]
    unfolding enc by (auto simp: strict_prefix_def)
  then have "set p \<subseteq> set (replicate s CHR ''s'' @ replicate e CHR ''e'')" by (rule set_mono_prefix)
  then have "CHR ''.'' \<notin> set p" by auto
  then have nodot: "CHR ''.'' \<notin> set (rev (dropWhile (\<lambda>c. c = CHR 0x0D) (rev p)))" by (auto dest: set_dropWhileD)
  have "t \<noteq> a @ b @ ''.''" if "t = rev (dropWhile (\<lambda>c. c = CHR 0x0D) (rev p))" for t a b
  proof
    assume "t = a @ b @ ''.''"
    then have "CHR ''.'' \<in> set t" by simp
    with nodot show False unfolding that by blast
  qed
  then show "lc_decode unary_codec p = None"
    by (simp add: unary_codec_def Let_def)
next
  fix l :: string
  show "lc_decode unary_codec (l @ [CHR 0x0D]) = lc_decode unary_codec l"
    by (simp add: unary_codec_def)
  assume "blank l"
  show "lc_decode unary_codec l = None"
  proof (rule ccontr)
    assume "lc_decode unary_codec l \<noteq> None"
    then obtain s e where t: "rev (dropWhile (\<lambda>c. c = CHR 0x0D) (rev l)) = replicate s CHR ''s'' @ replicate e CHR ''e'' @ ''.''"
      by (auto simp: unary_codec_def Let_def split: if_splits)
    have "l = rev (dropWhile (\<lambda>c. c = CHR 0x0D) (rev l)) @ rev (takeWhile (\<lambda>c. c = CHR 0x0D) (rev l))"
      by (metis rev_append rev_rev_ident takeWhile_dropWhile_id)
    then obtain z where l: "l = (replicate s CHR ''s'' @ replicate e CHR ''e'' @ ''.'') @ z" unfolding t by blast
    have "\<not> starts_blank l" unfolding l
      by (cases s; cases e) (auto simp: blank_eval)
    with l have "\<not> blank l" by (intro not_blank_start) auto
    with \<open>blank l\<close> show False by simp
  qed
qed

text \<open>A journal with a whole line and one torn inside a character.\<close>

theorem tail_reader_agrees_witness:
  "rev_events unary_codec (Some (''s.'' @ [NL, CHR 0xC3])) = [(1, 0)]
    \<and> read_lines unary_codec (Some (''s.'' @ [NL, CHR 0xC3])) = Inl JournalIo"
  using tail_reader_agrees [OF unary_codec_ok, of "''s.'' @ [NL, CHR 0xC3]"]
  by (simp add: text_lines_def strip_cr_def valid_utf8_def utf8_char_def byte_in_def cont_byte_def parse_line_def
      unary_codec_def blank_def trim_def trim_start_id trim_end_id blank_eval suffix_def List.map_filter_simps)

theorem journal_refines_log_witness:
  "\<exists>L. runs log_step [Write ''c'' 2, Crash ''c'' 7 3, Write ''c'' (5::nat)] (\<lambda>_. []) L
    \<and> rev (events_rev unary_codec ''c''
        (foldl (journal_step unary_codec) empty_journal [Write ''c'' 2, Crash ''c'' 7 3, Write ''c'' 5])) = numbered (L ''c'')"
  using journal_refines_log [OF unary_codec_ok, of "{''c''}" "[Write ''c'' 2, Crash ''c'' 7 3, Write ''c'' 5]"]
  by (auto simp: op_chats_def)

section \<open>Resuming a subscription\<close>

lemma filter_enumerate: "filter (\<lambda>(seq, _). n < seq) (enumerate a es) = drop (Suc n - a) (enumerate a es)"
proof (induction es arbitrary: a)
  case (Cons e es)
  show ?case
  proof (cases "n < a")
    case True
    then have "Suc n - a = 0" "Suc n - Suc a = 0" by simp_all
    then show ?thesis using Cons [of "Suc a"] True by simp
  next
    case False
    then have "Suc n - a = Suc (Suc n - Suc a)" by simp
    then show ?thesis using Cons [of "Suc a"] False by simp
  qed
qed simp

lemma filter_numbered: "filter (\<lambda>(seq, _). n < seq) (numbered es) = drop n (numbered es)"
  using filter_enumerate [of n 1 es] by (simp add: numbered_def enumerate_eq_zip)

text \<open>A client that has seen the events up to a cursor gets exactly the ones after it; a cursor from a
  file that was replaced gets the whole journal.\<close>

theorem replay_continues:
  assumes "read_lines cd (journal_file c st) = Inr (numbered es)"
  shows "replay cd c n st = Inr (if length es < n then numbered es else drop n (numbered es))"
proof -
  have last: "(if numbered es = [] then 0 else fst (last (numbered es))) = length es"
    by (cases es rule: rev_cases) (simp_all add: numbered_snoc)
  show ?thesis
    unfolding replay_def assms by (simp add: last Let_def filter_numbered)
qed

theorem replay_continues_witness:
  "replay unary_codec ''c'' 1 (empty_journal\<lparr>rj_files := [(''c'', ''s.'' @ [NL] @ ''sse.'')]\<rparr>) = Inr [(2, 1)]"
proof -
  have "read_lines unary_codec (journal_file ''c'' (empty_journal\<lparr>rj_files := [(''c'', ''s.'' @ [NL] @ ''sse.'')]\<rparr>))
      = Inr (numbered [0, 1])"
    by (simp add: read_lines_def text_lines_def valid_utf8_def utf8_char_def byte_in_def cont_byte_def parse_line_def
        unary_codec_def blank_def trim_def trim_start_id trim_end_id blank_eval suffix_def journal_file_def
        sanitize_id_def url_safe_byte_def strip_cr_def numbered_def upt_rec numeral_2_eq_2)
  from replay_continues [OF this, of 1] show ?thesis by (simp add: numbered_def upt_rec)
qed

section \<open>The revival ledger\<close>

lemma white_first: "w \<in> set white_chars \<Longrightarrow> w \<noteq> [] \<and> \<not> byte_in 0x21 0x7E (hd w)"
proof -
  have "list_all (\<lambda>w. w \<noteq> [] \<and> \<not> byte_in 0x21 0x7E (hd w)) white_chars"
    by (simp add: white_chars_def byte_in_def)
  then show "w \<in> set white_chars \<Longrightarrow> w \<noteq> [] \<and> \<not> byte_in 0x21 0x7E (hd w)" by (simp add: list_all_iff)
qed

lemma no_white_prefix: "byte_in 0x21 0x7E c \<Longrightarrow> find (\<lambda>x. prefix x (c # s)) white_chars = None"
  unfolding find_None_iff
proof (rule notI, elim exE conjE)
  fix x assume "byte_in 0x21 0x7E c" "x \<in> set white_chars" "prefix x (c # s)"
  with white_first [of x] show False by (cases x) auto
qed

lemma split_words_plain:
  "list_all (byte_in 0x21 0x7E) w \<Longrightarrow> split_words cur (w @ r) = split_words (cur @ w) r"
proof (induction w arbitrary: cur)
  case (Cons c w)
  have "find (\<lambda>x. prefix x (c # w @ r)) white_chars = None"
    using Cons.prems by (intro no_white_prefix) simp
  then show ?case using Cons by simp
qed simp

lemma digits_plain: "all_digits s \<Longrightarrow> list_all (byte_in 0x21 0x7E) s"
  by (auto simp: all_digits_def byte_in_def list_all_iff)

lemma show_int_plain: "list_all (byte_in 0x21 0x7E) (show_int i)"
  using digits_plain [OF all_digits_show_nat] by (auto simp: show_int_def byte_in_def)

lemma show_int_nonempty [simp]: "show_int i \<noteq> []"
  by (simp add: show_int_def)

lemma split_ledger: "split_words [] (show_nat n @ '' '' @ show_int i) = [show_nat n, show_int i]"
proof -
  have space: "find (\<lambda>x. prefix x (CHR '' '' # r)) white_chars = Some '' ''" for r :: string
    by (simp add: white_chars_def)
  have "split_words [] (show_int i) = [show_int i]"
    using split_words_plain [OF show_int_plain, of "[]" i "[]"] by simp
  then show ?thesis
    using split_words_plain [OF digits_plain [OF all_digits_show_nat], of "[]" n "'' '' @ show_int i"] space
    by simp
qed

lemma ledger_utf8: "valid_utf8 (show_nat n @ '' '' @ show_int i)"
  using digits_plain [OF all_digits_show_nat, of n] show_int_plain [of i]
  by (intro ascii_valid) (auto simp: list_all_iff byte_in_def)

lemma resume_attempts_noted:
  assumes "note_resume_attempt chat at_ms since True st = (n, st')" "n < 2 ^ 32" "- (2 ^ 63) \<le> at_ms" "at_ms < 2 ^ 63"
  shows "n = resume_attempts chat since st + 1 \<and> resume_attempts chat since' st' = (if at_ms < since' then 0 else n)"
proof -
  from assms(1) have n: "n = resume_attempts chat since st + 1"
    and st': "st' = st\<lparr>rj_resume := AList.update (sanitize_id chat) (show_nat n @ '' '' @ show_int at_ms) (rj_resume st)\<rparr>"
    by (auto simp: note_resume_attempt_def Let_def)
  have look: "map_of (rj_resume st') (sanitize_id chat) = Some (show_nat n @ '' '' @ show_int at_ms)"
    by (simp add: st' update_conv')
  show ?thesis
    using n assms(2-4) unfolding resume_attempts_def [of chat since' st'] look
    by (simp only: option.case ledger_utf8 split_ledger Let_def list.case not_True_eq_False if_False
        parse_show_u32 parse_show_i64)
qed

definition revive :: "string \<Rightarrow> int \<Rightarrow> run_journal \<Rightarrow> int \<Rightarrow> run_journal" where
  "revive chat window st at_ms = snd (note_resume_attempt chat at_ms (at_ms - window) True st)"

text \<open>The ledger counts every revival of a chain in which each follows the last within the window,
  and only a quiet period as long as the window starts the count over, so an engine that crashes on
  a chat cannot revive it forever.\<close>

theorem revival_chain_counted:
  assumes "resume_attempts chat t st = 0" "ats = t0 # ts" "t = t0 - window"
    and "successively (\<lambda>a b. b - window \<le> a) ats"
    and "list_all (\<lambda>a. - (2 ^ 63) \<le> a \<and> a < 2 ^ 63) ats" "length ats < 2 ^ 32"
  shows "resume_attempts chat since (foldl (revive chat window) st ats) = (if last ats < since then 0 else length ats)"
proof -
  have chain: "resume_attempts chat since (foldl (revive chat window) st (rev xs))
      = (if hd xs < since then 0 else length xs)"
    if "xs \<noteq> []" "last xs = t0" "successively (\<lambda>a b. a - window \<le> b) xs"
      "list_all (\<lambda>a. - (2 ^ 63) \<le> a \<and> a < 2 ^ 63) xs" "length xs < 2 ^ 32" for xs since
    using that
  proof (induction xs arbitrary: since)
    case (Cons a xs)
    let ?st = "foldl (revive chat window) st (rev xs)"
    have before: "resume_attempts chat (a - window) ?st = length xs"
    proof (cases "xs = []")
      case True
      then show ?thesis using Cons.prems assms(1,3) by simp
    next
      case False
      then have "a - window \<le> hd xs" using Cons.prems(3) by (cases xs) auto
      then show ?thesis using Cons False by (cases xs) auto
    qed
    obtain n st' where noted: "note_resume_attempt chat a (a - window) True ?st = (n, st')" by fastforce
    then have "n = Suc (length xs)" using before noted by (auto simp: note_resume_attempt_def Let_def)
    moreover have "foldl (revive chat window) st (rev (a # xs)) = st'" using noted by (simp add: revive_def)
    ultimately show ?case
      using resume_attempts_noted [OF noted, of since] Cons.prems(4,5) by simp
  qed simp
  have "successively (\<lambda>a b. a - window \<le> b) (rev ats)" using assms(4) by (subst successively_rev) simp
  moreover have "rev ats \<noteq> []" "last (rev ats) = t0" using assms(2) by simp_all
  moreover have "list_all (\<lambda>a. - (2 ^ 63) \<le> a \<and> a < 2 ^ 63) (rev ats)" using assms(5) by (simp only: list_all_rev)
  moreover have "length (rev ats) < 2 ^ 32" using assms(6) by (simp only: length_rev)
  ultimately have "resume_attempts chat since (foldl (revive chat window) st (rev (rev ats)))
      = (if hd (rev ats) < since then 0 else length (rev ats))"
    by (intro chain)
  then show ?thesis by (simp add: hd_rev)
qed

theorem revival_chain_counted_witness:
  "resume_attempts ''c'' 0 (foldl (revive ''c'' 5) empty_journal [1, 4, 9]) = 3"
proof -
  have "resume_attempts ''c'' (- 4) empty_journal = 0" by (simp add: resume_attempts_def empty_journal_def)
  from revival_chain_counted [OF this, of "[1, 4, 9]" 1 "[4, 9]" 5 0] show ?thesis by simp
qed

section \<open>Where it breaks\<close>

lemma collect_lines_invalid:
  "l \<in> set ls \<Longrightarrow> \<not> valid_utf8 l \<Longrightarrow> collect_lines cd ls = Inl JournalIo"
proof (induction ls)
  case (Cons a ls)
  then show ?case by (cases "collect_lines cd ls") (auto split: sum.splits)
qed simp

lemma valid_utf8_strip_cr: "valid_utf8 (strip_cr l) = valid_utf8 l"
proof (cases "l \<noteq> [] \<and> last l = CHR 0x0D")
  case True
  then obtain b where "l = b @ [CHR 0x0D]" by (cases l rule: rev_cases) auto
  moreover have "valid_utf8 (b @ [CHR 0x0D]) = valid_utf8 b"
    by (rule valid_utf8_snoc_ascii) (simp add: byte_in_def)
  ultimately show ?thesis by (simp add: strip_cr_def)
qed (auto simp: strip_cr_def)

text \<open>A crash that cuts a line inside a multi-byte character breaks every later replay of the chat:
  whatever is appended after it, the forward reader fails on that line, while the backward reader
  skips it and goes on.\<close>

theorem torn_character_blocks_replay:
  assumes "l \<in> set (pieces f)" "\<not> valid_utf8 l"
  shows "read_lines cd (Some (on_new_line f t)) = Inl JournalIo
    \<and> rev_events cd (Some (on_new_line f t)) = rev_events cd (Some t) @ rev_events cd (Some f)"
proof
  show "rev_events cd (Some (on_new_line f t)) = rev_events cd (Some t) @ rev_events cd (Some f)"
    by (simp add: rev_events_Some line_events_new_line)
  obtain g r where split: "on_new_line f t = g @ NL # r" "l \<in> set (pieces g)"
  proof (cases "mid_line f")
    case True
    then show thesis using that [of f t] assms(1) by (simp add: on_new_line_def)
  next
    case False
    have "f \<noteq> []" using assms by auto
    with False obtain g where f: "f = g @ [NL]" by (cases f rule: rev_cases) (auto simp: mid_line_def)
    then have "l \<in> set (pieces g)" using assms by (auto simp: pieces_append_line [of g "[]", simplified])
    then show thesis using that [of g t] False f by (simp add: on_new_line_def)
  qed
  then have "l \<in> set (butlast (pieces (on_new_line f t)))"
    by (simp add: pieces_append_line butlast_append)
  then have "strip_cr l \<in> set (text_lines (on_new_line f t))" by (auto simp: text_lines_pieces)
  then show "read_lines cd (Some (on_new_line f t)) = Inl JournalIo"
    using collect_lines_invalid [of "strip_cr l"] assms(2) by (simp add: read_lines_def valid_utf8_strip_cr)
qed

theorem torn_character_blocks_replay_witness:
  "read_lines unary_codec (Some (on_new_line [CHR ''s'', CHR 0xC3] ''s.'')) = Inl JournalIo"
  using torn_character_blocks_replay [of "[CHR ''s'', CHR 0xC3]" "[CHR ''s'', CHR 0xC3]" unary_codec "''s.''"]
  by (simp add: valid_utf8_def utf8_char_def byte_in_def cont_byte_def)

text \<open>An append that fails part-way (a full disk) leaves its bytes but not the memory of them: the next
  append reports success, is glued to the fragment, and is lost to every reader.\<close>

theorem failed_append_swallows_next:
  "(case append_event unary_codec ''c'' 1 True (Some (Suc 1)) empty_journal of
      (r1, st1) \<Rightarrow> (case append_event unary_codec ''c'' 1 True None st1 of
        (r2, st2) \<Rightarrow> r1 = Inl JournalIo \<and> r2 = Inr 1 \<and> events_rev unary_codec ''c'' st2 = []))"
  by (simp add: append_event_def open_journal_def empty_journal_def journal_file_def scan_tail_def rev_open_def
      Let_def line_bytes_def unary_codec_def sanitize_id_def events_rev_def rev_events_Some line_events_def
      List.map_filter_simps line_event_def valid_utf8_def utf8_char_def byte_in_def cont_byte_def parse_line_def)

text \<open>The consumed-steer record has no such repair either: after a torn id the next one is not recognised.\<close>

lemma torn_steer_hides_next:
  "\<not> steer_consumed ''c'' ''m2''
     (note_steer_consumed ''c'' ''m2'' None (note_steer_consumed ''c'' ''m1'' (Some 1) empty_journal))"
  by (simp add: steer_consumed_def note_steer_consumed_def empty_journal_def Let_def text_lines_def
      trim_def trim_start_id trim_end_id blank_eval suffix_def strip_cr_def)

end
