(* ===== verification/Run_Requests.thy ===== *)
theory Run_Requests
  imports Workspace_View
begin

text \<open>
  The request that starts a run of an agent, \<open>crates/proto/src/agent.rs\<close>: the durable command
  queue carries it, the chat's dispatch resolves it, an account failover derives the next one from it.
\<close>

record provider_fork =
  pf_session_id :: string
  pf_last_turn :: string
  pf_fallback_history :: "string option"

record worktree_spec =
  wt_repo_path :: string
  wt_base :: string
  wt_space_id :: "string option"

record mcp_server =
  ms_name :: string
  ms_command :: string
  ms_args :: "string list"
  ms_env :: "(string \<times> string) list"

record run_request =
  rq_prompt :: string
  rq_harness :: "harness_id option"
  rq_model :: "string option"
  rq_reasoning :: "reasoning_level option"
  rq_model_options :: "(string \<times> json) list"
  rq_cwd :: string
  rq_sandbox :: sandbox_level
  rq_auto_approve :: bool
  rq_resume :: "string option"
  rq_fallback_history :: "string option"
  rq_provider_fork :: "provider_fork option"
  rq_attachments :: "string list"
  rq_worktree :: "worktree_spec option"
  rq_mcp :: "mcp_server option"
  rq_env :: "(string \<times> string) list"

end
