(* ===== verification/Provider_Sessions.thy ===== *)
theory Provider_Sessions
  imports Transcript_Budget Run_Requests "HOL-Library.AList"
begin

text \<open>
  Which provider session a run of a chat resumes, in \<open>crates/engine/src/sessions.rs\<close>: the live
  session cache, the chat row, the journal scan, the marks of a chat that changed provider
  (\<open>crates/doc/src/schema.rs\<close>), the seams of a switch, and the history a session is handed.
  One record holds what these operations read and write of one chat. Path canonicalisation is
  a parameter; identifiers, clocks and the answers of the rest of the engine are inputs.
\<close>

section \<open>State\<close>

record session_ref =
  sf_session_id :: string
  sf_cwd :: string
  sf_harness :: "harness_id option"

record session_mark =
  pm_session_id :: string
  pm_cwd :: string
  pm_seen :: "string option"

record provider_chat =
  pv_cached :: "session_ref option"
  pv_rejected :: "string list"
  pv_fresh_notice :: bool
  pv_registry :: bool
  pv_config :: "harness_id option"
  pv_row :: "(string \<times> string option) option"
  pv_journal :: "(nat \<times> agent_event) list" \<comment> \<open>oldest first\<close>
  pv_entries :: "message_entry list"
  pv_switched :: bool
  pv_marks :: "(string \<times> session_mark) list"
  pv_delivered :: "string option"
  pv_fork :: "provider_fork option"

section \<open>The journal scan\<close>

text \<open>The loop of \<open>journal_harness_session\<close> over the events, newest first.\<close>

fun scan_back :: "string option \<Rightarrow> (nat \<times> agent_event) list \<Rightarrow> (string \<times> string \<times> harness_id option) option" where
  "scan_back done_id [] = map_option (\<lambda>i. (i, [], None)) done_id"
| "scan_back done_id ((seq, event) # older) =
     (if seq = 0 then scan_back done_id older
      else case event of
             SessionStarted harness _ _ cwd session_id _ \<Rightarrow>
               (case done_id of
                  Some i \<Rightarrow> Some (i, cwd, Some harness)
                | None \<Rightarrow>
                    if session_id \<noteq> [] then Some (session_id, cwd, Some harness) else scan_back None older)
           | Done _ _ _ (Some session_id) \<Rightarrow>
               scan_back (if done_id = None \<and> session_id \<noteq> [] then Some session_id else done_id) older
           | _ \<Rightarrow> scan_back done_id older)"

definition journal_harness_session :: "provider_chat \<Rightarrow> (string \<times> string \<times> harness_id option) option" where
  "journal_harness_session c = scan_back None (rev (pv_journal c))"

text \<open>
  What it must answer: a replay from the oldest event, which keeps the run's directory and
  harness and the newest session named, a \<open>Done\<close> taking the directory of its run.
\<close>

definition replay_step ::
    "(string \<times> harness_id option) \<times> (string \<times> string \<times> harness_id option) option \<Rightarrow> nat \<times> agent_event
      \<Rightarrow> (string \<times> harness_id option) \<times> (string \<times> string \<times> harness_id option) option" where
  "replay_step st ev =
     (case (st, snd ev) of
        ((run, found), SessionStarted harness _ _ cwd session_id _) \<Rightarrow>
          ((cwd, Some harness), if session_id \<noteq> [] then Some (session_id, cwd, Some harness) else found)
      | ((run, found), Done _ _ _ (Some session_id)) \<Rightarrow>
          (run, if session_id \<noteq> [] then Some (session_id, fst run, snd run) else found)
      | (_, _) \<Rightarrow> st)"

definition replay_session :: "(nat \<times> agent_event) list \<Rightarrow> (string \<times> string \<times> harness_id option) option" where
  "replay_session events = snd (foldl replay_step (([], None), None) events)"

section \<open>Remembering and resuming\<close>

definition remember_harness_session :: "string \<Rightarrow> string \<Rightarrow> harness_id option \<Rightarrow> provider_chat \<Rightarrow> provider_chat" where
  "remember_harness_session session_id cwd harness c =
     (if session_id = [] then c
      else let c1 = c\<lparr>pv_cached := Some \<lparr>sf_session_id = session_id, sf_cwd = cwd, sf_harness = harness\<rparr>\<rparr>
           in if pv_registry c then c1\<lparr>pv_row := Some (session_id, Some cwd)\<rparr> else c1)"

definition cwd_ok :: "(string \<Rightarrow> string option) \<Rightarrow> string \<Rightarrow> string \<Rightarrow> bool" where
  "cwd_ok canon cwd session_cwd \<longleftrightarrow>
     session_cwd = [] \<or> session_cwd = cwd \<or> (canon session_cwd \<noteq> None \<and> canon session_cwd = canon cwd)"

definition foreign :: "harness_id option \<Rightarrow> harness_id \<Rightarrow> bool" where
  "foreign recorded for_harness \<longleftrightarrow> (case recorded of None \<Rightarrow> False | Some h \<Rightarrow> h \<noteq> for_harness)"

definition resume_from_journal ::
    "(string \<Rightarrow> string option) \<Rightarrow> string \<Rightarrow> harness_id \<Rightarrow> provider_chat \<Rightarrow> string option \<times> provider_chat" where
  "resume_from_journal canon cwd for_harness c =
     (case journal_harness_session c of
        None \<Rightarrow> (None, c)
      | Some (session_id, session_cwd, owner) \<Rightarrow>
          if foreign owner for_harness then (None, c)
          else (if cwd_ok canon cwd session_cwd then Some session_id else None,
                remember_harness_session session_id session_cwd owner c))"

definition resume_from_row ::
    "(string \<Rightarrow> string option) \<Rightarrow> string \<Rightarrow> harness_id \<Rightarrow> provider_chat \<Rightarrow> string option \<times> provider_chat" where
  "resume_from_row canon cwd for_harness c =
     (let row_harness = (case pv_config c of
            Some h \<Rightarrow> Some h | None \<Rightarrow> Option.bind (pv_cached c) sf_harness)
      in case (if pv_registry c then pv_row c else None) of
           Some (session_id, session_cwd) \<Rightarrow>
             if foreign row_harness for_harness then resume_from_journal canon cwd for_harness c
             else (if session_id \<noteq> [] \<and> cwd_ok canon cwd (case session_cwd of None \<Rightarrow> [] | Some d \<Rightarrow> d)
                   then Some session_id else None, c)
         | None \<Rightarrow> resume_from_journal canon cwd for_harness c)"

definition resume_for ::
    "(string \<Rightarrow> string option) \<Rightarrow> string \<Rightarrow> harness_id \<Rightarrow> provider_chat \<Rightarrow> string option \<times> provider_chat" where
  "resume_for canon cwd for_harness c =
     (case pv_cached c of
        Some known \<Rightarrow>
          if foreign (sf_harness known) for_harness then resume_from_row canon cwd for_harness c
          else (if sf_session_id known \<noteq> [] \<and> cwd_ok canon cwd (sf_cwd known)
                then Some (sf_session_id known) else None, c)
      | None \<Rightarrow> resume_from_row canon cwd for_harness c)"

definition own_provider_session :: "(string \<Rightarrow> string option) \<Rightarrow> harness_id \<Rightarrow> string \<Rightarrow> provider_chat \<Rightarrow> string option" where
  "own_provider_session canon harness cwd c =
     (if \<not> pv_switched c then None
      else case map_of (pv_marks c) (harness_as_str harness) of
             None \<Rightarrow> None
           | Some mark \<Rightarrow>
               if pm_session_id mark \<noteq> [] \<and> cwd_ok canon cwd (pm_cwd mark) then Some (pm_session_id mark) else None)"

definition resume_was_rejected :: "string \<Rightarrow> provider_chat \<Rightarrow> bool" where
  "resume_was_rejected session_id c \<longleftrightarrow> List.member (pv_rejected c) session_id"

definition reject_resume :: "string option \<Rightarrow> harness_id \<Rightarrow> string \<Rightarrow> provider_chat \<Rightarrow> provider_chat" where
  "reject_resume session_id harness cwd c =
     c\<lparr>pv_cached := Some \<lparr>sf_session_id = [], sf_cwd = cwd, sf_harness = Some harness\<rparr>,
       pv_rejected := (case session_id of
          Some i \<Rightarrow> if i \<noteq> [] then List.insert i (pv_rejected c) else pv_rejected c
        | None \<Rightarrow> pv_rejected c),
       pv_fresh_notice := True\<rparr>"

text \<open>The session a dispatch injects when its request names none.\<close>

definition injected_resume ::
    "(string \<Rightarrow> string option) \<Rightarrow> string \<Rightarrow> harness_id \<Rightarrow> provider_chat \<Rightarrow> string option \<times> provider_chat" where
  "injected_resume canon cwd harness c =
     (let live = (\<lambda>i. if resume_was_rejected i c then None else Some i);
          (found, c1) = resume_for canon cwd harness c
      in (case Option.bind found live of
            Some i \<Rightarrow> Some i
          | None \<Rightarrow> Option.bind (own_provider_session canon harness cwd c) live, c1))"

section \<open>Seams\<close>

definition is_fork_seam :: "message_entry \<Rightarrow> bool" where
  "is_fork_seam e \<longleftrightarrow> list_ex (\<lambda>p. case p of ForkPart _ _ _ \<Rightarrow> True | _ \<Rightarrow> False) (e_parts e)"

definition is_harness_switch_seam :: "message_entry \<Rightarrow> bool" where
  "is_harness_switch_seam e \<longleftrightarrow> list_ex (\<lambda>p. case p of HarnessSwitchPart _ _ _ \<Rightarrow> True | _ \<Rightarrow> False) (e_parts e)"

definition is_history_seam :: "message_entry \<Rightarrow> bool" where
  "is_history_seam e \<longleftrightarrow> is_fork_seam e \<or> is_harness_switch_seam e"

definition fork_seam_source :: "message_entry \<Rightarrow> string option" where
  "fork_seam_source e = find_map (\<lambda>p. case p of ForkPart _ source _ \<Rightarrow> Some source | _ \<Rightarrow> None) (e_parts e)"

definition seam_harness :: "message_entry \<Rightarrow> harness_id option" where
  "seam_harness e = find_map (\<lambda>p. case p of HarnessSwitchPart _ h _ \<Rightarrow> Some h | _ \<Rightarrow> None) (e_parts e)"

definition seam_entry :: "string \<Rightarrow> harness_id \<Rightarrow> harness_id option \<Rightarrow> int \<Rightarrow> string \<Rightarrow> message_entry" where
  "seam_entry uuid harness previous now device =
     (let marker_id = ''switch:'' @ uuid
      in \<lparr>e_id = marker_id, e_role = SystemRole, e_parts = [HarnessSwitchPart marker_id harness previous],
          e_created_at = now, e_device_id = device, e_status = Some Complete, e_continuation_of = None,
          e_duration_ms = None, e_origin_chat_id = None, e_provider_turn = None\<rparr>)"

text \<open>The entry a session has seen through: the newest that is no user message.\<close>

definition seen_through :: "message_entry list \<Rightarrow> string option" where
  "seen_through es = map_option (\<lambda>ix. e_id (es ! ix)) (rposition (\<lambda>e. e_role e \<noteq> UserRole) es)"

definition set_provider_session :: "harness_id \<Rightarrow> session_mark \<Rightarrow> provider_chat \<Rightarrow> provider_chat" where
  "set_provider_session harness mark c = c\<lparr>pv_marks := AList.update (harness_as_str harness) mark (pv_marks c)\<rparr>"

definition record_outgoing :: "harness_id \<Rightarrow> session_ref \<Rightarrow> provider_chat \<Rightarrow> provider_chat" where
  "record_outgoing harness known c =
     (case seen_through (pv_entries c) of
        None \<Rightarrow> c
      | Some seen \<Rightarrow>
          if sf_session_id known = [] then c
          else set_provider_session harness
            \<lparr>pm_session_id = sf_session_id known, pm_cwd = sf_cwd known, pm_seen = Some seen\<rparr> c)"

definition previous_provider :: "provider_chat \<Rightarrow> harness_id option" where
  "previous_provider c =
     (case find_map seam_harness (takeWhile (\<lambda>e. \<not> is_fork_seam e) (rev (pv_entries c))) of
        Some h \<Rightarrow> Some h
      | None \<Rightarrow>
          (case (if pv_registry c then pv_config c else None) of
             Some h \<Rightarrow> Some h
           | None \<Rightarrow> Option.bind (pv_cached c) sf_harness))"

definition note_provider_switch :: "harness_id \<Rightarrow> string \<Rightarrow> int \<Rightarrow> string \<Rightarrow> provider_chat \<Rightarrow> provider_chat" where
  "note_provider_switch harness uuid now device c =
     (case previous_provider c of
        None \<Rightarrow> c
      | Some previous \<Rightarrow>
          if previous = harness then c
          else let c1 = (case pv_cached c of
                 Some known \<Rightarrow>
                   if \<not> pv_switched c \<and> sf_harness known = Some previous then record_outgoing previous known c else c
               | None \<Rightarrow> c)
               in c1\<lparr>pv_switched := True,
                     pv_entries := insert_at (length (pv_entries c) - 1) (seam_entry uuid harness (Some previous) now device)
                       (pv_entries c)\<rparr>)"

datatype switch_error =
    RegistryUnavailable | ChatMissing | NotHost | TurnInFlight | HarnessUnknown | AlreadyOn | SeamWriteFailed

text \<open>
  What the engine answers a switch: the chat's row exists, this device hosts it, no turn is in
  flight, the harness is registered, the seam can be written.
\<close>

record switch_env =
  sw_chat :: bool
  sw_host :: bool
  sw_working :: bool
  sw_registered :: bool
  sw_writable :: bool
  sw_uuid :: string
  sw_now :: int
  sw_device :: string

definition switch_harness :: "switch_env \<Rightarrow> harness_id \<Rightarrow> provider_chat \<Rightarrow> (switch_error + unit) \<times> provider_chat" where
  "switch_harness env target c =
     (if \<not> pv_registry c then (Inl RegistryUnavailable, c)
      else if \<not> sw_chat env then (Inl ChatMissing, c)
      else if \<not> sw_host env then (Inl NotHost, c)
      else if sw_working env then (Inl TurnInFlight, c)
      else if \<not> sw_registered env then (Inl HarnessUnknown, c)
      else if pv_config c = Some target then (Inl AlreadyOn, c)
      else
        let c1 = c\<lparr>pv_fork := None\<rparr>;
            previous = (case pv_config c of Some h \<Rightarrow> Some h | None \<Rightarrow> Option.bind (pv_cached c) sf_harness);
            c2 = (case (previous, pv_cached c) of
                    (Some h, Some known) \<Rightarrow>
                      if sf_harness known = None \<or> sf_harness known = previous then record_outgoing h known c1 else c1
                  | _ \<Rightarrow> c1);
            c3 = c2\<lparr>pv_switched := True\<rparr>
        in if \<not> sw_writable env then (Inl SeamWriteFailed, c3)
           else (Inr (), c3\<lparr>pv_entries := pv_entries c @ [seam_entry (sw_uuid env) target previous (sw_now env) (sw_device env)],
                            pv_cached := None, pv_row := Some ([], Some []), pv_config := Some target\<rparr>))"

text \<open>\<open>Option\<close>'s order: a missing position is before every other.\<close>

definition later_position :: "nat option \<Rightarrow> nat option \<Rightarrow> bool" where
  "later_position a b \<longleftrightarrow> (case (a, b) of (Some i, Some j) \<Rightarrow> j < i | (Some _, None) \<Rightarrow> True | (None, _) \<Rightarrow> False)"

definition entry_position :: "message_entry list \<Rightarrow> string \<Rightarrow> nat option" where
  "entry_position es i = position (\<lambda>e. e_id e = i) es"

definition note_provider_session ::
    "harness_id \<Rightarrow> string \<Rightarrow> string \<Rightarrow> string option \<Rightarrow> provider_chat \<Rightarrow> provider_chat" where
  "note_provider_session harness session_id cwd through c =
     (if session_id = [] \<or> \<not> pv_switched c then c
      else
        let es = pv_entries c;
            seen = (case through of
                      Some i \<Rightarrow> map_option (\<lambda>_. i) (entry_position es i)
                    | None \<Rightarrow> (if es = [] then None else Some (e_id (last es))));
            old = (case map_of (pv_marks c) (harness_as_str harness) of
                     Some mark \<Rightarrow> if pm_session_id mark = session_id then pm_seen mark else None
                   | None \<Rightarrow> None);
            kept = (case (old, seen) of
                      (Some a, Some b) \<Rightarrow> if later_position (entry_position es a) (entry_position es b) then Some a else Some b
                    | (Some a, None) \<Rightarrow> Some a
                    | (None, new) \<Rightarrow> new)
        in set_provider_session harness \<lparr>pm_session_id = session_id, pm_cwd = cwd, pm_seen = kept\<rparr> c)"

section \<open>The history a session is handed\<close>

datatype provider_session = FreshSession | ContinuedSession "string option"

definition SWITCH_RESUME_LEAD :: string where
  "SWITCH_RESUME_LEAD = ''While you were away, this conversation continued with a different AI provider. ''
     @ ''The messages you missed are below; answer the final request as the continuation of the whole conversation.''"

definition SWITCH_TAKEOVER_LEAD :: string where
  "SWITCH_TAKEOVER_LEAD = ''This conversation was started with a different AI provider and you are now taking over. ''
     @ ''The earlier messages are below as context; answer the final request as the continuation of that conversation.''"

definition belongs_to :: "string option \<Rightarrow> message_entry \<Rightarrow> bool" where
  "belongs_to current e \<longleftrightarrow>
     (case current of None \<Rightarrow> False | Some i \<Rightarrow> e_id e = i \<or> e_continuation_of e = Some i)"

definition watermark :: "harness_id \<Rightarrow> provider_session \<Rightarrow> provider_chat \<Rightarrow> string option" where
  "watermark harness provider c =
     (case provider of
        FreshSession \<Rightarrow> None
      | ContinuedSession session \<Rightarrow>
          let mark = map_of (pv_marks c) (harness_as_str harness)
          in if pv_switched c
                \<and> (case session of None \<Rightarrow> True
                   | Some i \<Rightarrow> (case mark of None \<Rightarrow> False | Some m \<Rightarrow> pm_session_id m = i))
             then Option.bind mark pm_seen else None)"

text \<open>
  \<open>native\<close>: whether the provider routes the prompt as a native command; \<open>side_chat\<close>: whether the
  chat's row names a parent.
\<close>

definition fork_history_prefix ::
    "bool \<Rightarrow> bool \<Rightarrow> string \<Rightarrow> harness_id \<Rightarrow> string option \<Rightarrow> provider_session \<Rightarrow> provider_chat \<Rightarrow> string option" where
  "fork_history_prefix native side_chat chat_id harness current provider c =
     (if native then None
      else
        let entries = filter (\<lambda>e. \<not> belongs_to current e) (pv_entries c)
        in if \<not> side_chat \<and> \<not> list_ex is_harness_switch_seam entries then None
        else case (case provider of
                     FreshSession \<Rightarrow> Some (length entries)
                   | ContinuedSession session \<Rightarrow>
                       if session \<noteq> None \<and> pv_delivered c = session then None
                       else rposition is_history_seam entries) of
               None \<Rightarrow> None
             | Some end0 \<Rightarrow>
                 let mark = watermark harness provider c;
                     skip = (case Option.bind mark (entry_position entries) of None \<Rightarrow> 0 | Some ix \<Rightarrow> ix + 1);
                     owed = drop skip entries;
                     source = (case find_map fork_seam_source (rev owed) of None \<Rightarrow> chat_id | Some s \<Rightarrow> s);
                     lead = (if mark \<noteq> None then SWITCH_RESUME_LEAD
                             else if pv_switched c then SWITCH_TAKEOVER_LEAD else LEAD)
                 in budgeted_transcript_prefix_with_lead (take (end0 - skip) owed) (Some source) lead)"

definition fork_history_prompt ::
    "bool \<Rightarrow> bool \<Rightarrow> string \<Rightarrow> harness_id \<Rightarrow> string \<Rightarrow> string option \<Rightarrow> provider_session \<Rightarrow> provider_chat \<Rightarrow> string option" where
  "fork_history_prompt native side_chat chat_id harness prompt current provider c =
     map_option (\<lambda>prefix. prefix @ prompt) (fork_history_prefix native side_chat chat_id harness current provider c)"

definition note_fork_history_session :: "bool \<Rightarrow> string \<Rightarrow> provider_chat \<Rightarrow> provider_chat" where
  "note_fork_history_session carried session_id c =
     (if carried \<and> session_id \<noteq> [] then c\<lparr>pv_delivered := Some session_id\<rparr> else c)"

section \<open>The scan answers as the replay\<close>

lemma replay_step_pair:
  "replay_step (run, found) (seq, e) =
     (case e of
        SessionStarted harness _ _ cwd session_id _ \<Rightarrow>
          ((cwd, Some harness), if session_id \<noteq> [] then Some (session_id, cwd, Some harness) else found)
      | Done _ _ _ (Some session_id) \<Rightarrow> (run, if session_id \<noteq> [] then Some (session_id, fst run, snd run) else found)
      | _ \<Rightarrow> (run, found))"
  by (cases e) (auto simp: replay_step_def split: option.splits)

lemma scan_back_replay:
  assumes "list_all (\<lambda>(seq, _). 0 < seq) es"
  shows "scan_back None (rev es) = replay_session es"
    and "scan_back (Some i) (rev es) =
      (let run = fst (foldl replay_step (([], None), None) es) in Some (i, fst run, snd run))"
proof -
  have "scan_back None (rev es) = replay_session es
    \<and> (\<forall>i. scan_back (Some i) (rev es) =
        (let run = fst (foldl replay_step (([], None), None) es) in Some (i, fst run, snd run)))"
    using assms
  proof (induction es rule: rev_induct)
    case Nil
    then show ?case by (simp add: replay_session_def)
  next
    case (snoc ev es)
    obtain seq e where ev: "ev = (seq, e)" by (cases ev)
    obtain run found where st: "foldl replay_step (([], None), None) es = (run, found)" by fastforce
    from snoc have IH: "scan_back None (rev es) = found"
      "\<And>i. scan_back (Some i) (rev es) = Some (i, fst run, snd run)" and seq: "seq \<noteq> 0"
      by (auto simp: ev st replay_session_def)
    show ?case
      using IH seq unfolding replay_session_def foldl_append foldl.simps st ev replay_step_pair
      by (cases e) (simp_all add: Let_def split: option.splits)
  qed
  then show "scan_back None (rev es) = replay_session es"
    and "scan_back (Some i) (rev es) = (let run = fst (foldl replay_step (([], None), None) es) in Some (i, fst run, snd run))"
    by blast+
qed

text \<open>The newest-first scan for a chat's harness session, which stops at the first answer, gives what
  a replay of the whole journal gives: the newest session named, with the directory and the harness
  of the run that named it.\<close>

theorem journal_scan_matches_replay:
  assumes "list_all (\<lambda>(seq, _). 0 < seq) (pv_journal c)"
  shows "journal_harness_session c = replay_session (pv_journal c)"
  unfolding journal_harness_session_def using scan_back_replay(1) [OF assms] .

section \<open>Watermarks\<close>

lemma entry_position_some: "i \<in> e_id ` set es \<Longrightarrow> \<exists>k. entry_position es i = Some k"
  unfolding entry_position_def by (metis (mono_tags, lifting) image_iff not_None_eq position_None)

text \<open>A watermark never moves back within one provider session: whatever is recorded for the session
  again, it has seen at least as far as before.\<close>

theorem watermark_never_moves_back:
  assumes "map_of (pv_marks c) (harness_as_str h) = Some m" "pm_session_id m = sid" "sid \<noteq> []" "pv_switched c"
    and "pm_seen m = Some a" "entry_position (pv_entries c) a = Some i"
  shows "\<exists>m' b j. map_of (pv_marks (note_provider_session h sid cwd through c)) (harness_as_str h) = Some m'
    \<and> pm_session_id m' = sid \<and> pm_seen m' = Some b \<and> entry_position (pv_entries c) b = Some j \<and> i \<le> j"
proof -
  let ?es = "pv_entries c"
  define seen where "seen = (case through of
      Some k \<Rightarrow> map_option (\<lambda>_. k) (entry_position ?es k)
    | None \<Rightarrow> (if ?es = [] then None else Some (e_id (last ?es))))"
  have known: "\<exists>j. entry_position ?es b = Some j" if "seen = Some b" for b
    using that entry_position_some [of b ?es] by (auto simp: seen_def split: option.splits if_splits)
  define kept where "kept = (case seen of
      Some b \<Rightarrow> if later_position (entry_position ?es a) (entry_position ?es b) then Some a else Some b | None \<Rightarrow> Some a)"
  have "note_provider_session h sid cwd through c
      = set_provider_session h \<lparr>pm_session_id = sid, pm_cwd = cwd, pm_seen = kept\<rparr> c"
    using assms by (simp add: note_provider_session_def kept_def seen_def Let_def split: option.splits)
  then have m': "map_of (pv_marks (note_provider_session h sid cwd through c)) (harness_as_str h)
      = Some \<lparr>pm_session_id = sid, pm_cwd = cwd, pm_seen = kept\<rparr>"
    by (simp add: set_provider_session_def update_conv')
  moreover have "\<exists>b j. kept = Some b \<and> entry_position ?es b = Some j \<and> i \<le> j"
    using assms(6) known by (cases seen) (auto simp: kept_def later_position_def)
  ultimately show ?thesis by auto
qed

section \<open>A chat that changes provider\<close>

text \<open>
  One turn of a chat on its configured harness: the user's message, the dispatch, the events
  that name the provider session, the reply. \<open>Crash\<close> is a run that dies before it names a
  session, the engine restarting, and boot recovery, which drops the owner the journal scan
  found.
\<close>

record turn =
  tn_user :: message_entry
  tn_uuid :: string
  tn_now :: int
  tn_device :: string
  tn_cwd :: string
  tn_session_id :: string
  tn_session_cwd :: string
  tn_done :: "string option"
  tn_reply :: message_entry
  tn_carried :: bool
  tn_delivered :: bool

definition journaled :: "agent_event \<Rightarrow> provider_chat \<Rightarrow> provider_chat" where
  "journaled event c = c\<lparr>pv_journal := pv_journal c @ [(Suc (length (pv_journal c)), event)]\<rparr>"

definition session_started :: "harness_id \<Rightarrow> string \<Rightarrow> string \<Rightarrow> string \<Rightarrow> bool \<Rightarrow> bool \<Rightarrow> provider_chat \<Rightarrow> provider_chat" where
  "session_started harness session_id cwd user_id carried delivered c =
     (let c1 = note_fork_history_session carried session_id (remember_harness_session session_id cwd (Some harness) c)
      in if delivered then note_provider_session harness session_id cwd (Some user_id) c1 else c1)"

definition session_done :: "harness_id \<Rightarrow> string \<Rightarrow> string \<Rightarrow> bool \<Rightarrow> bool \<Rightarrow> provider_chat \<Rightarrow> provider_chat" where
  "session_done harness session_id run_cwd carried delivered c =
     (let c1 = note_fork_history_session carried session_id (remember_harness_session session_id run_cwd (Some harness) c)
      in if delivered then note_provider_session harness session_id run_cwd None c1 else c1)"

definition run_turn :: "(string \<Rightarrow> string option) \<Rightarrow> harness_id \<Rightarrow> turn \<Rightarrow> provider_chat \<Rightarrow> provider_chat" where
  "run_turn canon harness t c =
     (let c1 = note_provider_switch harness (tn_uuid t) (tn_now t) (tn_device t) (c\<lparr>pv_entries := pv_entries c @ [tn_user t]\<rparr>);
          c2 = journaled (SessionStarted harness [] [] (tn_session_cwd t) (tn_session_id t) [])
                 (snd (injected_resume canon (tn_cwd t) harness c1));
          c3 = session_started harness (tn_session_id t) (tn_session_cwd t) (e_id (tn_user t)) (tn_carried t) (tn_delivered t) c2;
          c4 = journaled (Done DoneCompleted None None (tn_done t)) (c3\<lparr>pv_entries := pv_entries c3 @ [tn_reply t]\<rparr>)
      in case tn_done t of
           None \<Rightarrow> c4
         | Some i \<Rightarrow> session_done harness i (tn_cwd t) (tn_carried t) (tn_delivered t) c4)"

definition recover_session :: "provider_chat \<Rightarrow> provider_chat" where
  "recover_session c =
     (case journal_harness_session c of
        None \<Rightarrow> c | Some (session_id, cwd, owner) \<Rightarrow> remember_harness_session session_id cwd None c)"

datatype provider_op =
    Turn harness_id turn
  | SwitchTo switch_env harness_id
  | RejectResume "string option" string
  | EngineRestart
  | CrashEarly agent_event

fun provider_step :: "(string \<Rightarrow> string option) \<Rightarrow> provider_chat \<Rightarrow> provider_op \<Rightarrow> provider_chat" where
  "provider_step canon c (Turn h t) = (if pv_config c = Some h then run_turn canon h t c else c)"
| "provider_step canon c (SwitchTo env h) = snd (switch_harness env h c)"
| "provider_step canon c (RejectResume i cwd) = (case pv_config c of None \<Rightarrow> c | Some h \<Rightarrow> reject_resume i h cwd c)"
| "provider_step canon c EngineRestart = c\<lparr>pv_cached := None, pv_rejected := [], pv_fresh_notice := False\<rparr>"
| "provider_step canon c (CrashEarly event) =
     recover_session ((journaled event c)\<lparr>pv_cached := None, pv_rejected := [], pv_fresh_notice := False\<rparr>)"

subsection \<open>Only its own sessions\<close>

text \<open>
  \<open>owner\<close> says which harness a session id was issued by. A legal operation names only sessions of
  the harness that runs, and no run dies before its session is known.
\<close>

fun issues_own :: "(string \<Rightarrow> harness_id) \<Rightarrow> provider_op \<Rightarrow> bool" where
  "issues_own owner (Turn h t) \<longleftrightarrow> owner (tn_session_id t) = h \<and> (case tn_done t of None \<Rightarrow> True | Some i \<Rightarrow> owner i = h)"
| "issues_own owner (CrashEarly _) \<longleftrightarrow> False"
| "issues_own owner _ \<longleftrightarrow> True"

definition owned :: "(string \<Rightarrow> harness_id) \<Rightarrow> string \<Rightarrow> harness_id \<Rightarrow> bool" where
  "owned owner i h \<longleftrightarrow> i = [] \<or> owner i = h"

text \<open>Every place a session id is kept names its own harness, and the row's is the configured one.\<close>

definition own_refs :: "(string \<Rightarrow> harness_id) \<Rightarrow> provider_chat \<Rightarrow> bool" where
  "own_refs owner c \<longleftrightarrow>
     pv_registry c \<and> pv_config c \<noteq> None
     \<and> (\<forall>r. pv_cached c = Some r \<longrightarrow> (\<exists>h. sf_harness r = Some h \<and> owned owner (sf_session_id r) h))
     \<and> (\<forall>i d h. pv_row c = Some (i, d) \<longrightarrow> pv_config c = Some h \<longrightarrow> owned owner i h)
     \<and> (\<forall>h m. map_of (pv_marks c) (harness_as_str h) = Some m \<longrightarrow> owned owner (pm_session_id m) h)
     \<and> (\<forall>i d tag. journal_harness_session c = Some (i, d, tag) \<longrightarrow> (\<exists>h. tag = Some h \<and> owned owner i h))"

lemma harness_as_str_inj [simp]: "harness_as_str g = harness_as_str h \<longleftrightarrow> g = h"
  by (metis harness_slug_roundtrip option.inject)

lemma own_refs_unrelated [simp]:
  "own_refs owner (c\<lparr>pv_entries := x\<rparr>) = own_refs owner c"
  "own_refs owner (c\<lparr>pv_delivered := y\<rparr>) = own_refs owner c"
  "own_refs owner (c\<lparr>pv_switched := b\<rparr>) = own_refs owner c"
  "own_refs owner (c\<lparr>pv_fork := f\<rparr>) = own_refs owner c"
  "own_refs owner (c\<lparr>pv_rejected := l\<rparr>) = own_refs owner c"
  "own_refs owner (c\<lparr>pv_fresh_notice := n\<rparr>) = own_refs owner c"
  by (simp_all add: own_refs_def journal_harness_session_def)

lemma own_refs_remember:
  assumes "own_refs owner c" "pv_config c = Some h" "owned owner i h"
  shows "own_refs owner (remember_harness_session i d (Some h) c)"
  using assms by (auto simp: own_refs_def remember_harness_session_def journal_harness_session_def Let_def)

lemma own_refs_mark:
  assumes "own_refs owner c" "owned owner (pm_session_id m) h"
  shows "own_refs owner (set_provider_session h m c)"
  using assms by (auto simp: own_refs_def set_provider_session_def journal_harness_session_def update_conv' split: if_splits)

lemma remember_config [simp]:
  "pv_config (remember_harness_session i d t c) = pv_config c"
  "pv_registry (remember_harness_session i d t c) = pv_registry c"
  "pv_marks (remember_harness_session i d t c) = pv_marks c"
  "pv_switched (remember_harness_session i d t c) = pv_switched c"
  "pv_entries (remember_harness_session i d t c) = pv_entries c"
  by (simp_all add: remember_harness_session_def Let_def)

lemma own_refs_journal_resume:
  assumes "own_refs owner c" "pv_config c = Some h"
  shows "own_refs owner (snd (resume_from_journal canon cwd h c))
    \<and> (\<forall>i. fst (resume_from_journal canon cwd h c) = Some i \<longrightarrow> owned owner i h)"
proof (cases "journal_harness_session c")
  case (Some a)
  obtain i d tag where a: "a = (i, d, tag)" by (cases a)
  with Some assms obtain g where "tag = Some g" "owned owner i g" by (fastforce simp: own_refs_def)
  then show ?thesis
    using Some a assms own_refs_remember [OF assms, of i d]
    by (auto simp: resume_from_journal_def foreign_def split: if_splits)
qed (use assms in \<open>simp add: resume_from_journal_def\<close>)

lemma own_refs_row_resume:
  assumes "own_refs owner c" "pv_config c = Some h"
  shows "own_refs owner (snd (resume_from_row canon cwd h c))
    \<and> (\<forall>i. fst (resume_from_row canon cwd h c) = Some i \<longrightarrow> owned owner i h)"
proof (cases "pv_row c")
  case None
  then show ?thesis using own_refs_journal_resume [OF assms] by (simp add: resume_from_row_def)
next
  case (Some a)
  then have "owned owner (fst a) h" using assms by (cases a) (auto simp: own_refs_def)
  with Some assms show ?thesis by (cases a) (auto simp: resume_from_row_def foreign_def own_refs_def)
qed

lemma own_refs_resume:
  assumes "own_refs owner c" "pv_config c = Some h"
  shows "own_refs owner (snd (resume_for canon cwd h c))
    \<and> (\<forall>i. fst (resume_for canon cwd h c) = Some i \<longrightarrow> owned owner i h)"
proof (cases "pv_cached c")
  case None
  then show ?thesis using own_refs_row_resume [OF assms] by (simp add: resume_for_def)
next
  case (Some r)
  with assms obtain g where "sf_harness r = Some g" "owned owner (sf_session_id r) g" by (fastforce simp: own_refs_def)
  with Some show ?thesis
    using own_refs_row_resume [OF assms] assms by (auto simp: resume_for_def foreign_def)
qed

lemma scan_back_nonempty:
  "scan_back d es = Some (i, cwd, tag) \<Longrightarrow> d \<noteq> Some [] \<Longrightarrow> i \<noteq> []"
  by (induction d es rule: scan_back.induct) (auto split: if_splits agent_event.splits option.splits)

lemma journal_session_nonempty [simp]: "journal_harness_session c \<noteq> Some ([], cwd, tag)"
  unfolding journal_harness_session_def using scan_back_nonempty [of None] by blast

lemma resume_from_row_nonempty:
  "fst (resume_from_row canon cwd h c) = Some i \<Longrightarrow> i \<noteq> []"
  by (auto simp: resume_from_row_def resume_from_journal_def Let_def
      split: option.splits if_splits)

lemma resume_for_nonempty: "fst (resume_for canon cwd h c) = Some i \<Longrightarrow> i \<noteq> []"
  by (auto simp: resume_for_def dest: resume_from_row_nonempty split: option.splits if_splits)

lemma resume_for_config [simp]:
  "pv_config (snd (resume_for canon cwd h c)) = pv_config c"
  "pv_registry (snd (resume_for canon cwd h c)) = pv_registry c"
  "pv_marks (snd (resume_for canon cwd h c)) = pv_marks c"
  "pv_switched (snd (resume_for canon cwd h c)) = pv_switched c"
  "pv_entries (snd (resume_for canon cwd h c)) = pv_entries c"
  by (auto simp: resume_for_def resume_from_row_def resume_from_journal_def Let_def split: option.splits)

lemma injected_state [simp]: "snd (injected_resume canon cwd h c) = snd (resume_for canon cwd h c)"
  by (simp add: injected_resume_def Let_def split: prod.splits)

text \<open>What a dispatch on the configured harness resumes is that harness's own, live session.\<close>

lemma injected_own:
  assumes "own_refs owner c" "pv_config c = Some h" "fst (injected_resume canon cwd h c) = Some i"
  shows "i \<noteq> [] \<and> owner i = h \<and> \<not> resume_was_rejected i c"
proof -
  let ?found = "fst (resume_for canon cwd h c)"
  from assms(3) have cases: "(?found = Some i \<or> own_provider_session canon h cwd c = Some i) \<and> \<not> resume_was_rejected i c"
    by (auto simp: injected_resume_def Let_def split: prod.splits option.splits if_splits Option.bind_splits)
  have "owned owner i h \<and> i \<noteq> []"
  proof (cases "?found = Some i")
    case True
    then show ?thesis using own_refs_resume [OF assms(1,2)] resume_for_nonempty by blast
  next
    case False
    with cases have "own_provider_session canon h cwd c = Some i" by blast
    then show ?thesis
      using assms(1) by (auto simp: own_provider_session_def own_refs_def split: if_splits option.splits)
  qed
  with cases show ?thesis unfolding owned_def by blast
qed

lemma own_refs_outgoing:
  assumes "own_refs owner c" "owned owner (sf_session_id known) h"
  shows "own_refs owner (record_outgoing h known c)"
  using assms by (auto simp: record_outgoing_def intro: own_refs_mark split: option.splits)

lemma set_provider_config [simp]:
  "pv_config (set_provider_session h m c) = pv_config c" "pv_switched (set_provider_session h m c) = pv_switched c"
  "pv_entries (set_provider_session h m c) = pv_entries c" "pv_cached (set_provider_session h m c) = pv_cached c"
  "pv_journal (set_provider_session h m c) = pv_journal c" "pv_registry (set_provider_session h m c) = pv_registry c"
  by (simp_all add: set_provider_session_def)

lemma record_outgoing_config [simp]:
  "pv_config (record_outgoing h known c) = pv_config c" "pv_switched (record_outgoing h known c) = pv_switched c"
  "pv_entries (record_outgoing h known c) = pv_entries c" "pv_registry (record_outgoing h known c) = pv_registry c"
  by (simp_all add: record_outgoing_def split: option.splits)

lemma own_refs_switch_noted:
  assumes "own_refs owner c"
  shows "own_refs owner (note_provider_switch h uuid now dev c)"
proof -
  have "own_refs owner (record_outgoing g r c)" if "pv_cached c = Some r" "sf_harness r = Some g" for g r
    using assms that by (intro own_refs_outgoing) (auto simp: own_refs_def)
  then show ?thesis
    using assms unfolding note_provider_switch_def by (auto simp: Let_def split: option.splits)
qed

lemma note_provider_switch_config [simp]:
  "pv_config (note_provider_switch h uuid now dev c) = pv_config c"
  by (auto simp: note_provider_switch_def Let_def split: option.splits)

lemma own_refs_note_session:
  assumes "own_refs owner c" "owned owner i h"
  shows "own_refs owner (note_provider_session h i cwd through c)"
  unfolding note_provider_session_def Let_def using assms by (auto intro: own_refs_mark)

lemma note_provider_session_config [simp]:
  "pv_config (note_provider_session h i cwd through c) = pv_config c"
  "pv_journal (note_provider_session h i cwd through c) = pv_journal c"
  by (simp_all add: note_provider_session_def Let_def)

lemma note_fork_history_simps [simp]:
  "own_refs owner (note_fork_history_session b i c) = own_refs owner c"
  "pv_config (note_fork_history_session b i c) = pv_config c"
  "pv_journal (note_fork_history_session b i c) = pv_journal c"
  by (simp_all add: note_fork_history_session_def)

lemma remember_journal [simp]: "pv_journal (remember_harness_session i d t c) = pv_journal c"
  by (simp add: remember_harness_session_def Let_def)

lemma own_refs_session_events:
  assumes "own_refs owner c" "pv_config c = Some h" "owned owner i h"
  shows "own_refs owner (session_started h i cwd uid carried delivered c)"
    and "own_refs owner (session_done h i cwd carried delivered c)"
  using own_refs_remember [OF assms, of cwd] assms(3)
  by (auto simp: session_started_def session_done_def Let_def intro!: own_refs_note_session)

lemma session_events_config [simp]:
  "pv_config (session_started h i cwd uid carried delivered c) = pv_config c"
  "pv_journal (session_started h i cwd uid carried delivered c) = pv_journal c"
  by (simp_all add: session_started_def Let_def)

lemma own_refs_journaled:
  assumes "own_refs owner c"
    and "\<And>i d tag. journal_harness_session (journaled ev c) = Some (i, d, tag) \<Longrightarrow> \<exists>h. tag = Some h \<and> owned owner i h"
  shows "own_refs owner (journaled ev c)"
  using assms unfolding own_refs_def by (simp add: journaled_def journal_harness_session_def)

lemma own_refs_started:
  assumes "own_refs owner c" "owned owner i h"
  shows "own_refs owner (journaled (SessionStarted h a b cwd i x) c)"
  using assms(1)
proof (rule own_refs_journaled)
  fix j d tag assume "journal_harness_session (journaled (SessionStarted h a b cwd i x) c) = Some (j, d, tag)"
  then show "\<exists>h. tag = Some h \<and> owned owner j h"
    using assms by (auto simp: journal_harness_session_def journaled_def own_refs_def split: if_splits)
qed

lemma own_refs_done:
  assumes "own_refs owner c" "pv_journal c = older @ [(s, SessionStarted h a b cwd i0 x)]" "s \<noteq> 0"
    and "\<forall>i. d = Some i \<longrightarrow> owned owner i h"
  shows "own_refs owner (journaled (Done st r e d) c)"
  using assms(1)
proof (rule own_refs_journaled)
  fix j dir tag assume j: "journal_harness_session (journaled (Done st r e d) c) = Some (j, dir, tag)"
  have "journal_harness_session (journaled (Done st r e d) c)
      = (case d of Some i \<Rightarrow> if i \<noteq> [] then Some (i, cwd, Some h) else journal_harness_session c
         | None \<Rightarrow> journal_harness_session c)"
    using assms(3) by (auto simp: journal_harness_session_def journaled_def assms(2) split: option.splits)
  with j show "\<exists>h. tag = Some h \<and> owned owner j h"
    using assms(1,4) by (auto simp: own_refs_def split: option.splits if_splits)
qed

lemma own_refs_turn:
  assumes "own_refs owner c" "pv_config c = Some h" "issues_own owner (Turn h t)"
  shows "own_refs owner (run_turn canon h t c)"
proof -
  define c1 where "c1 = note_provider_switch h (tn_uuid t) (tn_now t) (tn_device t) (c\<lparr>pv_entries := pv_entries c @ [tn_user t]\<rparr>)"
  define cr where "cr = snd (resume_for canon (tn_cwd t) h c1)"
  define c2 where "c2 = journaled (SessionStarted h [] [] (tn_session_cwd t) (tn_session_id t) []) cr"
  define c3 where "c3 = session_started h (tn_session_id t) (tn_session_cwd t) (e_id (tn_user t)) (tn_carried t) (tn_delivered t) c2"
  define c4 where "c4 = journaled (Done DoneCompleted None None (tn_done t)) (c3\<lparr>pv_entries := pv_entries c3 @ [tn_reply t]\<rparr>)"
  have own: "owned owner (tn_session_id t) h" "\<forall>i. tn_done t = Some i \<longrightarrow> owned owner i h"
    using assms(3) by (auto simp: owned_def)
  have cfg: "pv_config c1 = Some h" "pv_config cr = Some h" "pv_config c2 = Some h" "pv_config c3 = Some h" "pv_config c4 = Some h"
    using assms(2) by (simp_all add: c1_def cr_def c2_def c3_def c4_def journaled_def)
  have "own_refs owner c1" unfolding c1_def using assms(1) by (intro own_refs_switch_noted) simp
  then have "own_refs owner cr" unfolding cr_def using own_refs_resume cfg(1) by blast
  then have c2: "own_refs owner c2" unfolding c2_def by (rule own_refs_started [OF _ own(1)])
  then have c3: "own_refs owner c3" unfolding c3_def by (rule own_refs_session_events(1) [OF _ cfg(3) own(1)])
  have j3: "pv_journal c3 = pv_journal cr
      @ [(Suc (length (pv_journal cr)), SessionStarted h [] [] (tn_session_cwd t) (tn_session_id t) [])]"
    by (simp add: c3_def c2_def journaled_def)
  have "own_refs owner c4"
    unfolding c4_def using c3 j3 own(2)
    by (intro own_refs_done [where older = "pv_journal cr" and s = "Suc (length (pv_journal cr))" and h = h]) auto
  moreover have "run_turn canon h t c = (case tn_done t of None \<Rightarrow> c4
      | Some i \<Rightarrow> session_done h i (tn_cwd t) (tn_carried t) (tn_delivered t) c4)"
    unfolding run_turn_def Let_def injected_state c1_def cr_def c2_def c3_def c4_def ..
  ultimately show ?thesis
    using own(2) cfg(5) own_refs_session_events(2) by (auto split: option.splits)
qed

lemma own_refs_switch:
  assumes "own_refs owner c"
  shows "own_refs owner (snd (switch_harness env target c))"
proof -
  have reg: "pv_registry c" "pv_config c \<noteq> None" using assms by (simp_all add: own_refs_def)
  then obtain h where h: "pv_config c = Some h" by blast
  define c2 where "c2 = (case pv_cached c of
      Some known \<Rightarrow> if sf_harness known = None \<or> sf_harness known = Some h then record_outgoing h known (c\<lparr>pv_fork := None\<rparr>)
                     else c\<lparr>pv_fork := None\<rparr>
    | None \<Rightarrow> c\<lparr>pv_fork := None\<rparr>)"
  have c2: "own_refs owner c2" and same: "pv_registry c2" "pv_config c2 = Some h"
    using assms reg h by (auto simp: c2_def own_refs_def [of owner c] intro: own_refs_outgoing split: option.splits)
  have "snd (switch_harness env target c) = c \<or> snd (switch_harness env target c) = c2\<lparr>pv_switched := True\<rparr>
    \<or> snd (switch_harness env target c) = c2\<lparr>pv_switched := True,
        pv_entries := pv_entries c @ [seam_entry (sw_uuid env) target (Some h) (sw_now env) (sw_device env)],
        pv_cached := None, pv_row := Some ([], Some []), pv_config := Some target\<rparr>"
    using h by (auto simp: switch_harness_def c2_def Let_def split: option.splits)
  moreover have "own_refs owner (c2\<lparr>pv_switched := True,
        pv_entries := pv_entries c @ [seam_entry (sw_uuid env) target (Some h) (sw_now env) (sw_device env)],
        pv_cached := None, pv_row := Some ([], Some []), pv_config := Some target\<rparr>)"
    using c2 unfolding own_refs_def journal_harness_session_def by (auto simp: owned_def)
  ultimately show ?thesis using assms c2 by auto
qed

lemma provider_step_own:
  assumes "own_refs owner c" "issues_own owner op"
  shows "own_refs owner (provider_step canon c op)"
proof (cases op)
  case (Turn h t)
  then show ?thesis using assms own_refs_turn [OF assms(1), of h t canon] by simp
next
  case (SwitchTo env g)
  then show ?thesis using own_refs_switch [OF assms(1)] by simp
next
  case (RejectResume i cwd)
  then show ?thesis
    using assms(1) unfolding own_refs_def journal_harness_session_def
    by (auto simp: reject_resume_def owned_def split: option.splits)
next
  case EngineRestart
  then show ?thesis using assms(1) unfolding own_refs_def journal_harness_session_def by auto
qed (use assms(2) in simp)

interpretation own_sessions: guarded_machine "provider_step canon" "own_refs owner" "issues_own owner" for canon owner
  by unfold_locales (rule provider_step_own)

definition new_chat :: "harness_id \<Rightarrow> provider_chat" where
  "new_chat h = \<lparr>pv_cached = None, pv_rejected = [], pv_fresh_notice = False, pv_registry = True, pv_config = Some h,
     pv_row = None, pv_journal = [], pv_entries = [], pv_switched = False, pv_marks = [], pv_delivered = None, pv_fork = None\<rparr>"

text \<open>
  What the providers have rejected since the engine last started: a restart, and a run that takes
  the engine down, forget it.
\<close>

definition rejected_since_boot :: "provider_op list \<Rightarrow> string set" where
  "rejected_since_boot ops =
     foldl (\<lambda>rejected op. case op of
              RejectResume (Some i) _ \<Rightarrow> insert i rejected
            | EngineRestart \<Rightarrow> {}
            | CrashEarly _ \<Rightarrow> {}
            | _ \<Rightarrow> rejected) {} ops"

lemma rejected_kept [simp]:
  "pv_rejected (remember_harness_session i d t c) = pv_rejected c"
  "pv_rejected (snd (resume_for canon cwd h c)) = pv_rejected c"
  "pv_rejected (note_provider_session h i cwd through c) = pv_rejected c"
  "pv_rejected (note_fork_history_session b i c) = pv_rejected c"
  "pv_rejected (record_outgoing h known c) = pv_rejected c"
  "pv_rejected (journaled ev c) = pv_rejected c"
  by (auto simp: remember_harness_session_def resume_for_def resume_from_row_def resume_from_journal_def Let_def
      note_provider_session_def set_provider_session_def note_fork_history_session_def record_outgoing_def journaled_def
      split: option.splits)

lemma switch_noted_rejected [simp]: "pv_rejected (note_provider_switch h uuid now dev c) = pv_rejected c"
  by (auto simp: note_provider_switch_def Let_def split: option.splits)

lemma turn_rejected: "pv_rejected (run_turn canon h t c) = pv_rejected c"
  by (simp add: run_turn_def session_started_def session_done_def Let_def split: option.splits)

lemma switch_rejected: "pv_rejected (snd (switch_harness env g c)) = pv_rejected c"
  by (auto simp: switch_harness_def Let_def split: option.splits)

lemma rejections_kept:
  assumes "own_refs owner c" "list_all (issues_own owner) ops"
  shows "rejected_since_boot ops - {[]} \<subseteq> set (pv_rejected (foldl (provider_step canon) c ops))"
  using assms(2)
proof (induction ops rule: rev_induct)
  case (snoc op ops)
  let ?c = "foldl (provider_step canon) c ops"
  from snoc have IH: "rejected_since_boot ops - {[]} \<subseteq> set (pv_rejected ?c)" and "list_all (issues_own owner) ops" by simp_all
  then have "own_refs owner ?c" by (intro own_sessions.legal_run [OF assms(1)])
  then have "pv_config ?c \<noteq> None" by (simp add: own_refs_def)
  with IH show ?case
    by (cases op) (auto simp: rejected_since_boot_def turn_rejected switch_rejected reject_resume_def split: option.splits)
qed (simp add: rejected_since_boot_def)

text \<open>C23: whatever turns, switches, rejections and engine restarts a chat has seen, a run on its configured
  harness resumes only a session that harness issued, and none the provider has rejected since the engine
  last started; this holds as long as no run dies before it names its session, since boot recovery then
  forgets which harness the older session belongs to.\<close>

theorem resumes_only_own_sessions:
  assumes "list_all (issues_own owner) ops" "c = foldl (provider_step canon) (new_chat h0) ops"
    and "pv_config c = Some h" "fst (injected_resume canon' cwd h c) = Some i"
  shows "i \<noteq> [] \<and> owner i = h \<and> i \<notin> rejected_since_boot ops"
proof -
  have new: "own_refs owner (new_chat h0)"
    by (simp add: own_refs_def new_chat_def journal_harness_session_def)
  from own_sessions.legal_run [OF this assms(1)] assms(2-4)
  have own: "i \<noteq> [] \<and> owner i = h \<and> \<not> resume_was_rejected i c" by (intro injected_own) auto
  with rejections_kept [OF new assms(1), of canon] assms(2) show ?thesis
    by (auto simp: resume_was_rejected_def)
qed

subsection \<open>Switching away and back\<close>

definition stays_away :: "harness_id \<Rightarrow> provider_op \<Rightarrow> bool" where
  "stays_away h op \<longleftrightarrow> (case op of SwitchTo _ g \<Rightarrow> g \<noteq> h | _ \<Rightarrow> True)"

definition away :: "harness_id \<Rightarrow> session_mark option \<Rightarrow> provider_chat \<Rightarrow> bool" where
  "away h m c \<longleftrightarrow> pv_registry c \<and> pv_switched c \<and> map_of (pv_marks c) (harness_as_str h) = m
     \<and> (\<exists>g. pv_config c = Some g \<and> g \<noteq> h)"

lemma mark_of_other:
  "g \<noteq> h \<Longrightarrow> map_of (pv_marks (set_provider_session g m c)) (harness_as_str h) = map_of (pv_marks c) (harness_as_str h)"
  by (simp add: set_provider_session_def update_conv')

lemma away_frame:
  assumes "away h m c" "pv_registry c' = pv_registry c" "pv_switched c' = pv_switched c"
    and "map_of (pv_marks c') (harness_as_str h) = map_of (pv_marks c) (harness_as_str h)" "pv_config c' = pv_config c"
  shows "away h m c'"
  using assms by (simp add: away_def)

lemma note_session_other:
  "g \<noteq> h \<Longrightarrow> map_of (pv_marks (note_provider_session g i cwd through c)) (harness_as_str h) = map_of (pv_marks c) (harness_as_str h)"
  "pv_switched (note_provider_session g i cwd through c) = pv_switched c"
  "pv_registry (note_provider_session g i cwd through c) = pv_registry c"
  by (simp_all add: note_provider_session_def Let_def mark_of_other)

lemma away_note_session: "away h m c \<Longrightarrow> g \<noteq> h \<Longrightarrow> away h m (note_provider_session g i cwd through c)"
  by (erule away_frame) (simp_all add: note_session_other)

lemma away_remember: "away h m c \<Longrightarrow> away h m (remember_harness_session i d t c)"
  by (erule away_frame) simp_all

lemma away_note_fork: "away h m c \<Longrightarrow> away h m (note_fork_history_session b i c)"
  by (erule away_frame) (simp_all add: note_fork_history_session_def)

lemma away_events:
  "away h m c \<Longrightarrow> g \<noteq> h \<Longrightarrow> away h m (session_started g i cwd uid carried delivered c)"
  "away h m c \<Longrightarrow> g \<noteq> h \<Longrightarrow> away h m (session_done g i cwd carried delivered c)"
  by (simp_all add: session_started_def session_done_def Let_def away_note_session away_note_fork away_remember)

lemma away_journaled: "away h m c \<Longrightarrow> away h m (journaled ev c)"
  by (erule away_frame) (simp_all add: journaled_def)

lemma away_entries: "away h m c \<Longrightarrow> away h m (c\<lparr>pv_entries := es\<rparr>)"
  by (erule away_frame) simp_all

lemma away_switch_noted: "away h m c \<Longrightarrow> away h m (note_provider_switch g uuid now dev c)"
  by (auto simp: away_def note_provider_switch_def Let_def split: option.splits)

lemma away_resume: "away h m c \<Longrightarrow> away h m (snd (resume_for canon cwd g c))"
  by (erule away_frame) simp_all

lemma away_turn: "away h m c \<Longrightarrow> g \<noteq> h \<Longrightarrow> away h m (run_turn canon g t c)"
  unfolding run_turn_def Let_def
  by (auto intro!: away_events away_journaled away_entries away_resume away_switch_noted split: option.splits)

lemma switch_shape:
  assumes "switch_harness env target c = (Inr (), c')" "pv_config c = Some g"
  obtains c2 where "c' = c2\<lparr>pv_switched := True,
      pv_entries := pv_entries c @ [seam_entry (sw_uuid env) target (Some g) (sw_now env) (sw_device env)],
      pv_cached := None, pv_row := Some ([], Some []), pv_config := Some target\<rparr>"
    and "c2 = (case pv_cached c of
      Some known \<Rightarrow> if sf_harness known = None \<or> sf_harness known = Some g then record_outgoing g known (c\<lparr>pv_fork := None\<rparr>)
                     else c\<lparr>pv_fork := None\<rparr>
    | None \<Rightarrow> c\<lparr>pv_fork := None\<rparr>)"
    and "pv_registry c" "target \<noteq> g"
proof (rule that)
  show "pv_registry c" "target \<noteq> g" using assms by (auto simp: switch_harness_def split: if_splits)
  show "c' = (case pv_cached c of
      Some known \<Rightarrow> if sf_harness known = None \<or> sf_harness known = Some g then record_outgoing g known (c\<lparr>pv_fork := None\<rparr>)
                     else c\<lparr>pv_fork := None\<rparr>
    | None \<Rightarrow> c\<lparr>pv_fork := None\<rparr>)\<lparr>pv_switched := True,
      pv_entries := pv_entries c @ [seam_entry (sw_uuid env) target (Some g) (sw_now env) (sw_device env)],
      pv_cached := None, pv_row := Some ([], Some []), pv_config := Some target\<rparr>"
    using assms by (auto simp: switch_harness_def Let_def split: if_splits option.splits)
qed (rule refl)

lemma outgoing_other:
  "g \<noteq> h \<Longrightarrow> map_of (pv_marks (record_outgoing g known c)) (harness_as_str h) = map_of (pv_marks c) (harness_as_str h)"
  by (simp add: record_outgoing_def mark_of_other split: option.splits)

lemma away_switch:
  assumes "away h m c" "target \<noteq> h"
  shows "away h m (snd (switch_harness env target c))"
proof -
  from assms(1) obtain g where g: "pv_config c = Some g" "g \<noteq> h" by (auto simp: away_def)
  show ?thesis
    using assms g
    by (auto simp: away_def switch_harness_def Let_def outgoing_other split: option.splits)
qed

lemma away_step: "away h m c \<Longrightarrow> stays_away h op \<Longrightarrow> away h m (provider_step canon c op)"
proof (induction op)
  case (Turn g t)
  have "g \<noteq> h" if "pv_config c = Some g" using Turn(1) that by (auto simp: away_def)
  with Turn(1) show ?case by (simp add: away_turn)
next
  case (SwitchTo env g)
  then show ?case by (simp add: away_switch stays_away_def)
next
  case (RejectResume i cwd)
  then show ?case by (auto simp: away_def reject_resume_def)
next
  case (CrashEarly event)
  then have "away h m ((journaled event c)\<lparr>pv_cached := None, pv_rejected := [], pv_fresh_notice := False\<rparr>)"
    by (simp add: away_def journaled_def)
  then show ?case by (auto simp: recover_session_def away_remember split: option.splits)
qed (simp add: away_def)

interpretation away_chat: guarded_machine "provider_step canon" "away h m" "stays_away h" for canon h m
  by unfold_locales (rule away_step)

text \<open>
  The mark a switch leaves for the harness the chat is on: the live session, seen through the chat's
  last entry that is no user message, if the live session is this harness's and named; otherwise
  the mark that was there. After an engine restart there is no live session.
\<close>

definition left_mark :: "harness_id \<Rightarrow> provider_chat \<Rightarrow> session_mark option" where
  "left_mark h c =
     (case (pv_cached c, seen_through (pv_entries c)) of
        (Some known, Some seen) \<Rightarrow>
          if (sf_harness known = None \<or> sf_harness known = Some h) \<and> sf_session_id known \<noteq> []
          then Some \<lparr>pm_session_id = sf_session_id known, pm_cwd = sf_cwd known, pm_seen = Some seen\<rparr>
          else map_of (pv_marks c) (harness_as_str h)
      | _ \<Rightarrow> map_of (pv_marks c) (harness_as_str h))"

lemma left_mark_outgoing:
  "left_mark h c = map_of (pv_marks (case pv_cached c of
      Some known \<Rightarrow> if sf_harness known = None \<or> sf_harness known = Some h then record_outgoing h known (c\<lparr>pv_fork := None\<rparr>)
                     else c\<lparr>pv_fork := None\<rparr>
    | None \<Rightarrow> c\<lparr>pv_fork := None\<rparr>)) (harness_as_str h)"
  by (simp add: left_mark_def record_outgoing_def set_provider_session_def update_conv' split: option.splits)

lemma switch_leaves:
  assumes "pv_config c = Some h" "switch_harness env g c = (Inr (), c1)"
  shows "away h (left_mark h c) c1"
proof -
  from assms(2,1) have "pv_registry c1 = pv_registry c" "pv_registry c" "g \<noteq> h"
    by (auto elim!: switch_shape split: option.splits)
  moreover from assms(2,1) have "map_of (pv_marks c1) (harness_as_str h) = left_mark h c" "pv_config c1 = Some g" "pv_switched c1"
    by (auto elim!: switch_shape simp: left_mark_outgoing)
  ultimately show ?thesis by (simp add: away_def)
qed

lemma switch_returns:
  assumes "away h m c'" "switch_harness env h c' = (Inr (), c2)"
  shows "pv_registry c2 \<and> pv_switched c2 \<and> pv_cached c2 = None \<and> pv_row c2 = Some ([], Some []) \<and> pv_config c2 = Some h
    \<and> map_of (pv_marks c2) (harness_as_str h) = m
    \<and> (\<exists>seam. pv_entries c2 = pv_entries c' @ [seam] \<and> is_harness_switch_seam seam)"
proof -
  from assms(1) obtain k where k: "pv_config c' = Some k" "k \<noteq> h" by (auto simp: away_def)
  from assms(1) have reg: "pv_registry c'" and mark: "map_of (pv_marks c') (harness_as_str h) = m" by (simp_all add: away_def)
  from switch_shape [OF assms(2) k(1)] obtain c3 where
    c2: "c2 = c3\<lparr>pv_switched := True,
      pv_entries := pv_entries c' @ [seam_entry (sw_uuid env) h (Some k) (sw_now env) (sw_device env)],
      pv_cached := None, pv_row := Some ([], Some []), pv_config := Some h\<rparr>"
    and c3: "c3 = (case pv_cached c' of
      Some known \<Rightarrow> if sf_harness known = None \<or> sf_harness known = Some k then record_outgoing k known (c'\<lparr>pv_fork := None\<rparr>)
                     else c'\<lparr>pv_fork := None\<rparr>
    | None \<Rightarrow> c'\<lparr>pv_fork := None\<rparr>)" by blast
  have "map_of (pv_marks c3) (harness_as_str h) = m" "pv_registry c3"
    using mark reg k(2) unfolding c3 by (auto simp: outgoing_other split: option.splits)
  then show ?thesis by (simp add: c2 is_harness_switch_seam_def seam_entry_def Let_def)
qed

text \<open>C4: switching a chat away from a harness and back to it, whatever happened on the others in between,
  resumes the very session the switch away recorded, with the watermark recorded there, unless its
  directory no longer matches or the provider has rejected it; when nothing was recorded for the
  harness, the chat starts a fresh session. A switch records the live session of the harness it
  leaves, and after an engine restart, when no session is live, keeps the mark that is there.\<close>

theorem switch_back_resumes_own_session:
  assumes "pv_config c = Some h" "switch_harness env g c = (Inr (), c1)" "list_all (stays_away h) ops"
    and "switch_harness env' h (foldl (provider_step canon) c1 ops) = (Inr (), c2)"
  shows "case left_mark h c of
      None \<Rightarrow> fst (injected_resume canon' cwd h c2) = None
    | Some m \<Rightarrow>
        fst (injected_resume canon' cwd h c2) =
          (if pm_session_id m \<noteq> [] \<and> cwd_ok canon' cwd (pm_cwd m) \<and> \<not> resume_was_rejected (pm_session_id m) c2
           then Some (pm_session_id m) else None)
        \<and> watermark h (ContinuedSession (Some (pm_session_id m))) c2 = pm_seen m"
proof -
  have "away h (left_mark h c) (foldl (provider_step canon) c1 ops)"
    by (rule away_chat.legal_run [OF switch_leaves [OF assms(1,2)] assms(3)])
  note returned = switch_returns [OF this assms(4)]
  then have "resume_for canon' cwd h c2 = (None, c2)"
    by (simp add: resume_for_def resume_from_row_def foreign_def)
  with returned show ?thesis
    by (auto simp: injected_resume_def own_provider_session_def watermark_def split: option.splits)
qed

subsection \<open>What it missed\<close>

text \<open>No operation takes an entry of the transcript away or moves it.\<close>

definition extends :: "message_entry list \<Rightarrow> provider_chat \<Rightarrow> bool" where
  "extends es c \<longleftrightarrow> take (length es) (pv_entries c) = es"

lemma extends_append: "extends es c \<longleftrightarrow> (\<exists>added. pv_entries c = es @ added)"
  unfolding extends_def by (metis append_eq_conv_conj append_take_drop_id)

lemma extends_frame [simp]:
  "extends es (snd (resume_for canon cwd h c)) = extends es c"
  "extends es (remember_harness_session i d t c) = extends es c"
  "extends es (note_provider_session h i cwd through c) = extends es c"
  "extends es (note_fork_history_session b i c) = extends es c"
  "extends es (journaled ev c) = extends es c"
  by (simp_all add: extends_def note_provider_session_def note_fork_history_session_def journaled_def Let_def)

lemma extends_state [simp]:
  "extends es (c\<lparr>pv_cached := a\<rparr>) = extends es c" "extends es (c\<lparr>pv_rejected := b\<rparr>) = extends es c"
  "extends es (c\<lparr>pv_fresh_notice := d\<rparr>) = extends es c"
  by (simp_all add: extends_def)

lemma extends_more: "extends es c \<Longrightarrow> pv_entries c' = pv_entries c @ added \<Longrightarrow> extends es c'"
  by (auto simp: extends_append)

lemma extends_add: "extends es c \<Longrightarrow> extends es (c\<lparr>pv_entries := pv_entries c @ [e]\<rparr>)"
  by (auto simp: extends_append)

lemma note_session_entries [simp]:
  "pv_entries (note_provider_session h i cwd through c) = pv_entries c"
  "pv_entries (note_fork_history_session b i c) = pv_entries c"
  "pv_entries (journaled ev c) = pv_entries c"
  by (simp_all add: note_provider_session_def note_fork_history_session_def journaled_def Let_def)

lemma extends_switch_noted:
  assumes "extends es c"
  shows "extends es (note_provider_switch h uuid now dev (c\<lparr>pv_entries := pv_entries c @ [u]\<rparr>))"
proof -
  have "\<exists>added. pv_entries (note_provider_switch h uuid now dev (c\<lparr>pv_entries := pv_entries c @ [u]\<rparr>)) = pv_entries c @ added"
    by (auto simp: note_provider_switch_def Let_def split: option.splits)
  then show ?thesis using assms by (auto intro: extends_more)
qed

lemma extends_turn:
  assumes "extends es c"
  shows "extends es (run_turn canon h t c)"
  using extends_switch_noted [OF assms, of h "tn_uuid t" "tn_now t" "tn_device t" "tn_user t"]
  by (auto simp: run_turn_def session_started_def session_done_def Let_def extends_append split: option.splits)

lemma extends_switch: "extends es c \<Longrightarrow> extends es (snd (switch_harness env g c))"
  by (auto simp: switch_harness_def Let_def extends_append split: option.splits)

lemma extends_step: "extends es c \<Longrightarrow> True \<Longrightarrow> extends es (provider_step canon c op)"
  by (cases op) (auto simp: extends_turn extends_switch reject_resume_def recover_session_def split: option.splits)

interpretation growing_transcript: guarded_machine "provider_step canon" "extends es" "\<lambda>_. True" for canon es
  by unfold_locales (rule extends_step)

lemma switch_extends: "switch_harness env g c = (r, c') \<Longrightarrow> extends (pv_entries c) c'"
  using extends_switch [of "pv_entries c" c env g] by (simp add: extends_def)

lemma rposition_last: "P x \<Longrightarrow> \<forall>y \<in> set ys. \<not> P y \<Longrightarrow> rposition P (xs @ x # ys) = Some (length xs)"
  by (simp add: rposition_def position_append position_None [THEN iffD2])

lemma prefix_after_switch_back:
  assumes "pv_entries c = (es @ [seam]) @ [u]" "is_harness_switch_seam seam" "pv_switched c"
    and "map_of (pv_marks c) (harness_as_str h) = Some m" "pm_seen m = Some w" "entry_position es w = Some k"
    and "list_all (\<lambda>e. \<not> belongs_to (Some (e_id u)) e) (es @ [seam])"
  shows "fork_history_prefix False side_chat chat_id h (Some (e_id u)) (ContinuedSession (Some (pm_session_id m))) c
    = (if pv_delivered c = Some (pm_session_id m) then None
       else budgeted_transcript_prefix_with_lead (drop (Suc k) es)
         (Some (case find_map fork_seam_source (rev (drop (Suc k) (es @ [seam]))) of None \<Rightarrow> chat_id | Some source \<Rightarrow> source))
         SWITCH_RESUME_LEAD)"
proof -
  have filt: "filter (\<lambda>e. \<not> belongs_to (Some (e_id u)) e) (pv_entries c) = es @ [seam]"
    unfolding assms(1) using assms(7) by (auto simp: list_all_iff filter_id_conv belongs_to_def)
  have ends: "rposition is_history_seam (es @ [seam]) = Some (length es)"
    using assms(2) rposition_last [of is_history_seam seam "[]" es] by (simp add: is_history_seam_def)
  have pos: "entry_position (es @ [seam]) w = Some k"
    using assms(6) by (simp add: entry_position_def position_append)
  have k: "k < length es" using assms(6) by (auto simp: entry_position_def dest: position_Some_split)
  have owed: "take (length es - Suc k) (drop (Suc k) (es @ [seam])) = drop (Suc k) es" using k by simp
  show ?thesis
    using assms(2-5) pos owed unfolding fork_history_prefix_def
    by (simp add: filt ends Let_def watermark_def)
qed

text \<open>C24: when a chat is switched back to a harness and the next message is sent, the resumed session is
  handed the transcript, budgeted as every carried history is (so long ones are cut and messages left
  out), of exactly the entries after the last one it had seen and before the seam of the switch, under
  the lead that says so: of nothing it has seen and nothing of the turn being sent. All of the chat's
  transcript at the switch away is still there, so no entry is lost in between. A session that was
  already handed a history, and last so, is not handed another.\<close>

theorem missed_turns_delivered:
  assumes "pv_config c = Some h" "switch_harness env g c = (Inr (), c1)" "list_all (stays_away h) ops"
    and "switch_harness env' h (foldl (provider_step canon) c1 ops) = (Inr (), c2)"
    and "left_mark h c = Some m" "pm_seen m = Some w" "entry_position (pv_entries c) w = Some k"
    and "list_all (\<lambda>e. \<not> belongs_to (Some (e_id u)) e) (pv_entries c2)"
  shows "take (length (pv_entries c)) (pv_entries c2) = pv_entries c
    \<and> fork_history_prefix False side_chat chat_id h (Some (e_id u)) (ContinuedSession (Some (pm_session_id m)))
        (c2\<lparr>pv_entries := pv_entries c2 @ [u]\<rparr>)
      = (if pv_delivered c2 = Some (pm_session_id m) then None
         else budgeted_transcript_prefix_with_lead (butlast (drop (Suc k) (pv_entries c2)))
           (Some (case find_map fork_seam_source (rev (drop (Suc k) (pv_entries c2))) of None \<Rightarrow> chat_id | Some source \<Rightarrow> source))
           SWITCH_RESUME_LEAD)"
proof -
  let ?c' = "foldl (provider_step canon) c1 ops"
  have "away h (Some m) ?c'"
    using away_chat.legal_run [OF switch_leaves [OF assms(1,2)] assms(3)] assms(5) by simp
  from switch_returns [OF this assms(4)] obtain seam where
    c2: "pv_entries c2 = pv_entries ?c' @ [seam]" "is_harness_switch_seam seam" "pv_switched c2"
      "map_of (pv_marks c2) (harness_as_str h) = Some m" by blast
  have "extends (pv_entries c) ?c'"
    by (rule growing_transcript.legal_run [OF switch_extends [OF assms(2)]]) (simp add: list_all_iff)
  then obtain added where added: "pv_entries ?c' = pv_entries c @ added" by (auto simp: extends_append)
  have k: "k < length (pv_entries ?c')" "entry_position (pv_entries ?c') w = Some k"
    using assms(7) added by (auto simp: entry_position_def position_append dest: position_Some_split)
  then have "butlast (drop (Suc k) (pv_entries c2)) = drop (Suc k) (pv_entries ?c')"
    by (simp add: c2(1) butlast_drop)
  then show ?thesis
    using prefix_after_switch_back [where c = "c2\<lparr>pv_entries := pv_entries c2 @ [u]\<rparr>" and u = u, OF _ c2(2) _ _ assms(6) k(2)]
      assms(8) added c2 by simp
qed

section \<open>Witnesses and where it breaks\<close>

definition plain_entry :: "string \<Rightarrow> message_role \<Rightarrow> message_entry" where
  "plain_entry i role = \<lparr>e_id = i, e_role = role, e_parts = [TextPart ''t0'' i], e_created_at = 0, e_device_id = ''d'',
     e_status = Some Complete, e_continuation_of = None, e_duration_ms = None, e_origin_chat_id = None, e_provider_turn = None\<rparr>"

definition sample_turn :: "string \<Rightarrow> string \<Rightarrow> turn" where
  "sample_turn msg sid = \<lparr>tn_user = plain_entry msg UserRole, tn_uuid = ''u'' @ msg, tn_now = 0, tn_device = ''d'', tn_cwd = ''/p'',
     tn_session_id = sid, tn_session_cwd = ''/p'', tn_done = None, tn_reply = plain_entry (''r'' @ msg) AssistantRole,
     tn_carried = False, tn_delivered = True\<rparr>"

definition sample_switch :: switch_env where
  "sample_switch = \<lparr>sw_chat = True, sw_host = True, sw_working = False, sw_registered = True, sw_writable = True,
     sw_uuid = ''x'', sw_now = 0, sw_device = ''d''\<rparr>"

lemma sample_entries [simp]:
  "e_id (plain_entry i role) = i" "fork_seam_source (plain_entry i role) = None"
  "fork_seam_source (seam_entry uuid h from_h now dev) = None"
  by (simp_all add: plain_entry_def fork_seam_source_def seam_entry_def Let_def)

text \<open>A chat with one turn on Claude Code.\<close>

definition one_turn :: provider_chat where
  "one_turn = provider_step (\<lambda>_. None) (new_chat ClaudeCode) (Turn ClaudeCode (sample_turn ''m1'' ''s1''))"

lemma one_turn_eq:
  "one_turn = \<lparr>pv_cached = Some \<lparr>sf_session_id = ''s1'', sf_cwd = ''/p'', sf_harness = Some ClaudeCode\<rparr>, pv_rejected = [],
     pv_fresh_notice = False, pv_registry = True, pv_config = Some ClaudeCode, pv_row = Some (''s1'', Some ''/p''),
     pv_journal = [(1, SessionStarted ClaudeCode [] [] ''/p'' ''s1'' []), (2, Done DoneCompleted None None None)],
     pv_entries = [plain_entry ''m1'' UserRole, plain_entry ''rm1'' AssistantRole], pv_switched = False, pv_marks = [],
     pv_delivered = None, pv_fork = None\<rparr>"
  by (simp add: one_turn_def new_chat_def sample_turn_def run_turn_def Let_def note_provider_switch_def previous_provider_def
      resume_for_def resume_from_row_def resume_from_journal_def journal_harness_session_def journaled_def
      session_started_def note_fork_history_session_def remember_harness_session_def note_provider_session_def
      seam_harness_def plain_entry_def is_fork_seam_def)

text \<open>A run that dies before it names its session undoes a switch: boot recovery finds the session of the
  harness the chat left, drops the owner the scan reports, and remembers it as any harness's; the
  next run on the new harness resumes the old one's conversation.\<close>

theorem recovery_revives_dropped_session:
  "(case switch_harness sample_switch Codex one_turn of (r, c) \<Rightarrow>
      r = Inr () \<and> fst (injected_resume (\<lambda>_. None) ''/p'' Codex c) = None
      \<and> fst (injected_resume (\<lambda>_. None) ''/p'' Codex (provider_step (\<lambda>_. None) c (CrashEarly (UserMessage ''m2'')))) = Some ''s1'')"
  by (simp add: one_turn_eq switch_harness_def sample_switch_def Let_def record_outgoing_def seen_through_def rposition_def
      plain_entry_def set_provider_session_def injected_resume_def resume_for_def resume_from_row_def foreign_def
      own_provider_session_def recover_session_def journal_harness_session_def journaled_def remember_harness_session_def
      resume_was_rejected_def cwd_ok_def split: option.splits)

text \<open>Changing the chat's configured harness without a switch resumes the other harness's session too.\<close>

lemma config_change_resumes_foreign:
  "fst (injected_resume (\<lambda>_. None) ''/p'' Codex (one_turn\<lparr>pv_config := Some Codex\<rparr>)) = Some ''s1''"
  by (simp add: one_turn_eq injected_resume_def resume_for_def resume_from_row_def foreign_def cwd_ok_def resume_was_rejected_def)

theorem journal_scan_matches_replay_witness:
  "journal_harness_session one_turn = Some (''s1'', ''/p'', Some ClaudeCode)"
  using journal_scan_matches_replay [of one_turn] by (simp add: one_turn_eq replay_session_def replay_step_pair)

theorem watermark_never_moves_back_witness:
  "\<exists>m b. map_of (pv_marks (note_provider_session ClaudeCode ''s1'' ''/p'' (Some ''m1'')
      (one_turn\<lparr>pv_switched := True, pv_marks := [(''claude-code'', \<lparr>pm_session_id = ''s1'', pm_cwd = ''/p'', pm_seen = Some ''rm1''\<rparr>)]\<rparr>)))
      ''claude-code'' = Some m \<and> pm_seen m = Some b \<and> b \<noteq> ''m1''"
proof -
  let ?c = "one_turn\<lparr>pv_switched := True, pv_marks := [(''claude-code'', \<lparr>pm_session_id = ''s1'', pm_cwd = ''/p'', pm_seen = Some ''rm1''\<rparr>)]\<rparr>"
  have "\<exists>m' b j. map_of (pv_marks (note_provider_session ClaudeCode ''s1'' ''/p'' (Some ''m1'') ?c)) (harness_as_str ClaudeCode) = Some m'
      \<and> pm_session_id m' = ''s1'' \<and> pm_seen m' = Some b \<and> entry_position (pv_entries ?c) b = Some j \<and> 1 \<le> j"
    by (rule watermark_never_moves_back [where a = "''rm1''" and i = 1
          and m = "\<lparr>pm_session_id = ''s1'', pm_cwd = ''/p'', pm_seen = Some ''rm1''\<rparr>"])
      (simp_all add: one_turn_eq entry_position_def plain_entry_def)
  then show ?thesis by (auto simp: one_turn_eq entry_position_def plain_entry_def split: if_splits)
qed

text \<open>One turn on Claude Code, a session the provider no longer takes, and a turn on a new one.\<close>

definition rejected_once :: "provider_op list" where
  "rejected_once = [Turn ClaudeCode (sample_turn ''m1'' ''s1''), RejectResume (Some ''s1'') ''/p'',
     Turn ClaudeCode (sample_turn ''m2'' ''s2'')]"

theorem resumes_only_own_sessions_witness:
  "fst (injected_resume (\<lambda>_. None) ''/p'' ClaudeCode (foldl (provider_step (\<lambda>_. None)) (new_chat ClaudeCode) rejected_once)) = Some ''s2''
    \<and> ''s1'' \<in> rejected_since_boot rejected_once \<and> ''s2'' \<notin> rejected_since_boot rejected_once"
proof -
  let ?c = "foldl (provider_step (\<lambda>_. None)) (new_chat ClaudeCode) rejected_once"
  have found: "fst (injected_resume (\<lambda>_. None) ''/p'' ClaudeCode ?c) = Some ''s2''" and config: "pv_config ?c = Some ClaudeCode"
    by code_simp+
  have "list_all (issues_own (\<lambda>_. ClaudeCode)) rejected_once" by (simp add: rejected_once_def sample_turn_def)
  from resumes_only_own_sessions [OF this refl config found] found
  show ?thesis by (simp add: rejected_since_boot_def rejected_once_def)
qed

text \<open>The chat switched to Codex, ran one turn there, and the engine restarted.\<close>

definition on_codex :: provider_chat where
  "on_codex = foldl (provider_step (\<lambda>_. None)) (snd (switch_harness sample_switch Codex one_turn))
     [Turn Codex (sample_turn ''m2'' ''s2''), EngineRestart]"

lemma codex_switch: "switch_harness sample_switch Codex one_turn = (Inr (), snd (switch_harness sample_switch Codex one_turn))"
  by (simp add: switch_harness_def sample_switch_def one_turn_eq Let_def)

lemma seen_one_turn: "seen_through (pv_entries one_turn) = Some ''rm1''"
  by (simp add: one_turn_eq seen_through_def rposition_def plain_entry_def)

lemma mark_one_turn: "left_mark ClaudeCode one_turn = Some \<lparr>pm_session_id = ''s1'', pm_cwd = ''/p'', pm_seen = Some ''rm1''\<rparr>"
  using seen_one_turn by (simp add: left_mark_def one_turn_eq)

lemma on_codex_away: "list_all (stays_away ClaudeCode) [Turn Codex (sample_turn ''m2'' ''s2''), EngineRestart]"
  by (simp add: stays_away_def)

lemma back_on_claude:
  "switch_harness sample_switch ClaudeCode (foldl (provider_step (\<lambda>_. None))
      (snd (switch_harness sample_switch Codex one_turn)) [Turn Codex (sample_turn ''m2'' ''s2''), EngineRestart])
    = (Inr (), snd (switch_harness sample_switch ClaudeCode on_codex))"
proof -
  have "away ClaudeCode (left_mark ClaudeCode one_turn) on_codex"
    unfolding on_codex_def
    by (rule away_chat.legal_run [OF switch_leaves [OF _ codex_switch] on_codex_away]) (simp add: one_turn_eq)
  then show ?thesis
    unfolding on_codex_def [symmetric] by (auto simp: away_def switch_harness_def sample_switch_def Let_def)
qed

lemma codex_rejected: "pv_rejected on_codex = []"
  by (simp add: on_codex_def)

theorem switch_back_resumes_own_session_witness:
  "fst (injected_resume (\<lambda>_. None) ''/p'' ClaudeCode (snd (switch_harness sample_switch ClaudeCode on_codex))) = Some ''s1''"
proof -
  have "pv_config one_turn = Some ClaudeCode" by (simp add: one_turn_eq)
  from switch_back_resumes_own_session [OF this codex_switch on_codex_away back_on_claude, of "\<lambda>_. None" "''/p''"]
  show ?thesis by (simp add: mark_one_turn cwd_ok_def resume_was_rejected_def switch_rejected codex_rejected)
qed

text \<open>After a restart no session is live: a switch away then leaves no mark, and the chat comes back to a
  fresh session although its row still names the one it had.\<close>

lemma restart_leaves_no_mark:
  "left_mark ClaudeCode (provider_step (\<lambda>_. None) one_turn EngineRestart) = None
    \<and> pv_row (provider_step (\<lambda>_. None) one_turn EngineRestart) = Some (''s1'', Some ''/p'')"
  by (simp add: left_mark_def one_turn_eq)

theorem missed_turns_delivered_witness:
  "fork_history_prefix False False ''c'' ClaudeCode (Some ''m3'') (ContinuedSession (Some ''s1''))
      (let c = snd (switch_harness sample_switch ClaudeCode on_codex) in c\<lparr>pv_entries := pv_entries c @ [plain_entry ''m3'' UserRole]\<rparr>)
    = budgeted_transcript_prefix_with_lead
        [seam_entry ''x'' Codex (Some ClaudeCode) 0 ''d'', plain_entry ''m2'' UserRole, plain_entry ''rm2'' AssistantRole]
        (Some ''c'') SWITCH_RESUME_LEAD"
proof -
  let ?c2 = "snd (switch_harness sample_switch ClaudeCode on_codex)"
  have config: "pv_config one_turn = Some ClaudeCode"
    and seen: "entry_position (pv_entries one_turn) ''rm1'' = Some 1"
    by (simp_all add: one_turn_eq entry_position_def plain_entry_def)
  have entries: "pv_entries ?c2 = [plain_entry ''m1'' UserRole, plain_entry ''rm1'' AssistantRole,
      seam_entry ''x'' Codex (Some ClaudeCode) 0 ''d'', plain_entry ''m2'' UserRole, plain_entry ''rm2'' AssistantRole,
      seam_entry ''x'' ClaudeCode (Some Codex) 0 ''d'']" and delivered: "pv_delivered ?c2 = None"
    by code_simp+
  have fresh: "list_all (\<lambda>e. \<not> belongs_to (Some (e_id (plain_entry ''m3'' UserRole))) e) (pv_entries ?c2)"
    unfolding entries by (simp add: belongs_to_def plain_entry_def seam_entry_def Let_def)
  have "fork_history_prefix False False ''c'' ClaudeCode (Some (e_id (plain_entry ''m3'' UserRole))) (ContinuedSession (Some ''s1''))
      (?c2\<lparr>pv_entries := pv_entries ?c2 @ [plain_entry ''m3'' UserRole]\<rparr>)
    = budgeted_transcript_prefix_with_lead
        [seam_entry ''x'' Codex (Some ClaudeCode) 0 ''d'', plain_entry ''m2'' UserRole, plain_entry ''rm2'' AssistantRole]
        (Some ''c'') SWITCH_RESUME_LEAD"
    using missed_turns_delivered [OF config codex_switch on_codex_away back_on_claude mark_one_turn _ seen fresh, of False "''c''",
        THEN conjunct2]
    by (simp add: delivered entries)
  then show ?thesis by (simp add: Let_def)
qed

end
