(* ===== verification/Account_Failover.thy ===== *)
theory Account_Failover
  imports Complex_Main Workspace_View Provider_Sessions "HOL-Library.Product_Lexorder" "HOL-Library.Multiset"
begin

text \<open>
  Resume on another account: \<open>crates/engine/src/account_failover.rs\<close>, the ranking of
  \<open>agent_accounts.rs\<close> it uses and the wire types of \<open>proto/src/entities.rs\<close> and \<open>agent.rs\<close>.
  What the engine answers (the accounts listed, the probe, the swap of the login, the command
  queue, the status rows a watcher wakes on) are inputs, one record per loop turn. A usage
  fraction is the rational it denotes. The state is the login in use, the chat, and the log of
  what was done to the accounts.
\<close>

section \<open>Accounts\<close>

datatype agent_auth_kind = Oauth | ApiKey

datatype agent_sign_in_state = SignedIn | SignedOut | SignInUnknown

record usage_window =
  uw_label :: string
  uw_used_fraction :: rat
  uw_resets_at :: "instant option"

record agent_account =
  ac_id :: string
  ac_harness :: harness_id
  ac_email :: "string option"
  ac_plan_label :: "string option"
  ac_active :: bool
  ac_usage_windows :: "usage_window list"
  ac_usage_fetched_at :: "int option"
  ac_usage_error :: "string option"
  ac_sign_in_state :: agent_sign_in_state
  ac_limited_until :: "instant option"
  ac_display_name :: "string option"
  ac_organization :: "string option"
  ac_auth_kind :: "agent_auth_kind option"
  ac_switchable :: bool
  ac_saved_at :: "int option"
  ac_provider :: "string option"

record account_slot =
  as_id :: string
  as_account_key :: string
  as_organization :: "string option"

definition limited_until :: "usage_window list \<Rightarrow> instant option" where
  "limited_until windows =
     (case List.map_filter uw_resets_at (filter (\<lambda>w. 1 \<le> uw_used_fraction w) windows) of
        [] \<Rightarrow> None | r # rs \<Rightarrow> Some (foldl max r rs))"

section \<open>Ranking\<close>

record failover_candidate =
  fc_row :: agent_account
  fc_group :: "string option"

fun split_once :: "string \<Rightarrow> string \<Rightarrow> (string \<times> string) option" where
  "split_once pat [] = None"
| "split_once pat (c # cs) =
     (if prefix pat (c # cs) then Some ([], drop (length pat) (c # cs))
      else map_option (\<lambda>(a, b). (c # a, b)) (split_once pat cs))"

definition failover_group :: "harness_id \<Rightarrow> string option \<Rightarrow> string \<Rightarrow> string option" where
  "failover_group harness organization account_key =
     (case harness of
        ClaudeCode \<Rightarrow>
          (case organization of
             None \<Rightarrow> None
           | Some org \<Rightarrow> if trim org = [] then None else Some (map ascii_lower (trim org)))
      | Codex \<Rightarrow>
          Some (map ascii_lower (case split_once ''::'' account_key of None \<Rightarrow> account_key | Some (_, workspace) \<Rightarrow> workspace))
      | _ \<Rightarrow> None)"

definition still_limited :: "instant \<Rightarrow> agent_account \<Rightarrow> bool" where
  "still_limited now row \<longleftrightarrow> (case ac_limited_until row of Some until \<Rightarrow> now < until | None \<Rightarrow> False)"

definition eligible :: "instant \<Rightarrow> string option \<Rightarrow> agent_account \<Rightarrow> bool" where
  "eligible now limited_id row \<longleftrightarrow>
     \<not> (ac_active row \<or> limited_id = Some (ac_id row)) \<and> ac_switchable row \<and> ac_auth_kind row \<noteq> Some ApiKey
     \<and> ac_sign_in_state row \<noteq> SignedOut \<and> \<not> still_limited now row"

definition worst_usage :: "agent_account \<Rightarrow> rat" where
  "worst_usage row = foldl max 0 (map (\<lambda>w. min 1 (max 0 (uw_used_fraction w))) (ac_usage_windows row))"

definition shares_pool :: "string option \<Rightarrow> failover_candidate \<Rightarrow> bool" where
  "shares_pool limited_group c \<longleftrightarrow>
     (case (fc_group c, limited_group) of (Some mine, Some limited) \<Rightarrow> mine = limited | _ \<Rightarrow> False)"

definition rank_failover_candidates ::
    "instant \<Rightarrow> failover_candidate list \<Rightarrow> string option \<Rightarrow> string option \<Rightarrow> agent_account list" where
  "rank_failover_candidates now cs limited_id limited_group =
     map (\<lambda>(index, c). fc_row c)
       (sort_key (\<lambda>(index, c). ((shares_pool limited_group c, worst_usage (fc_row c)), index))
          (filter (\<lambda>(index, c). eligible now limited_id (fc_row c)) (List.enumerate 0 cs)))"

definition candidate_group :: "harness_id \<Rightarrow> account_slot list \<Rightarrow> agent_account \<Rightarrow> string option" where
  "candidate_group harness slots row =
     (case harness of
        ClaudeCode \<Rightarrow> failover_group harness (ac_organization row) []
      | _ \<Rightarrow> Option.bind
          (collect_map (map (\<lambda>s. (as_id s, failover_group harness (as_organization s) (as_account_key s))) slots) (ac_id row))
          (\<lambda>g. g))"

definition failover_rows :: "harness_id \<Rightarrow> account_slot list \<Rightarrow> agent_account list \<Rightarrow> failover_candidate list" where
  "failover_rows harness slots accounts =
     map (\<lambda>row. \<lparr>fc_row = row, fc_group = candidate_group harness slots row\<rparr>)
       (filter (\<lambda>row. ac_harness row = harness) accounts)"

definition limited_candidate :: "string option \<Rightarrow> failover_candidate list \<Rightarrow> failover_candidate option" where
  "limited_candidate limited_account_id rows =
     find (\<lambda>c. (case limited_account_id of Some i \<Rightarrow> i = ac_id (fc_row c) | None \<Rightarrow> ac_active (fc_row c))) rows"

definition failover_candidates ::
    "instant \<Rightarrow> agent_account list option \<Rightarrow> account_slot list \<Rightarrow> harness_id \<Rightarrow> string option \<Rightarrow> agent_account list" where
  "failover_candidates now snapshot slots harness limited_account_id =
     (case snapshot of
        None \<Rightarrow> []
      | Some accounts \<Rightarrow>
          let rows = failover_rows harness slots accounts;
              limited = limited_candidate limited_account_id rows
          in rank_failover_candidates now rows (map_option (\<lambda>c. ac_id (fc_row c)) limited) (Option.bind limited fc_group))"

definition active_account :: "agent_account list option \<Rightarrow> harness_id \<Rightarrow> agent_account option" where
  "active_account snapshot harness =
     Option.bind snapshot (find (\<lambda>a. ac_harness a = harness \<and> ac_active a))"

definition failover_signed_out :: "agent_account list option \<Rightarrow> harness_id \<Rightarrow> agent_account list" where
  "failover_signed_out snapshot harness =
     (case snapshot of
        None \<Rightarrow> []
      | Some accounts \<Rightarrow>
          filter (\<lambda>row. ac_harness row = harness \<and> \<not> ac_active row \<and> ac_sign_in_state row = SignedOut) accounts)"

text \<open>The tail of \<open>probe_account\<close>: the row of the account in the accounts listed after the probe.\<close>

definition probe_account :: "agent_account list option \<Rightarrow> harness_id \<Rightarrow> string \<Rightarrow> agent_account option" where
  "probe_account probed harness account_id =
     Option.bind probed (find (\<lambda>row. ac_harness row = harness \<and> ac_id row = account_id))"

section \<open>The candidates offered\<close>

definition failover_supported :: "harness_id \<Rightarrow> bool" where
  "failover_supported harness \<longleftrightarrow> harness = ClaudeCode \<or> harness = Codex"

record resume_account_candidates =
  rc_chat_id :: string
  rc_harness :: harness_id
  rc_limited_account_id :: "string option"
  rc_candidates :: "agent_account list"
  rc_signed_out :: "agent_account list"

text \<open>
  \<open>accounts\<close> is None where the engine has no account store; \<open>last_harness\<close> is the harness of the
  last request of the chat.
\<close>

definition candidates ::
    "instant \<Rightarrow> (agent_account list option \<times> account_slot list) option \<Rightarrow> session_row option \<Rightarrow> harness_id option \<Rightarrow> string
     \<Rightarrow> resume_account_candidates" where
  "candidates now accounts session last_harness chat_id =
     (let limit = Option.bind session s_limit in
      case (case limit of Some l \<Rightarrow> Some (sl_harness l) | None \<Rightarrow> last_harness) of
        None \<Rightarrow> \<lparr>rc_chat_id = chat_id, rc_harness = ClaudeCode, rc_limited_account_id = None,
                  rc_candidates = [], rc_signed_out = []\<rparr>
      | Some harness \<Rightarrow>
          (case accounts of
             None \<Rightarrow> \<lparr>rc_chat_id = chat_id, rc_harness = harness, rc_limited_account_id = None,
                        rc_candidates = [], rc_signed_out = []\<rparr>
           | Some (snapshot, slots) \<Rightarrow>
               let limited = Option.bind limit sl_account_id
               in if failover_supported harness
                  then \<lparr>rc_chat_id = chat_id, rc_harness = harness, rc_limited_account_id = limited,
                        rc_candidates = failover_candidates now snapshot slots harness limited,
                        rc_signed_out = failover_signed_out snapshot harness\<rparr>
                  else \<lparr>rc_chat_id = chat_id, rc_harness = harness, rc_limited_account_id = limited,
                        rc_candidates = [], rc_signed_out = []\<rparr>))"

section \<open>One attempt\<close>

datatype failover_action = Probed string | Activated string | Retired | Queued run_request | Restored string | Reported string

record failover_world =
  fw_login :: "string option" \<comment> \<open>the account the harness runs under\<close>
  fw_chat :: provider_chat
  fw_log :: "failover_action list"

definition logged :: "failover_action \<Rightarrow> failover_world \<Rightarrow> failover_world" where
  "logged a w = w\<lparr>fw_log := fw_log w @ [a]\<rparr>"

text \<open>
  What the engine answers in one turn of the attempt loop: the accounts listed before and after
  the probe (None where listing fails), whether the login is swapped, the last request of the
  chat, whether the document host is there and opens the chat, why queueing fails, whether the
  login swaps back.
\<close>

record attempt_round =
  ar_shutting_down :: bool
  ar_now :: instant
  ar_snapshot :: "agent_account list option"
  ar_slots :: "account_slot list"
  ar_probed :: "agent_account list option"
  ar_activates :: bool
  ar_last_request :: "run_request option"
  ar_host :: bool
  ar_opens :: bool
  ar_queue_error :: "string option"
  ar_restores :: bool

definition fallback_history :: "attempt_round \<Rightarrow> string \<Rightarrow> provider_chat \<Rightarrow> string option" where
  "fallback_history r chat_id c =
     (if ar_host r \<and> ar_opens r then budgeted_transcript_prefix (pv_entries c) (Some chat_id) else None)"

definition continuation_request :: "run_request \<Rightarrow> harness_id \<Rightarrow> string option \<Rightarrow> string option \<Rightarrow> run_request" where
  "continuation_request req harness resume fallback =
     \<lparr>rq_prompt = resume_continue_prompt, rq_harness = Some harness, rq_model = rq_model req,
      rq_reasoning = rq_reasoning req, rq_model_options = rq_model_options req, rq_cwd = rq_cwd req,
      rq_sandbox = rq_sandbox req, rq_auto_approve = rq_auto_approve req, rq_resume = resume,
      rq_fallback_history = fallback, rq_provider_fork = None, rq_attachments = [], rq_worktree = None,
      rq_mcp = None, rq_env = []\<rparr>"

definition dispatch_continuation ::
    "(string \<Rightarrow> string option) \<Rightarrow> attempt_round \<Rightarrow> string \<Rightarrow> harness_id \<Rightarrow> provider_chat \<Rightarrow> (string + run_request) \<times> provider_chat" where
  "dispatch_continuation canon r chat_id harness c =
     (case ar_last_request r of
        None \<Rightarrow> (Inl ''the chat has no run configuration to continue'', c)
      | Some req \<Rightarrow>
          let (resume, c1) = resume_for canon (rq_cwd req) harness c;
              request = continuation_request req harness resume (fallback_history r chat_id c1)
          in if \<not> ar_host r then (Inl ''the engine's doc host is not wired'', c1)
             else case ar_queue_error r of Some e \<Rightarrow> (Inl e, c1) | None \<Rightarrow> (Inr request, c1))"

definition restore :: "bool \<Rightarrow> string option \<Rightarrow> failover_world \<Rightarrow> failover_world" where
  "restore restores previous w =
     (case previous of
        None \<Rightarrow> w
      | Some p \<Rightarrow> if restores then logged (Restored p) (w\<lparr>fw_login := Some p\<rparr>) else w)"

datatype attempt_result = SwitchedTo agent_account | NoCandidates | AttemptFailed string

definition MAX_ATTEMPTS :: nat where "MAX_ATTEMPTS = 8"

definition untried_candidates :: "attempt_round \<Rightarrow> harness_id \<Rightarrow> string option \<Rightarrow> string list \<Rightarrow> agent_account list" where
  "untried_candidates r harness limited_account_id tried =
     filter (\<lambda>row. \<not> List.member tried (ac_id row))
       (failover_candidates (ar_now r) (ar_snapshot r) (ar_slots r) harness limited_account_id)"

definition pick_candidate :: "string option \<Rightarrow> agent_account list \<Rightarrow> attempt_result + agent_account" where
  "pick_candidate pick ranked =
     (case pick of
        Some i \<Rightarrow>
          (case find (\<lambda>row. ac_id row = i) ranked of
             None \<Rightarrow> Inl (AttemptFailed (''That account is not a candidate '' @ [CHR 0xE2, CHR 0x80, CHR 0x94]
                       @ '' it is limited, signed out, or in use.''))
           | Some row \<Rightarrow> Inr row)
      | None \<Rightarrow> (case ranked of [] \<Rightarrow> Inl NoCandidates | row # _ \<Rightarrow> Inr row))"

text \<open>The row the probe brought, when the login may be swapped to it.\<close>

definition probe_healthy :: "attempt_round \<Rightarrow> harness_id \<Rightarrow> string \<Rightarrow> agent_account option" where
  "probe_healthy r harness account_id =
     (case probe_account (ar_probed r) harness account_id of
        None \<Rightarrow> None
      | Some row \<Rightarrow>
          if ac_sign_in_state row = SignedOut \<or> still_limited (ar_now r) row then None else Some row)"

definition switch_to ::
    "(string \<Rightarrow> string option) \<Rightarrow> attempt_round \<Rightarrow> string \<Rightarrow> harness_id \<Rightarrow> string option \<Rightarrow> agent_account \<Rightarrow> failover_world
     \<Rightarrow> attempt_result \<times> failover_world" where
  "switch_to canon r chat_id harness previous row w =
     (let w1 = logged Retired (logged (Activated (ac_id row)) (w\<lparr>fw_login := Some (ac_id row)\<rparr>))
      in case dispatch_continuation canon r chat_id harness (fw_chat w1) of
           (Inl reason, c) \<Rightarrow> (AttemptFailed reason, restore (ar_restores r) previous (w1\<lparr>fw_chat := c\<rparr>))
         | (Inr request, c) \<Rightarrow> (SwitchedTo row, logged (Queued request) (w1\<lparr>fw_chat := c\<rparr>)))"

fun attempt_rounds ::
    "(string \<Rightarrow> string option) \<Rightarrow> string \<Rightarrow> harness_id \<Rightarrow> string option \<Rightarrow> string option \<Rightarrow> attempt_round list
     \<Rightarrow> string list \<Rightarrow> string option \<Rightarrow> failover_world \<Rightarrow> attempt_result \<times> string list \<times> failover_world" where
  "attempt_rounds canon chat_id harness limited_account_id previous [] tried pick w =
     (AttemptFailed ''too many failover attempts'', tried, w)"
| "attempt_rounds canon chat_id harness limited_account_id previous (r # rs) tried pick w =
     (if ar_shutting_down r then (AttemptFailed ''the engine is shutting down'', tried, w)
      else case pick_candidate pick (untried_candidates r harness limited_account_id tried) of
             Inl result \<Rightarrow> (result, tried, w)
           | Inr candidate \<Rightarrow>
               let tried1 = ac_id candidate # tried; w1 = logged (Probed (ac_id candidate)) w
               in case probe_healthy r harness (ac_id candidate) of
                    None \<Rightarrow> attempt_rounds canon chat_id harness limited_account_id previous rs tried1 None w1
                  | Some row \<Rightarrow>
                      if ar_activates r
                      then (case switch_to canon r chat_id harness previous row w1 of (result, w2) \<Rightarrow> (result, tried1, w2))
                      else attempt_rounds canon chat_id harness limited_account_id previous rs tried1 None w1)"

definition attempt ::
    "(string \<Rightarrow> string option) \<Rightarrow> string \<Rightarrow> harness_id \<Rightarrow> string option \<Rightarrow> string option \<Rightarrow> (nat \<Rightarrow> attempt_round)
     \<Rightarrow> string list \<Rightarrow> string option \<Rightarrow> failover_world \<Rightarrow> attempt_result \<times> string list \<times> failover_world" where
  "attempt canon chat_id harness limited_account_id previous rounds tried pick w =
     attempt_rounds canon chat_id harness limited_account_id previous (map rounds [0..<MAX_ATTEMPTS]) tried pick w"

section \<open>Watching the continuation\<close>

datatype wake = WakeChanged | WakeClosed | WakeTimedOut

text \<open>One look of the watcher: the engine shutting down, the status row, and what it woke on next.\<close>

record look =
  lk_shutting_down :: bool
  lk_row :: "(session_status \<times> instant) option"
  lk_wake :: wake

datatype start_result = TurnStarted "look list" | TurnOver | StartEnds | StartWaits

fun watch_start :: "instant \<Rightarrow> look list \<Rightarrow> start_result" where
  "watch_start began [] = StartWaits"
| "watch_start began (o1 # os) =
     (let next_look = (case lk_wake o1 of WakeChanged \<Rightarrow> watch_start began os | _ \<Rightarrow> StartEnds)
      in if lk_shutting_down o1 then StartEnds
         else case lk_row o1 of
                None \<Rightarrow> next_look
              | Some (status, written) \<Rightarrow>
                  if status = SessWorking \<or> status = SessAwaitingInput then TurnStarted os
                  else if began < written then TurnOver else next_look)"

datatype settle_result = Settled "session_status option" | SettleEnds | SettleWaits

fun watch_settle :: "look list \<Rightarrow> settle_result" where
  "watch_settle [] = SettleWaits"
| "watch_settle (o1 # os) =
     (if lk_shutting_down o1 then SettleEnds
      else case map_option fst (lk_row o1) of
             Some SessIdle \<Rightarrow> Settled (Some SessIdle)
           | Some SessErrored \<Rightarrow> Settled (Some SessErrored)
           | None \<Rightarrow> Settled None
           | Some _ \<Rightarrow> (case lk_wake o1 of WakeChanged \<Rightarrow> watch_settle os | _ \<Rightarrow> SettleEnds))"

text \<open>The looks at the login in use within the grace time; the flag says that the time is over.\<close>

fun marked_signed_out :: "(agent_account option \<times> bool) list \<Rightarrow> bool" where
  "marked_signed_out [] = False"
| "marked_signed_out ((active, over) # rest) =
     (if (case active of Some row \<Rightarrow> ac_sign_in_state row = SignedOut | None \<Rightarrow> False) then True
      else if over then False else marked_signed_out rest)"

record watch_script =
  ws_chat :: provider_chat \<comment> \<open>the chat once the turn is over\<close>
  ws_began :: instant
  ws_looks :: "look list"
  ws_final :: "session_status option"
  ws_marks :: "(agent_account option \<times> bool) list"
  ws_rounds :: "nat \<Rightarrow> attempt_round"
  ws_restores :: bool
  ws_host :: bool
  ws_opens :: bool
  ws_note :: "string \<times> instant \<times> string"

definition settled_status :: "watch_script \<Rightarrow> session_status option option" where
  "settled_status s =
     (case watch_start (ws_began s) (ws_looks s) of
        TurnStarted looks \<Rightarrow> (case watch_settle looks of Settled st \<Rightarrow> Some st | _ \<Rightarrow> None)
      | TurnOver \<Rightarrow> Some (ws_final s)
      | _ \<Rightarrow> None)"

definition failover_note :: "string \<times> instant \<times> string \<Rightarrow> string option \<Rightarrow> string \<Rightarrow> message_entry" where
  "failover_note stamp previous reason =
     (case stamp of (uuid, now, device) \<Rightarrow>
       \<lparr>e_id = ''failover:'' @ uuid, e_role = SystemRole,
        e_parts = [TextPart ''t0'' (''Resume on another account failed: '' @ reason @ ''. The harness is back on ''
          @ (case previous of Some i \<Rightarrow> ''account '' @ i | None \<Rightarrow> ''its previous login'') @ ''.'')],
        e_created_at = now, e_device_id = device, e_status = Some Complete, e_continuation_of = None,
        e_duration_ms = None, e_origin_chat_id = None, e_provider_turn = None\<rparr>)"

definition note_failed_failover :: "watch_script \<Rightarrow> string option \<Rightarrow> string \<Rightarrow> failover_world \<Rightarrow> failover_world" where
  "note_failed_failover s previous reason w =
     (if ws_host s \<and> ws_opens s
      then logged (Reported reason) (w\<lparr>fw_chat := (fw_chat w)\<lparr>pv_entries := pv_entries (fw_chat w) @ [failover_note (ws_note s) previous reason]\<rparr>\<rparr>)
      else w)"

definition give_up :: "watch_script \<Rightarrow> string option \<Rightarrow> string \<Rightarrow> failover_world \<Rightarrow> failover_world" where
  "give_up s previous reason w = note_failed_failover s previous reason (restore (ws_restores s) previous w)"

text \<open>The watchers of a chain, each started by the attempt of the one before.\<close>

fun watch ::
    "(string \<Rightarrow> string option) \<Rightarrow> string \<Rightarrow> harness_id \<Rightarrow> string option \<Rightarrow> string option \<Rightarrow> watch_script list
     \<Rightarrow> string list \<Rightarrow> failover_world \<Rightarrow> failover_world" where
  "watch canon chat_id harness limited_account_id previous [] tried w = w"
| "watch canon chat_id harness limited_account_id previous (s # ss) tried w =
     (let w1 = w\<lparr>fw_chat := ws_chat s\<rparr>
      in if settled_status s = Some (Some SessErrored)
         then if marked_signed_out (ws_marks s)
              then (case attempt canon chat_id harness limited_account_id previous (ws_rounds s) tried None w1 of
                      (SwitchedTo row, tried', w2) \<Rightarrow> watch canon chat_id harness limited_account_id previous ss tried' w2
                    | (NoCandidates, tried', w2) \<Rightarrow>
                        give_up s previous ''every other account is limited, signed out, or in use'' w2
                    | (AttemptFailed reason, tried', w2) \<Rightarrow> give_up s previous reason w2)
              else give_up s previous ''the resumed turn failed'' w1
         else w1)"

section \<open>The operation\<close>

datatype resume_outcome = OutcomeSwitched string "string option" | OutcomeNoCandidates | OutcomeFailed string

definition harness_label :: "harness_id \<Rightarrow> string" where
  "harness_label harness =
     (case harness of ClaudeCode \<Rightarrow> ''Claude Code'' | Codex \<Rightarrow> ''Codex'' | _ \<Rightarrow> ''This harness'')"

text \<open>
  \<open>accounts\<close> says whether the engine has an account store, \<open>current\<close> is what it lists; the
  watchers run on after the operation has answered.
\<close>

definition resume_on_another_account ::
    "(string \<Rightarrow> string option) \<Rightarrow> bool \<Rightarrow> agent_account list option \<Rightarrow> session_row option \<Rightarrow> string \<Rightarrow> string option
     \<Rightarrow> (nat \<Rightarrow> attempt_round) \<Rightarrow> watch_script list \<Rightarrow> failover_world \<Rightarrow> resume_outcome \<times> failover_world" where
  "resume_on_another_account canon accounts current session chat_id chosen rounds scripts w =
     (if \<not> accounts then (OutcomeFailed ''This engine has no harness accounts.'', w)
      else case Option.bind session s_limit of
             None \<Rightarrow> (OutcomeFailed ''Only a Limited chat can resume on another account.'', w)
           | Some limit \<Rightarrow>
               let harness = sl_harness limit in
               if \<not> failover_supported harness
               then (OutcomeFailed (harness_label harness @ '' has no switchable accounts.''), w)
               else
                 let previous = map_option ac_id (active_account current harness)
                 in case attempt canon chat_id harness (sl_account_id limit) previous rounds [] chosen w of
                      (SwitchedTo row, tried, w1) \<Rightarrow>
                        (OutcomeSwitched (ac_id row) (case ac_email row of Some e \<Rightarrow> Some e | None \<Rightarrow> ac_display_name row),
                         watch canon chat_id harness (sl_account_id limit) previous scripts tried w1)
                    | (NoCandidates, tried, w1) \<Rightarrow> (OutcomeNoCandidates, w1)
                    | (AttemptFailed reason, tried, w1) \<Rightarrow> (OutcomeFailed reason, w1))"

section \<open>The ranking is a stable sort\<close>

lemma enumerate_increasing: "sorted_wrt (<) (map fst (List.enumerate n xs))"
  by (simp del: sorted_wrt_map)

lemma sort_key_indexed:
  fixes k :: "'a \<Rightarrow> 'k::linorder" and ps :: "(nat \<times> 'a) list"
  assumes "sorted_wrt (<) (map fst ps)"
  shows "map snd (sort_key (\<lambda>(i, x). (k x, i)) ps) = sort_key k (map snd ps)"
proof (rule sym, rule properties_for_sort_key)
  let ?f = "\<lambda>(i, x). (k x, i)"
  let ?s = "sort_key ?f ps"
  show "mset (map snd ?s) = mset (map snd ps)" by simp
  have "sorted (map ?f ?s)" by simp
  then have "sorted (map fst (map ?f ?s))"
    by (auto simp: sorted_wrt_map less_eq_prod_def elim!: sorted_wrt_mono_rel [rotated])
  moreover have "map fst (map ?f ?s) = map k (map snd ?s)" by auto
  ultimately show "sorted (map k (map snd ?s))" by metis
  show "filter (\<lambda>y. k x = k y) (map snd ?s) = filter (\<lambda>y. k x = k y) (map snd ps)" if "x \<in> set (map snd ?s)" for x
  proof -
    let ?q = "filter (\<lambda>p. k x = k (snd p)) ps"
    have "sorted_wrt (\<lambda>p q. fst p < fst q) ?q"
      using assms by (auto simp: sorted_wrt_map intro: sorted_wrt_filter)
    then have "sorted (map ?f ?q)"
      by (auto simp: sorted_wrt_map less_eq_prod_def elim!: sorted_wrt_mono_rel [rotated])
    then have "sort_key ?f ?q = ?q" by (rule sort_key_id_if_sorted)
    moreover have "filter (\<lambda>p. k x = k (snd p)) ?s = sort_key ?f ?q" by (rule filter_sort)
    ultimately show ?thesis by (simp add: filter_map o_def)
  qed
qed

lemma filter_enumerated: "map snd (filter (\<lambda>(i, x). P x) (List.enumerate n xs)) = filter P xs"
  by (induction xs arbitrary: n) auto

lemma ranking_is_ranked:
  "rank_failover_candidates now cs limited_id limited_group =
     map fc_row (sort_key (\<lambda>c. (shares_pool limited_group c, worst_usage (fc_row c)))
       (filter (\<lambda>c. eligible now limited_id (fc_row c)) cs))"
proof -
  let ?k = "\<lambda>c. (shares_pool limited_group c, worst_usage (fc_row c))"
  let ?ps = "filter (\<lambda>(i, c). eligible now limited_id (fc_row c)) (List.enumerate 0 cs)"
  have "sorted_wrt (<) (map fst ?ps)"
    using enumerate_increasing [of 0 cs] unfolding sorted_wrt_map by (rule sorted_wrt_filter)
  from sort_key_indexed [OF this, of ?k]
  have "map fc_row (map snd (sort_key (\<lambda>(i, c). (?k c, i)) ?ps)) = map fc_row (sort_key ?k (map snd ?ps))" by simp
  then show ?thesis
    using filter_enumerated [of "\<lambda>c. eligible now limited_id (fc_row c)" 0 cs]
    by (simp add: rank_failover_candidates_def o_def case_prod_unfold)
qed

text \<open>The ranking keeps exactly the accounts worth switching to and sorts them, those outside the
  limited pool first and then the least used, leaving ties in the order the accounts are listed.\<close>

theorem ranking_is_stable_sort:
  "rank_failover_candidates now cs limited_id limited_group =
     map fc_row (sort_key (\<lambda>c. (shares_pool limited_group c, worst_usage (fc_row c)))
       (filter (\<lambda>c. eligible now limited_id (fc_row c)) cs))"
  by (rule ranking_is_ranked)

lemma failover_candidate_ok:
  assumes "row \<in> set (failover_candidates now snapshot slots harness limited_account_id)"
  shows "\<exists>accounts. snapshot = Some accounts \<and> row \<in> set accounts" "ac_harness row = harness"
    and "ac_switchable row" "\<not> ac_active row" "ac_auth_kind row \<noteq> Some ApiKey"
    and "ac_sign_in_state row \<noteq> SignedOut" "\<not> still_limited now row"
    and "limited_account_id = Some i \<Longrightarrow> ac_id row \<noteq> i"
proof -
  from assms obtain accounts where accounts: "snapshot = Some accounts"
    by (cases snapshot) (auto simp: failover_candidates_def)
  let ?rows = "failover_rows harness slots accounts"
  let ?limited = "limited_candidate limited_account_id ?rows"
  from assms accounts obtain c where c: "c \<in> set ?rows" "fc_row c = row"
    and el: "eligible now (map_option (\<lambda>c. ac_id (fc_row c)) ?limited) row"
    by (auto simp: failover_candidates_def ranking_is_ranked Let_def)
  show "\<exists>accounts. snapshot = Some accounts \<and> row \<in> set accounts" "ac_harness row = harness"
    using c accounts by (auto simp: failover_rows_def)
  show "ac_switchable row" "\<not> ac_active row" "ac_auth_kind row \<noteq> Some ApiKey"
    "ac_sign_in_state row \<noteq> SignedOut" "\<not> still_limited now row"
    using el by (simp_all add: eligible_def)
  show "ac_id row \<noteq> i" if "limited_account_id = Some i"
  proof
    assume i: "ac_id row = i"
    have "?limited \<noteq> None"
      using c i that by (auto simp: limited_candidate_def find_None_iff)
    then obtain d where "?limited = Some d" by blast
    moreover from this have "ac_id (fc_row d) = i"
      using that by (auto simp: limited_candidate_def find_Some_iff)
    ultimately show False using el i by (simp add: eligible_def)
  qed
qed

section \<open>What a chain does to the accounts\<close>

definition probed_ids :: "failover_action list \<Rightarrow> string list" where
  "probed_ids = List.map_filter (\<lambda>a. case a of Probed i \<Rightarrow> Some i | _ \<Rightarrow> None)"

definition activated_ids :: "failover_action list \<Rightarrow> string list" where
  "activated_ids = List.map_filter (\<lambda>a. case a of Activated i \<Rightarrow> Some i | _ \<Rightarrow> None)"

lemma log_ids [simp]:
  "probed_ids (l @ m) = probed_ids l @ probed_ids m"
  "activated_ids (l @ m) = activated_ids l @ activated_ids m"
  "probed_ids (a # m) = (case a of Probed i \<Rightarrow> i # probed_ids m | _ \<Rightarrow> probed_ids m)"
  "activated_ids (a # m) = (case a of Activated i \<Rightarrow> i # activated_ids m | _ \<Rightarrow> activated_ids m)"
  "probed_ids [] = []" "activated_ids [] = []"
  by (auto simp: probed_ids_def activated_ids_def List.map_filter_def split: failover_action.splits)

lemma logged_simps [simp]:
  "fw_log (logged a w) = fw_log w @ [a]" "fw_login (logged a w) = fw_login w" "fw_chat (logged a w) = fw_chat w"
  by (simp_all add: logged_def)

lemma restore_ids [simp]:
  "probed_ids (fw_log (restore ok previous w)) = probed_ids (fw_log w)"
  "activated_ids (fw_log (restore ok previous w)) = activated_ids (fw_log w)"
  by (simp_all add: restore_def split: option.splits)

lemma give_up_ids [simp]:
  "probed_ids (fw_log (give_up s previous reason w)) = probed_ids (fw_log w)"
  "activated_ids (fw_log (give_up s previous reason w)) = activated_ids (fw_log w)"
  by (simp_all add: give_up_def note_failed_failover_def)

lemma switch_to_ids:
  assumes "switch_to canon r chat_id harness previous row w = (result, w')"
  shows "probed_ids (fw_log w') = probed_ids (fw_log w)"
    and "activated_ids (fw_log w') = activated_ids (fw_log w) @ [ac_id row]"
  using assms by (auto simp: switch_to_def Let_def split: prod.splits sum.splits)

lemma find_in: "find P xs = Some x \<Longrightarrow> x \<in> set xs"
  by (auto simp: find_Some_iff)

lemma pick_candidate_untried:
  assumes "pick_candidate pick (untried_candidates r harness limited_account_id tried) = Inr row"
  shows "row \<in> set (failover_candidates (ar_now r) (ar_snapshot r) (ar_slots r) harness limited_account_id)"
    and "ac_id row \<notin> set tried"
proof -
  have "row \<in> set (untried_candidates r harness limited_account_id tried)"
    using assms by (auto simp: pick_candidate_def dest: find_in split: option.splits list.splits)
  then show "row \<in> set (failover_candidates (ar_now r) (ar_snapshot r) (ar_slots r) harness limited_account_id)"
    and "ac_id row \<notin> set tried"
    by (simp_all add: untried_candidates_def)
qed

lemma probe_healthy_Some:
  assumes "probe_healthy r harness i = Some row"
  shows "ac_id row = i" "ac_harness row = harness" "ac_sign_in_state row \<noteq> SignedOut" "\<not> still_limited (ar_now r) row"
proof -
  from assms obtain rows where "find (\<lambda>row. ac_harness row = harness \<and> ac_id row = i) rows = Some row"
    and "ac_sign_in_state row \<noteq> SignedOut" "\<not> still_limited (ar_now r) row"
    by (auto simp: probe_healthy_def probe_account_def bind_eq_Some_conv split: option.splits if_splits)
  then show "ac_id row = i" "ac_harness row = harness" "ac_sign_in_state row \<noteq> SignedOut" "\<not> still_limited (ar_now r) row"
    by (auto simp: find_Some_iff)
qed

text \<open>Every account listed to the chain is in \<open>A\<close>.\<close>

definition lists_within :: "string set \<Rightarrow> attempt_round \<Rightarrow> bool" where
  "lists_within A r \<longleftrightarrow> (case ar_snapshot r of None \<Rightarrow> True | Some accounts \<Rightarrow> list_all (\<lambda>a. ac_id a \<in> A) accounts)"

definition tried_ok :: "string set \<Rightarrow> string list \<Rightarrow> failover_world \<Rightarrow> bool" where
  "tried_ok A tried w \<longleftrightarrow> set (probed_ids (fw_log w)) = set tried \<and> set tried \<subseteq> A
     \<and> distinct (probed_ids (fw_log w)) \<and> distinct (activated_ids (fw_log w))
     \<and> set (activated_ids (fw_log w)) \<subseteq> set tried"

lemma candidate_listed:
  assumes "row \<in> set (failover_candidates (ar_now r) (ar_snapshot r) (ar_slots r) harness limited_account_id)" "lists_within A r"
  shows "ac_id row \<in> A"
  using failover_candidate_ok(1) [OF assms(1)] assms(2) by (auto simp: lists_within_def list_all_iff)

lemma attempt_rounds_tried:
  assumes "attempt_rounds canon chat_id harness limited_account_id previous rs tried pick w = (result, tried', w')"
    and "tried_ok A tried w" "list_all (lists_within A) rs"
  shows "tried_ok A tried' w'"
  using assms
proof (induction rs arbitrary: tried pick w)
  case Nil
  then show ?case by simp
next
  case (Cons r rs)
  show ?case
  proof (cases "ar_shutting_down r \<or> (\<exists>e. pick_candidate pick (untried_candidates r harness limited_account_id tried) = Inl e)")
    case True
    then show ?thesis using Cons.prems by (auto split: if_splits)
  next
    case False
    then obtain c where c: "pick_candidate pick (untried_candidates r harness limited_account_id tried) = Inr c"
      by (meson sum.exhaust)
    note cand = pick_candidate_untried [OF c]
    let ?w1 = "logged (Probed (ac_id c)) w"
    have "ac_id c \<in> A" using candidate_listed [OF cand(1)] Cons.prems(3) by simp
    then have ok1: "tried_ok A (ac_id c # tried) ?w1"
      using Cons.prems(2) cand(2) by (auto simp: tried_ok_def)
    show ?thesis
    proof (cases "ar_activates r \<and> probe_healthy r harness (ac_id c) \<noteq> None")
      case True
      then obtain row where row: "probe_healthy r harness (ac_id c) = Some row" by blast
      then have sw: "switch_to canon r chat_id harness previous row ?w1 = (result, w')" "tried' = ac_id c # tried"
        using Cons.prems(1) False c True by (auto simp: Let_def split: prod.splits)
      have "ac_id c \<notin> set (activated_ids (fw_log w))"
        using Cons.prems(2) cand(2) by (auto simp: tried_ok_def)
      then show ?thesis
        using ok1 switch_to_ids [OF sw(1)] probe_healthy_Some(1) [OF row] unfolding sw(2)
        by (auto simp: tried_ok_def)
    next
      case False
      then have "attempt_rounds canon chat_id harness limited_account_id previous rs (ac_id c # tried) None ?w1 = (result, tried', w')"
        using Cons.prems(1) c \<open>\<not> (ar_shutting_down r \<or> _)\<close> by (auto simp: Let_def split: option.splits)
      from Cons.IH [OF this ok1] Cons.prems(3) show ?thesis by simp
    qed
  qed
qed

lemma attempt_tried:
  assumes "attempt canon chat_id harness limited_account_id previous rounds tried pick w = (result, tried', w')"
    and "tried_ok A tried w" "\<And>i. lists_within A (rounds i)"
  shows "tried_ok A tried' w'"
  using attempt_rounds_tried [OF assms(1) [unfolded attempt_def] assms(2)] assms(3) by (simp add: list_all_iff)

lemma tried_ok_log: "tried_ok A tried w \<Longrightarrow> fw_log w' = fw_log w \<Longrightarrow> tried_ok A tried w'"
  by (simp add: tried_ok_def)

lemma tried_ok_give_up: "tried_ok A tried w \<Longrightarrow> tried_ok A tried (give_up s previous reason w)"
  by (simp add: tried_ok_def)

lemma watch_tried:
  assumes "tried_ok A tried w" "list_all (\<lambda>s. \<forall>i. lists_within A (ws_rounds s i)) scripts"
  shows "\<exists>tried'. tried_ok A tried' (watch canon chat_id harness limited_account_id previous scripts tried w)"
  using assms
proof (induction scripts arbitrary: tried w)
  case Nil
  then show ?case by auto
next
  case (Cons s ss)
  let ?w1 = "w\<lparr>fw_chat := ws_chat s\<rparr>"
  have ok1: "tried_ok A tried ?w1" using tried_ok_log [OF Cons.prems(1)] by simp
  obtain res tried' w2 where a: "attempt canon chat_id harness limited_account_id previous (ws_rounds s) tried None ?w1 = (res, tried', w2)"
    by (metis prod_cases3)
  have ok2: "tried_ok A tried' w2" using attempt_tried [OF a ok1] Cons.prems(2) by simp
  show ?case
    using ok1 Cons.IH [OF ok2] Cons.prems(2) tried_ok_give_up [OF ok1] tried_ok_give_up [OF ok2]
    by (cases res; simp add: a Let_def; blast)
qed

text \<open>C25: whatever the engine answers, one failover probes an account at most once and switches to it
  at most once, over all its watchers together, so the chain of watchers ends within as many
  switches as there are accounts.\<close>

theorem failover_chain_ends:
  assumes "resume_on_another_account canon accounts current session chat_id chosen rounds scripts w = (result, w')"
    and "fw_log w = []" "finite A" "\<And>i. lists_within A (rounds i)"
    and "list_all (\<lambda>s. \<forall>i. lists_within A (ws_rounds s i)) scripts"
  shows "distinct (probed_ids (fw_log w')) \<and> distinct (activated_ids (fw_log w'))
    \<and> length (activated_ids (fw_log w')) \<le> length (probed_ids (fw_log w')) \<and> length (probed_ids (fw_log w')) \<le> card A"
proof -
  have start: "tried_ok A [] w" using assms(2) by (simp add: tried_ok_def)
  have "\<exists>tried. tried_ok A tried w'"
  proof (cases "accounts \<and> (\<exists>limit. Option.bind session s_limit = Some limit \<and> failover_supported (sl_harness limit))")
    case False
    then show ?thesis
      using assms(1) start by (auto simp: resume_on_another_account_def Let_def split: if_splits option.splits)
  next
    case True
    then obtain limit where l: "Option.bind session s_limit = Some limit" "failover_supported (sl_harness limit)" by blast
    obtain res tried' w1 where a: "attempt canon chat_id (sl_harness limit) (sl_account_id limit)
        (map_option ac_id (active_account current (sl_harness limit))) rounds [] chosen w = (res, tried', w1)"
      by (metis prod_cases3)
    have ok: "tried_ok A tried' w1" by (rule attempt_tried [OF a start assms(4)])
    show ?thesis
      using assms(1) True l ok watch_tried [OF ok assms(5)]
      by (auto simp: resume_on_another_account_def Let_def a split: attempt_result.splits)
  qed
  then obtain tried where ok: "tried_ok A tried w'" by blast
  then have "length (probed_ids (fw_log w')) \<le> card A" "length (activated_ids (fw_log w')) \<le> length (probed_ids (fw_log w'))"
    using assms(3) by (auto simp: tried_ok_def card_mono simp flip: distinct_card)
  then show ?thesis using ok by (simp add: tried_ok_def)
qed

section \<open>Which account a failover switches to\<close>



text \<open>An account the user picks that is not a candidate is refused, with nothing probed and nothing
  switched.\<close>

theorem foreign_pick_is_refused:
  assumes "\<not> ar_shutting_down (rounds 0)"
    and "\<forall>c \<in> set (failover_candidates (ar_now (rounds 0)) (ar_snapshot (rounds 0)) (ar_slots (rounds 0)) harness limited_account_id).
      ac_id c \<noteq> i"
  shows "\<exists>reason. attempt canon chat_id harness limited_account_id previous rounds tried (Some i) w = (AttemptFailed reason, tried, w)"
proof -
  let ?ranked = "untried_candidates (rounds 0) harness limited_account_id tried"
  have "find (\<lambda>row. ac_id row = i) ?ranked = None"
    using assms(2) by (auto simp: find_None_iff untried_candidates_def)
  then obtain e where "pick_candidate (Some i) ?ranked = Inl (AttemptFailed e)" by (simp add: pick_candidate_def)
  moreover have "map rounds [0..<MAX_ATTEMPTS] = rounds 0 # map rounds [1..<MAX_ATTEMPTS]"
    by (simp add: MAX_ATTEMPTS_def upt_conv_Cons)
  ultimately show ?thesis using assms(1) by (simp add: attempt_def del: upt_Suc)
qed

section \<open>A failed failover\<close>

definition reports :: "failover_action list \<Rightarrow> string list" where
  "reports = List.map_filter (\<lambda>a. case a of Reported r \<Rightarrow> Some r | _ \<Rightarrow> None)"

lemma reports_simps [simp]:
  "reports (l @ m) = reports l @ reports m"
  "reports (a # m) = (case a of Reported i \<Rightarrow> i # reports m | _ \<Rightarrow> reports m)"
  "reports [] = []"
  by (auto simp: reports_def List.map_filter_def split: failover_action.splits)

lemma restore_reports [simp]: "reports (fw_log (restore ok previous w)) = reports (fw_log w)"
  by (simp add: restore_def split: option.splits)

lemma restore_back [simp]: "fw_login (restore True (Some p) w) = Some p"
  by (simp add: restore_def)

lemma attempt_rounds_failed:
  assumes "attempt_rounds canon chat_id harness limited_account_id (Some p) rs tried pick w = (result, tried', w')"
    and "list_all ar_restores rs"
  shows "reports (fw_log w') = reports (fw_log w)"
    and "(\<forall>row. result \<noteq> SwitchedTo row) \<Longrightarrow> fw_login w' = fw_login w \<or> fw_login w' = Some p"
  using assms
  by (induction rs arbitrary: tried pick w)
    (fastforce simp: Let_def switch_to_def split: if_splits sum.splits option.splits prod.splits)+

lemma attempt_failed:
  assumes "attempt canon chat_id harness limited_account_id (Some p) rounds tried pick w = (result, tried', w')"
    and "\<forall>i. ar_restores (rounds i)"
  shows "reports (fw_log w') = reports (fw_log w)"
    and "(\<forall>row. result \<noteq> SwitchedTo row) \<Longrightarrow> fw_login w' = fw_login w \<or> fw_login w' = Some p"
  using attempt_rounds_failed [OF assms(1) [unfolded attempt_def]] assms(2) by (auto simp: list_all_iff)

lemma give_up_login: "ws_restores s \<Longrightarrow> fw_login (give_up s (Some p) reason w) = Some p"
  by (simp add: give_up_def note_failed_failover_def)

lemma watch_report:
  assumes "list_all (\<lambda>s. ws_restores s \<and> (\<forall>i. ar_restores (ws_rounds s i))) scripts" "reports (fw_log w) = []"
    and "reports (fw_log (watch canon chat_id harness limited_account_id (Some p) scripts tried w)) \<noteq> []"
  shows "fw_login (watch canon chat_id harness limited_account_id (Some p) scripts tried w) = Some p"
  using assms
proof (induction scripts arbitrary: tried w)
  case Nil
  then show ?case by simp
next
  case (Cons s ss)
  let ?w1 = "w\<lparr>fw_chat := ws_chat s\<rparr>"
  obtain res tried' w2 where a: "attempt canon chat_id harness limited_account_id (Some p) (ws_rounds s) tried None ?w1 = (res, tried', w2)"
    by (metis prod_cases3)
  have "reports (fw_log w2) = []" using attempt_failed(1) [OF a] Cons.prems by simp
  then show ?case
    using Cons.IH [of w2 tried'] Cons.prems
    by (cases res) (auto simp: a Let_def give_up_login split: if_splits)
qed

text \<open>C27: where swapping a login back works, a failover that fails, at once or after its continuation was
  queued, leaves the harness on the account it found; the report in the transcript that says so is
  true.\<close>

theorem failed_failover_restores:
  assumes "resume_on_another_account canon accounts current session chat_id chosen rounds scripts w = (result, w')"
    and "Option.bind session s_limit = Some limit" "map_option ac_id (active_account current (sl_harness limit)) = Some p"
    and "fw_login w = Some p" "reports (fw_log w) = []" "\<forall>i. ar_restores (rounds i)"
    and "list_all (\<lambda>s. ws_restores s \<and> (\<forall>i. ar_restores (ws_rounds s i))) scripts"
    and "reports (fw_log w') \<noteq> [] \<or> (\<forall>i e. result \<noteq> OutcomeSwitched i e)"
  shows "fw_login w' = Some p"
proof (cases "accounts \<and> failover_supported (sl_harness limit)")
  case False
  then show ?thesis using assms(1,2,4) by (auto simp: resume_on_another_account_def Let_def split: if_splits)
next
  case True
  obtain res tried' w1 where a: "attempt canon chat_id (sl_harness limit) (sl_account_id limit) (Some p) rounds [] chosen w = (res, tried', w1)"
    by (metis prod_cases3)
  note f = attempt_failed [OF a assms(6)]
  show ?thesis
    using True assms(1-5,8) f watch_report [OF assms(7), of w1]
    by (cases res) (auto simp: resume_on_another_account_def Let_def a)
qed

section \<open>Samples, and where it breaks\<close>

definition sample_account :: "string \<Rightarrow> bool \<Rightarrow> agent_sign_in_state \<Rightarrow> agent_account" where
  "sample_account i active st = \<lparr>ac_id = i, ac_harness = Codex, ac_email = Some i, ac_plan_label = None, ac_active = active,
     ac_usage_windows = [], ac_usage_fetched_at = None, ac_usage_error = None, ac_sign_in_state = st,
     ac_limited_until = None, ac_display_name = None, ac_organization = None, ac_auth_kind = Some Oauth,
     ac_switchable = True, ac_saved_at = None, ac_provider = None\<rparr>"

definition sample_last :: run_request where
  "sample_last = \<lparr>rq_prompt = ''go'', rq_harness = Some Codex, rq_model = None, rq_reasoning = None, rq_model_options = [],
     rq_cwd = ''/p'', rq_sandbox = WorkspaceWrite, rq_auto_approve = False, rq_resume = None, rq_fallback_history = None,
     rq_provider_fork = None, rq_attachments = [], rq_worktree = None, rq_mcp = None, rq_env = []\<rparr>"

definition sample_round :: "agent_account list \<Rightarrow> attempt_round" where
  "sample_round accounts = \<lparr>ar_shutting_down = False, ar_now = 0, ar_snapshot = Some accounts, ar_slots = [],
     ar_probed = Some accounts, ar_activates = True, ar_last_request = Some sample_last, ar_host = True, ar_opens = False,
     ar_queue_error = None, ar_restores = True\<rparr>"

definition before_switch :: "agent_account list" where
  "before_switch = [sample_account ''a'' True SignedIn, sample_account ''b'' False SignedIn]"

definition after_switch :: "agent_account list" where
  "after_switch = [sample_account ''a'' False SignedIn, sample_account ''b'' True SignedOut]"

definition sample_session :: "string option \<Rightarrow> session_row" where
  "sample_session account = \<lparr>s_last_completed_turn = None, s_chat_id = ''c'', s_device_id = ''d'', s_status = SessErrored,
     s_started_at = None, s_updated_at = 0,
     s_limit = Some \<lparr>sl_harness = Codex, sl_window = ''usage'', sl_resets_at = None, sl_account_id = account\<rparr>,
     s_scheduled_resume = None, s_running_subagents = 0\<rparr>"

definition sample_world :: failover_world where
  "sample_world = \<lparr>fw_login = Some ''a'', fw_chat = new_chat Codex, fw_log = []\<rparr>"

text \<open>The continuation starts, fails, and the login it ran under is found signed out.\<close>

definition sample_watch :: "bool \<Rightarrow> watch_script" where
  "sample_watch restores = \<lparr>ws_chat = new_chat Codex, ws_began = 0,
     ws_looks = [\<lparr>lk_shutting_down = False, lk_row = Some (SessWorking, 1), lk_wake = WakeChanged\<rparr>,
       \<lparr>lk_shutting_down = False, lk_row = Some (SessErrored, 2), lk_wake = WakeChanged\<rparr>],
     ws_final = None, ws_marks = [(Some (sample_account ''b'' True SignedOut), False)],
     ws_rounds = (\<lambda>_. sample_round after_switch), ws_restores = restores, ws_host = True, ws_opens = True,
     ws_note = (''u'', 3, ''d'')\<rparr>"

definition sample_failover :: "string option \<Rightarrow> bool \<Rightarrow> resume_outcome \<times> failover_world" where
  "sample_failover account restores = resume_on_another_account (\<lambda>_. None) True (Some before_switch) (Some (sample_session account))
     ''c'' None (\<lambda>_. sample_round before_switch) [sample_watch restores] sample_world"

text \<open>Where the limit record names no account, the account the limit hit is taken for the login of
  the moment, so after one failed switch the chain goes back to the limited account as a healthy
  candidate and queues the continuation there.\<close>

theorem limited_account_tried_again:
  "activated_ids (fw_log (snd (sample_failover None True))) = [''b'', ''a''] \<and> active_account (Some before_switch) Codex
     = Some (sample_account ''a'' True SignedIn)"
  by code_simp

text \<open>When the login cannot be swapped back, the transcript still reports that the harness is back on the
  previous account.\<close>

theorem failed_restore_is_reported_restored:
  "fw_login (snd (sample_failover (Some ''a'') False)) = Some ''b''
   \<and> map e_parts (pv_entries (fw_chat (snd (sample_failover (Some ''a'') False)))) = [[TextPart ''t0''
      (''Resume on another account failed: every other account is limited, signed out, or in use. ''
        @ ''The harness is back on account a.'')]]"
  by code_simp

lemma sample_failover_run:
  "resume_on_another_account (\<lambda>_. None) True (Some before_switch) (Some (sample_session account)) ''c'' None
     (\<lambda>_. sample_round before_switch) [sample_watch restores] sample_world
   = (fst (sample_failover account restores), snd (sample_failover account restores))"
  by (simp add: sample_failover_def)

theorem failover_chain_ends_witness:
  "length (probed_ids (fw_log (snd (sample_failover (Some ''a'') True)))) \<le> 2"
proof -
  have "lists_within {''a'', ''b''} (sample_round before_switch)" "lists_within {''a'', ''b''} (sample_round after_switch)"
    by (simp_all add: lists_within_def sample_round_def before_switch_def after_switch_def sample_account_def)
  then show ?thesis
    using failover_chain_ends [OF sample_failover_run [of "Some ''a''" True], of "{''a'', ''b''}"]
    by (simp add: sample_world_def sample_watch_def)
qed

theorem failed_failover_restores_witness: "fw_login (snd (sample_failover (Some ''a'') True)) = Some ''a''"
proof (rule failed_failover_restores [OF sample_failover_run])
  show "Option.bind (Some (sample_session (Some ''a''))) s_limit = Some (the (s_limit (sample_session (Some ''a''))))"
    by (simp add: sample_session_def)
  show "map_option ac_id (active_account (Some before_switch) (sl_harness (the (s_limit (sample_session (Some ''a'')))))) = Some ''a''"
    by code_simp
  show "reports (fw_log (snd (sample_failover (Some ''a'') True))) \<noteq> [] \<or>
      (\<forall>i e. fst (sample_failover (Some ''a'') True) \<noteq> OutcomeSwitched i e)"
  proof (rule disjI1)
    show "reports (fw_log (snd (sample_failover (Some ''a'') True))) \<noteq> []" by code_simp
  qed
qed (simp_all add: sample_world_def sample_round_def sample_watch_def)


theorem foreign_pick_is_refused_witness:
  "\<exists>reason. attempt (\<lambda>_. None) ''c'' Codex (Some ''a'') (Some ''a'') (\<lambda>_. sample_round before_switch) [] (Some ''a'') sample_world
    = (AttemptFailed reason, [], sample_world)"
proof (rule foreign_pick_is_refused)
  have "map ac_id (failover_candidates (ar_now (sample_round before_switch)) (ar_snapshot (sample_round before_switch))
      (ar_slots (sample_round before_switch)) Codex (Some ''a'')) = [''b'']" by code_simp
  then show "\<forall>c\<in>set (failover_candidates (ar_now (sample_round before_switch)) (ar_snapshot (sample_round before_switch))
      (ar_slots (sample_round before_switch)) Codex (Some ''a'')). ac_id c \<noteq> ''a''"
    by (auto simp: map_eq_Cons_conv)
qed (simp add: sample_round_def)

end
