(* ===== verification/Uploads.thy ===== *)
theory Uploads
  imports Workspace_View Text_Chars
begin

text \<open>
  \<open>crates/engine/src/uploads.rs\<close>: files sent in chunks, staged on disk, committed under a name
  both ends of a transfer compute, found again through \<open>pending://\<close> references, and read back
  in chunks. The disk is a table from paths to entries; a staging directory is a table from file
  names to texts and the time of their last write. Times are nanoseconds. The base64 codec and
  the hash are the crates' and are parameters. A directory is listed in the order of its table.
\<close>

section \<open>References\<close>

definition PENDING_REF_PREFIX :: string where "PENDING_REF_PREFIX = ''pending://''"

definition is_pending_ref :: "string \<Rightarrow> bool" where
  "is_pending_ref path \<longleftrightarrow> prefix PENDING_REF_PREFIX path"

definition pending_ref :: "string \<Rightarrow> string \<Rightarrow> string" where
  "pending_ref upload_id name = PENDING_REF_PREFIX @ upload_id @ ''/'' @ name"

definition split_once :: "char \<Rightarrow> string \<Rightarrow> (string \<times> string) option" where
  "split_once c s =
     (if c \<in> set s then Some (takeWhile (\<lambda>x. x \<noteq> c) s, tl (dropWhile (\<lambda>x. x \<noteq> c) s)) else None)"

definition parse_pending_ref :: "string \<Rightarrow> (string \<times> string) option" where
  "parse_pending_ref path =
     (case strip_prefix PENDING_REF_PREFIX path of None \<Rightarrow> None
      | Some rest \<Rightarrow>
          (case split_once (CHR ''/'') rest of None \<Rightarrow> None
           | Some (i, n) \<Rightarrow> if i \<noteq> [] \<and> n \<noteq> [] then Some (i, n) else None))"

definition pending_refs_in :: "string \<Rightarrow> string list" where
  "pending_refs_in body =
     List.map_filter
       (\<lambda>line. case strip_prefix ''- '' (trim_start line) of None \<Rightarrow> None
         | Some rest \<Rightarrow> if is_pending_ref (trim rest) then Some (trim rest) else None)
       (text_lines body)"

definition MAX_BYTES :: nat where "MAX_BYTES = 100 * 1024 * 1024"
definition READ_CHUNK_BYTES :: nat where "READ_CHUNK_BYTES = 45000"
definition STAGING_TTL :: int where "STAGING_TTL = 600 * 10 ^ 9"
definition MAX_GENERATED_IMAGE_BYTES :: nat where "MAX_GENERATED_IMAGE_BYTES = 24 * 1024 * 1024"

section \<open>Names and paths\<close>

text \<open>\<open>Path::join\<close>, \<open>file_stem\<close> and \<open>extension\<close> of a last component, \<open>parse::<u64>\<close>.\<close>

definition join_path :: "string \<Rightarrow> string \<Rightarrow> string" where
  "join_path d n =
     (if prefix ''/'' n then n else if d = [] \<or> suffix ''/'' d then d @ n else d @ ''/'' @ n)"

definition stem_ext :: "string \<Rightarrow> string \<times> string option" where
  "stem_ext n =
     (if n = ''..'' then (n, None)
      else case rposition (\<lambda>c. c = CHR ''.'') n of
             None \<Rightarrow> (n, None)
           | Some i \<Rightarrow> if i = 0 then (n, None) else (take i n, Some (drop (i + 1) n)))"

definition parse_u64 :: "string \<Rightarrow> nat option" where
  "parse_u64 s =
     (let d = (if prefix ''+'' s then tl s else s)
      in if all_digits d \<and> read_nat d < 2 ^ 64 then Some (read_nat d) else None)"

text \<open>\<open>format!("{at:06}.b64")\<close>\<close>

definition chunk_name :: "nat \<Rightarrow> string" where
  "chunk_name at = replicate (6 - length (show_nat at)) (CHR ''0'') @ show_nat at @ ''.b64''"

definition clean_char :: "string \<Rightarrow> char" where
  "clean_char ch =
     (case ch of
        [c] \<Rightarrow> if ascii_alnum c \<or> c = CHR ''.'' \<or> c = CHR ''-'' \<or> c = CHR ''_'' then c else CHR ''_''
      | _ \<Rightarrow> CHR ''_'')"

definition sanitize :: "string \<Rightarrow> string" where
  "sanitize name =
     (let base = (case file_name name of None \<Rightarrow> [] | Some n \<Rightarrow> n);
          cleaned = map clean_char (chars_of base);
          tail = drop (length cleaned - 80) cleaned
      in if tail = [] then ''upload'' else tail)"

section \<open>State\<close>

datatype disk_entry = RegularFile string | NotAFile

record staging_area =
  sg_made :: int
  sg_chunks :: "(string \<times> string \<times> int) list" \<comment> \<open>file name, content, modified\<close>

record uploads =
  up_dir :: string
  up_staging :: "(string \<times> staging_area) list" \<comment> \<open>the directories under \<open>tmp\<close>\<close>
  up_disk :: "(string \<times> disk_entry) list"

datatype upload_error = Refused string | Unreadable string | WriteFailed

section \<open>Staging\<close>

definition valid_upload_id :: "string \<Rightarrow> bool" where
  "valid_upload_id i \<longleftrightarrow>
     i \<noteq> [] \<and> length i \<le> 64 \<and> list_all (\<lambda>c. ascii_alnum c \<or> c = CHR ''-'' \<or> c = CHR ''_'') i"

definition staging_dir :: "uploads \<Rightarrow> string \<Rightarrow> upload_error + string" where
  "staging_dir u upload_id =
     (if valid_upload_id upload_id then Inr (join_path (join_path (up_dir u) ''tmp'') upload_id)
      else Inl (Refused ''Invalid upload id''))"

definition chunk_files :: "staging_area \<Rightarrow> (nat \<times> string) list" where
  "chunk_files d =
     List.map_filter
       (\<lambda>(name, content, _).
          case parse_u64 (fst (stem_ext name)) of
            Some seq \<Rightarrow> if snd (stem_ext name) = Some ''b64'' then Some (seq, content) else None
          | None \<Rightarrow> None)
       (sg_chunks d)"

definition next_free_seq :: "staging_area \<Rightarrow> nat" where
  "next_free_seq d = fold max (map (\<lambda>(seq, _). seq + 1) (chunk_files d)) 0"

definition newest_write :: "staging_area \<Rightarrow> int" where
  "newest_write d =
     (case map (snd \<circ> snd) (sg_chunks d) of [] \<Rightarrow> sg_made d | t # ts \<Rightarrow> fold max ts t)"

definition expired_staging :: "int \<Rightarrow> staging_area \<Rightarrow> bool" where
  "expired_staging now d \<longleftrightarrow> now - newest_write d > STAGING_TTL"

definition sweep :: "int \<Rightarrow> uploads \<Rightarrow> uploads" where
  "sweep now u = u\<lparr>up_staging := filter (\<lambda>(_, d). \<not> expired_staging now d) (up_staging u)\<rparr>"

definition staged_bytes :: "nat \<Rightarrow> staging_area \<Rightarrow> nat" where
  "staged_bytes at d = sum_list (map (length \<circ> snd) (filter (\<lambda>(seq, _). seq \<noteq> at) (chunk_files d)))"

definition put_area :: "string \<Rightarrow> staging_area \<Rightarrow> uploads \<Rightarrow> uploads" where
  "put_area i d u = u\<lparr>up_staging := AList.update i d (up_staging u)\<rparr>"

definition drop_area :: "string \<Rightarrow> uploads \<Rightarrow> uploads" where
  "drop_area i u = u\<lparr>up_staging := AList.delete i (up_staging u)\<rparr>"

text \<open>\<open>create_dir_all\<close>: the directory there is, or a new one.\<close>

definition open_area :: "int \<Rightarrow> string \<Rightarrow> uploads \<Rightarrow> staging_area" where
  "open_area now i u =
     (case map_of (up_staging u) i of Some d \<Rightarrow> d | None \<Rightarrow> \<lparr>sg_made = now, sg_chunks = []\<rparr>)"

definition write_chunk :: "int \<Rightarrow> nat \<Rightarrow> string \<Rightarrow> staging_area \<Rightarrow> staging_area" where
  "write_chunk now at data d = d\<lparr>sg_chunks := AList.update (chunk_name at) (data, now) (sg_chunks d)\<rparr>"

definition append_chunk ::
    "int \<Rightarrow> string \<Rightarrow> string \<Rightarrow> nat option \<Rightarrow> uploads \<Rightarrow> (upload_error + unit) \<times> uploads" where
  "append_chunk now upload_id data seq u =
     (case staging_dir u upload_id of
        Inl e \<Rightarrow> (Inl e, u)
      | Inr _ \<Rightarrow>
          let u1 = sweep now u;
              d = open_area now upload_id u1;
              u2 = put_area upload_id d u1;
              at = (case seq of Some s \<Rightarrow> s | None \<Rightarrow> next_free_seq d)
          in if at > 1000000 then (Inl (Refused ''Invalid chunk index''), u2)
             else if (staged_bytes at d + length data) * 3 div 4 > MAX_BYTES + 2
             then (Inl (Refused ''Upload too large''), drop_area upload_id u2)
             else (Inr (), put_area upload_id (write_chunk now at data d) u2))"

text \<open>
  Nothing holds the directory between the check and the write, and the chunks of an upload arrive
  several at a time: an append is its check, which creates the directory and settles the position,
  and later its write, which fails when the directory has gone.
\<close>

definition append_begin ::
    "int \<Rightarrow> string \<Rightarrow> string \<Rightarrow> nat option \<Rightarrow> uploads \<Rightarrow> (upload_error + nat) \<times> uploads" where
  "append_begin now upload_id data seq u =
     (case staging_dir u upload_id of
        Inl e \<Rightarrow> (Inl e, u)
      | Inr _ \<Rightarrow>
          let u1 = sweep now u;
              d = open_area now upload_id u1;
              u2 = put_area upload_id d u1;
              at = (case seq of Some s \<Rightarrow> s | None \<Rightarrow> next_free_seq d)
          in if at > 1000000 then (Inl (Refused ''Invalid chunk index''), u2)
             else if (staged_bytes at d + length data) * 3 div 4 > MAX_BYTES + 2
             then (Inl (Refused ''Upload too large''), drop_area upload_id u2)
             else (Inr at, u2))"

definition append_write :: "int \<Rightarrow> string \<Rightarrow> nat \<Rightarrow> string \<Rightarrow> uploads \<Rightarrow> (upload_error + unit) \<times> uploads" where
  "append_write now upload_id at data u =
     (case map_of (up_staging u) upload_id of
        None \<Rightarrow> (Inl WriteFailed, u)
      | Some d \<Rightarrow> (Inr (), put_area upload_id (write_chunk now at data d) u))"

lemma append_in_two_steps:
  "append_chunk now i data seq u =
     (case append_begin now i data seq u of
        (Inl e, u1) \<Rightarrow> (Inl e, u1)
      | (Inr at, u1) \<Rightarrow> append_write now i at data u1)"
  by (simp add: append_chunk_def append_begin_def append_write_def put_area_def update_conv' Let_def split: sum.split)

text \<open>The loop of \<open>commit\<close> over the sorted parts: position \<open>i\<close> must hold chunk \<open>i\<close>.\<close>

fun join_chunks :: "nat \<Rightarrow> (nat \<times> string) list \<Rightarrow> string option" where
  "join_chunks i [] = Some []"
| "join_chunks i ((seq, content) # parts) =
     (if seq \<noteq> i then None else map_option (\<lambda>rest. trim content @ rest) (join_chunks (Suc i) parts))"

definition committed_path :: "uploads \<Rightarrow> string \<Rightarrow> string \<Rightarrow> string" where
  "committed_path u upload_id name =
     join_path (up_dir u) (take_chars 8 upload_id @ ''-'' @ sanitize name)"

definition commit ::
    "(string \<Rightarrow> string + string) \<Rightarrow> string \<Rightarrow> string \<Rightarrow> uploads \<Rightarrow> (upload_error + string) \<times> uploads" where
  "commit dec upload_id name u =
     (case staging_dir u upload_id of
        Inl e \<Rightarrow> (Inl e, u)
      | Inr _ \<Rightarrow>
          let parts = (case map_of (up_staging u) upload_id of Some d \<Rightarrow> chunk_files d | None \<Rightarrow> []);
              gone = drop_area upload_id u
          in if parts = [] then (Inl (Refused ''Unknown or expired upload''), u)
             else case join_chunks 0 (sort_key fst parts) of
                    None \<Rightarrow> (Inl (Refused ''Upload is missing a chunk''), u)
                  | Some joined \<Rightarrow>
                      (case dec joined of
                         Inl e \<Rightarrow> (Inl (Refused (''upload is not valid base64: '' @ e)), u)
                       | Inr bytes \<Rightarrow>
                           if length bytes > MAX_BYTES then (Inl (Refused ''Upload too large''), gone)
                           else let path = committed_path u upload_id name
                                in if map_of (up_disk u) path = Some NotAFile then (Inl WriteFailed, u)
                                   else (Inr path,
                                         gone\<lparr>up_disk := AList.update path (RegularFile bytes) (up_disk u)\<rparr>)))"

section \<open>Resolving and reading\<close>

definition pending_target :: "uploads \<Rightarrow> string \<Rightarrow> string \<Rightarrow> string" where
  "pending_target u upload_id name =
     join_path (up_dir u) (sanitize (take_chars 8 upload_id) @ ''-'' @ sanitize name)"

definition resolve_pending :: "uploads \<Rightarrow> string \<Rightarrow> string option" where
  "resolve_pending u path =
     (case parse_pending_ref path of None \<Rightarrow> None
      | Some (upload_id, name) \<Rightarrow>
          let target = pending_target u upload_id name
          in case map_of (up_disk u) target of Some (RegularFile _) \<Rightarrow> Some target | _ \<Rightarrow> None)"

definition resolve_attachment_path :: "uploads \<Rightarrow> string \<Rightarrow> upload_error + string" where
  "resolve_attachment_path u path =
     (if is_pending_ref path
      then case resolve_pending u path of
             Some target \<Rightarrow> Inr target
           | None \<Rightarrow> Inl (Refused ''Attachment has not arrived on this device yet'')
      else Inr path)"

subsection \<open>Image types\<close>

definition raster_signature :: "string \<Rightarrow> (string \<times> string) option" where
  "raster_signature b =
     (if prefix (CHR 0x89 # ''PNG'' @ [CHR 0x0D, CHR 0x0A, CHR 0x1A, CHR 0x0A]) b then Some (''png'', ''image/png'')
      else if prefix [CHR 0xFF, CHR 0xD8, CHR 0xFF] b then Some (''jpg'', ''image/jpeg'')
      else if prefix ''RIFF'' b \<and> 12 \<le> length b \<and> take 4 (drop 8 b) = ''WEBP'' then Some (''webp'', ''image/webp'')
      else if prefix ''GIF87a'' b \<or> prefix ''GIF89a'' b then Some (''gif'', ''image/gif'')
      else None)"

text \<open>
  \<open>String::from_utf8_lossy\<close>: a well-formed character is kept; the longest prefix of one that is
  cut short, or a single byte, becomes U+FFFD.
\<close>

definition second_of_three :: "char \<Rightarrow> char \<Rightarrow> bool" where
  "second_of_three c d \<longleftrightarrow>
     byte_in 0xE0 0xEF c
     \<and> byte_in (if c = CHR 0xE0 then 0xA0 else 0x80) (if c = CHR 0xED then 0x9F else 0xBF) d"

definition second_of_four :: "char \<Rightarrow> char \<Rightarrow> bool" where
  "second_of_four c d \<longleftrightarrow>
     byte_in 0xF0 0xF4 c
     \<and> byte_in (if c = CHR 0xF0 then 0x90 else 0x80) (if c = CHR 0xF4 then 0x8F else 0xBF) d"

definition utf8_cut :: "string \<Rightarrow> nat" where
  "utf8_cut s =
     (case s of
        c # d # rest \<Rightarrow>
          (if second_of_three c d then 2
           else if second_of_four c d
           then (case rest of e # _ \<Rightarrow> if cont_byte e then 3 else 2 | [] \<Rightarrow> 2)
           else 1)
      | _ \<Rightarrow> 1)"

lemma utf8_cut_pos: "0 < utf8_cut s"
  by (simp add: utf8_cut_def split: list.splits)

function from_utf8_lossy :: "string \<Rightarrow> string" where
  "from_utf8_lossy [] = []"
| "from_utf8_lossy (c # cs) =
     (case find (\<lambda>n. n \<le> Suc (length cs) \<and> utf8_char (take n (c # cs))) [1, 2, 3, 4] of
        Some n \<Rightarrow> take n (c # cs) @ from_utf8_lossy (drop n (c # cs))
      | None \<Rightarrow> [CHR 0xEF, CHR 0xBF, CHR 0xBD] @ from_utf8_lossy (drop (utf8_cut (c # cs)) (c # cs)))"
  by pat_completeness auto
termination
proof (relation "measure length")
  fix c cs n assume "find (\<lambda>n. n \<le> Suc (length cs) \<and> utf8_char (take n (c # cs))) [1, 2, 3, 4] = Some n"
  then have "n \<in> set [1, 2, 3, 4]" by (auto simp only: find_Some_iff in_set_conv_nth)
  then have "0 < n" by auto
  then show "(drop n (c # cs), c # cs) \<in> measure length" by simp
next
  fix c :: char and cs
  show "(drop (utf8_cut (c # cs)) (c # cs), c # cs) \<in> measure length"
    using utf8_cut_pos [of "c # cs"] by simp
qed simp

text \<open>\<open>str::find\<close>\<close>

fun find_sub :: "string \<Rightarrow> string \<Rightarrow> nat option" where
  "find_sub pat [] = (if pat = [] then Some 0 else None)"
| "find_sub pat (c # cs) = (if prefix pat (c # cs) then Some 0 else map_option Suc (find_sub pat cs))"

text \<open>\<open>str::replace\<close>, for a non-empty pattern.\<close>

function replace_all :: "string \<Rightarrow> string \<Rightarrow> string \<Rightarrow> string" where
  "replace_all pat by [] = []"
| "replace_all pat by (c # cs) =
     (if pat \<noteq> [] \<and> prefix pat (c # cs) then by @ replace_all pat by (drop (length pat) (c # cs))
      else c # replace_all pat by cs)"
  by pat_completeness auto
termination by (relation "measure (\<lambda>(_, _, s). length s)") auto

lemma trim_start_length: "length (trim_start s) \<le> length s"
  by (induction s rule: trim_start.induct) (subst trim_start.simps, fastforce split: option.splits)

function starts_svg_document :: "string \<Rightarrow> bool" where
  "starts_svg_document body =
     (let t = trim_start body
      in if prefix ''<svg'' t
           \<or> (13 \<le> length t \<and> is_char_boundary t 13
                \<and> map ascii_lower (take 13 t) = map ascii_lower ''<!DOCTYPE svg'')
         then True
         else case (if prefix ''<?xml'' t then map_option (\<lambda>at. at + 2) (find_sub ''?>'' t)
                    else if prefix ''<!--'' t then map_option (\<lambda>at. at + 3) (find_sub ''-->'' t)
                    else None) of
                None \<Rightarrow> False
              | Some e \<Rightarrow> starts_svg_document (drop e t))"
  by pat_completeness auto
termination
proof (relation "measure length")
  fix body t e
  assume t: "t = trim_start body"
    and e: "(if prefix ''<?xml'' t then map_option (\<lambda>at. at + 2) (find_sub ''?>'' t)
             else if prefix ''<!--'' t then map_option (\<lambda>at. at + 3) (find_sub ''-->'' t) else None) = Some e"
  then have "t \<noteq> []" "0 < e" by (auto split: if_splits)
  then have "length (drop e t) < length t" by simp
  then show "(drop e t, body) \<in> measure length" using trim_start_length [of body] t by simp
qed simp

declare starts_svg_document.simps [simp del]

text \<open>\<open>trim_start_matches\<close> of the byte order mark.\<close>

function trim_bom :: "string \<Rightarrow> string" where
  "trim_bom s = (case strip_prefix [CHR 0xEF, CHR 0xBB, CHR 0xBF] s of None \<Rightarrow> s | Some r \<Rightarrow> trim_bom r)"
  by pat_completeness auto
termination by (relation "measure length") (auto simp: strip_prefix_def prefix_def split: if_splits)

declare trim_bom.simps [simp del]

definition sniff_mime :: "string \<Rightarrow> string option" where
  "sniff_mime head =
     (case raster_signature head of
        Some (_, mime) \<Rightarrow> Some mime
      | None \<Rightarrow>
          if prefix ''BM'' head then Some ''image/bmp''
          else if prefix (''II*'' @ [CHR 0x00]) head \<or> prefix (''MM'' @ [CHR 0x00] @ ''*'') head then Some ''image/tiff''
          else if prefix [CHR 0x00, CHR 0x00, CHR 0x01, CHR 0x00] head then Some ''image/x-icon''
          else if 8 \<le> length head \<and> take 4 (drop 4 head) = ''ftyp''
          then (if length head < 12 then None
                else let brand = take 4 (drop 8 head)
                     in if brand \<in> {''avif'', ''avis''} then Some ''image/avif''
                        else if brand \<in> {''heic'', ''heix'', ''heim'', ''heis'', ''mif1'', ''msf1''}
                        then Some ''image/heic'' else None)
          else if starts_svg_document (trim_bom (from_utf8_lossy head)) then Some ''image/svg+xml'' else None)"

definition mime_by_ext :: "string \<Rightarrow> string option" where
  "mime_by_ext path =
     (case Option.bind (file_name path) (snd \<circ> stem_ext) of
        None \<Rightarrow> None
      | Some ext \<Rightarrow>
          map_of [(''png'', ''image/png''), (''jpg'', ''image/jpeg''), (''jpeg'', ''image/jpeg''),
                  (''gif'', ''image/gif''), (''webp'', ''image/webp''), (''svg'', ''image/svg+xml''),
                  (''bmp'', ''image/bmp''), (''tif'', ''image/tiff''), (''tiff'', ''image/tiff''),
                  (''avif'', ''image/avif''), (''heic'', ''image/heic''), (''heif'', ''image/heic''),
                  (''ico'', ''image/x-icon'')] (map ascii_lower ext))"

subsection \<open>One chunk of a file\<close>

record attachment_chunk =
  ac_name :: string
  ac_mime_type :: string
  ac_data :: string
  ac_next_offset :: nat
  ac_done :: bool

definition read_file_chunk ::
    "(string \<Rightarrow> string) \<Rightarrow> (string \<times> disk_entry) list \<Rightarrow> string \<Rightarrow> nat \<Rightarrow> upload_error + attachment_chunk" where
  "read_file_chunk enc disk path offset =
     (case map_of disk path of
        None \<Rightarrow> Inl (Unreadable path)
      | Some NotAFile \<Rightarrow> Inl (Refused ''Attachment is not a file'')
      | Some (RegularFile content) \<Rightarrow>
          let size = length content;
              start = min offset size;
              stop = min (start + READ_CHUNK_BYTES) size
          in if size > MAX_BYTES then Inl (Refused ''Attachment is too large'')
             else Inr \<lparr>ac_name = (case file_name path of Some n \<Rightarrow> n | None \<Rightarrow> ''attachment''),
                       ac_mime_type =
                         (case mime_by_ext path of Some m \<Rightarrow> m
                          | None \<Rightarrow> (case sniff_mime (take 512 content) of Some m \<Rightarrow> m
                                    | None \<Rightarrow> ''application/octet-stream'')),
                       ac_data = enc (take (stop - start) (drop start content)),
                       ac_next_offset = stop, ac_done = (stop \<ge> size)\<rparr>)"

definition read_chunk :: "(string \<Rightarrow> string) \<Rightarrow> uploads \<Rightarrow> string \<Rightarrow> nat \<Rightarrow> upload_error + attachment_chunk" where
  "read_chunk enc u path offset =
     (case resolve_attachment_path u path of Inl e \<Rightarrow> Inl e
      | Inr target \<Rightarrow> read_file_chunk enc (up_disk u) target offset)"

subsection \<open>Generated images\<close>

text \<open>
  \<open>import_generated_image\<close>. Opening the source below its root without following links is the
  operating system's: its answer is an input, the metadata before and after the copy with it.
\<close>

record file_meta =
  fm_is_file :: bool
  fm_len :: nat
  fm_identity :: nat \<comment> \<open>device, inode and change times\<close>

record opened_image =
  oi_before :: file_meta
  oi_content :: string
  oi_after :: file_meta
  oi_named_after :: "(string \<times> file_meta) option" \<comment> \<open>where the name leads afterwards, and what is there\<close>

record imported_image =
  ii_path :: string
  ii_name :: string
  ii_mime_type :: string
  ii_size :: nat

definition same_generated_file :: "file_meta \<Rightarrow> file_meta \<Rightarrow> bool" where
  "same_generated_file a b \<longleftrightarrow>
     fm_identity a = fm_identity b \<and> fm_is_file a \<and> fm_is_file b \<and> fm_len a = fm_len b"

definition below_root :: "string \<Rightarrow> string \<Rightarrow> string option" where
  "below_root root path =
     (if path = root then Some []
      else strip_prefix (if suffix ''/'' root then root else root @ ''/'') path)"

definition import_generated_image ::
    "(string \<Rightarrow> string) \<Rightarrow> string \<Rightarrow> string option \<Rightarrow> string option \<Rightarrow> string \<Rightarrow> opened_image option \<Rightarrow> uploads
     \<Rightarrow> (upload_error + imported_image) \<times> uploads" where
  "import_generated_image sha source allowed_root canonical stable_key opened u =
     (let invalid = Inl (Refused ''Generated image source is invalid or changed'')
      in if \<not> prefix ''/'' source then (invalid, u)
         else case (allowed_root, canonical) of
           (Some root, Some path) \<Rightarrow>
             (case below_root root path of None \<Rightarrow> (invalid, u)
              | Some relative \<Rightarrow>
                  if relative = [] then (invalid, u)
                  else case opened of None \<Rightarrow> (Inl (Unreadable source), u)
                  | Some im \<Rightarrow>
                      if \<not> fm_is_file (oi_before im) \<or> fm_len (oi_before im) > MAX_GENERATED_IMAGE_BYTES
                      then (invalid, u)
                      else case raster_signature (take 12 (oi_content im)) of None \<Rightarrow> (invalid, u)
                      | Some (ext, mime) \<Rightarrow>
                          let copied = take (MAX_GENERATED_IMAGE_BYTES + 1) (oi_content im);
                              name = ''generated.'' @ ext;
                              dest = join_path (up_dir u) (sha stable_key @ ''-'' @ name)
                          in if length copied \<noteq> fm_len (oi_before im)
                                \<or> length copied > MAX_GENERATED_IMAGE_BYTES
                                \<or> \<not> same_generated_file (oi_before im) (oi_after im)
                                \<or> (case oi_named_after im of None \<Rightarrow> True
                                   | Some (p, m) \<Rightarrow> p \<noteq> path \<or> \<not> same_generated_file (oi_before im) m)
                             then (invalid, u)
                             else (Inr \<lparr>ii_path = dest, ii_name = name, ii_mime_type = mime,
                                        ii_size = length copied\<rparr>,
                                   u\<lparr>up_disk := AList.update dest (RegularFile copied) (up_disk u)\<rparr>))
         | _ \<Rightarrow> (Inl (Unreadable source), u))"

section \<open>References and names\<close>

lemma split_once_Some: "split_once c s = Some (a, b) \<longleftrightarrow> s = a @ c # b \<and> c \<notin> set a"
proof
  assume l: "split_once c s = Some (a, b)"
  then have "c \<in> set s" "a = takeWhile (\<lambda>x. x \<noteq> c) s" "b = tl (dropWhile (\<lambda>x. x \<noteq> c) s)"
    by (auto simp: split_once_def split: if_splits)
  moreover from this(1) have "dropWhile (\<lambda>x. x \<noteq> c) s = c # tl (dropWhile (\<lambda>x. x \<noteq> c) s)"
    by (induction s) auto
  ultimately show "s = a @ c # b \<and> c \<notin> set a"
    by (metis (mono_tags, lifting) set_takeWhileD takeWhile_dropWhile_id)
next
  assume "s = a @ c # b \<and> c \<notin> set a"
  moreover from this have "takeWhile (\<lambda>x. x \<noteq> c) (a @ c # b) = a" "dropWhile (\<lambda>x. x \<noteq> c) (a @ c # b) = c # b"
    by (auto simp: takeWhile_append dropWhile_append)
  ultimately show "split_once c s = Some (a, b)" by (simp add: split_once_def)
qed

lemma strip_prefix_Some [simp]: "strip_prefix p s = Some r \<longleftrightarrow> s = p @ r"
  by (auto simp: strip_prefix_def prefix_def)

text \<open>A reference names exactly one upload: parsing recovers the identifier and the file name a
  reference was made from, and whatever parses is such a reference.
\<close>

theorem pending_ref_exact:
  "parse_pending_ref path = Some (upload_id, name) \<longleftrightarrow>
     path = pending_ref upload_id name \<and> upload_id \<noteq> [] \<and> name \<noteq> [] \<and> CHR ''/'' \<notin> set upload_id"
proof
  assume "parse_pending_ref path = Some (upload_id, name)"
  then show "path = pending_ref upload_id name \<and> upload_id \<noteq> [] \<and> name \<noteq> [] \<and> CHR ''/'' \<notin> set upload_id"
    by (auto simp: parse_pending_ref_def pending_ref_def split_once_Some split: option.splits if_splits)
next
  assume a: "path = pending_ref upload_id name \<and> upload_id \<noteq> [] \<and> name \<noteq> [] \<and> CHR ''/'' \<notin> set upload_id"
  then have "split_once (CHR ''/'') (upload_id @ CHR ''/'' # name) = Some (upload_id, name)"
    by (simp add: split_once_Some)
  then show "parse_pending_ref path = Some (upload_id, name)"
    using a by (simp add: parse_pending_ref_def pending_ref_def strip_prefix_def)
qed

definition safe_byte :: "char \<Rightarrow> bool" where
  "safe_byte c \<longleftrightarrow> ascii_alnum c \<or> c = CHR ''.'' \<or> c = CHR ''-'' \<or> c = CHR ''_''"

lemma safe_clean_char: "safe_byte (clean_char ch)"
  by (auto simp: clean_char_def safe_byte_def split: list.splits)

lemma safe_bytes [simp]: "\<not> safe_byte (CHR ''/'')" "\<not> safe_byte (CHR 0x0A)" "safe_byte (CHR ''_'')"
  by (simp_all add: safe_byte_def ascii_alnum_def)

lemma sanitize_shape:
  shows "list_all safe_byte (sanitize n)" "sanitize n \<noteq> []" "length (sanitize n) \<le> 80"
proof -
  have upload: "list_all safe_byte ''upload''" by (simp add: safe_byte_def ascii_alnum_def)
  have "list_all safe_byte (drop k (map clean_char cs))" for k cs
    by (auto simp: list_all_iff safe_clean_char dest!: in_set_dropD)
  then show "list_all safe_byte (sanitize n)"
    using upload unfolding sanitize_def Let_def by (simp only: if_split) blast
  show "sanitize n \<noteq> []" "length (sanitize n) \<le> 80"
    by (auto simp: sanitize_def Let_def)
qed

lemma sanitize_no_slash: "CHR ''/'' \<notin> set (sanitize n)"
  using sanitize_shape(1) [of n] by (auto simp: list_all_iff)

lemma safe_not_cont: "safe_byte c \<Longrightarrow> \<not> cont_byte c"
  by (auto simp: safe_byte_def ascii_alnum_def cont_byte_def)

lemma chars_of_ascii: "list_all (\<lambda>c. \<not> cont_byte c) s \<Longrightarrow> chars_of s = map (\<lambda>c. [c]) s"
proof (induction s)
  case (Cons c s)
  then have "takeWhile cont_byte s = []" "dropWhile cont_byte s = s" by (cases s; simp)+
  then show ?case using Cons by simp
qed simp

lemma take_chars_ascii: "list_all (\<lambda>c. \<not> cont_byte c) s \<Longrightarrow> take_chars n s = take n s"
proof (induction n s rule: take_chars.induct)
  case (3 n c s)
  then have "takeWhile cont_byte s = []" "dropWhile cont_byte s = s" by (cases s; simp)+
  then show ?case using 3 by simp
qed simp_all

lemma split_at_none: "c \<notin> set s \<Longrightarrow> split_at c cur s = [cur @ s]"
  by (induction s arbitrary: cur) auto

lemma sanitize_id:
  assumes "list_all safe_byte s" "s \<noteq> []" "s \<noteq> ''.''" "s \<noteq> ''..''" "length s \<le> 80"
  shows "sanitize s = s"
proof -
  have "CHR ''/'' \<notin> set s" using assms(1) by (auto simp: list_all_iff)
  then have f: "file_name s = Some s" using assms by (simp add: file_name_def split_at_none)
  have "list_all (\<lambda>c. \<not> cont_byte c) s" using assms(1) by (auto simp: list_all_iff safe_not_cont)
  then have "map clean_char (chars_of s) = s"
    using assms(1) by (simp add: chars_of_ascii comp_def list_all_iff safe_byte_def clean_char_def map_idI)
  then show ?thesis using assms f by (simp add: sanitize_def Let_def del: length_map)

qed

text \<open>The fragment of a valid identifier is its first eight bytes, and survives cleaning.\<close>

lemma valid_id_fragment:
  assumes "valid_upload_id i"
  shows "take_chars 8 i = take 8 i" "sanitize (take_chars 8 i) = take_chars 8 i" "CHR ''/'' \<notin> set i"
proof -
  have safe: "list_all safe_byte i" and ne: "i \<noteq> []" and nodot: "CHR ''.'' \<notin> set i"
    using assms by (auto simp: valid_upload_id_def list_all_iff safe_byte_def ascii_alnum_def)
  have "list_all (\<lambda>c. \<not> cont_byte c) i" using safe by (auto simp: list_all_iff safe_not_cont)
  then show t: "take_chars 8 i = take 8 i" by (rule take_chars_ascii)
  have "take 8 i \<noteq> ''.''" "take 8 i \<noteq> ''..''" using nodot by (metis in_set_takeD list.set_intros(1))+
  moreover have "list_all safe_byte (take 8 i)" using safe by (auto simp: list_all_iff dest: in_set_takeD)
  ultimately show "sanitize (take_chars 8 i) = take_chars 8 i"
    unfolding t using ne by (intro sanitize_id) auto
  show "CHR ''/'' \<notin> set i" using safe by (auto simp: list_all_iff)
qed

lemma target_is_committed: "valid_upload_id i \<Longrightarrow> pending_target u i n = committed_path u i n"
  by (simp only: pending_target_def committed_path_def valid_id_fragment(2))

lemma join_path_plain: "CHR ''/'' \<notin> set n \<Longrightarrow> n \<noteq> [] \<Longrightarrow> join_path d n = (if d = [] \<or> suffix ''/'' d then d @ n else d @ ''/'' @ n)"
  by (cases n) (auto simp: join_path_def)

section \<open>Staging\<close>

subsection \<open>Slots\<close>

lemma rposition_middle:
  "\<forall>x \<in> set ys. \<not> P x \<Longrightarrow> P y \<Longrightarrow> rposition P (xs @ y # ys) = Some (length xs)"
  using position_middle [of "rev ys" P y "rev xs"] by (simp add: rposition_def)

definition padded :: "nat \<Rightarrow> string" where
  "padded k = replicate (6 - length (show_nat k)) (CHR ''0'') @ show_nat k"

lemma read_nat_zeros: "read_nat (replicate m (CHR ''0'') @ t) = read_nat t"
  by (induction m) (simp_all add: read_nat_def digit_value_def)

lemma read_padded [simp]: "read_nat (padded k) = k"
  by (simp add: padded_def read_nat_zeros)

lemma digits_padded: "all_digits (padded k)"
  using all_digits_show_nat [of k] by (auto simp: padded_def all_digits_def byte_in_def list_all_iff)

lemma chunk_name_padded: "chunk_name k = padded k @ ''.b64''"
  by (simp add: chunk_name_def padded_def)

lemma stem_of_chunk: "stem_ext (chunk_name k) = (padded k, Some ''b64'')"
proof -
  have "padded k \<noteq> []" by (simp add: padded_def)
  moreover have "rposition (\<lambda>c. c = CHR ''.'') (padded k @ CHR ''.'' # ''b64'') = Some (length (padded k))"
    by (rule rposition_middle) auto
  moreover have "padded k @ ''.b64'' \<noteq> ''..''"
  proof
    assume "padded k @ ''.b64'' = ''..''"
    then have "length (padded k @ ''.b64'') = length ''..''" by (simp only:)
    then show False by simp
  qed
  ultimately show ?thesis by (simp add: stem_ext_def chunk_name_padded)
qed

lemma chunk_name_inj [simp]: "chunk_name a = chunk_name b \<longleftrightarrow> a = b"
  by (metis prod.inject read_padded stem_of_chunk)

lemma slot_of_chunk: "k \<le> 1000000 \<Longrightarrow> parse_u64 (padded k) = Some k"
  using digits_padded [of k] digits_no_sign [OF digits_padded, of k]
  by (simp add: parse_u64_def Let_def)

text \<open>A staging area as its slots: positions, with the text last written there and when.\<close>

definition slots :: "staging_area \<Rightarrow> (nat \<times> string \<times> int) list \<Rightarrow> bool" where
  "slots d cs \<longleftrightarrow>
     sg_chunks d = map (apfst chunk_name) cs \<and> distinct (map fst cs) \<and> (\<forall>k \<in> fst ` set cs. k \<le> 1000000)"

lemma slots_files: "slots d cs \<Longrightarrow> chunk_files d = map (apsnd fst) cs"
proof -
  assume sl: "slots d cs"
  have "List.map_filter
       (\<lambda>(name, content, _).
          case parse_u64 (fst (stem_ext name)) of
            Some seq \<Rightarrow> if snd (stem_ext name) = Some ''b64'' then Some (seq, content) else None
          | None \<Rightarrow> None) (map (apfst chunk_name) cs) = map (apsnd fst) (cs :: (nat \<times> string \<times> int) list)"
    if "\<forall>k \<in> fst ` set cs. k \<le> 1000000" for cs
    using that by (induction cs) (auto simp: List.map_filter_simps slot_of_chunk stem_of_chunk)
  then show ?thesis using sl by (simp add: slots_def chunk_files_def)
qed

lemma update_slots: "AList.update (chunk_name k) v (map (apfst chunk_name) cs) = map (apfst chunk_name) (AList.update k v cs)"
  by (induction cs) auto

lemma write_slot:
  assumes "slots d cs" "k \<le> 1000000"
  shows "slots (write_chunk now k t d) (AList.update k (t, now) cs)"
  using assms by (auto simp: write_chunk_def slots_def update_slots distinct_update dom_update)

definition slot_bytes :: "(nat \<times> string \<times> int) list \<Rightarrow> nat" where
  "slot_bytes cs = sum_list (map (\<lambda>(_, t, _). length t) cs)"

lemma staged_slots: "slots d cs \<Longrightarrow> staged_bytes k d = slot_bytes (filter (\<lambda>(seq, _). seq \<noteq> k) cs)"
  by (simp add: staged_bytes_def slot_bytes_def slots_files filter_map comp_def case_prod_unfold)

lemma slot_bytes_update:
  "distinct (map fst cs) \<Longrightarrow>
     slot_bytes (AList.update k (t, at) cs) = slot_bytes (filter (\<lambda>(seq, _). seq \<noteq> k) cs) + length t"
proof (induction cs)
  case (Cons c cs)
  have "filter (\<lambda>(seq, _). seq \<noteq> k) cs = cs" if "k \<notin> fst ` set cs"
    using that by (force simp: filter_id_conv)
  then show ?case using Cons by (cases c) (auto simp: slot_bytes_def)
qed (simp add: slot_bytes_def)

subsection \<open>What the staging areas may hold\<close>

definition area_ok :: "staging_area \<Rightarrow> bool" where
  "area_ok d \<longleftrightarrow> (\<exists>cs. slots d cs \<and> slot_bytes cs * 3 div 4 \<le> MAX_BYTES + 2)"

definition uploads_ok :: "uploads \<Rightarrow> bool" where
  "uploads_ok u \<longleftrightarrow>
     distinct (map fst (up_staging u)) \<and> (\<forall>(i, d) \<in> set (up_staging u). valid_upload_id i \<and> area_ok d)"

datatype upload_event =
    Chunk int string string "nat option"
  | Commit string string
  | Import string "string option" "string option" string "opened_image option"

definition upload_step ::
    "(string \<Rightarrow> string + string) \<Rightarrow> (string \<Rightarrow> string) \<Rightarrow> uploads \<Rightarrow> upload_event \<Rightarrow> uploads" where
  "upload_step dec sha u e =
     (case e of
        Chunk now i data seq \<Rightarrow> snd (append_chunk now i data seq u)
      | Commit i n \<Rightarrow> snd (commit dec i n u)
      | Import source root canonical key opened \<Rightarrow>
          snd (import_generated_image sha source root canonical key opened u))"

lemma area_of: "uploads_ok u \<Longrightarrow> map_of (up_staging u) i = Some d \<Longrightarrow> valid_upload_id i \<and> area_ok d"
  by (auto simp: uploads_ok_def dest!: map_of_SomeD)

lemma uploads_ok_sweep: "uploads_ok u \<Longrightarrow> uploads_ok (sweep now u)"
  by (auto simp: uploads_ok_def sweep_def distinct_map_filter)

lemma uploads_ok_disk [simp]: "uploads_ok (up_disk_update f u) = uploads_ok u"
  by (simp add: uploads_ok_def)

lemma uploads_ok_delete: "uploads_ok u \<Longrightarrow> uploads_ok (drop_area i u)"
  by (auto simp: uploads_ok_def drop_area_def AList.delete_eq distinct_map_filter)

lemma set_update_subset: "set (AList.update k v xs) \<subseteq> insert (k, v) (set xs)"
  by (induction xs) auto

lemma uploads_ok_put:
  "uploads_ok u \<Longrightarrow> valid_upload_id i \<Longrightarrow> area_ok d \<Longrightarrow> uploads_ok (put_area i d u)"
  using set_update_subset [of i d "up_staging u"] by (auto simp: uploads_ok_def put_area_def distinct_update)

lemma open_area_ok: "uploads_ok u \<Longrightarrow> area_ok (open_area now i u)"
  using area_of [of u i]
  by (auto simp: open_area_def area_ok_def slots_def slot_bytes_def intro!: exI [of _ "[]"] split: option.splits)

lemma write_chunk_ok:
  assumes "area_ok d" "at \<le> 1000000" "(staged_bytes at d + length data) * 3 div 4 \<le> MAX_BYTES + 2"
  shows "area_ok (write_chunk now at data d)"
proof -
  obtain cs where cs: "slots d cs" using assms(1) by (auto simp: area_ok_def)
  then have "slot_bytes (AList.update at (data, now) cs) = staged_bytes at d + length data"
    using staged_slots [OF cs, of at] by (simp add: slot_bytes_update slots_def)
  then show ?thesis
    unfolding area_ok_def using write_slot [OF cs assms(2)] assms(3)
    by (intro exI [of _ "AList.update at (data, now) cs"]) simp
qed

lemma append_keeps_ok: "uploads_ok u \<Longrightarrow> uploads_ok (snd (append_chunk now i data seq u))"
  using open_area_ok [OF uploads_ok_sweep, of u now i now]
  by (auto simp: append_chunk_def staging_dir_def Let_def not_less
      intro!: uploads_ok_put uploads_ok_delete uploads_ok_sweep write_chunk_ok)

lemma commit_keeps_ok: "uploads_ok u \<Longrightarrow> uploads_ok (snd (commit dec i n u))"
proof -
  assume "uploads_ok u"
  moreover from this have "uploads_ok (drop_area i u)" by (rule uploads_ok_delete)
  ultimately show ?thesis
    by (auto simp: commit_def staging_dir_def Let_def simp del: uploads_ok_disk
        split: option.split sum.split) (simp_all add: uploads_ok_def)
qed

lemma import_keeps_staging:
  "up_staging (snd (import_generated_image sha source root canonical key opened u)) = up_staging u"
  by (simp add: import_generated_image_def Let_def split: option.split prod.split)

interpretation upload_machine: invariant_machine "upload_step dec sha" uploads_ok for dec sha
proof
  fix s e assume ok: "uploads_ok s"
  show "uploads_ok (upload_step dec sha s e)"
  proof (cases e)
    case (Import source root canonical key opened)
    then show ?thesis
      using ok import_keeps_staging [of sha source root canonical key opened s]
      by (simp add: upload_step_def uploads_ok_def)
  qed (use ok append_keeps_ok commit_keeps_ok in \<open>simp_all add: upload_step_def\<close>)
qed

lemma uploads_bounded:
  assumes "uploads_ok u" "map_of (up_staging u) i = Some d"
  shows "sum_list (map (length \<circ> snd) (chunk_files d)) * 3 div 4 \<le> MAX_BYTES + 2"
proof -
  from area_of [OF assms] obtain cs where cs: "slots d cs" "slot_bytes cs * 3 div 4 \<le> MAX_BYTES + 2"
    by (auto simp: area_ok_def)
  then show ?thesis by (simp add: slots_files slot_bytes_def comp_def case_prod_unfold)
qed

subsection \<open>Appends that overlap\<close>

text \<open>
  The uploads with the appends that have passed their check and not written yet: the upload, the
  position, the data. At most \<open>k\<close> are on their way at a time.
\<close>

record transfers =
  tf_uploads :: uploads
  tf_pending :: "(string \<times> nat \<times> string) list"

datatype transfer_event =
    BeginChunk int string string "nat option"
  | WriteChunk nat int
  | CommitUpload string string
  | ImportImage string "string option" "string option" string "opened_image option"

definition transfer_step ::
    "(string \<Rightarrow> string + string) \<Rightarrow> (string \<Rightarrow> string) \<Rightarrow> nat \<Rightarrow> transfers \<Rightarrow> transfer_event \<Rightarrow> transfers" where
  "transfer_step dec sha k s e =
     (let u = tf_uploads s; pending = tf_pending s
      in case e of
           BeginChunk now i data seq \<Rightarrow>
             if length pending < k
             then case append_begin now i data seq u of
                    (Inl _, u1) \<Rightarrow> s\<lparr>tf_uploads := u1\<rparr>
                  | (Inr at, u1) \<Rightarrow> s\<lparr>tf_uploads := u1, tf_pending := pending @ [(i, at, data)]\<rparr>
             else s
         | WriteChunk n now \<Rightarrow>
             if n < length pending
             then case pending ! n of
                    (i, at, data) \<Rightarrow> s\<lparr>tf_uploads := snd (append_write now i at data u), tf_pending := take n pending @ drop (Suc n) pending\<rparr>
             else s
         | CommitUpload i n \<Rightarrow> s\<lparr>tf_uploads := snd (commit dec i n u)\<rparr>
         | ImportImage source root canonical key opened \<Rightarrow>
             s\<lparr>tf_uploads := snd (import_generated_image sha source root canonical key opened u)\<rparr>)"

text \<open>The most characters the check lets through.\<close>

definition STAGED_MAX :: nat where "STAGED_MAX = (4 * (MAX_BYTES + 3) - 1) div 3"

lemma staged_max: "x * 3 div 4 \<le> MAX_BYTES + 2 \<longleftrightarrow> x \<le> STAGED_MAX"
proof -
  have "x * 3 div 4 \<le> MAX_BYTES + 2 \<longleftrightarrow> x * 3 div 4 < MAX_BYTES + 3" by linarith
  also have "\<dots> \<longleftrightarrow> x * 3 < (MAX_BYTES + 3) * 4" by (rule div_less_iff_less_mult) simp
  also have "\<dots> \<longleftrightarrow> x * 3 \<le> 4 * (MAX_BYTES + 3) - 1" by arith
  also have "\<dots> \<longleftrightarrow> x \<le> STAGED_MAX" unfolding STAGED_MAX_def by (rule less_eq_div_iff_mult_less_eq [symmetric]) simp
  finally show ?thesis .
qed

definition bytes_pending :: "string \<Rightarrow> (string \<times> nat \<times> string) list \<Rightarrow> nat" where
  "bytes_pending i pending = sum_list (map (\<lambda>(j, _, t). if j = i then length t else 0) pending)"

lemma bytes_pending_append [simp]: "bytes_pending i (xs @ ys) = bytes_pending i xs + bytes_pending i ys"
  by (simp add: bytes_pending_def)

lemma bytes_pending_Cons [simp]: "bytes_pending i ((j, at, t) # ys) = (if j = i then length t else 0) + bytes_pending i ys"
  by (simp add: bytes_pending_def)

lemma bytes_pending_Nil [simp]: "bytes_pending i [] = 0"
  by (simp add: bytes_pending_def)

lemma bytes_pending_le: "\<forall>(j, at, t) \<in> set pending. length t \<le> B \<Longrightarrow> bytes_pending i pending \<le> length pending * B"
  by (induction pending) auto

text \<open>An area whose slots, with what is still on its way to it, stay within \<open>N\<close>.\<close>

definition area_within :: "nat \<Rightarrow> nat \<Rightarrow> nat \<Rightarrow> staging_area \<Rightarrow> bool" where
  "area_within N B extra d \<longleftrightarrow>
     (\<exists>cs. slots d cs \<and> (\<forall>(_, t, _) \<in> set cs. length t \<le> B) \<and> slot_bytes cs + extra \<le> N)"

definition staged_within :: "nat \<Rightarrow> nat \<Rightarrow> uploads \<Rightarrow> (string \<times> nat \<times> string) list \<Rightarrow> bool" where
  "staged_within N B u pending \<longleftrightarrow>
     distinct (map fst (up_staging u))
     \<and> (\<forall>(i, d) \<in> set (up_staging u). valid_upload_id i \<and> area_within N B (bytes_pending i pending) d)"

definition transfers_ok :: "nat \<Rightarrow> nat \<Rightarrow> transfers \<Rightarrow> bool" where
  "transfers_ok k B s \<longleftrightarrow>
     length (tf_pending s) \<le> k \<and> (\<forall>(i, at, t) \<in> set (tf_pending s). length t \<le> B \<and> at \<le> 1000000)
     \<and> staged_within (STAGED_MAX + k * B) B (tf_uploads s) (tf_pending s)"

lemma area_within_mono: "area_within N B x d \<Longrightarrow> y \<le> x \<Longrightarrow> area_within N B y d"
  unfolding area_within_def by (meson add_left_mono le_trans)

lemma area_within_new: "x \<le> N \<Longrightarrow> area_within N B x \<lparr>sg_made = now, sg_chunks = []\<rparr>"
  unfolding area_within_def by (intro exI [of _ "[]"]) (simp add: slots_def slot_bytes_def)

lemma staged_within_sub:
  assumes "staged_within N B u pending" "set (up_staging u') \<subseteq> set (up_staging u)" "distinct (map fst (up_staging u'))"
  shows "staged_within N B u' pending"
  using assms by (auto simp: staged_within_def)

lemma staged_within_put:
  assumes "staged_within N B u pending" "valid_upload_id i" "area_within N B (bytes_pending i pending) d"
  shows "staged_within N B (put_area i d u) pending"
  using assms set_update_subset [of i d "up_staging u"]
  by (auto simp: staged_within_def put_area_def distinct_update)

lemma sweep_sub:
  assumes "staged_within N B u pending"
  shows "staged_within N B (sweep now u) pending"
  by (rule staged_within_sub [OF assms]) (use assms in \<open>auto simp: sweep_def staged_within_def distinct_map_filter\<close>)

lemma drop_sub:
  assumes "staged_within N B u pending"
  shows "staged_within N B (drop_area i u) pending"
  by (rule staged_within_sub [OF assms])
    (use assms in \<open>auto simp: drop_area_def AList.delete_eq staged_within_def distinct_map_filter\<close>)

lemma open_within:
  assumes "staged_within N B u pending" "bytes_pending i pending \<le> N"
  shows "area_within N B (bytes_pending i pending) (open_area now i u)"
  using assms area_within_new [of "bytes_pending i pending" N B now]
  by (auto simp: open_area_def staged_within_def dest!: map_of_SomeD split: option.split)

lemma slot_bytes_without:
  assumes "distinct (map fst cs)" "\<forall>(_, t, _) \<in> set cs. length t \<le> B"
  shows "slot_bytes cs \<le> slot_bytes (filter (\<lambda>(seq, _). seq \<noteq> at) cs) + B"
  using assms
proof (induction cs)
  case (Cons c cs)
  have "filter (\<lambda>(seq, _). seq \<noteq> at) cs = cs" if "at \<notin> fst ` set cs"
    using that by (force simp: filter_id_conv)
  then show ?case using Cons by (cases c) (auto simp: slot_bytes_def)
qed (simp add: slot_bytes_def)

lemma slot_bytes_filter: "slot_bytes (filter P cs) \<le> slot_bytes cs"
  unfolding slot_bytes_def by (induction cs) (auto intro: trans_le_add2)

text \<open>A checked append leaves room for its own data beside what the others may still write.\<close>

lemma area_checked:
  assumes "area_within N B x d" "staged_bytes at d + length data \<le> STAGED_MAX" "length data \<le> B"
    and "STAGED_MAX + B + extra \<le> N"
  shows "area_within N B (extra + length data) d"
proof -
  obtain cs where cs: "slots d cs" "\<forall>(_, t, _) \<in> set cs. length t \<le> B" using assms(1) by (auto simp: area_within_def)
  then have "slot_bytes cs \<le> staged_bytes at d + B"
    using slot_bytes_without [of cs B at] staged_slots [OF cs(1), of at] by (simp add: slots_def)
  then show ?thesis using assms cs unfolding area_within_def by (intro exI [of _ cs]) simp
qed

lemma begin_within:
  assumes ok: "staged_within N B u pending" and sizes: "length data \<le> B" "bytes_pending i pending + B + STAGED_MAX \<le> N"
    and st: "append_begin now i data seq u = (r, u')"
  shows "staged_within N B u' (case r of Inl _ \<Rightarrow> pending | Inr at \<Rightarrow> pending @ [(i, at, data)])
    \<and> (\<forall>at. r = Inr at \<longrightarrow> at \<le> 1000000)"
proof (cases "valid_upload_id i")
  case True
  let ?u1 = "sweep now u"
  let ?d = "open_area now i ?u1"
  let ?at = "case seq of Some n \<Rightarrow> n | None \<Rightarrow> next_free_seq ?d"
  have u1: "staged_within N B ?u1 pending" by (rule sweep_sub [OF ok])
  have d: "area_within N B (bytes_pending i pending) ?d" using sizes by (intro open_within [OF u1]) simp
  have u2: "staged_within N B (put_area i ?d ?u1) pending" by (rule staged_within_put [OF u1 True d])
  show ?thesis
  proof (cases "?at > 1000000 \<or> (staged_bytes ?at ?d + length data) * 3 div 4 > MAX_BYTES + 2")
    case refused: True
    then show ?thesis
      using st True u2 drop_sub [OF u2] by (auto simp: append_begin_def staging_dir_def Let_def split: if_splits)
  next
    case False
    then have r: "r = Inr ?at" "u' = put_area i ?d ?u1" "?at \<le> 1000000"
      using st True by (simp_all add: append_begin_def staging_dir_def Let_def)
    have "area_within N B (bytes_pending i pending + length data) ?d"
    proof (rule area_checked [OF d])
      show "staged_bytes ?at ?d + length data \<le> STAGED_MAX" using False unfolding de_Morgan_disj not_less staged_max by blast
    qed (use sizes in simp_all)
    moreover have "staged_within N B (put_area i ?d ?u1) (pending @ [(i, ?at, data)])"
    proof -
      have "area_within N B (bytes_pending j (pending @ [(i, ?at, data)])) e"
        if "(j, e) \<in> set (up_staging (put_area i ?d ?u1))" for j e
      proof (cases "j = i")
        case True
        have "distinct (map fst (up_staging (put_area i ?d ?u1)))" using u2 by (simp add: staged_within_def)
        then have "map_of (up_staging (put_area i ?d ?u1)) i = Some e" using that True by simp
        then have "e = ?d" by (simp add: put_area_def update_conv')
        then show ?thesis using True calculation by simp
      next
        case False
        then show ?thesis using that u2 by (auto simp: staged_within_def)
      qed
      then show ?thesis using u2 by (auto simp: staged_within_def)
    qed
    ultimately show ?thesis using r by simp
  qed
qed (use ok st in \<open>auto simp: append_begin_def staging_dir_def\<close>)

lemma write_within:
  assumes ok: "staged_within N B u (xs @ (i, at, data) # ys)" and data: "length data \<le> B" "at \<le> 1000000"
  shows "staged_within N B (snd (append_write now i at data u)) (xs @ ys)"
proof -
  have less: "staged_within N B u (xs @ ys)"
    unfolding staged_within_def
  proof (intro conjI ballI, goal_cases)
    case (2 p)
    then show ?case
      using ok area_within_mono [of N B "bytes_pending (fst p) (xs @ (i, at, data) # ys)" "snd p" "bytes_pending (fst p) (xs @ ys)"]
      by (cases p) (auto simp: staged_within_def)
  qed (use ok in \<open>simp add: staged_within_def\<close>)
  show ?thesis
  proof (cases "map_of (up_staging u) i")
    case (Some d)
    then have "(i, d) \<in> set (up_staging u)" by (rule map_of_SomeD)
    then have "valid_upload_id i" and "area_within N B (bytes_pending i (xs @ (i, at, data) # ys)) d"
      using ok by (auto simp: staged_within_def)
    then obtain cs where cs: "slots d cs" "\<forall>(_, t, _) \<in> set cs. length t \<le> B"
        "slot_bytes cs + (length data + bytes_pending i (xs @ ys)) \<le> N"
      by (auto simp: area_within_def)
    let ?cs = "AList.update at (data, now) cs"
    have "slot_bytes ?cs \<le> slot_bytes cs + length data"
      using slot_bytes_update [of cs at data now] slot_bytes_filter [of _ cs] cs(1) by (simp add: slots_def)
    then have "area_within N B (bytes_pending i (xs @ ys)) (write_chunk now at data d)"
      using write_slot [OF cs(1) data(2), of now data] cs(2,3) data(1) set_update_subset [of at "(data, now)" cs]
      unfolding area_within_def by (intro exI [of _ ?cs]) auto
    then show ?thesis using Some staged_within_put [OF less \<open>valid_upload_id i\<close>] by (simp add: append_write_def)
  qed (simp add: append_write_def less)
qed

lemma commit_staging: "snd (commit dec i n u) = u \<or> up_staging (snd (commit dec i n u)) = up_staging (drop_area i u)"
  by (auto simp: commit_def Let_def drop_area_def split: sum.splits option.splits)

fun chunk_within :: "nat \<Rightarrow> transfer_event \<Rightarrow> bool" where
  "chunk_within B (BeginChunk _ _ data _) \<longleftrightarrow> length data \<le> B"
| "chunk_within B _ \<longleftrightarrow> True"

lemma transfer_step_ok:
  assumes "transfers_ok k B s" "chunk_within B e"
  shows "transfers_ok k B (transfer_step dec sha k s e)"
proof (cases e)
  case (BeginChunk now i data seq)
  show ?thesis
  proof (cases "length (tf_pending s) < k")
    case True
    obtain r u where st: "append_begin now i data seq (tf_uploads s) = (r, u)" by fastforce
    have "bytes_pending i (tf_pending s) \<le> length (tf_pending s) * B"
      using assms(1) by (intro bytes_pending_le) (auto simp: transfers_ok_def)
    moreover have "length (tf_pending s) * B + B \<le> k * B"
      using True by (metis Suc_leI mult_Suc add.commute mult_le_mono1)
    ultimately have "staged_within (STAGED_MAX + k * B) B u (case r of Inl _ \<Rightarrow> tf_pending s | Inr at \<Rightarrow> tf_pending s @ [(i, at, data)])
        \<and> (\<forall>at. r = Inr at \<longrightarrow> at \<le> 1000000)"
      using assms BeginChunk by (intro begin_within [OF _ _ _ st]) (simp_all add: transfers_ok_def)
    then show ?thesis
      using assms BeginChunk True st by (auto simp: transfer_step_def transfers_ok_def split: sum.splits)
  qed (use assms BeginChunk in \<open>simp add: transfer_step_def\<close>)
next
  case (WriteChunk n now)
  show ?thesis
  proof (cases "n < length (tf_pending s)")
    case True
    obtain i at data where p: "tf_pending s ! n = (i, at, data)" by (cases "tf_pending s ! n")
    let ?xs = "take n (tf_pending s)" and ?ys = "drop (Suc n) (tf_pending s)"
    have split: "tf_pending s = ?xs @ (i, at, data) # ?ys" using id_take_nth_drop [OF True] p by simp
    have "(i, at, data) \<in> set (tf_pending s)" using nth_mem [OF True] p by simp
    then have "length data \<le> B" "at \<le> 1000000" using assms(1) by (auto simp: transfers_ok_def)
    moreover have "staged_within (STAGED_MAX + k * B) B (tf_uploads s) (?xs @ (i, at, data) # ?ys)"
      using assms(1) split by (simp add: transfers_ok_def)
    ultimately have "staged_within (STAGED_MAX + k * B) B (snd (append_write now i at data (tf_uploads s))) (?xs @ ?ys)"
      by (intro write_within)
    then show ?thesis
      using assms(1) WriteChunk True p
      by (auto simp: transfer_step_def transfers_ok_def Let_def dest: in_set_takeD in_set_dropD)
  qed (use assms WriteChunk in \<open>simp add: transfer_step_def\<close>)
next
  case (CommitUpload i n)
  have "staged_within N B (snd (commit dec i n u)) pending" if "staged_within N B u pending" for N u pending
    using commit_staging [of dec i n u] that drop_sub [OF that, of i] by (auto simp: staged_within_def)
  then show ?thesis using assms CommitUpload by (simp add: transfer_step_def transfers_ok_def)
next
  case (ImportImage source root canonical key opened)
  then show ?thesis
    using assms import_keeps_staging [of sha source root canonical key opened "tf_uploads s"]
    by (simp add: transfer_step_def transfers_ok_def staged_within_def)
qed

interpretation transfer_machine: guarded_machine "transfer_step dec sha k" "transfers_ok k B" "chunk_within B" for dec sha k B
  by unfold_locales (rule transfer_step_ok)

text \<open>C35: an abandoned upload stays bounded. However the checks and the writes of appends, commits and imports
  interleave, with at most \<open>k\<close> appends between check and write at a time and chunks of at most \<open>B\<close>
  characters, each staging directory belongs to a valid identifier, holds every position once, and
  its chunks stay within the size limit but for \<open>k\<close> chunks: an append checks the cap against what is
  written, not against what the others that have passed the check are about to write.\<close>

theorem staging_stays_bounded:
  assumes "up_staging u = []" "list_all (chunk_within B) es"
    and "map_of (up_staging (tf_uploads (foldl (transfer_step dec sha k) \<lparr>tf_uploads = u, tf_pending = []\<rparr> es))) i = Some d"
  shows "valid_upload_id i \<and> distinct (map fst (chunk_files d))
    \<and> (sum_list (map (length \<circ> snd) (chunk_files d)) - k * B) * 3 div 4 \<le> MAX_BYTES + 2"
proof -
  let ?s = "foldl (transfer_step dec sha k) \<lparr>tf_uploads = u, tf_pending = []\<rparr> es"
  have "transfers_ok k B \<lparr>tf_uploads = u, tf_pending = []\<rparr>" using assms(1) by (simp add: transfers_ok_def staged_within_def)
  then have "transfers_ok k B ?s" by (rule transfer_machine.legal_run [OF _ assms(2)])
  then have "valid_upload_id i" "area_within (STAGED_MAX + k * B) B (bytes_pending i (tf_pending ?s)) d"
    using map_of_SomeD [OF assms(3)] by (auto simp: transfers_ok_def staged_within_def)
  moreover from this obtain cs where cs: "slots d cs" "slot_bytes cs \<le> STAGED_MAX + k * B" by (auto simp: area_within_def)
  ultimately show ?thesis
    unfolding staged_max by (simp add: slots_files slot_bytes_def comp_def case_prod_unfold) (simp add: slots_def)
qed

subsection \<open>Chunks in any order\<close>

text \<open>
  An upload in progress: events of this upload are its chunks, each at its position, and between
  two of them, and until the last event, no more than the staging time passes. Other uploads do
  as they like.
\<close>

fun kept_alive :: "string \<Rightarrow> int option \<Rightarrow> upload_event list \<Rightarrow> bool" where
  "kept_alive i since [] = True"
| "kept_alive i since (Chunk now j _ _ # es) =
     ((case since of None \<Rightarrow> True | Some t \<Rightarrow> now - t \<le> STAGING_TTL)
      \<and> kept_alive i (if j = i then Some now else since) es)"
| "kept_alive i since (_ # es) = kept_alive i since es"

definition sends :: "string \<Rightarrow> string list \<Rightarrow> upload_event \<Rightarrow> bool" where
  "sends i chunks e \<longleftrightarrow>
     (case e of
        Chunk _ j data seq \<Rightarrow> j = i \<longrightarrow> (\<exists>k < length chunks. data = chunks ! k \<and> seq = Some k)
      | Commit j _ \<Rightarrow> j \<noteq> i
      | Import _ _ _ _ _ \<Rightarrow> True)"

definition delivered :: "string \<Rightarrow> upload_event list \<Rightarrow> nat set" where
  "delivered i es = {k. \<exists>now data. Chunk now i data (Some k) \<in> set es}"

definition upload_fits :: "string list \<Rightarrow> bool" where
  "upload_fits chunks \<longleftrightarrow>
     length chunks \<le> 1000001 \<and> sum_list (map length chunks) * 3 div 4 \<le> MAX_BYTES + 2"

text \<open>The area of the upload after the positions \<open>ks\<close> have been written, the last at \<open>t\<close>.\<close>

definition holds :: "string \<Rightarrow> string list \<Rightarrow> nat set \<Rightarrow> int option \<Rightarrow> uploads \<Rightarrow> bool" where
  "holds i chunks ks since u \<longleftrightarrow>
     uploads_ok u \<and> ks \<subseteq> {..<length chunks} \<and>
     (case since of
        None \<Rightarrow> ks = {} \<and> map_of (up_staging u) i = None
      | Some t \<Rightarrow> \<exists>d cs. map_of (up_staging u) i = Some d \<and> slots d cs \<and> fst ` set cs = ks
                   \<and> (\<forall>(k, content, _) \<in> set cs. content = chunks ! k) \<and> t \<le> newest_write d)"

lemma newest_write_ge: "x \<in> set (sg_chunks d) \<Longrightarrow> snd (snd x) \<le> newest_write d"
proof -
  have le: "\<forall>x \<in> set (b # ts). x \<le> fold max ts b" for b and ts :: "int list"
  proof (induction ts arbitrary: b)
    case (Cons t ts)
    then show ?case using Cons [of "max t b"] by fastforce
  qed simp
  assume "x \<in> set (sg_chunks d)"
  then show ?thesis
    using le unfolding newest_write_def by (auto split: list.splits simp: image_iff) force+
qed

lemma slot_bytes_le:
  assumes "distinct (map fst cs)" "fst ` set cs \<subseteq> {..<length chunks}"
    "\<forall>(k, content, _) \<in> set cs. content = chunks ! k"
  shows "slot_bytes cs \<le> sum_list (map length chunks)"
proof -
  have "slot_bytes cs = sum_list (map ((\<lambda>k. length (chunks ! k)) \<circ> fst) cs)"
    unfolding slot_bytes_def using assms(3) by (intro arg_cong [where f = sum_list] map_cong) auto
  also have "\<dots> = sum (\<lambda>k. length (chunks ! k)) (fst ` set cs)"
    using assms(1) by (simp add: sum_list_distinct_conv_sum_set distinct_map sum.reindex)
  also have "\<dots> \<le> sum (\<lambda>k. length (chunks ! k)) {..<length chunks}"
    using assms(2) by (intro sum_mono2) auto
  also have "\<dots> = sum_list (map length chunks)"
    by (simp add: sum_list_sum_nth atLeast0LessThan)
  finally show ?thesis .
qed

lemma sort_slots:
  assumes "distinct (map fst cs)" "fst ` set cs = {..<length chunks}"
    "\<forall>(k, content, _) \<in> set cs. content = chunks ! k"
  shows "sort_key fst (map (apsnd fst) cs) = map (\<lambda>k. (k, chunks ! k)) [0..<length chunks]"
proof -
  let ?xs = "sort_key fst (map (apsnd fst) cs)"
  have "mset (map fst ?xs) = mset (map fst cs)" by (simp add: image_mset.compositionality comp_def)
  then have "distinct (map fst ?xs)" "set (map fst ?xs) = fst ` set cs"
    using assms(1) by (metis mset_eq_imp_distinct_iff, metis mset_eq_setD set_map)
  moreover have "sorted (map fst ?xs)" by simp
  ultimately have fs: "map fst ?xs = [0..<length chunks]"
    using assms(2) by (intro sorted_distinct_set_unique) (simp_all add: atLeast0LessThan)
  have "?xs = map (\<lambda>p. (fst p, chunks ! fst p)) ?xs"
    using assms(3) by (intro map_idI [symmetric]) auto
  also have "\<dots> = map (\<lambda>k. (k, chunks ! k)) (map fst ?xs)" by simp
  finally show ?thesis unfolding fs .
qed

text \<open>One event keeps the picture.\<close>

lemma sweep_lookup:
  "distinct (map fst (up_staging u)) \<Longrightarrow>
     map_of (up_staging (sweep now u)) i =
       (case map_of (up_staging u) i of Some d \<Rightarrow> if expired_staging now d then None else Some d | None \<Rightarrow> None)"
proof -
  have "map_of (filter (\<lambda>(_, d). P d) xs) i = (case map_of xs i of Some d \<Rightarrow> if P d then Some d else None | None \<Rightarrow> None)"
    if "distinct (map fst xs)" for P and xs :: "(string \<times> staging_area) list"
    using that by (induction xs) (auto split: option.split simp: map_of_eq_None_iff dom_map_of_conv_image_fst rev_image_eqI)
  then show "distinct (map fst (up_staging u)) \<Longrightarrow> ?thesis"
    by (auto simp: sweep_def split: option.split)
qed

lemma holds_sweep:
  assumes "holds i chunks ks since u" "case since of None \<Rightarrow> True | Some t \<Rightarrow> now - t \<le> STAGING_TTL"
  shows "holds i chunks ks since (sweep now u)"
proof -
  have d: "distinct (map fst (up_staging u))" and ok: "uploads_ok (sweep now u)"
    using assms(1) uploads_ok_sweep [of u now] by (simp_all add: holds_def) (simp add: uploads_ok_def)
  show ?thesis
    using assms ok by (cases since) (auto simp: holds_def sweep_lookup [OF d] expired_staging_def)
qed

lemma holds_other:
  "holds i chunks ks since u \<Longrightarrow> uploads_ok u' \<Longrightarrow> map_of (up_staging u') i = map_of (up_staging u) i \<Longrightarrow>
     holds i chunks ks since u'"
  by (cases since) (simp_all add: holds_def)

lemma area_lookups [simp]:
  "map_of (up_staging (put_area j d u)) i = (if i = j then Some d else map_of (up_staging u) i)"
  "map_of (up_staging (drop_area j u)) i = (if i = j then None else map_of (up_staging u) i)"
  by (auto simp: put_area_def drop_area_def update_conv' delete_conv')

lemma holds_append_other:
  assumes "holds i chunks ks since u" "j \<noteq> i" "case since of None \<Rightarrow> True | Some t \<Rightarrow> now - t \<le> STAGING_TTL"
  shows "holds i chunks ks since (snd (append_chunk now j data seq u))"
proof (cases "valid_upload_id j")
  case True
  have "map_of (up_staging (snd (append_chunk now j data seq u))) i = map_of (up_staging (sweep now u)) i"
    using True assms(2) by (simp add: append_chunk_def staging_dir_def Let_def)
  moreover have "uploads_ok (snd (append_chunk now j data seq u))"
    using assms(1) by (intro append_keeps_ok) (simp add: holds_def)
  ultimately show ?thesis using holds_other [OF holds_sweep [OF assms(1,3)]] by blast
qed (use assms in \<open>simp add: append_chunk_def staging_dir_def\<close>)

lemma holds_append_own:
  assumes h: "holds i chunks ks since u" and alive: "case since of None \<Rightarrow> True | Some t \<Rightarrow> now - t \<le> STAGING_TTL"
    and i: "valid_upload_id i" and k: "k < length chunks" and fit: "upload_fits chunks"
  shows "fst (append_chunk now i (chunks ! k) (Some k) u) = Inr ()"
    and "holds i chunks (insert k ks) (Some now) (snd (append_chunk now i (chunks ! k) (Some k) u))"
proof -
  let ?u = "sweep now u"
  let ?d = "open_area now i ?u"
  have hs: "holds i chunks ks since ?u" by (rule holds_sweep [OF h alive])
  obtain cs where cs: "slots ?d cs" "fst ` set cs = ks" "\<forall>(k, content, _) \<in> set cs. content = chunks ! k"
  proof (cases since)
    case None
    then have "?d = \<lparr>sg_made = now, sg_chunks = []\<rparr>" "ks = {}" using hs by (auto simp: holds_def open_area_def)
    then show ?thesis using that [of "[]"] by (simp add: slots_def)
  next
    case (Some t)
    then show ?thesis using hs that by (auto simp: holds_def open_area_def)
  qed
  let ?cs = "AList.update k (chunks ! k, now) cs"
  have sub: "ks \<subseteq> {..<length chunks}" using h by (simp add: holds_def)
  have k6: "k \<le> 1000000" using k fit by (simp add: upload_fits_def)
  have slots: "slots (write_chunk now k (chunks ! k) ?d) ?cs" by (rule write_slot [OF cs(1) k6])
  have keys: "fst ` set ?cs = insert k ks" using cs(2) by (simp add: dom_update)
  have contents: "\<forall>(k, content, _) \<in> set ?cs. content = chunks ! k"
    using cs(3) set_update_subset [of k "(chunks ! k, now)" cs] by fastforce
  have "slot_bytes ?cs \<le> sum_list (map length chunks)"
    using slots keys sub k contents by (intro slot_bytes_le) (auto simp: slots_def)
  moreover have "slot_bytes ?cs = staged_bytes k ?d + length (chunks ! k)"
    using cs(1) staged_slots [OF cs(1), of k] by (simp add: slot_bytes_update slots_def)
  ultimately have "staged_bytes k ?d + length (chunks ! k) \<le> sum_list (map length chunks)" by simp
  then have "(staged_bytes k ?d + length (chunks ! k)) * 3 div 4 \<le> sum_list (map length chunks) * 3 div 4"
    by (intro div_le_mono mult_right_mono) simp_all
  then have size: "(staged_bytes k ?d + length (chunks ! k)) * 3 div 4 \<le> MAX_BYTES + 2"
    using fit unfolding upload_fits_def by linarith
  have run: "append_chunk now i (chunks ! k) (Some k) u =
      (Inr (), put_area i (write_chunk now k (chunks ! k) ?d) (put_area i ?d ?u))"
    using i k6 size by (simp add: append_chunk_def staging_dir_def Let_def not_less del: add_2_eq_Suc')
  show "fst (append_chunk now i (chunks ! k) (Some k) u) = Inr ()" by (simp add: run)
  have "now \<le> newest_write (write_chunk now k (chunks ! k) ?d)"
    using newest_write_ge [of "(chunk_name k, chunks ! k, now)"]
    by (simp add: write_chunk_def map_of_SomeD update_conv')
  moreover have "uploads_ok (snd (append_chunk now i (chunks ! k) (Some k) u))"
    using h by (intro append_keeps_ok) (simp add: holds_def)
  ultimately show "holds i chunks (insert k ks) (Some now) (snd (append_chunk now i (chunks ! k) (Some k) u))"
    using slots keys contents sub k by (auto simp: holds_def run)
qed

lemma holds_step:
  assumes h: "holds i chunks ks since u" and e: "sends i chunks e" "kept_alive i since (e # es)"
    and i: "valid_upload_id i" and fit: "upload_fits chunks"
  obtains ks' since' where "holds i chunks ks' since' (upload_step dec sha u e)" "kept_alive i since' es"
    "ks' = ks \<union> {k. \<exists>now data. e = Chunk now i data (Some k)}"
proof (cases e)
  case (Chunk now j data seq)
  show ?thesis
  proof (cases "j = i")
    case True
    then obtain k where k: "k < length chunks" "data = chunks ! k" "seq = Some k"
      using e(1) Chunk by (auto simp: sends_def)
    show ?thesis
      using holds_append_own(2) [OF h _ i k(1) fit, of now] e(2) Chunk True k
      by (intro that [of "insert k ks" "Some now"]) (auto simp: upload_step_def)
  next
    case False
    show ?thesis
      using holds_append_other [OF h False, of now] e(2) Chunk False
      by (intro that [of ks since]) (auto simp: upload_step_def)
  qed
next
  case (Commit j n)
  have ok: "uploads_ok u" using h by (simp add: holds_def)
  have "map_of (up_staging (snd (commit dec j n u))) i = map_of (up_staging u) i"
    using Commit e(1) by (auto simp: sends_def commit_def staging_dir_def Let_def split: option.split sum.split)
  then show ?thesis
    using Commit e holds_other [OF h commit_keeps_ok [OF ok], of dec j n]
    by (intro that [of ks since]) (auto simp: upload_step_def)
next
  case (Import source root canonical key opened)
  let ?u = "snd (import_generated_image sha source root canonical key opened u)"
  have "up_staging ?u = up_staging u" by (rule import_keeps_staging)
  then show ?thesis
    using Import e holds_other [OF h, of ?u] h
    by (intro that [of ks since]) (auto simp: upload_step_def holds_def uploads_ok_def)
qed

lemma holds_run:
  assumes "holds i chunks ks since u" "list_all (sends i chunks) es" "kept_alive i since es"
    and "valid_upload_id i" "upload_fits chunks"
  shows "\<exists>since'. holds i chunks (ks \<union> delivered i es) since' (foldl (upload_step dec sha) u es)"
  using assms(1-3)
proof (induction es arbitrary: ks since u)
  case Nil
  then show ?case by (auto simp: delivered_def)
next
  case (Cons e es)
  obtain ks' since' where "holds i chunks ks' since' (upload_step dec sha u e)" "kept_alive i since' es"
    and ks': "ks' = ks \<union> {k. \<exists>now data. e = Chunk now i data (Some k)}"
    using Cons.prems(2) by (auto elim: holds_step [OF Cons.prems(1) _ Cons.prems(3) assms(4,5), of dec sha])
  moreover have "ks' \<union> delivered i es = ks \<union> delivered i (e # es)"
    by (auto simp: ks' delivered_def)
  ultimately show ?case using Cons.IH Cons.prems(2) by fastforce
qed

lemma join_all: "join_chunks a (map (\<lambda>k. (k, chunks ! k)) [a..<b]) = Some (concat (map (\<lambda>k. trim (chunks ! k)) [a..<b]))"
proof (induction "b - a" arbitrary: a)
  case (Suc n)
  then show ?case by (simp add: upt_rec)
qed simp

lemma holds_all_commits:
  assumes "holds i chunks {..<length chunks} since u" "chunks \<noteq> []"
    and "dec (concat (map trim chunks)) = Inr bytes" "length bytes \<le> MAX_BYTES"
    and "map_of (up_disk u) (committed_path u i n) \<noteq> Some NotAFile" "valid_upload_id i"
  shows "commit dec i n u =
    (Inr (committed_path u i n),
     (drop_area i u)\<lparr>up_disk := AList.update (committed_path u i n) (RegularFile bytes) (up_disk u)\<rparr>)"
proof -
  obtain t where since: "since = Some t" using assms(1,2) by (cases since) (auto simp: holds_def)
  then obtain d cs where d: "map_of (up_staging u) i = Some d" and cs: "slots d cs" "fst ` set cs = {..<length chunks}"
    "\<forall>(k, content, _) \<in> set cs. content = chunks ! k"
    using assms(1) by (auto simp: holds_def)
  have all: "map (\<lambda>k. trim (chunks ! k)) [0..<length chunks] = map trim chunks"
    by (rule nth_equalityI) simp_all
  have "cs \<noteq> []" using cs(2) assms(2) by auto
  moreover have "join_chunks 0 (sort_key fst (map (apsnd fst) cs)) = Some (concat (map trim chunks))"
    using cs join_all [of 0 chunks "length chunks"] by (simp add: sort_slots slots_def all)
  ultimately show ?thesis
    using assms d by (simp add: commit_def staging_dir_def Let_def slots_files [OF cs(1)])
qed

lemma run_dir: "up_dir (foldl (upload_step dec sha) u es) = up_dir u"
proof -
  have "up_dir (upload_step dec sha u e) = up_dir u" for u e
    by (cases e) (simp_all add: upload_step_def append_chunk_def commit_def import_generated_image_def staging_dir_def
        Let_def put_area_def drop_area_def sweep_def split: option.split sum.split prod.split)
  then show ?thesis by (induction es arbitrary: u) simp_all
qed

text \<open>An operation leaves the disk alone or writes one regular file.\<close>

definition writes_one :: "uploads \<Rightarrow> uploads \<Rightarrow> bool" where
  "writes_one u u' \<longleftrightarrow>
     up_disk u' = up_disk u \<or> (\<exists>p b. up_disk u' = AList.update p (RegularFile b) (up_disk u))"

lemma step_writes_one: "writes_one u (upload_step dec sha u e)"
proof -
  have "up_disk (snd (append_chunk now i data seq u)) = up_disk u" for now i data seq
    by (simp add: append_chunk_def staging_dir_def put_area_def drop_area_def sweep_def Let_def)
  moreover have "writes_one u (snd (commit dec i n u))" for i n
    by (simp add: writes_one_def commit_def staging_dir_def drop_area_def Let_def split: option.split sum.split) blast
  moreover have "writes_one u (snd (import_generated_image sha source root canonical key opened u))"
    for source root canonical key opened
    by (simp add: writes_one_def import_generated_image_def Let_def split: option.split prod.split) blast
  ultimately show ?thesis by (cases e) (simp_all add: upload_step_def writes_one_def)
qed

lemma run_not_a_file:
  "map_of (up_disk (foldl (upload_step dec sha) u es)) p = Some NotAFile \<Longrightarrow> map_of (up_disk u) p = Some NotAFile"
proof (induction es arbitrary: u)
  case (Cons e es)
  then have "map_of (up_disk (upload_step dec sha u e)) p = Some NotAFile" by simp
  then show ?case
    using step_writes_one [of u dec sha e] by (auto simp: writes_one_def update_conv' split: if_splits)
qed simp

text \<open>
  An upload survives reordering, retries and everything other uploads do: once every chunk has
  arrived at its position, in any order and any number of times, committing decodes the chunks
  joined in order, writes them under the name the file's reference resolves to, and frees the
  staging directory.
\<close>

lemma upload_commits_in_any_order:
  assumes "uploads_ok u" "map_of (up_staging u) i = None" "valid_upload_id i"
    and "list_all (sends i chunks) es" "kept_alive i None es" "delivered i es = {..<length chunks}"
    and "chunks \<noteq> []" "upload_fits chunks"
    and "dec (concat (map trim chunks)) = Inr bytes" "length bytes \<le> MAX_BYTES" "n \<noteq> []"
    and "map_of (up_disk u) (committed_path u i n) \<noteq> Some NotAFile"
  shows "\<exists>u'. commit dec i n (foldl (upload_step dec sha) u es) = (Inr (committed_path u i n), u')
    \<and> resolve_pending u' (pending_ref i n) = Some (committed_path u i n)
    \<and> map_of (up_disk u') (committed_path u i n) = Some (RegularFile bytes)
    \<and> map_of (up_staging u') i = None"
proof -
  let ?u = "foldl (upload_step dec sha) u es"
  have h: "holds i chunks {} None u" using assms(1,2) by (simp add: holds_def)
  obtain since where "holds i chunks {..<length chunks} since ?u"
    using holds_run [OF h assms(4,5,3,8), of dec sha] assms(6) by auto
  moreover have dir: "up_dir ?u = up_dir u" by (rule run_dir)
  ultimately have run: "commit dec i n ?u = (Inr (committed_path u i n),
      (drop_area i ?u)\<lparr>up_disk := AList.update (committed_path u i n) (RegularFile bytes) (up_disk ?u)\<rparr>)"
    using holds_all_commits [of i chunks since ?u dec bytes n] run_not_a_file [of dec sha u es] assms
    by (auto simp: committed_path_def)
  have "parse_pending_ref (pending_ref i n) = Some (i, n)"
    using valid_id_fragment(3) [OF assms(3)] assms(3,11) by (simp add: pending_ref_exact valid_upload_id_def)
  then show ?thesis
    using run dir target_is_committed [OF assms(3), of _ n]
    by (simp add: resolve_pending_def Let_def committed_path_def drop_area_def update_conv' delete_conv')
qed

section \<open>A pause loses the beginning\<close>

text \<open>C38: an upload without positions that pauses longer than the staging time is cut: its next chunk
  sweeps its own staging directory, lands at position zero, and the commit then succeeds with the
  last chunk alone, though joining around lost chunks is what the commit means to refuse.
\<close>

theorem paused_append_truncates:
  assumes "uploads_ok u" "valid_upload_id i" "map_of (up_staging u) i = Some d" "expired_staging now d"
    and "length data * 3 div 4 \<le> MAX_BYTES + 2" "dec (trim data) = Inr bytes" "length bytes \<le> MAX_BYTES"
    and "map_of (up_disk u) (committed_path u i n) \<noteq> Some NotAFile"
  shows "fst (append_chunk now i data None u) = Inr ()
    \<and> (\<exists>u'. commit dec i n (snd (append_chunk now i data None u)) = (Inr (committed_path u i n), u')
          \<and> map_of (up_disk u') (committed_path u i n) = Some (RegularFile bytes))"
proof -
  let ?u = "sweep now u"
  have "map_of (up_staging ?u) i = None"
    using assms(1,3,4) sweep_lookup [of u now i] by (simp add: uploads_ok_def)
  then have "open_area now i ?u = \<lparr>sg_made = now, sg_chunks = []\<rparr>" by (simp add: open_area_def)
  then have run: "append_chunk now i data None u =
      (Inr (), put_area i (write_chunk now 0 data \<lparr>sg_made = now, sg_chunks = []\<rparr>)
                 (put_area i \<lparr>sg_made = now, sg_chunks = []\<rparr> ?u))"
    using assms(2,5)
    by (simp add: append_chunk_def staging_dir_def Let_def next_free_seq_def staged_bytes_def chunk_files_def
        List.map_filter_simps)
  have "slots (write_chunk now 0 data \<lparr>sg_made = now, sg_chunks = []\<rparr>) [(0, data, now)]"
    by (simp add: slots_def write_chunk_def)
  from slots_files [OF this] show ?thesis
    using assms(2,6,7,8) unfolding run
    by (simp add: commit_def staging_dir_def Let_def committed_path_def put_area_def drop_area_def sweep_def update_conv')
qed

definition paused_uploads :: uploads where
  "paused_uploads =
     \<lparr>up_dir = ''/data'', up_staging = [(''u1'', \<lparr>sg_made = 0, sg_chunks = [(''000000.b64'', ''aGVs'', 0)]\<rparr>)],
      up_disk = []\<rparr>"

lemma paused_uploads_ok: "uploads_ok paused_uploads"
proof -
  have "chunk_name 0 = ''000000.b64''" by code_simp
  then have "slots \<lparr>sg_made = 0, sg_chunks = [(''000000.b64'', ''aGVs'', 0)]\<rparr> [(0, ''aGVs'', 0)]"
    by (simp add: slots_def)
  then have "area_ok \<lparr>sg_made = 0, sg_chunks = [(''000000.b64'', ''aGVs'', 0)]\<rparr>"
    by (auto simp: area_ok_def slot_bytes_def MAX_BYTES_def intro!: exI [of _ "[(0, ''aGVs'', 0)]"])
  moreover have "valid_upload_id ''u1''" by code_simp
  ultimately show ?thesis by (simp add: uploads_ok_def paused_uploads_def)
qed

theorem paused_append_truncates_witness:
  "fst (append_chunk (700 * 10 ^ 9) ''u1'' ''bG8='' None paused_uploads) = Inr ()
   \<and> (\<exists>u'. commit (\<lambda>s. if s = ''bG8='' then Inr ''lo'' else Inl ''?'') ''u1'' ''a.txt''
          (snd (append_chunk (700 * 10 ^ 9) ''u1'' ''bG8='' None paused_uploads))
        = (Inr (committed_path paused_uploads ''u1'' ''a.txt''), u')
      \<and> map_of (up_disk u') (committed_path paused_uploads ''u1'' ''a.txt'') = Some (RegularFile ''lo''))"
proof (rule paused_append_truncates [OF paused_uploads_ok])
  show "map_of (up_staging paused_uploads) ''u1'' = Some \<lparr>sg_made = 0, sg_chunks = [(''000000.b64'', ''aGVs'', 0)]\<rparr>"
    by (simp add: paused_uploads_def)
  have "trim ''bG8='' = ''bG8=''" by code_simp
  then show "(if trim ''bG8='' = ''bG8='' then Inr ''lo'' else Inl ''?'') = (Inr ''lo'' :: string + string)" by simp
  show "valid_upload_id ''u1''" by code_simp
qed (simp_all add: expired_staging_def newest_write_def STAGING_TTL_def MAX_BYTES_def paused_uploads_def)

text \<open>Two appends of one upload checked before either is written.\<close>

theorem staging_stays_bounded_witness:
  "map fst (chunk_files \<lparr>sg_made = 5, sg_chunks = [(''000001.b64'', ''bG8='', 6), (''000000.b64'', ''aGVs'', 7)]\<rparr>) = [1, 0]
   \<and> valid_upload_id ''u1''
   \<and> (sum_list (map (length \<circ> snd) (chunk_files \<lparr>sg_made = 5, sg_chunks = [(''000001.b64'', ''bG8='', 6), (''000000.b64'', ''aGVs'', 7)]\<rparr>)) - 3 * 4)
      * 3 div 4 \<le> MAX_BYTES + 2"
proof -
  let ?d = "\<lparr>sg_made = 5, sg_chunks = [(''000001.b64'', ''bG8='', 6), (''000000.b64'', ''aGVs'', 7)]\<rparr>"
  let ?es = "[BeginChunk 5 ''u1'' ''aGVs'' (Some 0), BeginChunk 6 ''u1'' ''bG8='' (Some 1), WriteChunk 1 6, WriteChunk 0 7]"
  let ?u = "\<lparr>up_dir = ''/data'', up_staging = [], up_disk = []\<rparr>"
  have names: "chunk_name 0 = ''000000.b64''" "chunk_name (Suc 0) = ''000001.b64''" "valid_upload_id ''u1''" by code_simp+
  have "map_of (up_staging (tf_uploads (foldl (transfer_step Inr id 3) \<lparr>tf_uploads = ?u, tf_pending = []\<rparr> ?es))) ''u1'' = Some ?d"
    by (simp add: transfer_step_def append_begin_def append_write_def staging_dir_def sweep_def open_area_def put_area_def Let_def
        staged_bytes_def chunk_files_def List.map_filter_simps write_chunk_def MAX_BYTES_def names expired_staging_def
        newest_write_def STAGING_TTL_def)
  from staging_stays_bounded [OF _ _ this, of 4]
  have "valid_upload_id ''u1'' \<and> distinct (map fst (chunk_files ?d))
    \<and> (sum_list (map (length \<circ> snd) (chunk_files ?d)) - 3 * 4) * 3 div 4 \<le> MAX_BYTES + 2" by simp
  moreover have "slots ?d [(1, ''bG8='', 6), (0, ''aGVs'', 7)]" by (simp add: slots_def names)
  then have "map fst (chunk_files ?d) = [1, 0]" by (simp add: slots_files)
  ultimately show ?thesis by blast
qed

end
