(* ===== verification/Attachments.thy ===== *)
theory Attachments
  imports Uploads
begin

text \<open>
  \<open>crates/mobile-client/src/attachments.rs\<close>: the client's half of the upload protocol. The
  attachment trailer of a prompt and its parser, the plan that cuts a file's base64 into chunks,
  the loop that reads a file back, and the byte-budgeted cache of what was read. The engine is the
  one of \<open>Uploads\<close>; the base64 codec is a parameter with the laws the code relies on.
\<close>

section \<open>The trailer\<close>

definition ATTACHMENT_ONLY_TEXT :: string where "ATTACHMENT_ONLY_TEXT = ''See the attached image(s).''"
definition FILE_ATTACHMENT_ONLY_TEXT :: string where "FILE_ATTACHMENT_ONLY_TEXT = ''See the attached file(s).''"

definition ATTACHMENT_MARKER :: string where
  "ATTACHMENT_MARKER =
     ''Attached images (local files '' @ [CHR 0xE2, CHR 0x80, CHR 0x94] @ '' open them to view):''"

definition APPSHOT_MARKER :: string where
  "APPSHOT_MARKER =
     [CHR 0x0A, CHR 0x0A] @ ''Applications mentioned by the user (untrusted observed content):''"

definition MAX_ATTACHMENT_BYTES :: nat where "MAX_ATTACHMENT_BYTES = 100 * 1024 * 1024"
definition LEGACY_MAX_ATTACHMENT_BYTES :: nat where "LEGACY_MAX_ATTACHMENT_BYTES = 24 * 1024 * 1024"

text \<open>The capabilities an engine reports, when it has reported any.\<close>

definition attachment_cap :: "string list option \<Rightarrow> nat" where
  "attachment_cap capabilities =
     (if (case capabilities of Some cs \<Rightarrow> ''uploads-100mb-v1'' \<in> set cs | None \<Rightarrow> False)
      then MAX_ATTACHMENT_BYTES else LEGACY_MAX_ATTACHMENT_BYTES)"

definition with_attachments :: "string \<Rightarrow> string list \<Rightarrow> string" where
  "with_attachments body paths =
     (if paths = [] then body
      else (if blank body then ATTACHMENT_ONLY_TEXT else body) @ [CHR 0x0A, CHR 0x0A] @ ATTACHMENT_MARKER
           @ [CHR 0x0A] @ join_with [CHR 0x0A] (map (\<lambda>p. ''- '' @ p) paths))"

definition upload_file_name :: "string \<Rightarrow> string" where
  "upload_file_name name =
     (let base = rev (takeWhile (\<lambda>c. c \<noteq> CHR ''/'' \<and> c \<noteq> CHR 0x5C) (rev name));
          cleaned = map clean_char (chars_of base);
          tail = drop (length cleaned - 80) cleaned
      in if tail = [] then ''upload'' else tail)"

record appshot_label =
  al_app_name :: string
  al_window_title :: "string option"

record user_image =
  ui_path :: string
  ui_name :: string
  ui_appshot :: "appshot_label option"

record parsed_user_message =
  um_text :: string
  um_images :: "user_image list"

definition visible_text :: "string \<Rightarrow> string" where
  "visible_text body =
     (case find_sub APPSHOT_MARKER body of Some at \<Rightarrow> trim (take at body) | None \<Rightarrow> body)"

definition tag_attribute :: "string \<Rightarrow> string \<Rightarrow> string option" where
  "tag_attribute tag name =
     (let needle = name @ ''='' @ [CHR 0x22]
      in case find_sub needle tag of None \<Rightarrow> None
         | Some at \<Rightarrow>
             let rest = drop (at + length needle) tag
             in case find_sub [CHR 0x22] rest of None \<Rightarrow> None
                | Some stop \<Rightarrow>
                    Some (replace_all ''&amp;'' ''&'' (replace_all ''&gt;'' ''>'' (replace_all ''&lt;'' ''<''
                           (replace_all ''&quot;'' [CHR 0x22] (take stop rest))))))"

lemma find_sub_bound: "find_sub pat s = Some i \<Longrightarrow> i + length pat \<le> length s"
proof (induction s arbitrary: i)
  case (Cons c cs)
  then show ?case by (fastforce split: if_splits dest: prefix_length_le)
qed (auto split: if_splits)

text \<open>The loop over the tags; the map collects, a later tag of the same image replacing an earlier one.\<close>

function appshot_tags :: "string \<Rightarrow> (string \<times> appshot_label) list" where
  "appshot_tags rest =
     (case find_sub ''<appshot '' rest of None \<Rightarrow> []
      | Some at \<Rightarrow>
          (case find_sub ''>'' (drop at rest) of None \<Rightarrow> []
           | Some close \<Rightarrow>
               let tag = take close (drop at rest);
                   next_rest = drop (at + close) rest
               in (case (tag_attribute tag ''image'', tag_attribute tag ''app'') of
                     (Some img, Some app) \<Rightarrow>
                       if blank app then []
                       else [(img, \<lparr>al_app_name = app,
                                      al_window_title =
                                        (case tag_attribute tag ''window-title'' of
                                           Some t \<Rightarrow> if t = [] then None else Some t | None \<Rightarrow> None)\<rparr>)]
                   | _ \<Rightarrow> [])
                  @ appshot_tags next_rest))"
  by pat_completeness auto
termination
proof (relation "measure length", simp)
  fix rest at stop tag next_rest
  assume at: "find_sub ''<appshot '' rest = Some at"
    and stop: "find_sub ''>'' (drop at rest) = Some stop" and "next_rest = drop (at + stop) rest"
  have "at + 9 \<le> length rest" using find_sub_bound [OF at] by simp
  moreover have "0 < at + stop"
  proof (rule ccontr)
    assume "\<not> 0 < at + stop"
    then have "prefix ''>'' rest" "prefix ''<appshot '' rest"
      using at stop by (cases rest; simp split: if_splits)+
    then show False by (cases rest) auto
  qed
  ultimately have "length rest - (at + stop) < length rest" by arith
  then show "(next_rest, rest) \<in> measure length" using \<open>next_rest = _\<close> by simp
qed

declare appshot_tags.simps [simp del]

definition appshot_labels :: "string \<Rightarrow> string \<Rightarrow> appshot_label option" where
  "appshot_labels body =
     (case find_sub APPSHOT_MARKER body of None \<Rightarrow> Map.empty
      | Some at \<Rightarrow> collect_map (appshot_tags (drop (at + length APPSHOT_MARKER) body)))"

text \<open>
  \<open>to_lowercase\<close> is only compared with a prefix of ASCII letters without \<open>k\<close>, followed by an \<open>s\<close>,
  which no other character lower-cases into: it is the ASCII one here.
\<close>

definition is_marker_line :: "string \<Rightarrow> bool" where
  "is_marker_line line \<longleftrightarrow>
     prefix ''attached images (local files'' (map ascii_lower (trim line)) \<and> suffix ''):'' (trim line)"

definition image_line :: "(string \<Rightarrow> appshot_label option) \<Rightarrow> string \<Rightarrow> user_image option" where
  "image_line labels line =
     (case strip_prefix ''- '' (trim line) of None \<Rightarrow> None
      | Some rest \<Rightarrow>
          let path = trim rest; base = last (split_at (CHR ''/'') [] path)
          in if path = [] then None
             else Some \<lparr>ui_path = path, ui_name = (if base = [] then ''image'' else base),
                        ui_appshot = labels path\<rparr>)"

definition parse_user_message :: "string \<Rightarrow> parsed_user_message" where
  "parse_user_message content =
     (let labels = appshot_labels content;
          ls = split_at (CHR 0x0A) [] content
      in case find (\<lambda>ix. blank (ls ! (ix - 1)) \<and> is_marker_line (ls ! ix)) [1..<length ls] of
           None \<Rightarrow> \<lparr>um_text = visible_text content, um_images = []\<rparr>
         | Some marker \<Rightarrow>
             let images = List.map_filter (image_line labels) (drop (marker + 1) ls)
             in if images = [] then \<lparr>um_text = visible_text content, um_images = images\<rparr>
                else let visible = visible_text (trim (join_with [CHR 0x0A] (take (marker - 1) ls)))
                     in \<lparr>um_text = (if visible = ATTACHMENT_ONLY_TEXT \<or> visible = FILE_ATTACHMENT_ONLY_TEXT
                                   then [] else visible),
                         um_images = images\<rparr>)"

definition queue_visible_text :: "string \<Rightarrow> string list \<Rightarrow> string" where
  "queue_visible_text body attachments =
     (if attachments = [] then visible_text body
      else let t = um_text (parse_user_message body) in if t = [] then ATTACHMENT_ONLY_TEXT else t)"

section \<open>Chunks\<close>

definition UPLOAD_CHUNK_B64_CHARS :: nat where "UPLOAD_CHUNK_B64_CHARS = 680000"
definition MAX_READ_CHUNKS :: nat where "MAX_READ_CHUNKS = 2400"

definition attachment_deadline :: "nat \<Rightarrow> nat" where
  "attachment_deadline n_chunks = min (120000 + 15000 * n_chunks) 3600000"

text \<open>The loop of \<open>chunk_ranges\<close>: position, start and end of each slice.\<close>

function ranges_from :: "nat \<Rightarrow> nat \<Rightarrow> nat \<Rightarrow> (nat \<times> nat \<times> nat) list" where
  "ranges_from seq start b64_len =
     (let stop = min (start + UPLOAD_CHUNK_B64_CHARS) b64_len
      in (seq, start, stop) # (if stop \<ge> b64_len then [] else ranges_from (seq + 1) stop b64_len))"
  by pat_completeness auto
termination
  by (relation "measure (\<lambda>(_, start, len). len - start)") (auto simp: UPLOAD_CHUNK_B64_CHARS_def)

declare ranges_from.simps [simp del]

definition chunk_ranges :: "nat \<Rightarrow> (nat \<times> nat \<times> nat) list" where
  "chunk_ranges b64_len = ranges_from 0 0 b64_len"

definition client_chunks :: "string \<Rightarrow> string list" where
  "client_chunks b64 = map (\<lambda>(_, start, stop). take (stop - start) (drop start b64)) (chunk_ranges (length b64))"

datatype read_error = ReadFailed upload_error | DecodeFailed string | StoppedAdvancing | ChunkCapExceeded

text \<open>The loop of \<open>read_chunks\<close>: \<open>n\<close> rounds are left.\<close>

fun read_chunks ::
    "(nat \<Rightarrow> upload_error + attachment_chunk) \<Rightarrow> (string \<Rightarrow> string + string) \<Rightarrow> nat \<Rightarrow> nat \<Rightarrow> string
     \<Rightarrow> read_error + string" where
  "read_chunks fetch dec 0 offset b64 = Inl ChunkCapExceeded"
| "read_chunks fetch dec (Suc n) offset b64 =
     (case fetch offset of
        Inl e \<Rightarrow> Inl (ReadFailed e)
      | Inr c \<Rightarrow>
          if ac_done c
          then (case dec (b64 @ ac_data c) of Inr bytes \<Rightarrow> Inr bytes | Inl e \<Rightarrow> Inl (DecodeFailed e))
          else if ac_next_offset c \<le> offset then Inl StoppedAdvancing
          else read_chunks fetch dec n (ac_next_offset c) (b64 @ ac_data c))"

section \<open>Legacy references\<close>

definition hex_digit :: "char \<Rightarrow> nat option" where
  "hex_digit c =
     (let n = (of_char c :: nat)
      in if 48 \<le> n \<and> n \<le> 57 then Some (n - 48)
         else if 97 \<le> n \<and> n \<le> 102 then Some (n - 87)
         else if 65 \<le> n \<and> n \<le> 70 then Some (n - 55) else None)"

fun percent_bytes :: "string \<Rightarrow> string" where
  "percent_bytes (c # hi # lo # rest) =
     (case (hex_digit hi, hex_digit lo) of
        (Some h, Some l) \<Rightarrow>
          if c = CHR ''%'' then char_of (16 * h + l) # percent_bytes rest
          else c # percent_bytes (hi # lo # rest)
      | _ \<Rightarrow> c # percent_bytes (hi # lo # rest))"
| "percent_bytes (c # rest) = c # percent_bytes rest"
| "percent_bytes [] = []"

definition percent_decode :: "string \<Rightarrow> string" where
  "percent_decode body = from_utf8_lossy (percent_bytes body)"

definition ascii_alpha :: "char \<Rightarrow> bool" where
  "ascii_alpha c \<longleftrightarrow> (let n = (of_char c :: nat) in 65 \<le> n \<and> n \<le> 90 \<or> 97 \<le> n \<and> n \<le> 122)"

definition drop_drive_slash :: "string \<Rightarrow> string" where
  "drop_drive_slash path =
     (case path of
        a # b # c # _ \<Rightarrow> if a = CHR ''/'' \<and> ascii_alpha b \<and> c = CHR '':'' then tl path else path
      | _ \<Rightarrow> path)"

definition legacy_attachment_path :: "string \<Rightarrow> string" where
  "legacy_attachment_path reference =
     (if 5 \<le> length reference \<and> is_char_boundary reference 5 \<and> map ascii_lower (take 5 reference) = ''file:''
      then let rest = drop 5 reference
           in case strip_prefix ''//'' rest of
                None \<Rightarrow> drop_drive_slash (percent_decode rest)
              | Some r \<Rightarrow>
                  (case find_sub ''/'' r of
                     None \<Rightarrow> drop_drive_slash (percent_decode r)
                   | Some at \<Rightarrow>
                       if at = 0 \<or> map ascii_lower (take at r) = ''localhost''
                       then drop_drive_slash (percent_decode (drop at r))
                       else ''//'' @ percent_decode r)
      else reference)"

section \<open>The read cache\<close>

type_synonym cache_key = "string \<times> string"

record attachment_cache =
  ca_budget :: nat
  ca_bytes :: nat
  ca_map :: "(cache_key \<times> string) list"
  ca_order :: "cache_key list" \<comment> \<open>least recently used first\<close>

definition new_cache :: "nat \<Rightarrow> attachment_cache" where
  "new_cache budget = \<lparr>ca_budget = budget, ca_bytes = 0, ca_map = [], ca_order = []\<rparr>"

definition order_without :: "cache_key \<Rightarrow> cache_key list \<Rightarrow> cache_key list" where
  "order_without key order = (case position (\<lambda>k. k = key) order of Some at \<Rightarrow> remove_at at order | None \<Rightarrow> order)"

definition cache_get :: "cache_key \<Rightarrow> attachment_cache \<Rightarrow> string option \<times> attachment_cache" where
  "cache_get key c =
     (case map_of (ca_map c) key of
        None \<Rightarrow> (None, c)
      | Some hit \<Rightarrow> (Some hit, c\<lparr>ca_order := order_without key (ca_order c) @ [key]\<rparr>))"

text \<open>The eviction loop of \<open>put\<close>.\<close>

function evict :: "attachment_cache \<Rightarrow> attachment_cache" where
  "evict c =
     (if ca_bytes c > ca_budget c \<and> length (ca_order c) > 1
      then (case ca_order c of
              [] \<Rightarrow> c
            | oldest # order \<Rightarrow>
                (case map_of (ca_map c) oldest of
                   None \<Rightarrow> evict (c\<lparr>ca_order := order\<rparr>)
                 | Some old \<Rightarrow>
                     evict (c\<lparr>ca_order := order, ca_map := AList.delete oldest (ca_map c),
                              ca_bytes := ca_bytes c - length old\<rparr>)))
      else c)"
  by pat_completeness auto
termination by (relation "measure (length \<circ> ca_order)") auto

declare evict.simps [simp del]

definition cache_put :: "cache_key \<Rightarrow> string \<Rightarrow> attachment_cache \<Rightarrow> attachment_cache" where
  "cache_put key data c =
     (let c1 = (case map_of (ca_map c) key of
                  None \<Rightarrow> c
                | Some old \<Rightarrow> c\<lparr>ca_bytes := ca_bytes c - length old, ca_order := order_without key (ca_order c)\<rparr>)
      in evict (c1\<lparr>ca_map := AList.update key data (ca_map c), ca_bytes := ca_bytes c1 + length data,
                   ca_order := ca_order c1 @ [key]\<rparr>))"

section \<open>The cache is a bounded list of recent reads\<close>

text \<open>
  The specification: the entries from least to most recently used; a read moves its entry to the
  end, a write appends and then drops from the front while more than one entry is over budget.
\<close>

definition entries_bytes :: "(cache_key \<times> string) list \<Rightarrow> nat" where
  "entries_bytes es = sum_list (map (length \<circ> snd) es)"

fun trim_entries :: "nat \<Rightarrow> (cache_key \<times> string) list \<Rightarrow> (cache_key \<times> string) list" where
  "trim_entries budget (e # f # es) =
     (if entries_bytes (e # f # es) > budget then trim_entries budget (f # es) else e # f # es)"
| "trim_entries budget es = es"

definition spec_put :: "nat \<Rightarrow> cache_key \<Rightarrow> string \<Rightarrow> (cache_key \<times> string) list \<Rightarrow> (cache_key \<times> string) list" where
  "spec_put budget key data es = trim_entries budget (filter (\<lambda>e. fst e \<noteq> key) es @ [(key, data)])"

definition spec_get :: "cache_key \<Rightarrow> (cache_key \<times> string) list \<Rightarrow> string option \<times> (cache_key \<times> string) list" where
  "spec_get key es =
     (case map_of es key of
        None \<Rightarrow> (None, es)
      | Some data \<Rightarrow> (Some data, filter (\<lambda>e. fst e \<noteq> key) es @ [(key, data)]))"

definition represents :: "attachment_cache \<Rightarrow> (cache_key \<times> string) list \<Rightarrow> bool" where
  "represents c es \<longleftrightarrow>
     map fst es = ca_order c \<and> distinct (ca_order c) \<and> map_of es = map_of (ca_map c)
     \<and> ca_bytes c = entries_bytes es"

datatype cache_op = Put cache_key string | Get cache_key

definition cache_step :: "attachment_cache \<Rightarrow> cache_op \<Rightarrow> attachment_cache" where
  "cache_step c op = (case op of Put k d \<Rightarrow> cache_put k d c | Get k \<Rightarrow> snd (cache_get k c))"

definition spec_step :: "nat \<Rightarrow> (cache_key \<times> string) list \<Rightarrow> cache_op \<Rightarrow> (cache_key \<times> string) list" where
  "spec_step budget es op = (case op of Put k d \<Rightarrow> spec_put budget k d es | Get k \<Rightarrow> snd (spec_get k es))"

lemma order_without_filter: "distinct order \<Longrightarrow> order_without k order = filter (\<lambda>x. x \<noteq> k) order"
  using remove_at_filter [of id order k]
  by (auto simp: order_without_def position_None filter_id_conv split: option.split)

lemma map_of_filter_key: "map_of (filter (\<lambda>e. fst e \<noteq> k) es) = (map_of es)(k := None)"
  by (induction es) (auto simp: fun_eq_iff)

lemma renewed_entry [simp]: "[k \<mapsto> v] ++ m(k := None) = m(k \<mapsto> v)"
  by (auto simp: fun_eq_iff map_add_def split: option.split)

lemma filter_absent: "k \<notin> fst ` set es \<Longrightarrow> filter (\<lambda>e. fst e \<noteq> k) es = es"
  by (auto simp: filter_id_conv)

lemma bytes_filter:
  "distinct (map fst es) \<Longrightarrow> map_of es k = Some v \<Longrightarrow>
     entries_bytes (filter (\<lambda>e. fst e \<noteq> k) es) = entries_bytes es - length v \<and> length v \<le> entries_bytes es"
proof (induction es)
  case (Cons e es)
  show ?case
  proof (cases "fst e = k")
    case True
    then have "filter (\<lambda>e. fst e \<noteq> k) es = es" using Cons.prems(1) by (intro filter_absent) auto
    then show ?thesis using True Cons.prems by (auto simp: entries_bytes_def)
  next
    case False
    then show ?thesis using Cons by (auto simp: entries_bytes_def)
  qed
qed simp

lemma map_fst_filter: "map fst (filter (\<lambda>e. fst e \<noteq> k) es) = filter (\<lambda>x. x \<noteq> k) (map fst es)"
  by (induction es) auto

lemma evict_refines:
  "represents c es \<Longrightarrow> represents (evict c) (trim_entries (ca_budget c) es) \<and> ca_budget (evict c) = ca_budget c"
proof (induction c arbitrary: es rule: evict.induct)
  case (1 c)
  show ?case
  proof (cases "ca_bytes c > ca_budget c \<and> length (ca_order c) > 1")
    case True
    have "length es = length (ca_order c)" using 1(3) by (metis represents_def length_map)
    then obtain e f rest where es: "es = e # f # rest"
      using True by (cases es; cases "tl es") auto
    have r: "ca_order c = fst e # fst f # map fst rest" "distinct (ca_order c)" "map_of es = map_of (ca_map c)"
      "ca_bytes c = entries_bytes es"
      using 1(3) es by (auto simp: represents_def)
    have m: "map_of (ca_map c) (fst e) = Some (snd e)" using r(3) [symmetric] es by simp
    let ?c = "c\<lparr>ca_order := fst f # map fst rest, ca_map := AList.delete (fst e) (ca_map c),
                ca_bytes := ca_bytes c - length (snd e)\<rparr>"
    have "map_of (f # rest) = (map_of es)(fst e := None)"
      using r(1,2) by (auto simp: es fun_eq_iff map_of_eq_None_iff rev_image_eqI dest: map_of_SomeD split: if_splits)
    then have "map_of (f # rest) = (map_of (ca_map c))(fst e := None)" using r(3) by simp
    then have "represents ?c (f # rest)"
      using r(1,2,4) es unfolding represents_def by (simp add: delete_conv' entries_bytes_def del: map_of.simps)
    moreover have "evict c = evict ?c" by (subst evict.simps) (use True r(1) m in simp)
    moreover have "trim_entries (ca_budget c) es = trim_entries (ca_budget ?c) (f # rest)"
      using True r(4) es by simp
    ultimately show ?thesis using 1(2) [OF True r(1) m] by simp
  next
    case False
    then have "evict c = c" by (subst evict.simps) auto
    moreover have "length es = length (ca_order c)" using 1(3) by (metis represents_def length_map)
    then have "trim_entries (ca_budget c) es = es"
      using False 1(3) by (cases "(ca_budget c, es)" rule: trim_entries.cases) (auto simp: represents_def)
    ultimately show ?thesis using 1(3) by simp
  qed
qed

lemma put_refines:
  assumes "represents c es"
  shows "represents (cache_put k d c) (spec_put (ca_budget c) k d es) \<and> ca_budget (cache_put k d c) = ca_budget c"
proof -
  let ?c1 = "(case map_of (ca_map c) k of None \<Rightarrow> c
     | Some old \<Rightarrow> c\<lparr>ca_bytes := ca_bytes c - length old, ca_order := order_without k (ca_order c)\<rparr>)"
  let ?es = "filter (\<lambda>e. fst e \<noteq> k) es"
  let ?c2 = "?c1\<lparr>ca_map := AList.update k d (ca_map c), ca_bytes := ca_bytes ?c1 + length d, ca_order := ca_order ?c1 @ [k]\<rparr>"
  have r: "map fst es = ca_order c" "distinct (ca_order c)" "map_of es = map_of (ca_map c)" "ca_bytes c = entries_bytes es"
    using assms by (auto simp: represents_def)
  have order: "ca_order ?c1 = filter (\<lambda>x. x \<noteq> k) (ca_order c) \<and> ca_bytes ?c1 = entries_bytes ?es \<and> ca_budget ?c1 = ca_budget c"
  proof (cases "map_of (ca_map c) k")
    case None
    then have "k \<notin> fst ` set es" using r(3) by (metis map_of_eq_None_iff)
    then have "?es = es" by (rule filter_absent)
    then show ?thesis using None r map_fst_filter [of k es] by simp
  next
    case (Some old)
    then show ?thesis using r bytes_filter [of es k old] by (simp add: order_without_filter)
  qed
  have "represents ?c2 (?es @ [(k, d)])"
    using r order by (simp add: represents_def map_fst_filter map_of_filter_key update_conv' entries_bytes_def)
  from evict_refines [OF this] show ?thesis
    using order by (simp add: cache_put_def spec_put_def Let_def)
qed

lemma get_refines:
  assumes "represents c es"
  shows "fst (cache_get k c) = fst (spec_get k es)" "represents (snd (cache_get k c)) (snd (spec_get k es))"
    "ca_budget (snd (cache_get k c)) = ca_budget c"
proof -
  have r: "map fst es = ca_order c" "distinct (ca_order c)" "map_of es = map_of (ca_map c)" "ca_bytes c = entries_bytes es"
    using assms by (auto simp: represents_def)
  have "entries_bytes (filter (\<lambda>e. fst e \<noteq> k) es @ [(k, v)]) = entries_bytes es"
    if "map_of es k = Some v" for v
    using bytes_filter [of es k v] that r by (simp add: entries_bytes_def)
  then show "fst (cache_get k c) = fst (spec_get k es)" "represents (snd (cache_get k c)) (snd (spec_get k es))"
    "ca_budget (snd (cache_get k c)) = ca_budget c"
    using r assms
    by (auto simp: cache_get_def spec_get_def represents_def order_without_filter map_fst_filter map_of_filter_key
        fun_upd_idem split: option.split)
qed

lemma step_refines:
  "represents c es \<Longrightarrow>
     represents (cache_step c op) (spec_step (ca_budget c) es op) \<and> ca_budget (cache_step c op) = ca_budget c"
  using put_refines [of c es] get_refines [of c es] by (cases op) (auto simp: cache_step_def spec_step_def)

lemma run_refines:
  "represents c es \<Longrightarrow>
     represents (foldl cache_step c ops) (foldl (spec_step (ca_budget c)) es ops)
     \<and> ca_budget (foldl cache_step c ops) = ca_budget c"
proof (induction ops arbitrary: c es)
  case (Cons op ops)
  show ?case
    using step_refines [OF Cons.prems, of op] Cons.IH [of "cache_step c op" "spec_step (ca_budget c) es op"] by simp
qed simp

text \<open>C34: the cache is a list of the entries by last use: whatever was put and read before, a read
  answers what the list answers, and the byte count the eviction decides by is the list's.
\<close>

theorem cache_is_recency_list:
  "fst (cache_get k (foldl cache_step (new_cache budget) ops)) = fst (spec_get k (foldl (spec_step budget) [] ops))
   \<and> ca_bytes (foldl cache_step (new_cache budget) ops) = entries_bytes (foldl (spec_step budget) [] ops)
   \<and> ca_order (foldl cache_step (new_cache budget) ops) = map fst (foldl (spec_step budget) [] ops)"
proof -
  have "represents (new_cache budget) []" by (simp add: represents_def new_cache_def entries_bytes_def)
  from run_refines [OF this, of ops]
  have r: "represents (foldl cache_step (new_cache budget) ops) (foldl (spec_step budget) [] ops)"
    by (simp add: new_cache_def)
  then show ?thesis using get_refines(1) [OF r, of k] by (simp add: represents_def)
qed

text \<open>The budget holds: after any use the bytes counted are those kept, and they are within the
  budget unless a single entry is left, larger than it.
\<close>

theorem cache_within_budget:
  "ca_bytes (foldl cache_step (new_cache budget) ops) \<le> budget
   \<or> length (ca_order (foldl cache_step (new_cache budget) ops)) = 1"
proof -
  let ?ok = "\<lambda>es. entries_bytes es \<le> budget \<or> length es = 1"
  have trimmed: "?ok (trim_entries b es)" if "b = budget" for b es
    using that by (induction b es rule: trim_entries.induct) (auto simp: entries_bytes_def)
  have moved: "?ok (snd (spec_get k es))" if d: "distinct (map fst es)" and o: "?ok es" for k es
  proof (cases "map_of es k")
    case (Some v)
    then have "Suc (length (filter (\<lambda>e. fst e \<noteq> k) es)) = length es"
      using d by (induction es) (auto simp: filter_absent split: if_splits)
    then show ?thesis
      using o Some bytes_filter [OF d Some] by (auto simp: spec_get_def entries_bytes_def)
  qed (use o in \<open>simp add: spec_get_def\<close>)
  have "represents (foldl cache_step (new_cache budget) ops) (foldl (spec_step budget) [] ops)
    \<and> ?ok (foldl (spec_step budget) [] ops)"
  proof (induction ops rule: rev_induct)
    case Nil
    then show ?case by (simp add: represents_def new_cache_def entries_bytes_def)
  next
    case (snoc op ops)
    have "represents (foldl cache_step (new_cache budget) (ops @ [op])) (foldl (spec_step budget) [] (ops @ [op]))"
      using run_refines [of "new_cache budget" "[]" "ops @ [op]"]
      by (simp add: represents_def new_cache_def entries_bytes_def)
    moreover have "?ok (spec_step budget (foldl (spec_step budget) [] ops) op)"
    proof (cases op)
      case (Put k d)
      then show ?thesis using trimmed [OF refl] by (simp add: spec_step_def spec_put_def)
    next
      case (Get k)
      have "distinct (map fst (foldl (spec_step budget) [] ops))" using snoc.IH by (simp add: represents_def)
      from moved [OF this conjunct2 [OF snoc.IH], of k] show ?thesis unfolding Get by (simp add: spec_step_def [of _ _ "Get k"])
    qed
    ultimately show ?case by simp
  qed
  then show ?thesis by (metis represents_def length_map)
qed

section \<open>The plan of the chunks\<close>

lemma ranges_tile:
  "start \<le> length s \<Longrightarrow>
     concat (map (\<lambda>(_, a, b). take (b - a) (drop a s)) (ranges_from seq start (length s))) = drop start s"
proof (induction seq start "length s" rule: ranges_from.induct)
  case (1 seq start)
  let ?stop = "min (start + UPLOAD_CHUNK_B64_CHARS) (length s)"
  have "take (?stop - start) (drop start s) @ drop ?stop s = drop start s"
    using 1(2) by (metis append_take_drop_id drop_drop le_add_diff_inverse2 min.bounded_iff le_add1)
  then show ?case
    using 1 by (subst ranges_from.simps) (auto simp: Let_def)
qed

text \<open>The plan loses and repeats nothing, and numbers its slices from zero without gaps.\<close>

lemma client_chunks_tile: "concat (client_chunks b64) = b64"
  using ranges_tile [of 0 b64 0] by (simp add: client_chunks_def chunk_ranges_def)

lemma ranges_positions: "map fst (ranges_from seq start len) = [seq..<seq + length (ranges_from seq start len)]"
proof (induction seq start len rule: ranges_from.induct)
  case (1 seq start len)
  then show ?case
    by (subst (1 2) ranges_from.simps) (auto simp: Let_def upt_conv_Cons simp del: upt_Suc)
qed

lemma chunk_positions: "map fst (chunk_ranges n) = [0..<length (chunk_ranges n)] \<and> chunk_ranges n \<noteq> []"
  using ranges_positions [of 0 0 n] ranges_from.simps [of 0 0 n] by (simp add: chunk_ranges_def Let_def)

lemma ranges_count:
  "start \<le> len \<Longrightarrow> length (ranges_from seq start len) * UPLOAD_CHUNK_B64_CHARS \<le> (len - start) + UPLOAD_CHUNK_B64_CHARS"
proof (induction seq start len rule: ranges_from.induct)
  case (1 seq start len)
  show ?case
  proof (cases "start + UPLOAD_CHUNK_B64_CHARS \<ge> len")
    case True
    then show ?thesis by (subst ranges_from.simps) simp
  next
    case False
    then have "length (ranges_from (seq + 1) (start + UPLOAD_CHUNK_B64_CHARS) len) * UPLOAD_CHUNK_B64_CHARS
        \<le> len - (start + UPLOAD_CHUNK_B64_CHARS) + UPLOAD_CHUNK_B64_CHARS"
      using 1 by (simp add: Let_def)
    then show ?thesis using False by (subst ranges_from.simps) (simp add: Let_def)
  qed
qed

lemma client_chunks_fit:
  assumes "length b64 * 3 div 4 \<le> MAX_BYTES + 2"
  shows "upload_fits (client_chunks b64)" "client_chunks b64 \<noteq> []"
proof -
  have "length (client_chunks b64) * UPLOAD_CHUNK_B64_CHARS \<le> length b64 + UPLOAD_CHUNK_B64_CHARS"
    using ranges_count [of 0 "length b64" 0] by (simp add: client_chunks_def chunk_ranges_def)
  then have "length (client_chunks b64) \<le> 1000001"
    using assms by (simp add: UPLOAD_CHUNK_B64_CHARS_def MAX_BYTES_def)
  moreover have "sum_list (map length (client_chunks b64)) = length b64"
    using client_chunks_tile [of b64] by (metis length_concat)
  ultimately show "upload_fits (client_chunks b64)" using assms by (simp add: upload_fits_def)
  show "client_chunks b64 \<noteq> []"
    using chunk_positions [of "length b64"] by (simp add: client_chunks_def)
qed

section \<open>From client to client\<close>

text \<open>What the code relies on of the base64 crate.\<close>

definition base64_char :: "char \<Rightarrow> bool" where
  "base64_char c \<longleftrightarrow> ascii_alnum c \<or> c \<in> {CHR ''+'', CHR ''/'', CHR ''=''}"

definition base64_ok :: "(string \<Rightarrow> string) \<Rightarrow> (string \<Rightarrow> string + string) \<Rightarrow> bool" where
  "base64_ok enc dec \<longleftrightarrow>
     (\<forall>b. dec (enc b) = Inr b)
     \<and> (\<forall>b. length (enc b) = 4 * ((length b + 2) div 3))
     \<and> (\<forall>b. list_all base64_char (enc b))
     \<and> (\<forall>a b. 3 dvd length a \<longrightarrow> enc (a @ b) = enc a @ enc b)"

lemma base64_no_blank:
  assumes "list_all base64_char s"
  shows "trim s = s"
proof -
  have bad: "\<exists>c \<in> set w. \<not> base64_char c" if "w \<in> set white_chars" for w
    using that by (auto simp: white_chars_def ascii_alnum_def base64_char_def)
  have "\<not> starts_blank s" "\<not> ends_blank s"
    using assms bad
    by (fastforce simp: starts_blank_def ends_blank_def list_all_iff prefix_def suffix_def)+
  then show ?thesis by (rule trim_id)
qed

lemma chunks_trimmed:
  assumes "base64_ok enc dec"
  shows "concat (map trim (client_chunks (enc b))) = enc b"
proof -
  have "list_all base64_char (enc b)"
    using assms by (simp add: base64_ok_def)
  then have "trim (take n (drop m (enc b))) = take n (drop m (enc b))" for n m
    by (intro base64_no_blank) (auto simp: list_all_iff dest: in_set_takeD in_set_dropD)
  then have "map trim (client_chunks (enc b)) = client_chunks (enc b)"
    by (auto simp: client_chunks_def)
  then show ?thesis by (simp add: client_chunks_tile)
qed

text \<open>The read loop, from an offset on a chunk boundary, with enough rounds left.\<close>

lemma read_chunks_rest:
  assumes b64: "base64_ok enc dec" and f: "map_of disk path = Some (RegularFile content)"
    and size: "length content \<le> MAX_BYTES"
  shows "3 dvd off \<Longrightarrow> off \<le> length content \<Longrightarrow> length content - off < n * READ_CHUNK_BYTES \<or> (off = length content \<and> 0 < n) \<Longrightarrow>
    read_chunks (read_file_chunk enc disk path) dec n off (enc (take off content)) = Inr content"
proof (induction n arbitrary: off)
  case (Suc n)
  let ?stop = "min (off + READ_CHUNK_BYTES) (length content)"
  let ?c = "take (?stop - off) (drop off content)"
  have tk: "take off content @ ?c = take ?stop content"
    using Suc.prems(2) by (metis le_add1 le_add_diff_inverse min.bounded_iff take_add)
  have e: "enc (take off content) @ enc ?c = enc (take ?stop content)"
    using b64 Suc.prems(1,2) by (simp add: base64_ok_def flip: tk)
  obtain c where c: "read_file_chunk enc disk path off = Inr c" "ac_data c = enc ?c" "ac_next_offset c = ?stop"
    "ac_done c = (?stop \<ge> length content)"
    using f size Suc.prems(2) by (simp add: read_file_chunk_def Let_def not_less)
  show ?case
  proof (cases "?stop \<ge> length content")
    case True
    then have "take ?stop content = content" by simp
    moreover have "dec (enc content) = Inr content" using b64 by (simp add: base64_ok_def)
    ultimately show ?thesis using c e True by simp
  next
    case False
    then have stop: "?stop = off + READ_CHUNK_BYTES" by simp
    have "3 dvd READ_CHUNK_BYTES" by (simp add: READ_CHUNK_BYTES_def)
    then have "read_chunks (read_file_chunk enc disk path) dec n ?stop (enc (take ?stop content)) = Inr content"
      using Suc.prems False unfolding stop by (intro Suc.IH) auto
    moreover have "\<not> ?stop \<le> off" using stop by (simp add: READ_CHUNK_BYTES_def)
    ultimately show ?thesis using c e False by simp
  qed
qed simp

lemma upload_name_nonempty: "upload_file_name n \<noteq> []"
  by (simp add: upload_file_name_def Let_def)

text \<open>C6: a file travels whole: the client cuts the base64 of a file of at most 100 MB into chunks; the
  chunks arrive in any order, any of them repeatedly, between the traffic of other uploads; then the
  commit succeeds, the reference the client minted beforehand resolves to the committed path, and
  reading that reference chunk by chunk gives the file back before the cap on the rounds.
\<close>

theorem uploaded_file_reads_back:
  assumes b64: "base64_ok enc dec" and size: "length content \<le> MAX_ATTACHMENT_BYTES"
    and "uploads_ok u" "map_of (up_staging u) i = None" "valid_upload_id i"
    and "list_all (sends i (client_chunks (enc content))) es" "kept_alive i None es"
    and "delivered i es = {..<length (client_chunks (enc content))}"
    and "map_of (up_disk u) (committed_path u i (upload_file_name name)) \<noteq> Some NotAFile"
  shows "\<exists>path u'. commit dec i (upload_file_name name) (foldl (upload_step dec sha) u es) = (Inr path, u')
    \<and> resolve_pending u' (pending_ref i (upload_file_name name)) = Some path
    \<and> read_chunks (read_chunk enc u' (pending_ref i (upload_file_name name))) dec MAX_READ_CHUNKS 0 [] = Inr content"
proof -
  let ?n = "upload_file_name name" and ?u = "foldl (upload_step dec sha) u es"
  have m: "length content \<le> MAX_BYTES" using size by (simp add: MAX_ATTACHMENT_BYTES_def MAX_BYTES_def)
  have "length (enc content) = 4 * ((length content + 2) div 3)" using b64 by (simp add: base64_ok_def)
  then have fit: "length (enc content) * 3 div 4 \<le> MAX_BYTES + 2" using m by simp
  have dec: "dec (concat (map trim (client_chunks (enc content)))) = Inr content"
    using b64 by (simp add: chunks_trimmed [OF b64]) (simp add: base64_ok_def)
  note chunks = client_chunks_fit [OF fit]
  obtain u' where u': "commit dec i ?n ?u = (Inr (committed_path u i ?n), u')"
    "resolve_pending u' (pending_ref i ?n) = Some (committed_path u i ?n)"
    "map_of (up_disk u') (committed_path u i ?n) = Some (RegularFile content)"
    using upload_commits_in_any_order [where dec = dec, OF assms(3-8) chunks(2,1) dec m upload_name_nonempty [of name] assms(9)] by blast
  have "enc [] = []" using b64 by (simp add: base64_ok_def flip: length_0_conv)
  then have "read_chunks (read_file_chunk enc (up_disk u') (committed_path u i ?n)) dec MAX_READ_CHUNKS 0 [] = Inr content"
    using read_chunks_rest [OF b64 u'(3) m, of 0 MAX_READ_CHUNKS] m
    by (simp add: MAX_READ_CHUNKS_def READ_CHUNK_BYTES_def MAX_BYTES_def)
  moreover have "read_chunk enc u' (pending_ref i ?n) = read_file_chunk enc (up_disk u') (committed_path u i ?n)"
    using u'(2) by (simp add: read_chunk_def resolve_attachment_path_def is_pending_ref_def pending_ref_def fun_eq_iff)
  ultimately show ?thesis using u'(1,2) by auto
qed

subsection \<open>A codec\<close>

definition alphabet :: string where
  "alphabet = ''ABCDEFGHIJKLMNOPQRSTUVWXYZabcdefghijklmnopqrstuvwxyz0123456789+/''"

definition sextet :: "nat \<Rightarrow> char" where "sextet n = alphabet ! n"

fun enc64 :: "string \<Rightarrow> string" where
  "enc64 (a # b # c # rest) =
     (let x = of_char a * 65536 + of_char b * 256 + (of_char c :: nat)
      in [sextet (x div 262144), sextet (x div 4096 mod 64), sextet (x div 64 mod 64), sextet (x mod 64)] @ enc64 rest)"
| "enc64 [a, b] =
     (let x = of_char a * 1024 + of_char b * (4 :: nat)
      in [sextet (x div 4096), sextet (x div 64 mod 64), sextet (x mod 64), CHR ''=''])"
| "enc64 [a] = (let x = of_char a * (16 :: nat) in [sextet (x div 64), sextet (x mod 64), CHR ''='', CHR ''=''])"
| "enc64 [] = []"

definition sextet_value :: "char \<Rightarrow> nat" where
  "sextet_value c = (case position (\<lambda>x. x = c) alphabet of Some n \<Rightarrow> n | None \<Rightarrow> 0)"

fun dec64 :: "string \<Rightarrow> string + string" where
  "dec64 (w # x # y # z # rest) =
     (let v = sextet_value w * 262144 + sextet_value x * 4096 + sextet_value y * 64 + sextet_value z;
          bytes = [char_of (v div 65536), char_of (v div 256 mod 256), char_of (v mod 256)]
      in if z = CHR ''='' then Inr (take (if y = CHR ''='' then 1 else 2) bytes)
         else (case dec64 rest of Inr later \<Rightarrow> Inr (bytes @ later) | Inl e \<Rightarrow> Inl e))"
| "dec64 [] = Inr []"
| "dec64 _ = Inl ''length''"

lemma sextet_values:
  "n < 64 \<Longrightarrow> sextet_value (sextet n) = n \<and> sextet n \<noteq> CHR ''=''
    \<and> (ascii_alnum (sextet n) \<or> sextet n \<in> {CHR ''+'', CHR ''/''})"
proof -
  have "list_all (\<lambda>n. sextet_value (sextet n) = n \<and> sextet n \<noteq> CHR ''=''
      \<and> (ascii_alnum (sextet n) \<or> sextet n \<in> {CHR ''+'', CHR ''/''})) [0..<64]"
    by code_simp
  then show "n < 64 \<Longrightarrow> ?thesis" by (simp add: list_all_iff)
qed

lemma sextet_facts [simp]:
  "n < 64 \<Longrightarrow> sextet_value (sextet n) = n"
  "n < 64 \<Longrightarrow> sextet n \<noteq> CHR ''=''"
  using sextet_values by blast+

lemma sextet_sum:
  fixes x :: nat
  shows "x div 262144 * 262144 + x div 4096 mod 64 * 4096 + x div 64 mod 64 * 64 + x mod 64 = x"
proof -
  have "x = x div 64 * 64 + x mod 64" "x div 64 = x div 4096 * 64 + x div 64 mod 64"
    "x div 4096 = x div 262144 * 64 + x div 4096 mod 64"
    by (simp_all add: div_mult2_eq [of x 64 64, simplified] div_mult2_eq [of x 4096 64, simplified])
  then show ?thesis by linarith
qed

lemma byte_bound: "(of_char c :: nat) < 256"
  using of_char_mod_256 [of c, where ?'a = nat] by (metis mod_less_divisor zero_less_numeral)

lemma pad_value: "sextet_value (CHR ''='') = 0"
  by code_simp

lemma three_bytes:
  fixes a b c :: nat
  assumes "a < 256" "b < 256" "c < 256"
  defines "x \<equiv> a * 65536 + b * 256 + c"
  shows "x div 262144 < 64" "x div 65536 = a" "x div 256 mod 256 = b" "x mod 256 = c"
proof -
  have "x = (a * 256 + b) * 256 + c" by (simp add: x_def)
  then have "x div 256 = a * 256 + b" "x mod 256 = c" using assms(3) by (simp_all only: div_mult_self3 mod_mult_self3) simp_all
  then show "x div 256 mod 256 = b" "x mod 256 = c" using assms by simp_all
  show "x div 262144 < 64" "x div 65536 = a" using assms by linarith+
qed

lemma two_bytes:
  fixes a b :: nat
  assumes "a < 256" "b < 256"
  defines "x \<equiv> a * 1024 + b * 4"
  shows "x div 4096 < 64" "x div 4096 * 262144 + x div 64 mod 64 * 4096 + x mod 64 * 64 = 64 * x"
    "64 * x div 65536 = a" "64 * x div 256 mod 256 = b"
proof -
  show "x div 4096 < 64" "64 * x div 65536 = a" using assms by linarith+
  have "64 * x = (a * 256 + b) * 256" by (simp add: x_def)
  then have "64 * x div 256 = a * 256 + b" by (metis div_mult_self_is_m zero_less_numeral)
  then show "64 * x div 256 mod 256 = b" using assms by simp
  have "x = x div 64 * 64 + x mod 64" "x div 64 = x div 4096 * 64 + x div 64 mod 64"
    by (simp_all add: div_mult2_eq [of x 64 64, simplified])
  then show "x div 4096 * 262144 + x div 64 mod 64 * 4096 + x mod 64 * 64 = 64 * x" by linarith
qed

lemma one_byte:
  fixes a :: nat
  assumes "a < 256"
  defines "x \<equiv> a * 16"
  shows "x div 64 < 64" "x div 64 * 262144 + x mod 64 * 4096 = 4096 * x" "4096 * x div 65536 = a"
proof -
  show "x div 64 < 64" "4096 * x div 65536 = a" using assms by linarith+
  have "x = x div 64 * 64 + x mod 64" by simp
  then show "x div 64 * 262144 + x mod 64 * 4096 = 4096 * x" by linarith
qed

lemma dec_enc: "dec64 (enc64 b) = Inr b"
proof (induction b rule: enc64.induct)
  case (1 a b c rest)
  note x = three_bytes [OF byte_bound [of a] byte_bound [of b] byte_bound [of c]]
  have IH: "dec64 (enc64 rest) = Inr rest" by (rule 1 [OF refl])
  show ?case using IH x
    by (simp only: enc64.simps Let_def append.simps dec64.simps sextet_facts sextet_sum if_False
        mod_less_divisor zero_less_numeral sum.case) simp
next
  case (2 a b)
  note x = two_bytes [OF byte_bound [of a] byte_bound [of b]]
  show ?case using x
    by (simp only: enc64.simps Let_def dec64.simps sextet_facts pad_value mod_less_divisor zero_less_numeral
        add_0_right if_True if_False) simp
next
  case (3 a)
  note x = one_byte [OF byte_bound [of a]]
  show ?case using x
    by (simp only: enc64.simps Let_def dec64.simps sextet_facts pad_value mod_less_divisor zero_less_numeral
        add_0_right mult_0 if_True if_False) simp
qed simp

lemma enc64_length: "length (enc64 b) = 4 * ((length b + 2) div 3)"
proof (induction b rule: enc64.induct)
  case (1 a b c rest)
  have "(length rest + 5) div 3 = (length rest + 2) div 3 + 1" by presburger
  then show ?case using 1 by (simp add: Let_def add.commute)
qed (simp_all add: Let_def)

lemma enc64_append: "3 dvd length a \<Longrightarrow> enc64 (a @ b) = enc64 a @ enc64 b"
proof (induction a rule: enc64.induct)
  case (1 x y z rest)
  have "3 dvd length rest"
    using 1(2) unfolding length_Cons by presburger
  then show ?case using 1(1) by (simp add: Let_def)
next
  case (2 x y)
  then have "3 dvd Suc (Suc 0)" by simp
  then show ?case by presburger
next
  case (3 x)
  then show ?case by simp
qed simp

lemma base64_sextet: "n < 64 \<Longrightarrow> base64_char (sextet n)"
  using sextet_values [of n] by (auto simp: base64_char_def)

lemma base64_pad: "base64_char (CHR ''='')"
  by (simp add: base64_char_def)

lemma enc64_alphabet: "list_all base64_char (enc64 b)"
proof (induction b rule: enc64.induct)
  case (1 a b c rest)
  note x = three_bytes(1) [OF byte_bound [of a] byte_bound [of b] byte_bound [of c]]
  show ?case using 1 base64_sextet [OF x] by (simp add: Let_def base64_sextet base64_pad)
next
  case (2 a b)
  show ?case using base64_sextet [OF two_bytes(1) [OF byte_bound [of a] byte_bound [of b]]]
    by (simp add: Let_def base64_sextet base64_pad)
next
  case (3 a)
  show ?case using base64_sextet [OF one_byte(1) [OF byte_bound [of a]]] by (simp add: Let_def base64_sextet base64_pad)
qed simp

lemma base64_codec: "base64_ok enc64 dec64"
  using dec_enc enc64_length enc64_append enc64_alphabet by (auto simp: base64_ok_def)

definition sample_uploads :: uploads where
  "sample_uploads = \<lparr>up_dir = ''/data/uploads'', up_staging = [], up_disk = []\<rparr>"

definition sample_traffic :: "upload_event list" where
  "sample_traffic =
     [Chunk 5 ''other'' ''AAAA'' None, Chunk 7 ''upload-1'' ''aGkh'' (Some 0), Commit ''other'' ''b.txt'',
      Chunk 9 ''upload-1'' ''aGkh'' (Some 0)]"

theorem uploaded_file_reads_back_witness:
  "\<exists>path u'. commit dec64 ''upload-1'' (upload_file_name ''notes/my file.txt'')
      (foldl (upload_step dec64 id) sample_uploads sample_traffic) = (Inr path, u')
    \<and> resolve_pending u' (pending_ref ''upload-1'' (upload_file_name ''notes/my file.txt'')) = Some path
    \<and> read_chunks (read_chunk enc64 u' (pending_ref ''upload-1'' (upload_file_name ''notes/my file.txt''))) dec64
        MAX_READ_CHUNKS 0 [] = Inr ''hi!''"
proof -
  have "enc64 ''hi!'' = ''aGkh''" by (simp add: Let_def sextet_def alphabet_def)
  then have chunks: "client_chunks (enc64 ''hi!'') = [''aGkh'']"
    by (simp add: client_chunks_def chunk_ranges_def ranges_from.simps UPLOAD_CHUNK_B64_CHARS_def)
  show ?thesis
  proof (rule uploaded_file_reads_back [OF base64_codec])
    show "length ''hi!'' \<le> MAX_ATTACHMENT_BYTES" by (simp add: MAX_ATTACHMENT_BYTES_def)
    show "uploads_ok sample_uploads" "map_of (up_staging sample_uploads) ''upload-1'' = None"
      by (simp_all add: uploads_ok_def sample_uploads_def)
    show "valid_upload_id ''upload-1''" by code_simp
    show "list_all (sends ''upload-1'' (client_chunks (enc64 ''hi!''))) sample_traffic"
      unfolding chunks by (simp add: sample_traffic_def sends_def)
    show "kept_alive ''upload-1'' None sample_traffic" by code_simp
    show "delivered ''upload-1'' sample_traffic = {..<length (client_chunks (enc64 ''hi!''))}"
      unfolding chunks by (auto simp: sample_traffic_def delivered_def)
    show "map_of (up_disk sample_uploads) (committed_path sample_uploads ''upload-1'' (upload_file_name ''notes/my file.txt''))
        \<noteq> Some NotAFile"
      by (simp add: sample_uploads_def)
  qed
qed

section \<open>The trailer reads back\<close>

lemma split_at_sep: "split_at c cur (a @ c # b) = split_at c cur a @ split_at c [] b"
  by (induction a arbitrary: cur) auto

lemma split_at_nonempty: "split_at c cur s \<noteq> []"
  by (induction s arbitrary: cur) auto

lemma join_lines_split: "join_with [c] (split_at c cur s) = cur @ s"
proof (induction s arbitrary: cur)
  case (Cons x s)
  show ?case
    using split_at_nonempty [of c "[]" s] Cons.IH [of "[]"] Cons.IH [of "cur @ [x]"]
    by (cases "split_at c [] s") auto
qed simp

lemma split_join:
  "ls \<noteq> [] \<Longrightarrow> \<forall>l \<in> set ls. c \<notin> set l \<Longrightarrow> split_at c [] (join_with [c] ls) = ls"
proof (induction ls rule: induct_list012)
  case (3 x y zs)
  then show ?case by (simp add: split_at_sep split_at_none)
qed (simp_all add: split_at_none)

lemma find_upt:
  assumes "a \<le> m" "m < b" "P m" "\<And>j. a \<le> j \<Longrightarrow> j < m \<Longrightarrow> \<not> P j"
  shows "find P [a..<b] = Some m"
  unfolding find_Some_iff using assms by (intro exI [of _ "m - a"]) auto

lemma bullet_not_blank:
  assumes "trim p = p" "p \<noteq> []"
  shows "trim (''- '' @ p) = ''- '' @ p"
proof (rule trim_id)
  show "\<not> starts_blank (''- '' @ p)" by (auto simp: starts_blank_def white_chars_def)
  have p: "\<not> ends_blank p" using trim_clean(2) [of p] assms(1) by simp
  have "False" if w: "w \<in> set white_chars" and s: "suffix w (''- '' @ p)" for w
  proof -
    consider "suffix w p" | zs where "w = zs @ p" "suffix zs ''- ''" "zs \<noteq> []"
      using s by (auto simp: suffix_append suffix_Cons)
    then show False
    proof cases
      case 1
      then show False using p w by (auto simp: ends_blank_def)
    next
      case 2
      then have "CHR '' '' \<in> set zs" by (auto simp: suffix_Cons)
      then have "CHR '' '' \<in> set w" "length w > 1" using 2 assms(2) by (auto simp: suffix_Cons Suc_lessI)
      then show False using w by (auto simp: white_chars_def)
    qed
  qed
  then show "\<not> ends_blank (''- '' @ p)" by (auto simp: ends_blank_def)
qed

definition body_of :: "string \<Rightarrow> string" where
  "body_of body = (if blank body then ATTACHMENT_ONLY_TEXT else body)"

text \<open>No line of the body, after a blank one, looks like the marker.\<close>

definition no_marker :: "string \<Rightarrow> bool" where
  "no_marker body \<longleftrightarrow>
     (\<forall>ix < length (split_at (CHR 0x0A) [] body).
        0 < ix \<longrightarrow> \<not> (blank (split_at (CHR 0x0A) [] body ! (ix - 1)) \<and> is_marker_line (split_at (CHR 0x0A) [] body ! ix)))"

lemma trim_Nil: "trim [] = []"
  by code_simp

lemma trailer_lines:
  assumes "paths \<noteq> []" "\<forall>p \<in> set paths. CHR 0x0A \<notin> set p"
  shows "split_at (CHR 0x0A) [] (with_attachments body paths) =
    split_at (CHR 0x0A) [] (body_of body) @ [[], ATTACHMENT_MARKER] @ map ((@) ''- '') paths"
proof -
  have m: "split_at (CHR 0x0A) [] ATTACHMENT_MARKER = [ATTACHMENT_MARKER]"
    by (simp add: split_at_none ATTACHMENT_MARKER_def)
  have "split_at (CHR 0x0A) [] (join_with [CHR 0x0A] (map ((@) ''- '') paths)) = map ((@) ''- '') paths"
    using assms by (intro split_join) auto
  then show ?thesis
    using assms(1) m by (simp add: with_attachments_def body_of_def split_at_sep)
qed

lemma marker_position:
  assumes "no_marker (body_of body)"
  shows "find (\<lambda>ix. blank ((split_at (CHR 0x0A) [] (body_of body) @ [[], ATTACHMENT_MARKER] @ rest) ! (ix - 1))
        \<and> is_marker_line ((split_at (CHR 0x0A) [] (body_of body) @ [[], ATTACHMENT_MARKER] @ rest) ! ix))
      [1..<length (split_at (CHR 0x0A) [] (body_of body) @ [[], ATTACHMENT_MARKER] @ rest)]
    = Some (length (split_at (CHR 0x0A) [] (body_of body)) + 1)"
proof -
  have marker: "is_marker_line ATTACHMENT_MARKER" "blank []" "\<not> is_marker_line []"
    by code_simp+
  have "length (split_at (CHR 0x0A) [] (body_of body)) > 0" by (simp add: split_at_nonempty)
  then show ?thesis
    using assms marker
    by (intro find_upt) (auto simp: no_marker_def nth_append nth_Cons')
qed

lemma bullets_parse:
  assumes "\<forall>p \<in> set paths. trim p = p \<and> p \<noteq> []"
  shows "map ui_path (List.map_filter (image_line labels) (map ((@) ''- '') paths)) = paths"
  using assms
proof (induction paths)
  case (Cons p paths)
  then have "trim (''- '' @ p) = ''- '' @ p" by (intro bullet_not_blank) auto
  then have "\<exists>im. image_line labels (''- '' @ p) = Some im \<and> ui_path im = p"
    using Cons.prems by (simp add: image_line_def Let_def strip_prefix_def)
  then show ?case using Cons by (auto simp: List.map_filter_simps)
qed (simp add: List.map_filter_simps)

text \<open>What a prompt shows of its attachments is what was attached: parsing the trailer gives back the
  text as typed and the paths in order, for a trimmed text that holds neither application context
  nor a marker line of its own.
\<close>

theorem trailer_roundtrip:
  assumes "trim body = body" "body \<noteq> ATTACHMENT_ONLY_TEXT" "body \<noteq> FILE_ATTACHMENT_ONLY_TEXT"
    and "find_sub APPSHOT_MARKER body = None" "no_marker body"
    and "paths \<noteq> []" "\<forall>p \<in> set paths. trim p = p \<and> p \<noteq> [] \<and> CHR 0x0A \<notin> set p"
  shows "um_text (parse_user_message (with_attachments body paths)) = body
    \<and> map ui_path (um_images (parse_user_message (with_attachments body paths))) = paths"
proof -
  let ?ls = "split_at (CHR 0x0A) [] (body_of body)"
  have fixed: "trim ATTACHMENT_ONLY_TEXT = ATTACHMENT_ONLY_TEXT" "no_marker ATTACHMENT_ONLY_TEXT"
    "find_sub APPSHOT_MARKER ATTACHMENT_ONLY_TEXT = None"
    by code_simp+
  have "blank body \<longleftrightarrow> body = []" using assms(1) by (simp add: blank_def)
  then have b: "trim (body_of body) = body_of body" "no_marker (body_of body)"
    "find_sub APPSHOT_MARKER (body_of body) = None" "body_of body = ATTACHMENT_ONLY_TEXT \<longleftrightarrow> body = []"
    "body \<noteq> [] \<Longrightarrow> body_of body = body"
    using assms(1-5) fixed by (auto simp: body_of_def)
  have lines: "split_at (CHR 0x0A) [] (with_attachments body paths) =
      ?ls @ [[], ATTACHMENT_MARKER] @ map ((@) ''- '') paths"
    using assms(6,7) by (intro trailer_lines) auto
  let ?images = "List.map_filter (image_line (appshot_labels (with_attachments body paths))) (map ((@) ''- '') paths)"
  have images: "map ui_path ?images = paths" using assms(7) by (intro bullets_parse) auto
  then have "?images \<noteq> []" using assms(6) by auto
  moreover have "visible_text (trim (join_with [CHR 0x0A] ?ls)) = body_of body"
    using b(1,3) by (simp add: join_lines_split visible_text_def)
  ultimately have "parse_user_message (with_attachments body paths) =
      \<lparr>um_text = (if body_of body = ATTACHMENT_ONLY_TEXT \<or> body_of body = FILE_ATTACHMENT_ONLY_TEXT
                 then [] else body_of body), um_images = ?images\<rparr>"
    using marker_position [OF b(2), of "map ((@) ''- '') paths"]
    by (simp add: parse_user_message_def lines Let_def)
  then show ?thesis using images b(4,5) assms(2,3) by (auto simp: body_of_def split: if_splits)
qed

theorem trailer_roundtrip_witness:
  "um_text (parse_user_message (with_attachments ''look'' [''/tmp/a.png'', ''pending://u1/b c.png''])) = ''look''
   \<and> map ui_path (um_images (parse_user_message (with_attachments ''look'' [''/tmp/a.png'', ''pending://u1/b c.png''])))
     = [''/tmp/a.png'', ''pending://u1/b c.png'']"
proof (rule trailer_roundtrip)
  show "trim ''look'' = ''look''" "find_sub APPSHOT_MARKER ''look'' = None" "no_marker ''look''"
    "\<forall>p \<in> set [''/tmp/a.png'', ''pending://u1/b c.png'']. trim p = p \<and> p \<noteq> [] \<and> CHR 0x0A \<notin> set p"
    by code_simp+
qed (simp_all add: ATTACHMENT_ONLY_TEXT_def FILE_ATTACHMENT_ONLY_TEXT_def)

end
