(* ===== verification/Command_Ledger.thy ===== *)
theory Command_Ledger
  imports Run_Requests Uploads
begin

text \<open>
  The durable command queue of a chat: \<open>crates/doc/src/commands.rs\<close>, the ledger of processed
  identifiers in \<open>crates/sync/src/store.rs\<close>, and the drain, relay and retry of
  \<open>crates/engine/src/doc_host.rs\<close>. The drains and relays of a process run concurrently: each is a
  task at a point of its code, and a step of the machine takes one task from one point to the next.
  What a step reads or writes of the shared state is one access, or a stretch of accesses the
  code makes without giving way. The execution of a command is the session engine's: the outcome is
  an input, what this file decides around it is modelled, and a log records every execution.
\<close>

section \<open>Commands\<close>

datatype command_status = Pending | Applied | Rejected | Expired | Superseded | Cancelled

datatype command_payload =
    Run run_request string
  | Steer string "string option"
  | Interrupt
  | RespondInput string "user_input_answer list"

datatype command_kind = RunKind | SteerKind | InterruptKind | RespondInputKind

fun payload_kind :: "command_payload \<Rightarrow> command_kind" where
  "payload_kind (Run _ _) = RunKind"
| "payload_kind (Steer _ _) = SteerKind"
| "payload_kind Interrupt = InterruptKind"
| "payload_kind (RespondInput _ _) = RespondInputKind"

record command_based_on =
  bo_turn_id :: "string option"
  bo_frontier :: "string option"

record command_entry =
  ce_id :: string
  ce_payload :: command_payload
  ce_issued_by :: string
  ce_issued_at :: int
  ce_based_on :: "command_based_on option"
  ce_expires_at :: "int option"
  ce_status :: command_status
  ce_resolution :: "string option"
  ce_origin_chat_id :: "string option"

definition COMMAND_DEFAULT_TTL_MS :: int where "COMMAND_DEFAULT_TTL_MS = 24 * 60 * 60 * 1000"
definition ATTACHMENT_WAIT_MAX_MS :: int where "ATTACHMENT_WAIT_MAX_MS = 15 * 60 * 1000"

definition command_kind :: "command_entry \<Rightarrow> command_kind" where
  "command_kind c = payload_kind (ce_payload c)"

definition is_prompt :: "command_entry \<Rightarrow> bool" where
  "is_prompt c \<longleftrightarrow> command_kind c = RunKind \<or> command_kind c = SteerKind"

definition effective_expiry :: "command_entry \<Rightarrow> int" where
  "effective_expiry c = (case ce_expires_at c of Some t \<Rightarrow> t | None \<Rightarrow> ce_issued_at c + COMMAND_DEFAULT_TTL_MS)"

definition can_composer_cancel :: "command_entry \<Rightarrow> string \<Rightarrow> bool" where
  "can_composer_cancel c device \<longleftrightarrow> ce_status c = Pending \<and> ce_issued_by c = device"

datatype disposition = Skip | MarkExpired | MarkSuperseded | Execute

record evaluation_context =
  ec_is_processed :: "string \<Rightarrow> bool"
  ec_now_ms :: int
  ec_entries :: "command_entry list"
  ec_current_turn_id :: "string option"
  ec_turn_is_past :: "string \<Rightarrow> bool"

definition newer_interrupt :: "command_entry \<Rightarrow> command_entry \<Rightarrow> bool" where
  "newer_interrupt c other \<longleftrightarrow>
     ce_id other \<noteq> ce_id c \<and> command_kind other = command_kind c
     \<and> ce_status other = Pending \<and> ce_issued_at other > ce_issued_at c"

definition evaluate_command :: "command_entry \<Rightarrow> evaluation_context \<Rightarrow> disposition" where
  "evaluate_command c cx =
     (if ec_is_processed cx (ce_id c) then Skip
      else if ec_now_ms cx \<ge> effective_expiry c then MarkExpired
      else if command_kind c = InterruptKind \<and> list_ex (newer_interrupt c) (ec_entries cx) then MarkSuperseded
      else if command_kind c = InterruptKind
              \<and> (case Option.bind (ce_based_on c) bo_turn_id of
                   None \<Rightarrow> False
                 | Some turn \<Rightarrow> ec_current_turn_id cx \<noteq> Some turn \<and> ec_turn_is_past cx turn)
      then MarkSuperseded
      else Execute)"

section \<open>Attachments of a command\<close>

definition missing_attachments :: "uploads option \<Rightarrow> command_entry \<Rightarrow> string list" where
  "missing_attachments up c =
     (let refs = (case ce_payload c of
                    Run request _ \<Rightarrow> filter is_pending_ref (rq_attachments request)
                  | Steer prompt _ \<Rightarrow> pending_refs_in prompt
                  | _ \<Rightarrow> [])
      in if refs = [] then refs
         else case up of None \<Rightarrow> [] | Some u \<Rightarrow> filter (\<lambda>r. resolve_pending u r = None) refs)"

fun resolve_attachment_refs :: "uploads option \<Rightarrow> string \<Rightarrow> string list \<Rightarrow> string \<times> string list" where
  "resolve_attachment_refs None prompt attachments = (prompt, attachments)"
| "resolve_attachment_refs (Some u) prompt [] = (prompt, [])"
| "resolve_attachment_refs (Some u) prompt (path # paths) =
     (case resolve_pending u path of
        Some target \<Rightarrow> map_prod id ((#) target) (resolve_attachment_refs (Some u) (replace_all path target prompt) paths)
      | None \<Rightarrow> map_prod id ((#) path) (resolve_attachment_refs (Some u) prompt paths))"

definition resolve_request_attachments :: "uploads option \<Rightarrow> run_request \<Rightarrow> run_request" where
  "resolve_request_attachments up request =
     (let (prompt, attachments) = resolve_attachment_refs up (rq_prompt request) (rq_attachments request)
      in request\<lparr>rq_prompt := prompt, rq_attachments := attachments\<rparr>)"

definition resolve_prompt_attachments :: "uploads option \<Rightarrow> string \<Rightarrow> string" where
  "resolve_prompt_attachments up prompt =
     (case up of None \<Rightarrow> prompt
      | Some u \<Rightarrow>
          fold (\<lambda>r out. case resolve_pending u r of Some target \<Rightarrow> replace_all r target out | None \<Rightarrow> out)
            (pending_refs_in prompt) prompt)"

section \<open>The shared state\<close>

datatype task =
    Starting
  | Scanning "string list"                              \<comment> \<open>the entries this drain leaves alone\<close>
  | Picked "string list" command_entry disposition      \<comment> \<open>selected and evaluated\<close>
  | Unmet "string list" command_entry                   \<comment> \<open>its attachments never arrived\<close>
  | Claimed "string list" command_entry disposition     \<comment> \<open>in the set of executing ids\<close>
  | Marked "string list" command_entry disposition bool \<comment> \<open>whether the ledger took the mark\<close>
  | Resolving "string list" string command_status "string option" bool
  | Releasing "string list" string
  | RelayStarting command_entry
  | RelayPicked command_entry disposition
  | RelayClaimed command_entry disposition
  | RelayMarked command_entry disposition
  | RelayReleasing string "string + string"
  | Replied "string + string"
  | Finished

record ledger =
  ld_commands :: "command_entry list"
  ld_messages :: "string list"         \<comment> \<open>ids of the transcript, oldest first\<close>
  ld_processed :: "string list"        \<comment> \<open>the table of processed ids\<close>
  ld_executing :: "string list"
  ld_stopped_by :: "string option"
  ld_tasks :: "task list"
  ld_runs :: "(string \<times> bool) list"   \<comment> \<open>every execution, with whether its mark was taken\<close>

text \<open>What the rest of the engine answers while a task makes a step.\<close>

record drain_env =
  de_now :: int
  de_executor :: bool       \<comment> \<open>the executor is wired\<close>
  de_host :: bool           \<comment> \<open>this device hosts the chat\<close>
  de_reads :: bool          \<comment> \<open>the document reads\<close>
  de_ledger_reads :: bool
  de_marks :: bool
  de_writes :: bool
  de_in_flight :: bool
  de_timed_out :: bool      \<comment> \<open>a wait has reached its bound\<close>
  de_uploads :: "uploads option"
  de_outcome :: "string + command_status \<times> string option" \<comment> \<open>what the execution returns\<close>
  de_says :: bool           \<comment> \<open>the execution writes the prompt's message\<close>

definition set_command_status :: "string \<Rightarrow> command_status \<Rightarrow> string option \<Rightarrow> command_entry list \<Rightarrow> command_entry list" where
  "set_command_status i st resolution =
     update_first (\<lambda>c. ce_id c = i)
       (\<lambda>c. c\<lparr>ce_status := st, ce_resolution := (case resolution of Some r \<Rightarrow> Some r | None \<Rightarrow> ce_resolution c)\<rparr>)"

definition resolve_command :: "drain_env \<Rightarrow> string \<Rightarrow> command_status \<Rightarrow> string option \<Rightarrow> ledger \<Rightarrow> ledger" where
  "resolve_command e i st resolution s =
     (if de_writes e then s\<lparr>ld_commands := set_command_status i st resolution (ld_commands s)\<rparr> else s)"

definition is_processed :: "drain_env \<Rightarrow> ledger \<Rightarrow> string \<Rightarrow> bool" where
  "is_processed e s i \<longleftrightarrow> de_ledger_reads e \<and> i \<in> set (ld_processed s)"

text \<open>\<open>INSERT OR IGNORE\<close>: whether this call inserted the id.\<close>

definition mark_processed :: "string \<Rightarrow> ledger \<Rightarrow> bool \<times> ledger" where
  "mark_processed i s =
     (if i \<in> set (ld_processed s) then (False, s) else (True, s\<lparr>ld_processed := ld_processed s @ [i]\<rparr>))"

definition claim :: "string \<Rightarrow> ledger \<Rightarrow> bool \<times> ledger" where
  "claim i s = (if i \<in> set (ld_executing s) then (False, s) else (True, s\<lparr>ld_executing := i # ld_executing s\<rparr>))"

definition release :: "string \<Rightarrow> ledger \<Rightarrow> ledger" where
  "release i s = s\<lparr>ld_executing := filter (\<lambda>x. x \<noteq> i) (ld_executing s)\<rparr>"

definition evaluate_in :: "drain_env \<Rightarrow> ledger \<Rightarrow> command_entry list \<Rightarrow> command_entry \<Rightarrow> disposition" where
  "evaluate_in e s commands c =
     evaluate_command c
       \<lparr>ec_is_processed = is_processed e s, ec_now_ms = de_now e, ec_entries = commands,
        ec_current_turn_id = (if ld_messages s = [] then None else Some (last (ld_messages s))),
        ec_turn_is_past = (\<lambda>turn. turn \<in> set (ld_messages s))\<rparr>"

section \<open>Execution\<close>

definition message_id_of :: "command_entry \<Rightarrow> string option" where
  "message_id_of c =
     (case ce_payload c of
        Run _ message_id \<Rightarrow> Some message_id
      | Steer _ message_id \<Rightarrow> Some (case message_id of Some m \<Rightarrow> m | None \<Rightarrow> ce_id c)
      | _ \<Rightarrow> None)"

definition command_position :: "string \<Rightarrow> ledger \<Rightarrow> nat option" where
  "command_position i s = position (\<lambda>c. ce_id c = i) (ld_commands s)"

definition cancelled_by_stop :: "drain_env \<Rightarrow> ledger \<Rightarrow> command_entry \<Rightarrow> string option" where
  "cancelled_by_stop e s c =
     (case (message_id_of c, ld_stopped_by s) of
        (Some message_id, Some stop) \<Rightarrow>
          if \<not> de_reads e then None
          else (case (command_position (ce_id c) s, command_position stop s) of
             (Some at, Some stop_at) \<Rightarrow> if at < stop_at then Some message_id else None
           | _ \<Rightarrow> None)
      | _ \<Rightarrow> None)"

definition write_user_message :: "string \<Rightarrow> ledger \<Rightarrow> ledger" where
  "write_user_message m s =
     (if m \<in> set (ld_messages s) then s else s\<lparr>ld_messages := ld_messages s @ [m]\<rparr>)"

definition execute ::
    "drain_env \<Rightarrow> command_entry \<Rightarrow> bool \<Rightarrow> ledger \<Rightarrow> (string + command_status \<times> string option) \<times> ledger" where
  "execute e c taken s =
     (case cancelled_by_stop e s c of
        Some m \<Rightarrow> (Inr (Applied, Some ''cancelled by the Stop sent after it''),
                   if de_writes e then write_user_message m s else s)
      | None \<Rightarrow>
          let s1 = s\<lparr>ld_runs := ld_runs s @ [(ce_id c, taken)]\<rparr>;
              s2 = (case message_id_of c of Some m \<Rightarrow> if de_says e then write_user_message m s1 else s1 | None \<Rightarrow> s1);
              s3 = (if command_kind c = InterruptKind then s2\<lparr>ld_stopped_by := Some (ce_id c)\<rparr> else s2)
          in (de_outcome e, s3))"

text \<open>\<open>await_earlier_controls\<close>: a control queued before the prompt is still executing.\<close>

definition awaits_control :: "command_entry \<Rightarrow> ledger \<Rightarrow> bool" where
  "awaits_control c s \<longleftrightarrow>
     (case command_position (ce_id c) s of
        None \<Rightarrow> False
      | Some at \<Rightarrow> list_ex (\<lambda>x. ce_status x = Pending \<and> \<not> is_prompt x \<and> ce_id x \<in> set (ld_executing s))
                   (take at (ld_commands s)))"

definition must_wait :: "drain_env \<Rightarrow> command_entry \<Rightarrow> ledger \<Rightarrow> bool" where
  "must_wait e c s \<longleftrightarrow> is_prompt c \<and> \<not> de_timed_out e \<and> de_reads e \<and> awaits_control c s"

section \<open>The drain\<close>

definition interrupted_text :: string where
  "interrupted_text = ''interrupted before completion '' @ [CHR 0xE2, CHR 0x80, CHR 0x94] @ '' retry to send again''"

definition is_dead :: "drain_env \<Rightarrow> string list \<Rightarrow> ledger \<Rightarrow> command_entry \<Rightarrow> bool" where
  "is_dead e skipped s c \<longleftrightarrow>
     ce_status c = Pending \<and> ce_id c \<notin> set skipped \<and> is_processed e s (ce_id c)
     \<and> ce_id c \<notin> set (ld_executing s)
     \<and> list_ex (\<lambda>now. ce_id now = ce_id c \<and> ce_status now = Pending) (ld_commands s)"

text \<open>The dead-command sweep, over the commands read at the start of the round.\<close>

fun sweep_dead :: "drain_env \<Rightarrow> command_entry list \<Rightarrow> string list \<Rightarrow> ledger \<Rightarrow> string list \<times> ledger" where
  "sweep_dead e [] skipped s = (skipped, s)"
| "sweep_dead e (c # cs) skipped s =
     (if is_dead e skipped s c
      then sweep_dead e cs (ce_id c # skipped) (resolve_command e (ce_id c) Rejected (Some interrupted_text) s)
      else sweep_dead e cs skipped s)"

definition next_pending :: "drain_env \<Rightarrow> string list \<Rightarrow> ledger \<Rightarrow> command_entry list \<Rightarrow> command_entry option" where
  "next_pending e skipped s commands =
     find (\<lambda>c. ce_status c = Pending \<and> ce_id c \<notin> set skipped \<and> \<not> is_processed e s (ce_id c)) commands"

text \<open>A Stop aimed at a turn still in flight is never moot.\<close>

definition stop_acts :: "drain_env \<Rightarrow> command_entry \<Rightarrow> disposition \<Rightarrow> disposition" where
  "stop_acts e c d =
     (if command_kind c = InterruptKind \<and> d = MarkSuperseded \<and> de_in_flight e then Execute else d)"

text \<open>One round of the loop up to the claim.\<close>

definition scan :: "drain_env \<Rightarrow> string list \<Rightarrow> ledger \<Rightarrow> task \<times> ledger" where
  "scan e skipped s =
     (if \<not> de_reads e then (Finished, s)
      else let (skipped', s') = sweep_dead e (ld_commands s) skipped s
           in case next_pending e skipped' s' (ld_commands s) of
                None \<Rightarrow> (Finished, s')
              | Some c \<Rightarrow>
                  let d = stop_acts e c (evaluate_in e s' (ld_commands s) c)
                  in if d = Execute \<and> missing_attachments (de_uploads e) c \<noteq> []
                     then (if de_now e - ce_issued_at c < ATTACHMENT_WAIT_MAX_MS then (Finished, s')
                           else (Unmet skipped' c, s'))
                     else (Picked skipped' c d, s'))"

text \<open>The relay: a command forwarded by the sender, before its row arrives.\<close>

definition relay_start :: "drain_env \<Rightarrow> command_entry \<Rightarrow> ledger \<Rightarrow> task \<times> ledger" where
  "relay_start e c s =
     (if missing_attachments (de_uploads e) c \<noteq> [] then (Replied (Inl ''attachments not landed yet''), s)
      else if \<not> de_executor e then (Replied (Inl ''executor unavailable''), s)
      else if \<not> de_reads e then (Replied (Inl ''read failed''), s)
      else let d = evaluate_in e s (ld_commands s) c
           in if d = Skip then (Replied (Inr ''duplicate''), s) else (RelayPicked c d, s))"

definition relay_outcome :: "drain_env \<Rightarrow> command_entry \<Rightarrow> disposition \<Rightarrow> ledger \<Rightarrow> task \<times> ledger" where
  "relay_outcome e c d s =
     (case d of
        Skip \<Rightarrow> (RelayReleasing (ce_id c) (Inr ''duplicate''), s)
      | MarkExpired \<Rightarrow> (RelayReleasing (ce_id c) (Inr ''expired''), s)
      | MarkSuperseded \<Rightarrow> (RelayReleasing (ce_id c) (Inr ''superseded''), s)
      | Execute \<Rightarrow>
          if must_wait e c s then (RelayMarked c d, s)
          else (case execute e c True s of
                  (Inr _, s') \<Rightarrow> (RelayReleasing (ce_id c) (Inr ''executed''), s')
                | (Inl err, s') \<Rightarrow> (RelayReleasing (ce_id c) (Inl err), s')))"

declare relay_start_def [simp] relay_outcome_def [simp]

fun advance_task :: "drain_env \<Rightarrow> task \<Rightarrow> ledger \<Rightarrow> task \<times> ledger" where
  "advance_task e Starting s = ((if de_executor e \<and> de_host e then Scanning [] else Finished), s)"
| "advance_task e (Scanning skipped) s = scan e skipped s"
| "advance_task e (Unmet skipped c) s =
     (if \<not> de_marks e then (Finished, s)
      else (Resolving skipped (ce_id c) Rejected (Some ''attachments never arrived'') False,
            snd (mark_processed (ce_id c) s)))"
| "advance_task e (Picked skipped c d) s =
     (case claim (ce_id c) s of
        (True, s') \<Rightarrow> (Claimed skipped c d, s')
      | (False, s') \<Rightarrow> (Scanning (ce_id c # skipped), s'))"
| "advance_task e (Claimed skipped c d) s =
     (if \<not> de_marks e then (Finished, release (ce_id c) s)
      else let (taken, s') = mark_processed (ce_id c) s in (Marked skipped c d taken, s'))"
| "advance_task e (Marked skipped c d taken) s =
     (case d of
        Skip \<Rightarrow> (Releasing (ce_id c # skipped) (ce_id c), s)
      | MarkExpired \<Rightarrow> (Resolving skipped (ce_id c) Expired None True, s)
      | MarkSuperseded \<Rightarrow> (Resolving skipped (ce_id c) Superseded None True, s)
      | Execute \<Rightarrow>
          if must_wait e c s then (Marked skipped c d taken, s)
          else (case execute e c taken s of
                  (Inr (st, resolution), s') \<Rightarrow> (Resolving skipped (ce_id c) st resolution True, s')
                | (Inl err, s') \<Rightarrow> (Resolving skipped (ce_id c) Rejected (Some err) True, s')))"
| "advance_task e (Resolving skipped i st resolution claimed) s =
     ((if claimed then Releasing skipped i else Scanning skipped), resolve_command e i st resolution s)"
| "advance_task e (Releasing skipped i) s = (Scanning skipped, release i s)"
| "advance_task e (RelayStarting c) s = relay_start e c s"
| "advance_task e (RelayPicked c d) s =
     (case claim (ce_id c) s of
        (True, s') \<Rightarrow> (RelayClaimed c d, s')
      | (False, s') \<Rightarrow> (Replied (Inr ''duplicate''), s'))"
| "advance_task e (RelayClaimed c d) s =
     (if \<not> de_marks e then (RelayReleasing (ce_id c) (Inl ''ledger write failed''), s)
      else let (taken, s') = mark_processed (ce_id c) s
           in ((if taken then RelayMarked c d else RelayReleasing (ce_id c) (Inr ''duplicate'')), s'))"
| "advance_task e (RelayMarked c d) s = relay_outcome e c d s"
| "advance_task e (RelayReleasing i reply) s = (Replied reply, release i s)"
| "advance_task e (Replied reply) s = (Replied reply, s)"
| "advance_task e Finished s = (Finished, s)"

section \<open>Composer operations\<close>

definition make_command ::
    "string \<Rightarrow> command_payload \<Rightarrow> string \<Rightarrow> int \<Rightarrow> string option \<Rightarrow> ledger \<Rightarrow> command_entry" where
  "make_command i payload device now origin s =
     \<lparr>ce_id = i, ce_payload = payload, ce_issued_by = device, ce_issued_at = now,
      ce_based_on = (if ld_messages s = [] then None
                     else Some \<lparr>bo_turn_id = Some (last (ld_messages s)), bo_frontier = None\<rparr>),
      ce_expires_at = Some (now + COMMAND_DEFAULT_TTL_MS), ce_status = Pending, ce_resolution = None,
      ce_origin_chat_id = origin\<rparr>"

definition queue_command_with_transfers ::
    "string \<Rightarrow> command_payload \<Rightarrow> string \<Rightarrow> int \<Rightarrow> string option \<Rightarrow> ledger \<Rightarrow> ledger" where
  "queue_command_with_transfers i payload device now origin s =
     s\<lparr>ld_commands := ld_commands s @ [make_command i payload device now origin s]\<rparr>"

text \<open>\<open>retry_delivery\<close>: the message a prompt would write, and the attempts that can never write it.\<close>

definition retry_message :: "command_entry \<Rightarrow> string option" where
  "retry_message c = (case ce_payload c of Run _ m \<Rightarrow> Some m | Steer _ m \<Rightarrow> m | _ \<Rightarrow> None)"

definition is_lost :: "drain_env \<Rightarrow> ledger \<Rightarrow> command_entry \<Rightarrow> bool" where
  "is_lost e s c \<longleftrightarrow>
     (case ce_status c of
        Rejected \<Rightarrow> True
      | Expired \<Rightarrow> True
      | Pending \<Rightarrow> is_processed e s (ce_id c) \<and> ce_id c \<notin> set (ld_executing s)
      | _ \<Rightarrow> False)"

definition same_message :: "command_entry \<Rightarrow> command_entry \<Rightarrow> bool" where
  "same_message a b \<longleftrightarrow>
     (case (ce_payload a, ce_payload b) of
        (Run _ m, Run _ n) \<Rightarrow> m = n
      | (Steer _ m, Steer _ n) \<Rightarrow> m = n
      | _ \<Rightarrow> False)"

definition live_attempt :: "drain_env \<Rightarrow> ledger \<Rightarrow> command_entry \<Rightarrow> bool" where
  "live_attempt e s c \<longleftrightarrow>
     list_ex (\<lambda>x. ce_id x \<noteq> ce_id c \<and> ce_status x = Pending \<and> \<not> is_processed e s (ce_id x) \<and> same_message x c)
       (ld_commands s)"

definition retry_candidate :: "drain_env \<Rightarrow> ledger \<Rightarrow> command_entry \<Rightarrow> bool" where
  "retry_candidate e s c \<longleftrightarrow>
     (case retry_message c of None \<Rightarrow> False | Some m \<Rightarrow> m \<notin> set (ld_messages s))
     \<and> is_lost e s c \<and> \<not> live_attempt e s c"

text \<open>The latest candidate of every message; the map's values come in the order of first insertion.\<close>

definition keep_latest :: "command_entry \<Rightarrow> (string \<times> command_entry) list \<Rightarrow> (string \<times> command_entry) list" where
  "keep_latest c latest =
     (case retry_message c of None \<Rightarrow> latest
      | Some m \<Rightarrow>
          (case map_of latest m of
             Some old \<Rightarrow> if ce_issued_at c > ce_issued_at old then AList.update m c latest else latest
           | None \<Rightarrow> latest @ [(m, c)]))"

definition latest_dead :: "drain_env \<Rightarrow> ledger \<Rightarrow> (string \<times> command_entry) list" where
  "latest_dead e s = fold keep_latest (filter (retry_candidate e s) (ld_commands s)) []"

definition retry_text :: string where
  "retry_text = ''interrupted before completion '' @ [CHR 0xE2, CHR 0x80, CHR 0x94] @ '' superseded by retry''"

definition reissue :: "drain_env \<Rightarrow> string \<Rightarrow> string \<times> command_entry \<Rightarrow> ledger \<Rightarrow> ledger" where
  "reissue e device fresh s =
     (case fresh of
        (i, old) \<Rightarrow>
          let s1 = (if ce_status old = Pending then resolve_command e (ce_id old) Rejected (Some retry_text) s else s)
          in s1\<lparr>ld_commands := ld_commands s1
                  @ [make_command i (ce_payload old) device (de_now e) (ce_origin_chat_id old) s]\<rparr>)"

definition retry_delivery :: "drain_env \<Rightarrow> string \<Rightarrow> string list \<Rightarrow> ledger \<Rightarrow> ledger" where
  "retry_delivery e device fresh s =
     (let s' = fold (reissue e device) (zip fresh (map snd (latest_dead e s))) s
      in s'\<lparr>ld_tasks := ld_tasks s' @ [Starting]\<rparr>)"

section \<open>The machine\<close>

datatype ledger_event =
    Row nat command_entry              \<comment> \<open>a row lands in the document, from here or by sync\<close>
  | Message string
  | Drain
  | Relay command_entry
  | Advance nat drain_env
  | Retry drain_env string "string list"
  | Cancel string string
  | Restart

definition advance :: "nat \<Rightarrow> drain_env \<Rightarrow> ledger \<Rightarrow> ledger" where
  "advance n e s =
     (if n < length (ld_tasks s)
      then let (t, s') = advance_task e (ld_tasks s ! n) s in s'\<lparr>ld_tasks := (ld_tasks s)[n := t]\<rparr>
      else s)"

definition known :: "string \<Rightarrow> ledger \<Rightarrow> bool" where
  "known i s \<longleftrightarrow> i \<in> ce_id ` set (ld_commands s)"

definition ledger_step :: "ledger \<Rightarrow> ledger_event \<Rightarrow> ledger" where
  "ledger_step s ev =
     (case ev of
        Row n c \<Rightarrow> if known (ce_id c) s then s else s\<lparr>ld_commands := insert_at n c (ld_commands s)\<rparr>
      | Message m \<Rightarrow> write_user_message m s
      | Drain \<Rightarrow> s\<lparr>ld_tasks := ld_tasks s @ [Starting]\<rparr>
      | Relay c \<Rightarrow> s\<lparr>ld_tasks := ld_tasks s @ [RelayStarting c]\<rparr>
      | Advance n e \<Rightarrow> advance n e s
      | Retry e device fresh \<Rightarrow> if list_ex (\<lambda>i. known i s) fresh then s else retry_delivery e device fresh s
      | Cancel i device \<Rightarrow>
          (case find (\<lambda>c. ce_id c = i) (ld_commands s) of
             Some c \<Rightarrow> if can_composer_cancel c device
                        then s\<lparr>ld_commands := set_command_status i Cancelled None (ld_commands s)\<rparr> else s
           | None \<Rightarrow> s)
      | Restart \<Rightarrow> s\<lparr>ld_executing := [], ld_stopped_by := None, ld_tasks := []\<rparr>)"

definition new_ledger :: ledger where
  "new_ledger = \<lparr>ld_commands = [], ld_messages = [], ld_processed = [], ld_executing = [],
                 ld_stopped_by = None, ld_tasks = [], ld_runs = []\<rparr>"

section \<open>Evaluation\<close>

text \<open>A prompt is never lost to a newer one: among commands that are not expired, only an
  interrupt is ever superseded, and a command the ledger does not know, in time and not an interrupt,
  executes.\<close>

theorem only_interrupts_superseded:
  "(evaluate_command c cx = MarkSuperseded \<longrightarrow> command_kind c = InterruptKind)
   \<and> (evaluate_command c cx = Execute \<longrightarrow> \<not> ec_is_processed cx (ce_id c) \<and> ec_now_ms cx < effective_expiry c)
   \<and> (command_kind c \<noteq> InterruptKind \<and> \<not> ec_is_processed cx (ce_id c) \<and> ec_now_ms cx < effective_expiry c
      \<longrightarrow> evaluate_command c cx = Execute)"
  by (auto simp: evaluate_command_def)

section \<open>What every interleaving keeps\<close>

text \<open>The marks taken: by a task that has not executed yet, or by an execution.\<close>

fun task_mark :: "task \<Rightarrow> string list" where
  "task_mark (Marked _ c _ True) = [ce_id c]"
| "task_mark (RelayMarked c _) = [ce_id c]"
| "task_mark _ = []"

definition taken_runs :: "ledger \<Rightarrow> string list" where
  "taken_runs s = map fst (filter snd (ld_runs s))"

definition marks :: "ledger \<Rightarrow> string list" where
  "marks s = concat (map task_mark (ld_tasks s)) @ taken_runs s"

definition marks_ok :: "ledger \<Rightarrow> bool" where
  "marks_ok s \<longleftrightarrow> distinct (marks s) \<and> set (marks s) \<subseteq> set (ld_processed s)"

text \<open>A step touches the ledger and the log only through a mark and an execution.\<close>

lemma resolve_keeps [simp]:
  "ld_processed (resolve_command e i st r s) = ld_processed s" "ld_runs (resolve_command e i st r s) = ld_runs s"
  "ld_tasks (resolve_command e i st r s) = ld_tasks s" "ld_executing (resolve_command e i st r s) = ld_executing s"
  "ld_stopped_by (resolve_command e i st r s) = ld_stopped_by s" "ld_messages (resolve_command e i st r s) = ld_messages s"
  by (simp_all add: resolve_command_def)

lemma write_keeps [simp]:
  "ld_processed (write_user_message m s) = ld_processed s" "ld_runs (write_user_message m s) = ld_runs s"
  "ld_tasks (write_user_message m s) = ld_tasks s" "ld_executing (write_user_message m s) = ld_executing s"
  "ld_stopped_by (write_user_message m s) = ld_stopped_by s" "ld_commands (write_user_message m s) = ld_commands s"
  by (simp_all add: write_user_message_def)

lemma sweep_keeps:
  "ld_processed (snd (sweep_dead e cs skipped s)) = ld_processed s \<and> ld_runs (snd (sweep_dead e cs skipped s)) = ld_runs s
   \<and> ld_tasks (snd (sweep_dead e cs skipped s)) = ld_tasks s \<and> ld_executing (snd (sweep_dead e cs skipped s)) = ld_executing s
   \<and> ld_stopped_by (snd (sweep_dead e cs skipped s)) = ld_stopped_by s
   \<and> ld_messages (snd (sweep_dead e cs skipped s)) = ld_messages s"
  by (induction e cs skipped s rule: sweep_dead.induct) auto

lemma scan_keeps:
  "ld_processed (snd (scan e skipped s)) = ld_processed s \<and> ld_runs (snd (scan e skipped s)) = ld_runs s
   \<and> ld_executing (snd (scan e skipped s)) = ld_executing s \<and> task_mark (fst (scan e skipped s)) = []"
  using sweep_keeps [of e "ld_commands s" skipped s]
  by (auto simp: scan_def Let_def split: prod.splits option.splits)

lemma execute_log:
  "ld_processed (snd (execute e c b s)) = ld_processed s
   \<and> ld_executing (snd (execute e c b s)) = ld_executing s
   \<and> ld_runs (snd (execute e c b s)) = (if cancelled_by_stop e s c = None then ld_runs s @ [(ce_id c, b)] else ld_runs s)"
  by (simp add: execute_def Let_def split: option.split)

text \<open>The marks of one task and of the log, after its step.\<close>

lemma advance_marks:
  assumes "(t', s') = advance_task e t s"
  shows "set (ld_processed s) \<subseteq> set (ld_processed s')
    \<and> (task_mark t' @ taken_runs s' = task_mark t @ taken_runs s
       \<or> (task_mark t' = [] \<and> taken_runs s' = taken_runs s)
       \<or> (\<exists>i. task_mark t = [i] \<and> task_mark t' = [] \<and> taken_runs s' = taken_runs s @ [i])
       \<or> (\<exists>i. task_mark t = [] \<and> task_mark t' = [i] \<and> taken_runs s' = taken_runs s
              \<and> i \<notin> set (ld_processed s) \<and> i \<in> set (ld_processed s')))"
proof (cases t)
  case (Scanning skipped)
  then show ?thesis using assms scan_keeps [of e skipped s] by (cases "scan e skipped s") (auto simp: taken_runs_def)
next
  case (Marked skipped c d b)
  then show ?thesis
    using assms execute_log [of e c b s]
    by (cases "execute e c b s"; cases b) (auto simp: taken_runs_def split: disposition.splits if_splits sum.splits)
next
  case (RelayMarked c d)
  then show ?thesis
    using assms execute_log [of e c True s]
    by (cases "execute e c True s") (auto simp: taken_runs_def split: disposition.splits if_splits sum.splits)
qed (use assms in \<open>auto simp: taken_runs_def release_def claim_def mark_processed_def Let_def split: if_splits\<close>)

lemma advance_split:
  assumes "n < length (ld_tasks s)"
  obtains pre post where "ld_tasks s = pre @ ld_tasks s ! n # post" "length pre = n"
    "ld_tasks (advance n e s) = pre @ fst (advance_task e (ld_tasks s ! n) s) # post"
    "advance n e s = (snd (advance_task e (ld_tasks s ! n) s))\<lparr>ld_tasks := ld_tasks (advance n e s)\<rparr>"
proof -
  obtain pre post where ts: "ld_tasks s = pre @ ld_tasks s ! n # post" "length pre = n"
    using assms by (metis id_take_nth_drop length_take min.absorb4)
  have "(ld_tasks s)[n := t] = pre @ t # post" for t by (subst ts(1)) (simp add: ts(2) flip: ts(2))
  then show thesis
    using that [OF ts] assms by (auto simp: advance_def split: prod.splits)
qed

lemma advance_runs:
  "n < length (ld_tasks s) \<Longrightarrow>
     ld_runs (advance n e s) = ld_runs (snd (advance_task e (ld_tasks s ! n) s))
     \<and> ld_processed (advance n e s) = ld_processed (snd (advance_task e (ld_tasks s ! n) s))
     \<and> ld_commands (advance n e s) = ld_commands (snd (advance_task e (ld_tasks s ! n) s))
     \<and> ld_executing (advance n e s) = ld_executing (snd (advance_task e (ld_tasks s ! n) s))
     \<and> ld_stopped_by (advance n e s) = ld_stopped_by (snd (advance_task e (ld_tasks s ! n) s))
     \<and> ld_messages (advance n e s) = ld_messages (snd (advance_task e (ld_tasks s ! n) s))"
  by (simp add: advance_def split: prod.split)

lemma advance_keeps_marks:
  assumes "marks_ok s"
  shows "marks_ok (advance n e s)"
proof (cases "n < length (ld_tasks s)")
  case True
  let ?t = "ld_tasks s ! n"
  obtain pre post where ts: "ld_tasks s = pre @ ?t # post"
    "ld_tasks (advance n e s) = pre @ fst (advance_task e ?t s) # post"
    by (rule advance_split [OF True])
  obtain t' s' where st: "(t', s') = advance_task e ?t s" by (metis surj_pair)
  have new: "marks (advance n e s) = concat (map task_mark (pre @ t' # post)) @ taken_runs s'"
    "set (ld_processed (advance n e s)) = set (ld_processed s')"
    using advance_runs [OF True, of e] unfolding marks_def taken_runs_def ts(2) st [symmetric] by simp_all
  have old: "marks s = concat (map task_mark (pre @ ?t # post)) @ taken_runs s"
    unfolding marks_def by (subst ts(1)) (rule refl)
  have rotate: "distinct (concat (map task_mark (pre @ x # post)) @ r) \<longleftrightarrow>
      distinct (concat (map task_mark (pre @ post)) @ task_mark x @ r)"
    "set (concat (map task_mark (pre @ x # post)) @ r) = set (concat (map task_mark (pre @ post)) @ task_mark x @ r)"
    for x r by auto
  note step = advance_marks [OF st]
  have old_ok: "distinct (concat (map task_mark (pre @ post)) @ task_mark ?t @ taken_runs s)"
    "set (concat (map task_mark (pre @ post)) @ task_mark ?t @ taken_runs s) \<subseteq> set (ld_processed s)"
    using assms unfolding marks_ok_def old rotate by auto
  obtain m r where mr: "m = task_mark t'" "r = taken_runs s'" by blast
  have "distinct (concat (map task_mark (pre @ post)) @ m @ r)
      \<and> set (concat (map task_mark (pre @ post)) @ m @ r) \<subseteq> set (ld_processed s')"
    using step [THEN conjunct2] unfolding mr [symmetric]
  proof (elim disjE exE conjE)
    assume "m @ r = task_mark ?t @ taken_runs s"
    then show ?thesis using old_ok step by auto
  next
    assume "m = []" "r = taken_runs s"
    then show ?thesis using old_ok step by auto
  next
    fix i assume "task_mark ?t = [i]" "m = []" "r = taken_runs s @ [i]"
    then show ?thesis using old_ok step by auto
  next
    fix i assume "task_mark ?t = []" "m = [i]" "r = taken_runs s" "i \<notin> set (ld_processed s)" "i \<in> set (ld_processed s')"
    then show ?thesis using old_ok step by auto
  qed
  then show ?thesis unfolding marks_ok_def new rotate mr by simp
qed (use assms in \<open>simp add: advance_def\<close>)

lemma retry_keeps:
  "ld_processed (retry_delivery e device fresh s) = ld_processed s \<and> ld_runs (retry_delivery e device fresh s) = ld_runs s
   \<and> ld_tasks (retry_delivery e device fresh s) = ld_tasks s @ [Starting]
   \<and> ld_executing (retry_delivery e device fresh s) = ld_executing s
   \<and> ld_stopped_by (retry_delivery e device fresh s) = ld_stopped_by s
   \<and> ld_messages (retry_delivery e device fresh s) = ld_messages s"
proof -
  have "ld_processed (fold (reissue e device) xs s) = ld_processed s \<and> ld_runs (fold (reissue e device) xs s) = ld_runs s
     \<and> ld_tasks (fold (reissue e device) xs s) = ld_tasks s
     \<and> ld_executing (fold (reissue e device) xs s) = ld_executing s
     \<and> ld_stopped_by (fold (reissue e device) xs s) = ld_stopped_by s
     \<and> ld_messages (fold (reissue e device) xs s) = ld_messages s" for xs
    by (induction xs arbitrary: s) (auto simp: reissue_def Let_def split: prod.split)
  then show ?thesis by (simp add: retry_delivery_def Let_def)
qed

lemma step_keeps_marks: "marks_ok s \<Longrightarrow> marks_ok (ledger_step s ev)"
proof (cases ev)
  case (Advance n e)
  then show "marks_ok s \<Longrightarrow> ?thesis" by (simp add: ledger_step_def advance_keeps_marks)
qed (auto simp: ledger_step_def marks_ok_def marks_def taken_runs_def retry_keeps split: option.split)

interpretation ledger_machine: invariant_machine ledger_step marks_ok
  by unfold_locales (rule step_keeps_marks)

lemma new_ledger_ok: "marks_ok new_ledger"
  by (simp add: new_ledger_def marks_ok_def marks_def taken_runs_def)

text \<open>A mark is worth one execution: however drains, relays, retries, restarts and rows arriving by
  sync interleave, every execution whose mark the ledger took is the only such execution of its
  command, and its id is recorded as processed.\<close>

theorem one_run_per_mark:
  "distinct (taken_runs (foldl ledger_step new_ledger evs))
   \<and> set (taken_runs (foldl ledger_step new_ledger evs)) \<subseteq> set (ld_processed (foldl ledger_step new_ledger evs))"
  using ledger_machine.run_inv [OF new_ledger_ok, of evs] by (auto simp: marks_ok_def marks_def)

section \<open>One task at a time\<close>

definition idle :: "task \<Rightarrow> bool" where
  "idle t \<longleftrightarrow> (case t of Replied _ \<Rightarrow> True | Finished \<Rightarrow> True | _ \<Rightarrow> False)"

text \<open>A drain, a relay or a retry starts only when no other is on its way, and the ledger reads.\<close>

definition one_at_a_time :: "ledger \<Rightarrow> ledger_event \<Rightarrow> bool" where
  "one_at_a_time s ev \<longleftrightarrow>
     (case ev of
        Drain \<Rightarrow> list_all idle (ld_tasks s)
      | Relay _ \<Rightarrow> list_all idle (ld_tasks s)
      | Retry _ _ _ \<Rightarrow> list_all idle (ld_tasks s)
      | Advance _ e \<Rightarrow> de_ledger_reads e
      | _ \<Rightarrow> True)"

definition serial_step :: "ledger \<Rightarrow> ledger_event \<Rightarrow> ledger" where
  "serial_step s ev = (if one_at_a_time s ev then ledger_step s ev else s)"

fun task_fresh :: "ledger \<Rightarrow> task \<Rightarrow> bool" where
  "task_fresh s (Picked _ c _) = (ce_id c \<notin> set (ld_processed s))"
| "task_fresh s (Claimed _ c _) = (ce_id c \<notin> set (ld_processed s))"
| "task_fresh s (Marked _ _ _ b) = b"
| "task_fresh s _ = True"

definition serial_ok :: "ledger \<Rightarrow> bool" where
  "serial_ok s \<longleftrightarrow>
     marks_ok s \<and> list_all snd (ld_runs s) \<and> list_all (task_fresh s) (ld_tasks s)
     \<and> length (filter (\<lambda>t. \<not> idle t) (ld_tasks s)) \<le> 1"

lemma task_fresh_ledger: "ld_processed s' = ld_processed s \<Longrightarrow> task_fresh s' t = task_fresh s t"
  by (cases t) auto

lemma idle_fresh: "idle t \<Longrightarrow> task_fresh s t"
  by (cases t) (auto simp: idle_def)

lemma scan_fresh:
  assumes "de_ledger_reads e"
  shows "task_fresh (snd (scan e skipped s)) (fst (scan e skipped s))"
  using sweep_keeps [of e "ld_commands s" skipped s] assms
  by (auto simp: scan_def Let_def next_pending_def find_Some_iff is_processed_def split: prod.splits option.splits)

lemma advance_fresh:
  assumes "task_fresh s t" "de_ledger_reads e" "list_all snd (ld_runs s)"
  shows "task_fresh (snd (advance_task e t s)) (fst (advance_task e t s))
    \<and> list_all snd (ld_runs (snd (advance_task e t s)))
    \<and> (idle t \<longrightarrow> advance_task e t s = (t, s))"
proof (cases t)
  case (Scanning skipped)
  then show ?thesis using assms scan_keeps [of e skipped s] scan_fresh by (simp add: idle_def)
next
  case (Marked skipped c d b)
  then show ?thesis
    using assms execute_log [of e c b s]
    by (cases "execute e c b s") (auto simp: idle_def split: disposition.splits sum.splits)
next
  case (RelayMarked c d)
  then show ?thesis
    using assms execute_log [of e c True s]
    by (cases "execute e c True s") (auto simp: idle_def split: disposition.splits sum.splits)
qed (use assms in \<open>auto simp: idle_def claim_def mark_processed_def release_def Let_def\<close>)

lemma serial_advance:
  assumes ok: "serial_ok s" and reads: "de_ledger_reads e"
  shows "serial_ok (advance n e s)"
proof (cases "n < length (ld_tasks s)")
  case True
  let ?t = "ld_tasks s ! n"
  obtain pre post where ts: "ld_tasks s = pre @ ?t # post"
    "ld_tasks (advance n e s) = pre @ fst (advance_task e ?t s) # post"
    by (rule advance_split [OF True])
  have fresh: "task_fresh s ?t" using ok True by (simp add: serial_ok_def list_all_length)
  have marks: "marks_ok (advance n e s)" using ok by (simp add: serial_ok_def advance_keeps_marks)
  have a: "task_fresh (snd (advance_task e ?t s)) (fst (advance_task e ?t s))
    \<and> list_all snd (ld_runs (snd (advance_task e ?t s)))
    \<and> (idle ?t \<longrightarrow> advance_task e ?t s = (?t, s))"
    using advance_fresh [OF fresh reads] ok by (simp add: serial_ok_def)
  show ?thesis
  proof (cases "idle ?t")
    case True
    then have "advance n e s = s" using a by (simp add: advance_def)
    then show ?thesis using ok by simp
  next
    case False
    have len: "length (filter (\<lambda>t. \<not> idle t) (pre @ ?t # post)) \<le> 1"
      using ok unfolding serial_ok_def by (subst (asm) ts(1)) blast
    then have others: "filter (\<lambda>t. \<not> idle t) pre = []" "filter (\<lambda>t. \<not> idle t) post = []" using False by simp_all
    have "list_all (task_fresh (advance n e s)) (pre @ post)"
      using others by (auto simp: list_all_iff filter_empty_conv idle_fresh)
    moreover have "task_fresh (advance n e s) (fst (advance_task e ?t s))"
      using a task_fresh_ledger advance_runs [OF \<open>n < length (ld_tasks s)\<close>, of e] by blast
    ultimately show ?thesis
      using a marks others advance_runs [OF \<open>n < length (ld_tasks s)\<close>, of e]
      by (simp add: serial_ok_def ts(2))
  qed
qed (use ok in \<open>simp add: advance_def\<close>)

lemma serial_start:
  assumes "serial_ok s" "marks_ok s'" "ld_runs s' = ld_runs s" "ld_processed s' = ld_processed s"
    and "ld_tasks s' = ld_tasks s \<or> (list_all idle (ld_tasks s) \<and> (\<exists>t. ld_tasks s' = ld_tasks s @ [t] \<and> task_fresh s t))"
  shows "serial_ok s'"
proof -
  have same: "task_fresh s' = task_fresh s" using task_fresh_ledger [OF assms(4)] by (rule ext)
  from assms(5) show ?thesis
  proof (elim disjE conjE exE)
    assume "ld_tasks s' = ld_tasks s"
    then show ?thesis using assms(1-3) same by (simp add: serial_ok_def)
  next
    fix t assume t: "list_all idle (ld_tasks s)" "ld_tasks s' = ld_tasks s @ [t]" "task_fresh s t"
    have "filter (\<lambda>t. \<not> idle t) (ld_tasks s) = []" using t(1) by (simp add: filter_empty_conv list_all_iff)
    then show ?thesis using assms(1-3) same t by (simp add: serial_ok_def)
  qed
qed

lemma step_frame:
  assumes "\<And>n e. ev \<noteq> Advance n e" "ev \<noteq> Restart"
  shows "ld_runs (ledger_step s ev) = ld_runs s" "ld_processed (ledger_step s ev) = ld_processed s"
    "ld_tasks (ledger_step s ev) = ld_tasks s
     \<or> ((ev = Drain \<or> (\<exists>c. ev = Relay c) \<or> (\<exists>e d f. ev = Retry e d f)) \<and> (\<exists>t. ld_tasks (ledger_step s ev) = ld_tasks s @ [t] \<and> task_fresh s t))"
  using assms by (cases ev; simp add: ledger_step_def retry_keeps split: option.split)+

lemma serial_keeps: "serial_ok s \<Longrightarrow> serial_ok (serial_step s ev)"
proof (cases "one_at_a_time s ev")
  case True
  assume ok: "serial_ok s"
  then have marks: "marks_ok (ledger_step s ev)" using step_keeps_marks by (simp add: serial_ok_def)
  consider (adv) n e where "ev = Advance n e" | (restart) "ev = Restart"
    | (other) "\<And>n e. ev \<noteq> Advance n e" "ev \<noteq> Restart"
    by blast
  then show ?thesis
  proof cases
    case adv
    then show ?thesis using True ok serial_advance by (simp add: serial_step_def ledger_step_def one_at_a_time_def)
  next
    case restart
    then show ?thesis using ok marks by (simp add: serial_step_def ledger_step_def serial_ok_def one_at_a_time_def)
  next
    case other
    note frame = step_frame [OF other, of s]
    have "ld_tasks (ledger_step s ev) = ld_tasks s
        \<or> (list_all idle (ld_tasks s) \<and> (\<exists>t. ld_tasks (ledger_step s ev) = ld_tasks s @ [t] \<and> task_fresh s t))"
      using frame(3) True by (auto simp: one_at_a_time_def)
    from serial_start [OF ok marks frame(1,2) this] show ?thesis using True by (simp add: serial_step_def)
  qed
qed (simp add: serial_step_def)

interpretation serial_machine: invariant_machine serial_step serial_ok
  by unfold_locales (rule serial_keeps)

text \<open>C7: a command runs at most once: while drains, relays and retries of a chat follow one another and the
  ledger answers, no command is executed twice, whatever the writes of outcomes do, whichever way a
  command arrived, across retries and restarts at any point.\<close>

theorem commands_run_at_most_once:
  "distinct (map fst (ld_runs (foldl serial_step new_ledger evs)))"
proof -
  have "serial_ok new_ledger" using new_ledger_ok by (simp add: serial_ok_def) (simp add: new_ledger_def)
  then have "serial_ok (foldl serial_step new_ledger evs)" by (rule serial_machine.run_inv)
  moreover from this have "filter snd (ld_runs (foldl serial_step new_ledger evs)) = ld_runs (foldl serial_step new_ledger evs)"
    by (simp add: serial_ok_def list_all_iff filter_id_conv)
  ultimately show ?thesis by (auto simp: serial_ok_def marks_ok_def marks_def taken_runs_def)
qed

section \<open>One drain from start to end\<close>

definition drive :: "drain_env list \<Rightarrow> task \<Rightarrow> ledger \<Rightarrow> task \<times> ledger" where
  "drive es t s = foldl (\<lambda>(t, s) e. advance_task e t s) (t, s) es"

text \<open>The commands a drain that leaves \<open>skipped\<close> alone has still to take, in document order.\<close>

definition to_take :: "string list \<Rightarrow> ledger \<Rightarrow> command_entry list" where
  "to_take skipped s =
     filter (\<lambda>c. ce_status c = Pending \<and> ce_id c \<notin> set skipped \<and> ce_id c \<notin> set (ld_processed s)) (ld_commands s)"

text \<open>A drain on its own: the entry in its hands heads the list, and only it is executing.\<close>

fun alone :: "task \<Rightarrow> ledger \<Rightarrow> bool" where
  "alone Starting s = (ld_executing s = [])"
| "alone (Scanning _) s = (ld_executing s = [])"
| "alone (Picked skipped c _) s = (ld_executing s = [] \<and> (\<exists>cs. to_take skipped s = c # cs))"
| "alone (Unmet skipped c) s = (ld_executing s = [] \<and> (\<exists>cs. to_take skipped s = c # cs))"
| "alone (Claimed skipped c _) s = (ld_executing s = [ce_id c] \<and> (\<exists>cs. to_take skipped s = c # cs))"
| "alone (Marked _ c _ _) s = (ld_executing s = [ce_id c] \<and> ce_id c \<in> set (ld_processed s))"
| "alone (Resolving _ i _ _ claimed) s = (ld_executing s = (if claimed then [i] else []) \<and> i \<in> set (ld_processed s))"
| "alone (Releasing _ i) s = (ld_executing s = [i])"
| "alone Finished s = True"
| "alone _ s = False"

fun task_skipped :: "task \<Rightarrow> string list" where
  "task_skipped (Scanning sk) = sk"
| "task_skipped (Picked sk _ _) = sk"
| "task_skipped (Unmet sk _) = sk"
| "task_skipped (Claimed sk _ _) = sk"
| "task_skipped (Marked sk _ _ _) = sk"
| "task_skipped (Resolving sk _ _ _ _) = sk"
| "task_skipped (Releasing sk _) = sk"
| "task_skipped _ = []"

fun phase :: "task \<Rightarrow> nat" where
  "phase Starting = 2"
| "phase (Scanning _) = 1"
| "phase (Picked _ _ _) = 0"
| "phase (Unmet _ _) = 0"
| "phase (Marked _ _ _ _) = 4"
| "phase (Resolving _ _ _ _ _) = 3"
| "phase (Releasing _ _) = 2"
| "phase _ = 0"

definition drain_measure :: "task \<Rightarrow> ledger \<Rightarrow> nat" where
  "drain_measure t s =
     (case t of
        Finished \<Rightarrow> 0
      | Claimed sk _ _ \<Rightarrow> 6 * length (to_take sk s) - 1
      | _ \<Rightarrow> 6 * length (to_take (task_skipped t) s) + phase t)"

lemma set_status_taken:
  "i \<in> P \<Longrightarrow> filter (\<lambda>c. ce_status c = Pending \<and> ce_id c \<notin> Q \<and> ce_id c \<notin> P) (set_command_status i st r cs)
     = filter (\<lambda>c. ce_status c = Pending \<and> ce_id c \<notin> Q \<and> ce_id c \<notin> P) cs"
  unfolding set_command_status_def by (induction cs) auto

lemma resolve_to_take:
  "i \<in> set (ld_processed s) \<Longrightarrow> to_take sk (resolve_command e i st r s) = to_take sk s"
  by (simp add: to_take_def resolve_command_def set_status_taken)

lemma sweep_to_take:
  "fst (sweep_dead e cs sk s) = sk' \<Longrightarrow> snd (sweep_dead e cs sk s) = s' \<Longrightarrow> de_ledger_reads e \<Longrightarrow>
     set sk \<subseteq> set sk' \<and> to_take sk' s' = to_take sk s"
proof (induction e cs sk s arbitrary: rule: sweep_dead.induct)
  case (2 e c cs sk s)
  show ?case
  proof (cases "is_dead e sk s c")
    case True
    then have i: "ce_id c \<in> set (ld_processed s)" by (simp add: is_dead_def is_processed_def)
    then have "to_take (ce_id c # sk) s = to_take sk s" by (auto simp: to_take_def intro!: filter_cong)
    then show ?thesis using 2(1) 2(3-5) True i resolve_to_take [OF i] by auto
  next
    case False
    then show ?thesis using 2(2) 2(3-5) by auto
  qed
qed simp

lemma next_pending_head:
  assumes "to_take sk s = to_take sk0 s0" "ld_processed s = ld_processed s0" "set sk0 \<subseteq> set sk" "de_ledger_reads e"
    and "next_pending e sk s (ld_commands s0) = r"
  shows "r = (case to_take sk s of [] \<Rightarrow> None | c # _ \<Rightarrow> Some c)"
proof -
  have f: "find P xs = (case filter P xs of [] \<Rightarrow> None | x # _ \<Rightarrow> Some x)" for P and xs :: "command_entry list"
    by (induction xs) auto
  let ?P = "\<lambda>c. ce_status c = Pending \<and> ce_id c \<notin> set sk \<and> \<not> is_processed e s (ce_id c)"
  have "filter ?P (ld_commands s0) = filter (\<lambda>c. ce_id c \<notin> set sk) (to_take sk0 s0)"
    using assms(2-4) by (auto simp: to_take_def is_processed_def intro!: filter_cong)
  also have "\<dots> = to_take sk s"
    unfolding assms(1) [symmetric] by (simp add: to_take_def) (rule filter_cong, auto)
  finally show ?thesis using assms(5) f [of ?P "ld_commands s0"] by (simp add: next_pending_def)
qed

lemma scan_alone:
  assumes "ld_executing s = []" "de_ledger_reads e" "scan e sk s = (t', s')"
  shows "alone t' s' \<and> ld_runs s' = ld_runs s
    \<and> (t' = Finished \<or> (\<exists>c d sk'. (t' = Picked sk' c d \<or> t' = Unmet sk' c) \<and> to_take sk' s' = to_take sk s))"
proof (cases "de_reads e")
  case True
  obtain sk1 s1 where sw: "sweep_dead e (ld_commands s) sk s = (sk1, s1)" by fastforce
  note k = sweep_keeps [of e "ld_commands s" sk s, unfolded sw]
  have t: "set sk \<subseteq> set sk1 \<and> to_take sk1 s1 = to_take sk s"
    by (rule sweep_to_take [of e "ld_commands s" sk s]) (simp_all add: sw assms(2))
  have n: "next_pending e sk1 s1 (ld_commands s) = (case to_take sk1 s1 of [] \<Rightarrow> None | c # _ \<Rightarrow> Some c)"
    using k t assms(2) by (intro next_pending_head [OF _ _ _ _ refl]) auto
  show ?thesis
  proof (cases "to_take sk1 s1")
    case Nil
    then show ?thesis using assms(1,3) True k by (simp add: scan_def sw n)
  next
    case (Cons c cs)
    let ?d = "stop_acts e c (evaluate_in e s1 (ld_commands s) c)"
    have "scan e sk s =
        (if ?d = Execute \<and> missing_attachments (de_uploads e) c \<noteq> []
         then (if de_now e - ce_issued_at c < ATTACHMENT_WAIT_MAX_MS then (Finished, s1) else (Unmet sk1 c, s1))
         else (Picked sk1 c ?d, s1))"
      using True by (simp add: scan_def sw n Cons Let_def)
    moreover have "to_take sk s = c # cs" using t Cons by simp
    moreover have "ld_executing s1 = []" "ld_runs s1 = ld_runs s" using k assms(1) by simp_all
    ultimately show ?thesis using assms(3) Cons by (auto split: if_splits)
  qed
qed (use assms in \<open>auto simp: scan_def\<close>)

lemma mark_to_take:
  assumes "to_take sk s = c # cs"
  shows "\<exists>ds. to_take sk (snd (mark_processed (ce_id c) s)) = ds \<and> subseq ds cs"
proof -
  have "ce_id c \<notin> set (ld_processed s)" using assms
    by (metis (mono_tags, lifting) filter_eq_Cons_iff to_take_def)
  then have "to_take sk (snd (mark_processed (ce_id c) s)) = filter (\<lambda>x. ce_id x \<noteq> ce_id c) (to_take sk s)"
    by (auto simp: to_take_def mark_processed_def intro!: filter_cong)
  then show ?thesis using assms by simp
qed

text \<open>What the drain has run and has still to run.\<close>

definition yet_to_run :: "task \<Rightarrow> ledger \<Rightarrow> string list" where
  "yet_to_run t s =
     map fst (ld_runs s)
     @ (case t of
          Marked sk c _ _ \<Rightarrow> ce_id c # map ce_id (to_take sk s)
        | Finished \<Rightarrow> []
        | _ \<Rightarrow> map ce_id (to_take (task_skipped t) s))"

lemma to_take_executing [simp]:
  "to_take sk (s\<lparr>ld_executing := x\<rparr>) = to_take sk s" "to_take sk (s\<lparr>ld_runs := y\<rparr>) = to_take sk s"
  "to_take sk (s\<lparr>ld_stopped_by := z\<rparr>) = to_take sk s" "to_take sk (write_user_message m s) = to_take sk s"
  by (simp_all add: to_take_def)

lemma execute_to_take: "to_take sk (snd (execute e c b s)) = to_take sk s"
  by (simp add: execute_def Let_def split: option.split)

lemma no_wait:
  assumes "ld_executing s = [ce_id c]"
  shows "\<not> must_wait e c s"
proof
  assume "must_wait e c s"
  then obtain at x where at: "command_position (ce_id c) s = Some at" "x \<in> set (take at (ld_commands s))" "ce_id x = ce_id c"
    using assms by (auto simp: must_wait_def awaits_control_def list_ex_iff split: option.splits)
  then show False unfolding command_position_def by (auto dest: position_Some_split)
qed

lemma drain_step:
  assumes al: "alone t s" and reads: "de_ledger_reads e" and st: "advance_task e t s = (t', s')"
  shows "alone t' s' \<and> (t = Finished \<longrightarrow> t' = Finished \<and> s' = s)
    \<and> (t \<noteq> Finished \<longrightarrow> drain_measure t' s' < drain_measure t s)
    \<and> subseq (yet_to_run t' s') (yet_to_run t s)"
proof (cases t)
  case (Scanning sk)
  then have "scan e sk s = (t', s')" "ld_executing s = []" using st al by simp_all
  from scan_alone [OF this(2) reads this(1)] show ?thesis
    using Scanning by (auto simp: drain_measure_def yet_to_run_def)
next
  case (Picked sk c d)
  then obtain cs where cs: "to_take sk s = c # cs" using al by auto
  then show ?thesis using Picked al st by (auto simp: claim_def drain_measure_def yet_to_run_def)
next
  case (Unmet sk c)
  then obtain cs where cs: "to_take sk s = c # cs" using al by auto
  obtain ds where ds: "to_take sk (snd (mark_processed (ce_id c) s)) = ds" "subseq ds cs"
    using mark_to_take [OF cs] by blast
  have "length ds \<le> length cs" "subseq (map ce_id ds) (ce_id c # map ce_id cs)"
    using ds(2) by (auto simp: list_emb_length subseq_map)
  then show ?thesis using Unmet al st cs ds
    by (auto simp: drain_measure_def yet_to_run_def mark_processed_def list_emb_append_mono split: if_splits)
next
  case (Claimed sk c d)
  then obtain cs where cs: "to_take sk s = c # cs" using al by auto
  obtain ds where ds: "to_take sk (snd (mark_processed (ce_id c) s)) = ds" "subseq ds cs"
    using mark_to_take [OF cs] by blast
  have "length ds \<le> length cs" "subseq (map ce_id ds) (map ce_id cs)"
    using ds(2) by (auto simp: list_emb_length subseq_map)
  then show ?thesis using Claimed al st cs ds
    by (auto simp: drain_measure_def yet_to_run_def mark_processed_def release_def Let_def list_emb_append_mono split: if_splits)
next
  case (Marked sk c d b)
  then have ex: "ld_executing s = [ce_id c]" "ce_id c \<in> set (ld_processed s)" using al by simp_all
  have same: "to_take (ce_id c # sk) s = to_take sk s"
    using ex(2) by (simp add: to_take_def) (rule filter_cong, auto)
  have drop: "subseq (a @ l) (a @ x # l)" for a l and x :: string
    by (induction a) auto
  show ?thesis
    using Marked ex st no_wait [OF ex(1), of e] execute_log [of e c b s] execute_to_take [of sk e c b s] same
    by (cases "execute e c b s")
      (auto simp: drain_measure_def yet_to_run_def drop split: disposition.splits sum.splits if_splits)
next
  case (Resolving sk i r res cl)
  then show ?thesis using al st by (auto simp: drain_measure_def yet_to_run_def resolve_to_take)
next
  case (Releasing sk i)
  then show ?thesis using al st by (auto simp: drain_measure_def yet_to_run_def release_def)
qed (use al st in \<open>auto simp: drain_measure_def yet_to_run_def split: if_splits\<close>)

lemma drive_Cons: "drive (e # es) t s = drive es (fst (advance_task e t s)) (snd (advance_task e t s))"
  by (simp add: drive_def split_beta)

lemma drain_measure_pos: "alone t s \<Longrightarrow> t \<noteq> Finished \<Longrightarrow> 0 < drain_measure t s"
  by (cases t) (auto simp: drain_measure_def)

lemma drive_alone:
  assumes "alone t s" "list_all de_ledger_reads es"
  shows "alone (fst (drive es t s)) (snd (drive es t s))
    \<and> (drain_measure t s \<le> length es \<longrightarrow> fst (drive es t s) = Finished)
    \<and> subseq (yet_to_run (fst (drive es t s)) (snd (drive es t s))) (yet_to_run t s)"
  using assms
proof (induction es arbitrary: t s)
  case Nil
  then show ?case using drain_measure_pos [of t s] by (cases "t = Finished") (auto simp: drive_def)
next
  case (Cons e es)
  obtain t' s' where st: "advance_task e t s = (t', s')" by fastforce
  have "de_ledger_reads e" using Cons.prems by simp
  note step = drain_step [OF Cons.prems(1) this st]
  have "drain_measure t' s' \<le> length es" if "drain_measure t s \<le> length (e # es)"
    using step that by (cases "t = Finished") (auto simp: drain_measure_def)
  then show ?case
    using Cons.IH [of t' s'] Cons.prems(2) step
    by (auto simp: drive_Cons st intro: subseq_order.order_trans)
qed

lemma filter_length_le: "length (filter (\<lambda>x. P x \<and> Q x) xs) \<le> length (filter P xs)"
  by (induction xs) auto

text \<open>C32: a drain ends: with nothing else running and the ledger answering, a drain is over after at
  most six steps for each pending command and two more, whatever writes, marks, executions and
  attachments do meanwhile; and what it ran, it ran in the order of the document.\<close>

theorem drain_ends_in_order:
  assumes "ld_executing s = []" "list_all de_ledger_reads es"
    and "6 * length (filter (\<lambda>c. ce_status c = Pending) (ld_commands s)) + 2 \<le> length es"
  shows "fst (drive es Starting s) = Finished
    \<and> subseq (map fst (ld_runs (snd (drive es Starting s)))) (map fst (ld_runs s) @ map ce_id (ld_commands s))"
proof -
  have al: "alone Starting s" using assms(1) by simp
  have "length (to_take [] s) \<le> length (filter (\<lambda>c. ce_status c = Pending) (ld_commands s))"
    unfolding to_take_def by (rule filter_length_le)
  then have "drain_measure Starting s \<le> length es" using assms(3) by (simp add: drain_measure_def)
  moreover have "subseq (yet_to_run Starting s) (map fst (ld_runs s) @ map ce_id (ld_commands s))"
    by (auto simp: yet_to_run_def to_take_def intro!: list_emb_append_mono subseq_map)
  ultimately show ?thesis
    using drive_alone [OF al assms(2)]
    by (auto simp: yet_to_run_def intro: subseq_order.order_trans)
qed

section \<open>A drain settles everything\<close>

definition pend :: "ledger \<Rightarrow> string set" where
  "pend s = ce_id ` {c \<in> set (ld_commands s). ce_status c = Pending}"

text \<open>
  What a drain asks of the engine to settle the rows \<open>cs\<close>: the chat's host, a document and a
  ledger that answer, an execution that settles, and attachments that have landed or are overdue.
\<close>

definition good_env :: "command_entry list \<Rightarrow> drain_env \<Rightarrow> bool" where
  "good_env cs e \<longleftrightarrow>
     de_executor e \<and> de_host e \<and> de_reads e \<and> de_ledger_reads e \<and> de_marks e \<and> de_writes e
     \<and> (case de_outcome e of Inr (st, _) \<Rightarrow> st \<noteq> Pending | Inl _ \<Rightarrow> True)
     \<and> list_all (\<lambda>c. missing_attachments (de_uploads e) c = [] \<or> ATTACHMENT_WAIT_MAX_MS \<le> de_now e - ce_issued_at c) cs"

text \<open>What no task changes of a row.\<close>

definition row_key :: "command_entry \<Rightarrow> string \<times> command_payload \<times> int" where
  "row_key c = (ce_id c, ce_payload c, ce_issued_at c)"

lemma row_key_status [simp]: "map row_key (set_command_status i st r cs) = map row_key cs"
  unfolding set_command_status_def by (induction cs) (auto simp: row_key_def)

lemma row_key_resolve [simp]: "map row_key (ld_commands (resolve_command e i st r s)) = map row_key (ld_commands s)"
  by (simp add: resolve_command_def)

lemma row_key_sweep [simp]: "map row_key (ld_commands (snd (sweep_dead e cs sk s))) = map row_key (ld_commands s)"
  by (induction e cs sk s rule: sweep_dead.induct) auto

lemma execute_commands: "ld_commands (snd (execute e c b s)) = ld_commands s"
  by (simp add: execute_def Let_def split: option.split)

lemma scan_commands: "ld_commands (snd (scan e sk s)) = (if de_reads e then ld_commands (snd (sweep_dead e (ld_commands s) sk s)) else ld_commands s)"
  by (auto simp: scan_def Let_def split: prod.splits option.splits)

lemma advance_rows: "map row_key (ld_commands (snd (advance_task e t s))) = map row_key (ld_commands s)"
proof (cases t)
  case (Marked sk c d b)
  then show ?thesis
    using execute_commands [of e c b s] by (cases "execute e c b s") (auto split: disposition.splits sum.splits)
next
  case (RelayMarked c d)
  then show ?thesis
    using execute_commands [of e c True s] by (cases "execute e c True s") (auto split: disposition.splits sum.splits)
qed (auto simp: scan_commands claim_def release_def mark_processed_def Let_def split: if_splits)

lemma missing_same_payload: "ce_payload c = ce_payload d \<Longrightarrow> missing_attachments up c = missing_attachments up d"
  by (simp add: missing_attachments_def)

lemma row_key_list_all:
  assumes "\<And>c d. row_key c = row_key d \<Longrightarrow> P c = P d" "map row_key cs = map row_key ds"
  shows "list_all P cs = list_all P ds"
proof -
  have "list_all2 (\<lambda>c d. row_key c = row_key d) cs ds"
    using assms(2) by (simp add: list_all2_conv_all_nth list_eq_iff_nth_eq)
  then show ?thesis by (induction rule: list_all2_induct) (auto dest: assms(1))
qed

lemma good_env_rows:
  assumes "map row_key cs = map row_key ds"
  shows "good_env cs e = good_env ds e"
proof -
  have "list_all (\<lambda>c. missing_attachments (de_uploads e) c = [] \<or> ATTACHMENT_WAIT_MAX_MS \<le> de_now e - ce_issued_at c) cs
    = list_all (\<lambda>c. missing_attachments (de_uploads e) c = [] \<or> ATTACHMENT_WAIT_MAX_MS \<le> de_now e - ce_issued_at c) ds"
    by (rule row_key_list_all [OF _ assms]) (auto simp: row_key_def dest: missing_same_payload [of _ _ "de_uploads e"])
  then show ?thesis by (simp add: good_env_def)
qed

lemma ids_set_status [simp]: "map ce_id (set_command_status i st r cs) = map ce_id cs"
  unfolding set_command_status_def by (induction cs) auto

lemma pend_set_status:
  "distinct (map ce_id cs) \<Longrightarrow> st \<noteq> Pending \<Longrightarrow>
     ce_id ` {c \<in> set (set_command_status i st r cs). ce_status c = Pending}
     = ce_id ` {c \<in> set cs. ce_status c = Pending} - {i}"
proof (induction cs)
  case (Cons c cs)
  then show ?case
    by (cases "ce_id c = i") (auto simp: set_command_status_def image_iff)
qed (simp add: set_command_status_def)

lemma pend_resolve:
  "distinct (map ce_id (ld_commands s)) \<Longrightarrow> st \<noteq> Pending \<Longrightarrow> de_writes e \<Longrightarrow>
     pend (resolve_command e i st r s) = pend s - {i}"
  by (simp add: pend_def resolve_command_def pend_set_status)

lemma resolve_ids [simp]: "map ce_id (ld_commands (resolve_command e i st r s)) = map ce_id (ld_commands s)"
  by (simp add: resolve_command_def)

lemma still_pending_iff:
  "list_ex (\<lambda>x. ce_id x = i \<and> ce_status x = Pending) (ld_commands s) \<longleftrightarrow> i \<in> pend s"
  by (auto simp: list_ex_iff pend_def)

lemma sweep_pend:
  assumes "de_writes e" "de_ledger_reads e"
  shows "ld_executing s = [] \<Longrightarrow> distinct (map ce_id (ld_commands s)) \<Longrightarrow> pend s \<inter> set sk = {} \<Longrightarrow>
    sweep_dead e cs sk s = (sk', s') \<Longrightarrow>
    pend s' = pend s - (set (ld_processed s) \<inter> ce_id ` {c \<in> set cs. ce_status c = Pending})
    \<and> pend s' \<inter> set sk' = {} \<and> distinct (map ce_id (ld_commands s'))"
proof (induction cs arbitrary: sk s)
  case (Cons c cs)
  show ?case
  proof (cases "is_dead e sk s c")
    case True
    let ?s = "resolve_command e (ce_id c) Rejected (Some interrupted_text) s"
    have p: "pend ?s = pend s - {ce_id c}" using Cons.prems(2) assms(1) by (intro pend_resolve) auto
    have "pend ?s \<inter> set (ce_id c # sk) = {}" using p Cons.prems(3) by auto
    from Cons.IH [OF _ _ this, of] True p Cons.prems show ?thesis
      by (auto simp: is_dead_def is_processed_def)
  next
    case False
    then have "ce_status c = Pending \<and> ce_id c \<in> set (ld_processed s) \<longrightarrow> ce_id c \<notin> pend s"
      using Cons.prems(1,3) assms(2) unfolding is_dead_def is_processed_def still_pending_iff by auto
    then show ?thesis using Cons.IH [OF Cons.prems(1-3)] Cons.prems(4) False by auto
  qed
qed auto

fun settling :: "task \<Rightarrow> bool" where
  "settling (Picked _ _ d) = (d \<noteq> Skip)"
| "settling (Claimed _ _ d) = (d \<noteq> Skip)"
| "settling (Marked _ _ d _) = (d \<noteq> Skip)"
| "settling (Resolving _ _ st _ _) = (st \<noteq> Pending)"
| "settling _ = True"

definition settles :: "task \<Rightarrow> ledger \<Rightarrow> bool" where
  "settles t s \<longleftrightarrow>
     alone t s \<and> settling t \<and> distinct (map ce_id (ld_commands s)) \<and> pend s \<inter> set (task_skipped t) = {}
     \<and> (t = Finished \<longrightarrow> pend s = {})"

lemma scan_settles:
  assumes st: "settles (Scanning sk) s" and good: "good_env (ld_commands s) e"
  shows "settles (fst (scan e sk s)) (snd (scan e sk s))"
proof -
  obtain sk1 s1 where sw: "sweep_dead e (ld_commands s) sk s = (sk1, s1)" by fastforce
  have ex: "ld_executing s = []" using st by (simp add: settles_def)
  have g: "de_reads e" "de_writes e" "de_ledger_reads e" using good by (simp_all add: good_env_def)
  have good1: "good_env (ld_commands s1) e"
    using good good_env_rows [of "ld_commands s1" "ld_commands s" e] row_key_sweep [of e "ld_commands s" sk s] by (simp add: sw)
  have p: "pend s1 = pend s - (set (ld_processed s) \<inter> pend s)" "pend s1 \<inter> set sk1 = {}"
    "distinct (map ce_id (ld_commands s1))"
    using sweep_pend [OF g(2,3) ex _ _ sw] st by (auto simp: settles_def pend_def)
  obtain t' s' where sc: "scan e sk s = (t', s')" by fastforce
  have al: "alone t' s'" using scan_alone [OF ex g(3) sc] by blast
  note k = sweep_keeps [of e "ld_commands s" sk s, unfolded sw]
  have tk: "to_take sk1 s1 = to_take sk s"
    using sweep_to_take [of e "ld_commands s" sk s sk1 s1] sw g(3) by simp
  have n: "next_pending e sk1 s1 (ld_commands s) = (case to_take sk1 s1 of [] \<Rightarrow> None | c # _ \<Rightarrow> Some c)"
    using k tk g(3) sweep_to_take [of e "ld_commands s" sk s sk1 s1] sw by (intro next_pending_head [OF _ _ _ _ refl]) auto
  show ?thesis
  proof (cases "to_take sk1 s1")
    case Nil
    have "pend s1 \<subseteq> set sk1 \<union> set (ld_processed s1)"
      using Nil by (auto simp: to_take_def filter_empty_conv pend_def)
    then have "pend s1 = {}" using p k by auto
    moreover have "t' = Finished" "s' = s1" using sc g(1) by (simp_all add: scan_def sw n Nil)
    ultimately show ?thesis using al p sc by (simp add: settles_def)
  next
    case (Cons c cs)
    let ?d = "stop_acts e c (evaluate_in e s1 (ld_commands s) c)"
    have "c \<in> set (to_take sk1 s1)" using Cons by simp
    then have "ce_id c \<notin> set (ld_processed s1)" and row: "c \<in> set (ld_commands s1)" by (simp_all add: to_take_def)
    then have "?d \<noteq> Skip"
      by (auto simp: stop_acts_def evaluate_in_def evaluate_command_def is_processed_def)
    moreover have "\<not> (de_now e - ce_issued_at c < ATTACHMENT_WAIT_MAX_MS)" if "missing_attachments (de_uploads e) c \<noteq> []"
      using good1 row that by (force simp: good_env_def list_all_iff)
    moreover have "scan e sk s =
        (if ?d = Execute \<and> missing_attachments (de_uploads e) c \<noteq> []
         then (if de_now e - ce_issued_at c < ATTACHMENT_WAIT_MAX_MS then (Finished, s1) else (Unmet sk1 c, s1))
         else (Picked sk1 c ?d, s1))"
      using g(1) by (simp add: scan_def sw n Cons Let_def)
    ultimately show ?thesis using al p sc by (auto simp: settles_def split: if_splits)
  qed
qed

lemma pend_simps [simp]:
  "pend (s\<lparr>ld_executing := x\<rparr>) = pend s" "pend (s\<lparr>ld_processed := y\<rparr>) = pend s"
  by (simp_all add: pend_def)

lemma settles_step:
  assumes st: "settles t s" and good: "good_env (ld_commands s) e" and ad: "advance_task e t s = (t', s')"
  shows "settles t' s'"
proof -
  have al: "alone t' s'" using drain_step [OF _ _ ad] st good by (auto simp: settles_def good_env_def)
  show ?thesis
  proof (cases t)
    case (Scanning sk)
    then show ?thesis using scan_settles [of sk s e] st good ad by simp
  next
    case (Marked sk c d b)
    have "de_outcome e = Inr (r, res) \<Longrightarrow> r \<noteq> Pending" for r res using good by (simp add: good_env_def)
    moreover have "execute e c b s = (Inr (r, res), u) \<Longrightarrow> r = Applied \<or> de_outcome e = Inr (r, res)" for r res u
      by (auto simp: execute_def Let_def split: option.splits)
    ultimately have "execute e c b s = (Inr (r, res), u) \<Longrightarrow> r \<noteq> Pending" for r res u by blast
    moreover have "pend (snd (execute e c b s)) = pend s" by (simp add: pend_def execute_commands)
    ultimately show ?thesis
      using Marked st ad al execute_commands [of e c b s] no_wait [of s c e]
      by (cases "execute e c b s")
        (auto simp: settles_def split: disposition.splits sum.splits if_splits)
  next
    case (Resolving sk i r res cl)
    then show ?thesis
      using st ad al good by (auto simp: settles_def pend_resolve good_env_def split: if_splits)
  qed (use st ad al good in \<open>auto simp: settles_def good_env_def claim_def mark_processed_def release_def Let_def
        split: if_splits\<close>)
qed

text \<open>C11: a drain leaves nothing pending: on the chat's host, with the document and the ledger answering, every
  execution settling, and each attachment a command names either landed or overdue, a drain that runs
  alone ends with every command of the chat settled: those another process left half done, and those
  whose attachments never came, included. (Where an attachment is missing and not overdue, the drain
  stops there and leaves that command pending.)\<close>

theorem drain_settles_everything:
  assumes "ld_executing s = []" "distinct (map ce_id (ld_commands s))" "list_all (good_env (ld_commands s)) es"
    and "6 * length (filter (\<lambda>c. ce_status c = Pending) (ld_commands s)) + 2 \<le> length es"
  shows "fst (drive es Starting s) = Finished
    \<and> list_all (\<lambda>c. ce_status c \<noteq> Pending) (ld_commands (snd (drive es Starting s)))"
proof -
  have run: "list_all (good_env cs) es \<Longrightarrow> map row_key (ld_commands s) = map row_key cs \<Longrightarrow> settles t s \<Longrightarrow>
      settles (fst (drive es t s)) (snd (drive es t s))" for cs t s
  proof (induction es arbitrary: t s)
    case (Cons e es)
    then have "good_env (ld_commands s) e" using good_env_rows [of "ld_commands s" cs e] by simp
    then show ?case
      using Cons settles_step [of t s e] advance_rows [of e t s] by (cases "advance_task e t s") (simp add: drive_Cons)
  qed (simp add: drive_def)
  have "length (to_take [] s) \<le> length (filter (\<lambda>c. ce_status c = Pending) (ld_commands s))"
    unfolding to_take_def by (rule filter_length_le)
  then have "drain_measure Starting s \<le> length es" using assms(4) by (simp add: drain_measure_def)
  moreover have "list_all de_ledger_reads es" using assms(3) by (auto simp: list_all_iff good_env_def)
  ultimately have fin: "fst (drive es Starting s) = Finished" using drive_alone [of Starting s es] assms(1) by simp
  have "settles Starting s" using assms(1,2) by (simp add: settles_def)
  then have "settles (fst (drive es Starting s)) (snd (drive es Starting s))" by (rule run [OF assms(3) refl])
  then show ?thesis using fin by (auto simp: settles_def pend_def list_all_iff)
qed

section \<open>Retries\<close>

text \<open>What re-issuing does to the rows: some unsettled ones are rejected, fresh ones appended.\<close>

definition rejects :: "string set \<Rightarrow> command_entry list \<Rightarrow> command_entry list \<Rightarrow> bool" where
  "rejects ids cs ds \<longleftrightarrow>
     list_all2 (\<lambda>c d. ce_id d = ce_id c \<and> ce_payload d = ce_payload c \<and> ce_issued_at d = ce_issued_at c
                 \<and> (ce_status d = ce_status c \<or> (ce_id c \<in> ids \<and> ce_status d = Rejected))) cs ds"

lemma made:
  "ce_id (make_command i p device now origin s) = i" "ce_payload (make_command i p device now origin s) = p"
  "ce_status (make_command i p device now origin s) = Pending"
  by (simp_all add: make_command_def)

lemma rejects_refl: "rejects ids cs cs"
  by (simp add: rejects_def list.rel_refl)

lemma rejects_ids: "rejects ids cs ds \<Longrightarrow> map ce_id ds = map ce_id cs"
  unfolding rejects_def by (induction rule: list_all2_induct) auto

lemma rejects_rows: "rejects ids cs ds \<Longrightarrow> map row_key ds = map row_key cs"
  unfolding rejects_def by (induction rule: list_all2_induct) (auto simp: row_key_def)

lemma rejects_set:
  "rejects ids cs ds \<Longrightarrow> i \<in> ids \<Longrightarrow> rejects ids cs (set_command_status i Rejected r ds)"
  unfolding rejects_def set_command_status_def
proof (induction ds arbitrary: cs)
  case (Cons d ds)
  then show ?case by (cases cs) auto
qed simp

lemma set_status_append:
  "i \<in> ce_id ` set cs \<Longrightarrow> set_command_status i st r (cs @ ds) = set_command_status i st r cs @ ds"
  unfolding set_command_status_def by (induction cs) auto

lemma reissue_rows:
  assumes "set (map (ce_id \<circ> snd) xs) \<subseteq> ids" "\<forall>(i, old) \<in> set xs. ce_id old \<in> ce_id ` set cs"
    and "ld_commands s = ds @ news" "rejects ids cs ds"
  shows "\<exists>ds'. rejects ids cs ds' \<and> ld_commands (fold (reissue e device) xs s) =
      ds' @ news @ map (\<lambda>(i, old). make_command i (ce_payload old) device (de_now e) (ce_origin_chat_id old) s) xs"
  using assms
proof (induction xs arbitrary: s ds news)
  case (Cons x xs)
  obtain i old where x: "x = (i, old)" by fastforce
  let ?new = "make_command i (ce_payload old) device (de_now e) (ce_origin_chat_id old) s"
  have "ce_id ` set cs = ce_id ` set ds"
    using rejects_ids [OF Cons.prems(4)] by (metis list.set_map)
  then have in_ds: "ce_id old \<in> ce_id ` set ds" using Cons.prems(2) x by auto
  let ?ds1 = "if ce_status old = Pending \<and> de_writes e
    then set_command_status (ce_id old) Rejected (Some retry_text) ds else ds"
  have ds1: "rejects ids cs ?ds1"
    using Cons.prems(1,4) x rejects_set [of ids cs ds "ce_id old"] by simp
  have rows: "ld_commands (reissue e device x s) = ?ds1 @ news @ [?new]"
    using Cons.prems(3) x set_status_append [OF in_ds, of Rejected "Some retry_text" news]
    by (simp add: reissue_def resolve_command_def Let_def)
  have "make_command j p device t o' (reissue e device x s) = make_command j p device t o' s" for j p t o'
    using x by (simp add: make_command_def reissue_def Let_def)
  then show ?case
    using Cons.IH [OF _ _ _ ds1, of "reissue e device x s" "news @ [?new]"] Cons.prems(1,2) rows x
    by (simp add: case_prod_unfold)
qed (auto intro: rejects_refl)

lemma latest_fold:
  assumes "\<forall>(m, c) \<in> set l. retry_message c = Some m"
  shows "(\<forall>(m, c) \<in> set (fold keep_latest cs l). retry_message c = Some m \<and> (c \<in> set cs \<or> (m, c) \<in> set l))
    \<and> (\<forall>c \<in> set cs. \<forall>m. retry_message c = Some m \<longrightarrow> m \<in> fst ` set (fold keep_latest cs l))
    \<and> fst ` set l \<subseteq> fst ` set (fold keep_latest cs l)"
  using assms
proof (induction cs arbitrary: l)
  case (Cons c cs)
  have sub: "set (keep_latest c l) \<subseteq> {(m, c) | m. retry_message c = Some m} \<union> set l"
    using set_update_subset [of _ c l] by (auto simp: keep_latest_def split: option.splits)
  have keys: "fst ` set l \<subseteq> fst ` set (keep_latest c l)"
    by (auto simp: keep_latest_def dom_update split: option.splits)
  have own: "m \<in> fst ` set (keep_latest c l)" if "retry_message c = Some m" for m
  proof (cases "map_of l m")
    case None
    then show ?thesis using that by (simp add: keep_latest_def dom_update)
  next
    case (Some b)
    then have "m \<in> fst ` set l" by (force dest: map_of_SomeD)
    then show ?thesis using keys by blast
  qed
  have ok: "\<forall>(m, c) \<in> set (keep_latest c l). retry_message c = Some m" using sub Cons.prems by auto
  note IH = Cons.IH [OF ok]
  have "\<forall>(m, d) \<in> set (fold keep_latest (c # cs) l). retry_message d = Some m \<and> (d \<in> set (c # cs) \<or> (m, d) \<in> set l)"
    using conjunct1 [OF IH] sub by fastforce
  moreover have "\<forall>d \<in> set (c # cs). \<forall>m. retry_message d = Some m \<longrightarrow> m \<in> fst ` set (fold keep_latest (c # cs) l)"
    using IH own by auto
  moreover have "fst ` set l \<subseteq> fst ` set (fold keep_latest (c # cs) l)"
    using subset_trans [OF keys] IH by simp
  ultimately show ?case by blast
qed auto

lemma latest_dead_facts:
  shows "(m, old) \<in> set (latest_dead e s) \<Longrightarrow>
      retry_message old = Some m \<and> old \<in> set (ld_commands s) \<and> retry_candidate e s old"
    and "c \<in> set (ld_commands s) \<Longrightarrow> retry_candidate e s c \<Longrightarrow> retry_message c = Some m \<Longrightarrow>
      \<exists>old. (m, old) \<in> set (latest_dead e s)"
proof -
  let ?cs = "filter (retry_candidate e s) (ld_commands s)"
  have all: "\<forall>(m, c) \<in> set (latest_dead e s). retry_message c = Some m \<and> c \<in> set ?cs"
    and reach: "\<forall>c \<in> set ?cs. \<forall>m. retry_message c = Some m \<longrightarrow> m \<in> fst ` set (latest_dead e s)"
    using latest_fold [of "[]" ?cs] by (simp_all add: latest_dead_def)
  show "(m, old) \<in> set (latest_dead e s) \<Longrightarrow>
      retry_message old = Some m \<and> old \<in> set (ld_commands s) \<and> retry_candidate e s old"
    using bspec [OF all] by fastforce
  show "\<exists>old. (m, old) \<in> set (latest_dead e s)"
    if "c \<in> set (ld_commands s)" "retry_candidate e s c" "retry_message c = Some m"
  proof -
    have "m \<in> fst ` set (latest_dead e s)" using reach that by simp
    then show ?thesis by auto
  qed
qed

lemma latest_distinct: "distinct (map fst l) \<Longrightarrow> distinct (map fst (fold keep_latest cs l))"
proof (induction cs arbitrary: l)
  case (Cons c cs)
  have "distinct (map fst (keep_latest c l))"
    using Cons.prems by (auto simp: keep_latest_def map_of_eq_None_iff intro!: distinct_update split: option.splits)
  then show ?case using Cons.IH by simp
qed simp

lemma keep_latest_newest:
  assumes "map_of l m = Some d \<or> (retry_message c = Some m \<and> d = c)"
  shows "\<exists>d'. map_of (keep_latest c l) m = Some d' \<and> ce_issued_at d \<le> ce_issued_at d'"
  using assms by (auto simp: keep_latest_def update_conv' map_add_def split: option.splits)

lemma fold_newest:
  "map_of l m = Some d \<or> (d \<in> set cs \<and> retry_message d = Some m) \<Longrightarrow>
     \<exists>d'. map_of (fold keep_latest cs l) m = Some d' \<and> ce_issued_at d \<le> ce_issued_at d'"
proof (induction cs arbitrary: l d)
  case (Cons c cs)
  consider "map_of l m = Some d \<or> (retry_message c = Some m \<and> d = c)" | "d \<in> set cs" "retry_message d = Some m"
    using Cons.prems by auto
  then show ?case
  proof cases
    case 1
    then obtain d' where d': "map_of (keep_latest c l) m = Some d'" "ce_issued_at d \<le> ce_issued_at d'"
      using keep_latest_newest [of l m d c] by blast
    then show ?thesis using Cons.IH [of "keep_latest c l" d'] by fastforce
  next
    case 2
    then show ?thesis using Cons.IH [of "keep_latest c l" d] by simp
  qed
qed auto

lemma latest_dead_newest:
  assumes "(m, old) \<in> set (latest_dead e s)" "c \<in> set (ld_commands s)" "retry_candidate e s c" "retry_message c = Some m"
  shows "ce_issued_at c \<le> ce_issued_at old"
proof -
  have "distinct (map fst (latest_dead e s))" by (simp add: latest_dead_def latest_distinct)
  then have "map_of (latest_dead e s) m = Some old" using assms(1) by simp
  moreover obtain d where "map_of (latest_dead e s) m = Some d" "ce_issued_at c \<le> ce_issued_at d"
    using fold_newest [of "[]" m c "filter (retry_candidate e s) (ld_commands s)"] assms(2-4) by (auto simp: latest_dead_def)
  ultimately show ?thesis by simp
qed

lemma same_kind_same_message:
  "command_kind a = command_kind b \<Longrightarrow> retry_message a = Some m \<Longrightarrow> retry_message b = Some m \<Longrightarrow> same_message a b"
  by (cases "ce_payload a"; cases "ce_payload b") (auto simp: command_kind_def retry_message_def same_message_def)

lemma rejects_elem:
  assumes "rejects ids cs ds"
  shows "d \<in> set ds \<Longrightarrow> \<exists>c \<in> set cs. ce_id d = ce_id c \<and> ce_payload d = ce_payload c
      \<and> (ce_status d = ce_status c \<or> (ce_id c \<in> ids \<and> ce_status d = Rejected))"
    and "c \<in> set cs \<Longrightarrow> \<exists>d \<in> set ds. ce_id d = ce_id c \<and> ce_payload d = ce_payload c
      \<and> (ce_status d = ce_status c \<or> (ce_id c \<in> ids \<and> ce_status d = Rejected))"
proof -
  have "(\<forall>d \<in> set ds. \<exists>c \<in> set cs. ce_id d = ce_id c \<and> ce_payload d = ce_payload c
      \<and> (ce_status d = ce_status c \<or> (ce_id c \<in> ids \<and> ce_status d = Rejected)))
    \<and> (\<forall>c \<in> set cs. \<exists>d \<in> set ds. ce_id d = ce_id c \<and> ce_payload d = ce_payload c
      \<and> (ce_status d = ce_status c \<or> (ce_id c \<in> ids \<and> ce_status d = Rejected)))"
    using assms unfolding rejects_def by (induction rule: list_all2_induct) simp_all
  then show "d \<in> set ds \<Longrightarrow> \<exists>c \<in> set cs. ce_id d = ce_id c \<and> ce_payload d = ce_payload c
      \<and> (ce_status d = ce_status c \<or> (ce_id c \<in> ids \<and> ce_status d = Rejected))"
    and "c \<in> set cs \<Longrightarrow> \<exists>d \<in> set ds. ce_id d = ce_id c \<and> ce_payload d = ce_payload c
      \<and> (ce_status d = ce_status c \<or> (ce_id c \<in> ids \<and> ce_status d = Rejected))"
    by blast+
qed

abbreviation retry_pairs :: "drain_env \<Rightarrow> string list \<Rightarrow> ledger \<Rightarrow> (string \<times> command_entry) list" where
  "retry_pairs e fresh s \<equiv> zip fresh (map snd (latest_dead e s))"

abbreviation retried_ids :: "drain_env \<Rightarrow> string list \<Rightarrow> ledger \<Rightarrow> string set" where
  "retried_ids e fresh s \<equiv> ce_id ` snd ` set (retry_pairs e fresh s)"

abbreviation reissued_rows :: "drain_env \<Rightarrow> string \<Rightarrow> string list \<Rightarrow> ledger \<Rightarrow> command_entry list" where
  "reissued_rows e device fresh s \<equiv>
     map (\<lambda>(i, old). make_command i (ce_payload old) device (de_now e) (ce_origin_chat_id old) s) (retry_pairs e fresh s)"

lemma retry_pair:
  assumes "(i, old) \<in> set (retry_pairs e fresh s)"
  shows "retry_candidate e s old \<and> old \<in> set (ld_commands s) \<and> i \<in> set fresh"
proof -
  have "old \<in> snd ` set (latest_dead e s)" "i \<in> set fresh"
    using set_zip_rightD [OF assms] set_zip_leftD [OF assms] by simp_all
  then obtain m where "(m, old) \<in> set (latest_dead e s)" by auto
  then show ?thesis using latest_dead_facts(1) \<open>i \<in> set fresh\<close> by blast
qed

lemma retry_pair_exists:
  assumes "(m, old) \<in> set (latest_dead e s)" "length (latest_dead e s) \<le> length fresh"
  shows "\<exists>i. (i, old) \<in> set (retry_pairs e fresh s)"
proof -
  obtain n where n: "n < length (latest_dead e s)" "latest_dead e s ! n = (m, old)"
    using assms(1) by (auto simp only: in_set_conv_nth)
  then have "retry_pairs e fresh s ! n = (fresh ! n, old)" using assms(2) by simp
  then have "(fresh ! n, old) \<in> set (retry_pairs e fresh s)" using n(1) assms(2) by (force simp: set_zip)
  then show ?thesis ..
qed

lemma retry_rows:
  "\<exists>ds. rejects (retried_ids e fresh s) (ld_commands s) ds
     \<and> ld_commands (retry_delivery e device fresh s) = ds @ reissued_rows e device fresh s"
proof -
  have inside: "\<forall>(i, old) \<in> set (retry_pairs e fresh s). ce_id old \<in> ce_id ` set (ld_commands s)"
    using retry_pair by blast
  have "\<exists>ds. rejects (retried_ids e fresh s) (ld_commands s) ds
      \<and> ld_commands (fold (reissue e device) (retry_pairs e fresh s) s) = ds @ [] @ reissued_rows e device fresh s"
    by (rule reissue_rows [OF _ inside, where ds = "ld_commands s"]) (simp_all add: rejects_refl image_image)
  then show ?thesis by (simp add: retry_delivery_def Let_def)
qed

lemma retried_lost:
  assumes "i \<in> retried_ids e fresh s" "old \<in> set (ld_commands s)" "ce_id old = i"
    and dist: "distinct (map ce_id (ld_commands s))"
  shows "is_lost e s old"
proof -
  obtain j o' where j: "(j, o') \<in> set (retry_pairs e fresh s)" "ce_id o' = i" using assms(1) by auto
  then have "o' = old"
    using retry_pair [OF j(1)] assms(2,3) j(2) dist by (auto simp: distinct_map dest: inj_onD)
  then show ?thesis using retry_pair [OF j(1)] by (simp add: retry_candidate_def)
qed

lemma retry_processed: "is_processed e (retry_delivery e' device fresh s) i = is_processed e s i"
  using retry_keeps [of e' device fresh s] by (simp add: is_processed_def)

lemma live_kept:
  assumes live: "live_attempt e s c" and dist: "distinct (map ce_id (ld_commands s))"
    and ds: "rejects (retried_ids e fresh s) (ld_commands s) ds"
      "ld_commands (retry_delivery e device fresh s) = ds @ news"
    and d: "ce_id d = ce_id c" "ce_payload d = ce_payload c"
  shows "live_attempt e (retry_delivery e device fresh s) d"
proof -
  obtain x where x: "x \<in> set (ld_commands s)" "ce_id x \<noteq> ce_id c" "ce_status x = Pending"
    "\<not> is_processed e s (ce_id x)" "same_message x c"
    using live by (auto simp: live_attempt_def list_ex_iff)
  then obtain y where y: "y \<in> set ds" "ce_id y = ce_id x" "ce_payload y = ce_payload x"
    "ce_status y = ce_status x \<or> (ce_id x \<in> retried_ids e fresh s \<and> ce_status y = Rejected)"
    using rejects_elem(2) [OF ds(1)] by blast
  have "ce_id x \<notin> retried_ids e fresh s"
    using retried_lost [of "ce_id x" fresh e s x] x(1,3,4) dist
    by (auto simp only: is_lost_def command_status.case)
  then show ?thesis
    using x y d ds(2) unfolding live_attempt_def list_ex_iff
    by (intro bexI [of _ y]) (auto simp: same_message_def retry_processed)
qed

lemma lost_kept:
  assumes lost: "is_lost e (retry_delivery e device fresh s) d" and dist: "distinct (map ce_id (ld_commands s))"
    and c: "c \<in> set (ld_commands s)" "ce_id d = ce_id c"
      "ce_status d = ce_status c \<or> (ce_id c \<in> retried_ids e fresh s \<and> ce_status d = Rejected)"
  shows "is_lost e s c"
proof (cases "ce_status d = ce_status c")
  case True
  then show ?thesis using lost c(2) retry_keeps [of e device fresh s] retry_processed [of e e device fresh s]
    by (simp add: is_lost_def split: command_status.splits)
next
  case False
  then show ?thesis using c(1,3) retried_lost [OF _ _ _ dist] by blast
qed

lemma settled_by_new:
  assumes i: "(i, old) \<in> set (retry_pairs e fresh s)" and unseen: "i \<notin> set (ld_processed s)" "i \<noteq> ce_id d"
    and same: "command_kind old = command_kind d" "retry_message old = Some m" "retry_message d = Some m"
    and rows: "ld_commands (retry_delivery e device fresh s) = ds @ reissued_rows e device fresh s"
  shows "live_attempt e (retry_delivery e device fresh s) d"
proof -
  let ?new = "make_command i (ce_payload old) device (de_now e) (ce_origin_chat_id old) s"
  have "?new \<in> set (reissued_rows e device fresh s)" using i by force
  moreover have "\<not> is_processed e (retry_delivery e device fresh s) (ce_id ?new)"
    unfolding retry_processed using unseen by (simp add: made is_processed_def)
  moreover have "same_message ?new d"
    using same by (intro same_kind_same_message [of _ _ m]) (simp_all add: command_kind_def retry_message_def made)
  ultimately show ?thesis
    unfolding live_attempt_def list_ex_iff rows using unseen(2) by (intro bexI [of _ ?new]) (simp_all add: made)
qed

lemma retry_candidate_message: "retry_candidate e s c \<Longrightarrow> \<exists>m. retry_message c = Some m"
  by (auto simp: retry_candidate_def split: option.splits)

lemma latest_dead_messages:
  "set (map (Some \<circ> fst) (latest_dead e s)) = retry_message ` set (filter (retry_candidate e s) (ld_commands s))"
proof (intro set_eqI iffI)
  fix x assume "x \<in> set (map (Some \<circ> fst) (latest_dead e s))"
  then obtain m old where "(m, old) \<in> set (latest_dead e s)" "x = Some m" by auto
  with latest_dead_facts(1) [OF this(1)] show "x \<in> retry_message ` set (filter (retry_candidate e s) (ld_commands s))"
    by (intro image_eqI [of _ _ old]) simp_all
next
  fix x assume "x \<in> retry_message ` set (filter (retry_candidate e s) (ld_commands s))"
  then obtain c m where c: "c \<in> set (ld_commands s)" "retry_candidate e s c" "x = Some m" "retry_message c = Some m"
    using retry_candidate_message by fastforce
  then obtain old where "(m, old) \<in> set (latest_dead e s)" using latest_dead_facts(2) [OF c(1,2,4)] by blast
  then show "x \<in> set (map (Some \<circ> fst) (latest_dead e s))" using c(3) by force
qed

lemma reissued_messages:
  assumes "length (latest_dead e s) \<le> length fresh"
  shows "map retry_message (reissued_rows e device fresh s) = map (Some \<circ> fst) (latest_dead e s)"
proof -
  have "map retry_message (reissued_rows e device fresh s) = map retry_message (map snd (retry_pairs e fresh s))"
    by (simp add: case_prod_unfold retry_message_def made)
  also have "map snd (retry_pairs e fresh s) = map snd (latest_dead e s)" using assms by (simp add: map_snd_zip_take)
  also have "map retry_message (map snd (latest_dead e s)) = map (retry_message \<circ> snd) (latest_dead e s)" by simp
  also have "\<dots> = map (Some \<circ> fst) (latest_dead e s)" using latest_dead_facts(1) by (fastforce intro: map_cong)
  finally show ?thesis .
qed

text \<open>C20: a retry re-issues each lost message exactly once: it keeps every row in its place and adds, for
  each message some attempt of which was lost, one row and no other, pending, with the payload of the
  message's newest lost attempt; and a second retry right after it finds nothing to re-issue. (The ids
  of the new rows are fresh, and attempts of one message are of one kind.)\<close>

theorem retry_reissues_once:
  assumes dist: "distinct (map ce_id (ld_commands s))"
    and fresh: "length (latest_dead e s) \<le> length fresh" "\<forall>i \<in> set fresh. \<not> known i s \<and> i \<notin> set (ld_processed s)"
    and kinds: "\<forall>c \<in> set (ld_commands s). \<forall>d \<in> set (ld_commands s).
      retry_message c \<noteq> None \<and> retry_message c = retry_message d \<longrightarrow> command_kind c = command_kind d"
  shows "let s' = retry_delivery e device fresh s; n = length (ld_commands s); added = drop n (ld_commands s')
    in map ce_id (take n (ld_commands s')) = map ce_id (ld_commands s)
      \<and> distinct (map retry_message added)
      \<and> set (map retry_message added) = retry_message ` set (filter (retry_candidate e s) (ld_commands s))
      \<and> (\<forall>c \<in> set added. ce_status c = Pending
          \<and> (\<exists>old \<in> set (ld_commands s). retry_candidate e s old \<and> ce_payload c = ce_payload old
              \<and> (\<forall>other \<in> set (ld_commands s). retry_candidate e s other \<and> retry_message other = retry_message old
                  \<longrightarrow> ce_issued_at other \<le> ce_issued_at old)))
      \<and> latest_dead e s' = []"
proof -
  let ?s = "retry_delivery e device fresh s"
  obtain ds where ds: "rejects (retried_ids e fresh s) (ld_commands s) ds"
    "ld_commands ?s = ds @ reissued_rows e device fresh s"
    using retry_rows by blast
  note keeps = retry_keeps [of e device fresh s]
  have len: "length ds = length (ld_commands s)" using ds(1) by (simp add: rejects_def list_all2_lengthD)
  have none: "\<not> retry_candidate e ?s d" if d: "d \<in> set (ld_commands ?s)" for d
  proof (cases "d \<in> set (reissued_rows e device fresh s)")
    case True
    then obtain i old where i: "(i, old) \<in> set (retry_pairs e fresh s)" "ce_id d = i" "ce_status d = Pending"
      by (auto simp: made)
    then have "\<not> is_processed e ?s (ce_id d)"
      unfolding retry_processed using retry_pair [OF i(1)] fresh(2) by (simp add: is_processed_def)
    then show ?thesis using i(3) by (simp add: retry_candidate_def is_lost_def)
  next
    case False
    then have "d \<in> set ds" using d ds(2) by auto
    then obtain c where c: "c \<in> set (ld_commands s)" "ce_id d = ce_id c" "ce_payload d = ce_payload c"
      "ce_status d = ce_status c \<or> (ce_id c \<in> retried_ids e fresh s \<and> ce_status d = Rejected)"
      using rejects_elem(1) [OF ds(1)] by blast
    have same: "retry_message d = retry_message c" "command_kind d = command_kind c"
      using c(3) by (simp_all add: retry_message_def command_kind_def)
    show ?thesis
    proof
      assume cand: "retry_candidate e ?s d"
      then have "is_lost e s c" "\<not> live_attempt e s c"
        using lost_kept [OF _ dist c(1,2,4)] live_kept [OF _ dist ds c(2,3)] by (auto simp: retry_candidate_def)
      then have "retry_candidate e s c" using cand same(1) keeps
        by (simp add: retry_candidate_def split: option.splits)
      then obtain m old where m: "retry_message c = Some m" "(m, old) \<in> set (latest_dead e s)"
        using latest_dead_facts(2) [OF c(1)] by (auto simp: retry_candidate_def split: option.splits)
      then have old: "retry_message old = Some m" "old \<in> set (ld_commands s)" using latest_dead_facts(1) by blast+
      obtain i where i: "(i, old) \<in> set (retry_pairs e fresh s)" using retry_pair_exists [OF m(2) fresh(1)] by blast
      have "command_kind old = command_kind c" using kinds old m(1) c(1) by (metis option.distinct(1))
      moreover have "i \<noteq> ce_id d" "i \<notin> set (ld_processed s)"
        using retry_pair [OF i] fresh(2) c(1,2) by (auto simp: known_def)
      ultimately have "live_attempt e ?s d"
        using settled_by_new [OF i _ _ _ old(1) _ ds(2), of d] same m(1) by simp
      then show False using cand by (simp add: retry_candidate_def)
    qed
  qed
  have "latest_dead e ?s = []" using none by (simp add: latest_dead_def filter_False)
  moreover have "distinct (map retry_message (reissued_rows e device fresh s))"
    using latest_distinct [of "[]" "filter (retry_candidate e s) (ld_commands s)"] unfolding reissued_messages [OF fresh(1)]
    by (simp add: latest_dead_def distinct_map inj_on_def)
  moreover have "set (map retry_message (reissued_rows e device fresh s))
      = retry_message ` set (filter (retry_candidate e s) (ld_commands s))"
    unfolding reissued_messages [OF fresh(1)] by (rule latest_dead_messages)
  moreover have "ce_status c = Pending \<and> (\<exists>old \<in> set (ld_commands s). retry_candidate e s old \<and> ce_payload c = ce_payload old
        \<and> (\<forall>other \<in> set (ld_commands s). retry_candidate e s other \<and> retry_message other = retry_message old
            \<longrightarrow> ce_issued_at other \<le> ce_issued_at old))" if row: "c \<in> set (reissued_rows e device fresh s)" for c
  proof -
    obtain pair where "pair \<in> set (retry_pairs e fresh s)"
        "c = (case pair of (i, old) \<Rightarrow> make_command i (ce_payload old) device (de_now e) (ce_origin_chat_id old) s)"
      using row unfolding set_map by (rule imageE)
    moreover obtain i old where "pair = (i, old)" by (cases pair)
    ultimately have i: "(i, old) \<in> set (retry_pairs e fresh s)" "ce_status c = Pending" "ce_payload c = ce_payload old"
      by (simp_all add: made)
    then obtain m where m: "(m, old) \<in> set (latest_dead e s)" using set_zip_rightD [OF i(1)] by auto
    have "retry_message old = Some m" using latest_dead_facts(1) [OF m] by blast
    then show ?thesis using i retry_pair [OF i(1)] latest_dead_newest [OF m] by auto
  qed
  moreover have "map ce_id ds = map ce_id (ld_commands s)" by (rule rejects_ids [OF ds(1)])
  ultimately show ?thesis by (simp only: Let_def ds(2) len [symmetric] append_eq_conv_conj) (simp add: list_all_iff)
qed

section \<open>Stops\<close>

text \<open>Of two ids of the document, the first before the second.\<close>

definition stands_before :: "string \<Rightarrow> string \<Rightarrow> string list \<Rightarrow> bool" where
  "stands_before i j ids \<longleftrightarrow> i \<noteq> j \<and> j \<in> set ids \<and> (\<exists>r. filter (\<lambda>x. x = i \<or> x = j) ids = i # r)"

lemma stands_before_split: "stands_before i j ids \<longleftrightarrow> i \<noteq> j \<and> (\<exists>a b. ids = a @ i # b \<and> i \<notin> set a \<and> j \<notin> set a \<and> j \<in> set b)"
proof
  assume b: "stands_before i j ids"
  then obtain r where "filter (\<lambda>x. x = i \<or> x = j) ids = i # r" and "i \<noteq> j" "j \<in> set ids" by (auto simp: stands_before_def)
  then obtain a c where "ids = a @ i # c" "\<forall>x \<in> set a. \<not> (x = i \<or> x = j)" by (auto simp: filter_eq_Cons_iff)
  with \<open>i \<noteq> j\<close> \<open>j \<in> set ids\<close> show "i \<noteq> j \<and> (\<exists>a b. ids = a @ i # b \<and> i \<notin> set a \<and> j \<notin> set a \<and> j \<in> set b)" by auto
next
  assume "i \<noteq> j \<and> (\<exists>a b. ids = a @ i # b \<and> i \<notin> set a \<and> j \<notin> set a \<and> j \<in> set b)"
  then obtain a b where ab: "i \<noteq> j" "ids = a @ i # b" "i \<notin> set a" "j \<notin> set a" "j \<in> set b" by blast
  have "filter (\<lambda>x. x = i \<or> x = j) a = []" using ab(3,4) by (auto simp: filter_empty_conv)
  then show "stands_before i j ids" using ab by (simp add: stands_before_def)
qed

lemma stands_before_insert: "stands_before i j ids \<Longrightarrow> x \<noteq> i \<Longrightarrow> x \<noteq> j \<Longrightarrow> stands_before i j (insert_at n x ids)"
  unfolding stands_before_def insert_at_def
  by (metis (mono_tags, lifting) Un_iff append_take_drop_id filter.simps(2) filter_append list.set_intros(2) set_append)

lemma stands_before_append: "stands_before i j ids \<Longrightarrow> stands_before i j (ids @ added)"
  by (auto simp: stands_before_def)

lemma position_ids: "position (\<lambda>c. ce_id c = i) cs = position (\<lambda>x. x = i) (map ce_id cs)"
  by (induction cs) auto

lemma stands_before_position:
  "stands_before i j (map ce_id (ld_commands s)) \<longleftrightarrow>
    (\<exists>at later. command_position i s = Some at \<and> command_position j s = Some later \<and> at < later)"
proof
  assume "stands_before i j (map ce_id (ld_commands s))"
  then obtain a b where ab: "i \<noteq> j" "map ce_id (ld_commands s) = a @ i # b" "i \<notin> set a" "j \<notin> set a" "j \<in> set b"
    by (auto simp: stands_before_split)
  have none: "position (\<lambda>x. x = j) a = None" "position (\<lambda>x. x = i) a = None"
    using ab(3,4) by (auto simp: position_None)
  obtain l where "position (\<lambda>x. x = j) b = Some l" using ab(5) position_None [of "\<lambda>x. x = j" b] by auto
  then show "\<exists>at later. command_position i s = Some at \<and> command_position j s = Some later \<and> at < later"
    using ab none by (simp add: command_position_def position_ids position_append)
next
  assume "\<exists>at later. command_position i s = Some at \<and> command_position j s = Some later \<and> at < later"
  then obtain k l where k: "k < l" and p: "position (\<lambda>x. x = i) (map ce_id (ld_commands s)) = Some k"
      "position (\<lambda>x. x = j) (map ce_id (ld_commands s)) = Some l"
    by (auto simp: command_position_def position_ids)
  let ?ids = "map ce_id (ld_commands s)"
  from position_Some_split [OF p(1)] position_Some_split [OF p(2)]
  have i: "k < length ?ids" "?ids ! k = i" "i \<notin> set (take k ?ids)" and j: "l < length ?ids" "?ids ! l = j" "j \<notin> set (take l ?ids)"
    by blast+
  have "?ids = take k ?ids @ i # drop (Suc k) ?ids" using i(1,2) by (metis id_take_nth_drop)
  moreover have "j \<notin> set (take k ?ids)" using j(3) set_take_subset_set_take [of k l ?ids] k by auto
  moreover have "drop (Suc k) ?ids ! (l - Suc k) = j" "l - Suc k < length (drop (Suc k) ?ids)"
    using j(1,2) k by simp_all
  then have "j \<in> set (drop (Suc k) ?ids)" using nth_mem by metis
  moreover have "i \<noteq> j" using p k by auto
  ultimately show "stands_before i j ?ids" using i(3) unfolding stands_before_split by blast
qed

lemma cancelled_before:
  assumes "stands_before (ce_id c) stop (map ce_id (ld_commands s))" "ld_stopped_by s = Some stop" "de_reads e"
    and "message_id_of c = Some m"
  shows "cancelled_by_stop e s c = Some m"
  using assms(1) [unfolded stands_before_position] assms(2-4) by (auto simp: cancelled_by_stop_def)

lemma prompt_message: "is_prompt c \<Longrightarrow> \<exists>m. message_id_of c = Some m"
  by (cases "ce_payload c") (auto simp: is_prompt_def command_kind_def message_id_of_def)

fun task_entry :: "task \<Rightarrow> command_entry option" where
  "task_entry (Picked _ c _) = Some c"
| "task_entry (Unmet _ c) = Some c"
| "task_entry (Claimed _ c _) = Some c"
| "task_entry (Marked _ c _ _) = Some c"
| "task_entry (RelayStarting c) = Some c"
| "task_entry (RelayPicked c _) = Some c"
| "task_entry (RelayClaimed c _) = Some c"
| "task_entry (RelayMarked c _) = Some c"
| "task_entry _ = None"

lemma scan_entry: "task_entry (fst (scan e sk s)) = Some c \<Longrightarrow> c \<in> set (ld_commands s)"
  by (auto simp: scan_def Let_def next_pending_def find_Some_iff split: prod.splits option.splits if_splits)

lemma advance_entry:
  assumes "task_entry (fst (advance_task e t s)) = Some c"
  shows "task_entry t = Some c \<or> c \<in> set (ld_commands s)"
proof (cases t)
  case (Scanning sk)
  then show ?thesis using assms scan_entry by simp
next
  case (Marked sk c d b)
  then show ?thesis using assms by (cases "execute e c b s") (auto split: disposition.splits sum.splits if_splits)
next
  case (RelayMarked c d)
  then show ?thesis using assms by (cases "execute e c True s") (auto split: disposition.splits sum.splits if_splits)
qed (use assms in \<open>auto simp: claim_def mark_processed_def Let_def split: if_splits\<close>)

text \<open>Every command with the id, of the document or in a task's hands, is a prompt.\<close>

definition prompts_only :: "string \<Rightarrow> ledger \<Rightarrow> bool" where
  "prompts_only i s \<longleftrightarrow>
     list_all (\<lambda>c. ce_id c = i \<longrightarrow> is_prompt c) (ld_commands s)
     \<and> list_all (\<lambda>t. case task_entry t of Some c \<Rightarrow> ce_id c = i \<longrightarrow> is_prompt c | None \<Rightarrow> True) (ld_tasks s)"

definition stopped_prompt :: "string \<Rightarrow> string \<Rightarrow> ledger \<Rightarrow> bool" where
  "stopped_prompt i stop s \<longleftrightarrow> stands_before i stop (map ce_id (ld_commands s)) \<and> prompts_only i s"

text \<open>The events under which a Stop holds: the document reads, and what a sender relays under the id
  is the prompt.\<close>

fun stop_holds :: "string \<Rightarrow> ledger_event \<Rightarrow> bool" where
  "stop_holds i (Advance _ e) \<longleftrightarrow> de_reads e"
| "stop_holds i (Relay c) \<longleftrightarrow> (ce_id c = i \<longrightarrow> is_prompt c)"
| "stop_holds i _ \<longleftrightarrow> True"

definition runs_of :: "string \<Rightarrow> ledger \<Rightarrow> (string \<times> bool) list" where
  "runs_of i s = filter (\<lambda>(j, _). j = i) (ld_runs s)"

lemma execute_other:
  assumes "ce_id c = i \<Longrightarrow> is_prompt c" "ld_stopped_by s = Some stop" "de_reads e" "stopped_prompt i stop s"
  shows "filter (\<lambda>(j, _). j = i) (ld_runs (snd (execute e c b s))) = filter (\<lambda>(j, _). j = i) (ld_runs s)"
proof (cases "ce_id c = i")
  case True
  then obtain m where "message_id_of c = Some m" using assms prompt_message by blast
  then have "cancelled_by_stop e s c = Some m"
    using cancelled_before [of c stop s e m] assms True by (simp add: stopped_prompt_def)
  then show ?thesis by (simp add: execute_log)
next
  case False
  then show ?thesis by (simp add: execute_log)
qed

lemma advance_runs_of:
  assumes "stopped_prompt i stop s" "ld_stopped_by s = Some stop" "de_reads e"
    and "\<And>c. task_entry t = Some c \<Longrightarrow> ce_id c = i \<Longrightarrow> is_prompt c"
  shows "runs_of i (snd (advance_task e t s)) = runs_of i s"
proof (cases t)
  case (Scanning sk)
  then show ?thesis using scan_keeps [of e sk s] by (simp add: runs_of_def)
next
  case (Marked sk c d b)
  then have "filter (\<lambda>(j, _). j = i) (ld_runs (snd (execute e c b s))) = filter (\<lambda>(j, _). j = i) (ld_runs s)"
    using execute_other [OF _ assms(2,3,1)] assms(4) by simp
  then show ?thesis
    using Marked by (cases "execute e c b s") (auto simp: runs_of_def split: disposition.splits sum.splits)
next
  case (RelayMarked c d)
  then have "filter (\<lambda>(j, _). j = i) (ld_runs (snd (execute e c True s))) = filter (\<lambda>(j, _). j = i) (ld_runs s)"
    using execute_other [OF _ assms(2,3,1)] assms(4) by simp
  then show ?thesis
    using RelayMarked by (cases "execute e c True s") (auto simp: runs_of_def split: disposition.splits sum.splits)
qed (auto simp: runs_of_def claim_def release_def mark_processed_def Let_def split: if_splits)

lemma stopped_rows:
  assumes "map row_key cs = map row_key (ld_commands s)"
  shows "map ce_id cs = map ce_id (ld_commands s)"
    and "list_all (\<lambda>c. ce_id c = i \<longrightarrow> is_prompt c) cs = list_all (\<lambda>c. ce_id c = i \<longrightarrow> is_prompt c) (ld_commands s)"
proof -
  have "map fst (map row_key cs) = map fst (map row_key (ld_commands s))" using assms by simp
  then show "map ce_id cs = map ce_id (ld_commands s)" by (simp add: row_key_def comp_def)
  show "list_all (\<lambda>c. ce_id c = i \<longrightarrow> is_prompt c) cs = list_all (\<lambda>c. ce_id c = i \<longrightarrow> is_prompt c) (ld_commands s)"
    by (rule row_key_list_all [OF _ assms]) (simp add: row_key_def is_prompt_def command_kind_def)
qed

lemma stopped_frame:
  assumes "stopped_prompt i stop s" "map row_key (ld_commands s') = map row_key (ld_commands s)"
    and "\<And>t c. t \<in> set (ld_tasks s') \<Longrightarrow> task_entry t = Some c \<Longrightarrow> ce_id c = i \<Longrightarrow>
      is_prompt c \<or> t \<in> set (ld_tasks s) \<or> c \<in> set (ld_commands s)"
  shows "stopped_prompt i stop s'"
proof -
  have old: "is_prompt c" if "t \<in> set (ld_tasks s)" "task_entry t = Some c" "ce_id c = i" for t c
    using assms(1) that by (force simp: stopped_prompt_def prompts_only_def list_all_iff)
  have row: "is_prompt c" if "c \<in> set (ld_commands s)" "ce_id c = i" for c
    using assms(1) that by (auto simp: stopped_prompt_def prompts_only_def list_all_iff)
  have "list_all (\<lambda>t. case task_entry t of Some c \<Rightarrow> ce_id c = i \<longrightarrow> is_prompt c | None \<Rightarrow> True) (ld_tasks s')"
    unfolding list_all_iff
  proof
    fix t assume "t \<in> set (ld_tasks s')"
    then show "case task_entry t of Some c \<Rightarrow> ce_id c = i \<longrightarrow> is_prompt c | None \<Rightarrow> True"
      using assms(3) [of t] old [of t] row by (cases "task_entry t") auto
  qed
  then show ?thesis using assms(1) stopped_rows [OF assms(2)] by (simp add: stopped_prompt_def prompts_only_def)
qed

lemma stopped_known: "stopped_prompt i stop s \<Longrightarrow> known i s \<and> known stop s"
proof -
  assume "stopped_prompt i stop s"
  then obtain a b where ab: "map ce_id (ld_commands s) = a @ i # b" "stop \<in> set b"
    by (auto simp: stopped_prompt_def stands_before_split)
  have "ce_id ` set (ld_commands s) = set (map ce_id (ld_commands s))" by simp
  then show ?thesis unfolding ab(1) using ab(2) by (simp add: known_def)
qed

lemma insert_at_set [simp]: "set (insert_at n x xs) = insert x (set xs)"
proof -
  have "set xs = set (take n xs) \<union> set (drop n xs)" by (metis append_take_drop_id set_append)
  then show ?thesis by (simp add: insert_at_def)
qed

lemma stopped_row:
  assumes "stopped_prompt i stop s" "\<not> known (ce_id c) s"
  shows "stopped_prompt i stop (s\<lparr>ld_commands := insert_at n c (ld_commands s)\<rparr>)"
  using assms stopped_known [OF assms(1)]
  by (auto simp: stopped_prompt_def prompts_only_def map_insert_at list_all_iff intro!: stands_before_insert)

lemma stopped_retry:
  assumes "stopped_prompt i stop s" "\<not> list_ex (\<lambda>j. known j s) fresh"
  shows "stopped_prompt i stop (retry_delivery e device fresh s)"
proof -
  obtain ds where ds: "rejects (retried_ids e fresh s) (ld_commands s) ds"
    "ld_commands (retry_delivery e device fresh s) = ds @ reissued_rows e device fresh s"
    using retry_rows by blast
  have "\<forall>c \<in> set (reissued_rows e device fresh s). ce_id c \<noteq> i"
    using retry_pair assms(2) stopped_known [OF assms(1)] by (fastforce simp: made list_ex_iff)
  moreover have "stopped_prompt i stop (s\<lparr>ld_commands := ds\<rparr>)"
    by (rule stopped_frame [OF assms(1)]) (simp_all add: rejects_rows [OF ds(1)])
  ultimately show ?thesis
    using ds(2) retry_keeps [of e device fresh s]
    by (auto simp: stopped_prompt_def prompts_only_def list_all_iff stands_before_append)
qed

lemma stopped_advance:
  assumes "stopped_prompt i stop s"
  shows "stopped_prompt i stop (advance n e s)"
proof (cases "n < length (ld_tasks s)")
  case True
  let ?t = "ld_tasks s ! n"
  obtain t' s' where st: "advance_task e ?t s = (t', s')" by fastforce
  show ?thesis
  proof (rule stopped_frame [OF assms])
    show "map row_key (ld_commands (advance n e s)) = map row_key (ld_commands s)"
      using advance_rows [of e ?t s] advance_runs [OF True, of e] by simp
    fix t c assume "t \<in> set (ld_tasks (advance n e s))" "task_entry t = Some c" "ce_id c = i"
    then consider "t = t'" | "t \<in> set (ld_tasks s)"
      using True set_update_subset_insert [of "ld_tasks s" n t'] by (auto simp: advance_def st)
    then show "is_prompt c \<or> t \<in> set (ld_tasks s) \<or> c \<in> set (ld_commands s)"
    proof cases
      case 1
      then have "task_entry ?t = Some c \<or> c \<in> set (ld_commands s)"
        using advance_entry [of e ?t s c] st \<open>task_entry t = Some c\<close> by simp
      moreover have "?t \<in> set (ld_tasks s)" using True by simp
      ultimately show ?thesis
        using assms \<open>ce_id c = i\<close> by (force simp: stopped_prompt_def prompts_only_def list_all_iff)
    qed simp
  qed
qed (use assms in \<open>simp add: advance_def\<close>)

lemma stopped_step:
  assumes "stopped_prompt i stop s" "stop_holds i ev"
  shows "stopped_prompt i stop (ledger_step s ev)"
proof (cases ev)
  case (Row n c)
  then show ?thesis using assms(1) stopped_row by (simp add: ledger_step_def)
next
  case (Message m)
  then show ?thesis using assms(1) by (auto simp: ledger_step_def intro!: stopped_frame [OF assms(1)])
next
  case Drain
  then show ?thesis by (auto simp: ledger_step_def intro!: stopped_frame [OF assms(1)])
next
  case (Relay c)
  then show ?thesis using assms(2) by (auto simp: ledger_step_def intro!: stopped_frame [OF assms(1)])
next
  case (Advance n e)
  then show ?thesis using stopped_advance [OF assms(1)] by (simp add: ledger_step_def)
next
  case (Retry e device fresh)
  then show ?thesis using assms(1) stopped_retry by (simp add: ledger_step_def)
next
  case (Cancel j device)
  then show ?thesis using assms(1) by (auto simp: ledger_step_def intro!: stopped_frame [OF assms(1)] split: option.splits)
next
  case Restart
  then show ?thesis by (auto simp: ledger_step_def intro!: stopped_frame [OF assms(1)])
qed

lemma step_runs_of:
  assumes "stopped_prompt i stop s" "ld_stopped_by s = Some stop" "stop_holds i ev"
  shows "runs_of i (ledger_step s ev) = runs_of i s"
proof (cases ev)
  case (Advance n e)
  show ?thesis
  proof (cases "n < length (ld_tasks s)")
    case True
    have "is_prompt c" if "task_entry (ld_tasks s ! n) = Some c" "ce_id c = i" for c
      using assms(1) that True by (force simp: stopped_prompt_def prompts_only_def list_all_length)
    then show ?thesis
      using advance_runs_of [OF assms(1,2), of e "ld_tasks s ! n"] assms(3) Advance advance_runs [OF True, of e]
      by (simp add: ledger_step_def runs_of_def)
  qed (simp add: Advance ledger_step_def advance_def)
qed (auto simp: ledger_step_def runs_of_def retry_keeps split: option.split)

lemma stopped_run:
  assumes "stopped_prompt i stop s" "list_all (stop_holds i) es"
    and "\<forall>k < length es. ld_stopped_by (foldl ledger_step s (take k es)) = Some stop"
  shows "stopped_prompt i stop (foldl ledger_step s es) \<and> runs_of i (foldl ledger_step s es) = runs_of i s"
  using assms
proof (induction es rule: rev_induct)
  case (snoc ev es)
  have "\<forall>k < length es. ld_stopped_by (foldl ledger_step s (take k es)) = Some stop"
  proof (intro allI impI)
    fix k assume "k < length es"
    then show "ld_stopped_by (foldl ledger_step s (take k es)) = Some stop" using snoc.prems(3) [rule_format, of k] by simp
  qed
  moreover have "ld_stopped_by (foldl ledger_step s es) = Some stop" using snoc.prems(3) [rule_format, of "length es"] by simp
  moreover have "list_all (stop_holds i) es" "stop_holds i ev" using snoc.prems(2) by simp_all
  ultimately show ?case using snoc.IH [OF snoc.prems(1)] stopped_step [of i stop] step_runs_of [of i stop] by simp
qed simp

text \<open>C19: a Stop takes back what was sent before it. Once a Stop has acted, and as long as it is the last that
  did and the engine does not restart, a prompt whose row stands before the Stop's in the document is
  never executed again, whatever rows, drains, relays, retries and cancellations come: no execution of
  its id is added. A drain that reaches its execution settles it as applied with the Stop's reason, a
  relay answers it was executed, and either leaves its message in the transcript where it can be
  written. (The document has to read: a task that cannot read it executes the prompt.)\<close>

theorem stopped_prompt_never_runs:
  assumes "is_prompt c" "command_position (ce_id c) s = Some at" "command_position stop s = Some later" "at < later"
    and "prompts_only (ce_id c) s" "list_all (stop_holds (ce_id c)) es"
    and "\<forall>k \<le> length es. ld_stopped_by (foldl ledger_step s (take k es)) = Some stop"
  shows "let s' = foldl ledger_step s es in
    filter (\<lambda>(i, _). i = ce_id c) (ld_runs s') = filter (\<lambda>(i, _). i = ce_id c) (ld_runs s)
    \<and> (\<exists>m. message_id_of c = Some m
        \<and> (\<forall>e sk taken. de_reads e \<and> \<not> must_wait e c s' \<longrightarrow>
            fst (advance_task e (Marked sk c Execute taken) s')
              = Resolving sk (ce_id c) Applied (Some ''cancelled by the Stop sent after it'') True
            \<and> fst (advance_task e (RelayMarked c Execute) s') = RelayReleasing (ce_id c) (Inr ''executed'')
            \<and> (de_writes e \<longrightarrow> m \<in> set (ld_messages (snd (advance_task e (Marked sk c Execute taken) s')))
                \<and> m \<in> set (ld_messages (snd (advance_task e (RelayMarked c Execute) s'))))))"
proof -
  let ?s = "foldl ledger_step s es"
  obtain m where m: "message_id_of c = Some m" using prompt_message [OF assms(1)] by blast
  have "stands_before (ce_id c) stop (map ce_id (ld_commands s))"
    using assms(2-4) unfolding stands_before_position by blast
  then have "stopped_prompt (ce_id c) stop s" using assms(5) by (simp add: stopped_prompt_def)
  then have run: "stopped_prompt (ce_id c) stop ?s" "runs_of (ce_id c) ?s = runs_of (ce_id c) s"
    using stopped_run [OF _ assms(6)] assms(7) by auto
  have "ld_stopped_by ?s = Some stop" using assms(7) [rule_format, of "length es"] by simp
  then have "cancelled_by_stop e ?s c = Some m" if "de_reads e" for e
    using run(1) cancelled_before [OF _ \<open>ld_stopped_by ?s = Some stop\<close> that m] by (simp add: stopped_prompt_def)
  then have "execute e c taken ?s = (Inr (Applied, Some ''cancelled by the Stop sent after it''),
      if de_writes e then write_user_message m ?s else ?s)" if "de_reads e" for e taken
    using that by (simp add: execute_def)
  moreover have "m \<in> set (ld_messages (write_user_message m ?s))" by (simp add: write_user_message_def)
  ultimately show ?thesis using run(2) m by (simp add: Let_def runs_of_def)
qed

section \<open>Samples\<close>

definition sample_env :: drain_env where
  "sample_env =
     \<lparr>de_now = 1000, de_executor = True, de_host = True, de_reads = True, de_ledger_reads = True, de_marks = True, de_writes = True,
      de_in_flight = False, de_timed_out = False, de_uploads = None, de_outcome = Inr (Applied, None), de_says = True\<rparr>"

definition sample_command :: "string \<Rightarrow> command_payload \<Rightarrow> command_entry" where
  "sample_command i payload =
     \<lparr>ce_id = i, ce_payload = payload, ce_issued_by = ''laptop'', ce_issued_at = 900, ce_based_on = None,
      ce_expires_at = None, ce_status = Pending, ce_resolution = None, ce_origin_chat_id = None\<rparr>"

definition sample_ledger :: ledger where
  "sample_ledger =
     new_ledger\<lparr>ld_commands := [sample_command ''c1'' (Steer ''go'' (Some ''m1'')), sample_command ''c2'' Interrupt,
                               sample_command ''c3'' (Steer ''on'' (Some ''m3''))],
                ld_processed := [''c1'']\<rparr>"

text \<open>A store that holds one of the files a chat's commands name, and not the other.\<close>

definition sample_uploads :: uploads where
  "sample_uploads =
     (let u = \<lparr>up_dir = ''/u'', up_staging = [], up_disk = []\<rparr>
      in u\<lparr>up_disk := [(pending_target u ''f1'' ''a.txt'', RegularFile ''A'')]\<rparr>)"

definition late_env :: drain_env where
  "late_env = sample_env\<lparr>de_now := 1000000, de_uploads := Some sample_uploads\<rparr>"

definition attached_ledger :: ledger where
  "attached_ledger = sample_ledger\<lparr>ld_commands := ld_commands sample_ledger
     @ [sample_command ''c4'' (Steer (''see'' @ [CHR 0x0A] @ ''- '' @ pending_ref ''f1'' ''a.txt'') (Some ''m4'')),
        sample_command ''c5'' (Steer (''see'' @ [CHR 0x0A] @ ''- '' @ pending_ref ''f2'' ''b.txt'') (Some ''m5''))]\<rparr>"

theorem drain_settles_everything_witness:
  "fst (drive (replicate 40 late_env) Starting attached_ledger) = Finished
   \<and> list_all (\<lambda>c. ce_status c \<noteq> Pending) (ld_commands (snd (drive (replicate 40 late_env) Starting attached_ledger)))
   \<and> map (missing_attachments (de_uploads late_env)) (ld_commands attached_ledger)
     = [[], [], [], [], [pending_ref ''f2'' ''b.txt'']]"
proof -
  have "good_env (ld_commands attached_ledger) late_env" by code_simp
  then have good: "list_all (good_env (ld_commands attached_ledger)) (replicate 40 late_env)" by (simp add: list_all_iff)
  have "ld_executing attached_ledger = []" and "distinct (map ce_id (ld_commands attached_ledger))"
    and "6 * length (filter (\<lambda>c. ce_status c = Pending) (ld_commands attached_ledger)) + 2 \<le> length (replicate 40 late_env)"
    by code_simp+
  from drain_settles_everything [OF this(1,2) good this(3)]
  have "fst (drive (replicate 40 late_env) Starting attached_ledger) = Finished
      \<and> list_all (\<lambda>c. ce_status c \<noteq> Pending) (ld_commands (snd (drive (replicate 40 late_env) Starting attached_ledger)))"
    .
  moreover have "map (missing_attachments (de_uploads late_env)) (ld_commands attached_ledger)
      = [[], [], [], [], [pending_ref ''f2'' ''b.txt'']]"
    by code_simp
  ultimately show ?thesis by blast
qed

theorem drain_ends_in_order_witness:
  "fst (drive (replicate 20 sample_env) Starting sample_ledger) = Finished
   \<and> subseq (map fst (ld_runs (snd (drive (replicate 20 sample_env) Starting sample_ledger)))) [''c1'', ''c2'', ''c3'']"
  using drain_ends_in_order [of sample_ledger "replicate 20 sample_env"]
  by (simp add: sample_env_def list_all_iff sample_ledger_def sample_command_def new_ledger_def)

text \<open>A Stop has acted; the prompt before it arrives a second time through the relay, and a drain is at work.\<close>

definition stopped_sample :: "ledger \<times> ledger_event list" where
  "stopped_sample =
     (sample_ledger\<lparr>ld_stopped_by := Some ''c2'', ld_processed := [''c2'']\<rparr>,
      [Drain, Relay (sample_command ''c1'' (Steer ''go'' (Some ''m1'')))] @ map (\<lambda>n. Advance n sample_env) [0, 0, 1, 0, 0, 0, 0, 1])"

theorem stopped_prompt_never_runs_witness:
  "filter (\<lambda>(i, _). i = ''c1'') (ld_runs (foldl ledger_step (fst stopped_sample) (snd stopped_sample))) = []"
proof -
  let ?c = "sample_command ''c1'' (Steer ''go'' (Some ''m1''))"
  let ?s = "fst stopped_sample"
  let ?es = "snd stopped_sample"
  have "is_prompt ?c" "command_position (ce_id ?c) ?s = Some 0" "command_position ''c2'' ?s = Some 1" "(0::nat) < 1"
    "prompts_only (ce_id ?c) ?s" "list_all (stop_holds (ce_id ?c)) ?es"
    by code_simp+
  moreover have "list_all (\<lambda>k. ld_stopped_by (foldl ledger_step ?s (take k ?es)) = Some ''c2'') [0..<Suc (length ?es)]"
    by code_simp
  then have "\<forall>k \<le> length ?es. ld_stopped_by (foldl ledger_step ?s (take k ?es)) = Some ''c2''"
    by (auto simp only: list_all_iff set_upt atLeastLessThan_iff less_Suc_eq_le)
  ultimately have "filter (\<lambda>(i, _). i = ce_id ?c) (ld_runs (foldl ledger_step ?s ?es)) = filter (\<lambda>(i, _). i = ce_id ?c) (ld_runs ?s)"
    using stopped_prompt_never_runs by (simp only: Let_def)
  then show ?thesis by (simp add: sample_command_def stopped_sample_def sample_ledger_def new_ledger_def)
qed

text \<open>A message with two lost attempts, the older rejected.\<close>

definition twice_lost :: ledger where
  "twice_lost = sample_ledger\<lparr>ld_commands := (sample_command ''c0'' (Steer ''go'' (Some ''m1'')))\<lparr>ce_status := Rejected, ce_issued_at := 800\<rparr>
     # ld_commands sample_ledger\<rparr>"

theorem retry_reissues_once_witness:
  "latest_dead sample_env (retry_delivery sample_env ''phone'' [''c9''] twice_lost) = []
    \<and> map ce_id (ld_commands (retry_delivery sample_env ''phone'' [''c9''] twice_lost)) = [''c0'', ''c1'', ''c2'', ''c3'', ''c9'']"
proof -
  have "distinct (map ce_id (ld_commands twice_lost))" "length (latest_dead sample_env twice_lost) \<le> length [''c9'']"
    "\<forall>i \<in> set [''c9'']. \<not> known i twice_lost \<and> i \<notin> set (ld_processed twice_lost)"
    "\<forall>c \<in> set (ld_commands twice_lost). \<forall>d \<in> set (ld_commands twice_lost).
      retry_message c \<noteq> None \<and> retry_message c = retry_message d \<longrightarrow> command_kind c = command_kind d"
    by code_simp+
  from retry_reissues_once [OF this, of "''phone''"]
  have "latest_dead sample_env (retry_delivery sample_env ''phone'' [''c9''] twice_lost) = []" by (simp only: Let_def)
  moreover have "map ce_id (ld_commands (retry_delivery sample_env ''phone'' [''c9''] twice_lost)) = [''c0'', ''c1'', ''c2'', ''c3'', ''c9'']"
    by code_simp
  ultimately show ?thesis by blast
qed

theorem only_interrupts_superseded_witness:
  "evaluate_command (sample_command ''c1'' (Steer ''go'' None))
     \<lparr>ec_is_processed = (\<lambda>_. False), ec_now_ms = 1000, ec_entries = ld_commands sample_ledger,
      ec_current_turn_id = None, ec_turn_is_past = (\<lambda>_. False)\<rparr> = Execute"
  using only_interrupts_superseded [of "sample_command ''c1'' (Steer ''go'' None)"
      "\<lparr>ec_is_processed = (\<lambda>_. False), ec_now_ms = 1000, ec_entries = ld_commands sample_ledger,
       ec_current_turn_id = None, ec_turn_is_past = (\<lambda>_. False)\<rparr>"]
  by (simp add: sample_command_def command_kind_def effective_expiry_def COMMAND_DEFAULT_TTL_MS_def)

section \<open>Where an execution repeats\<close>

lemma awaits_claimed:
  assumes "ld_commands s' = ld_commands s" "ld_executing s' = ce_id c # ld_executing s"
  shows "awaits_control c s' = awaits_control c s"
proof (cases "position (\<lambda>x. ce_id x = ce_id c) (ld_commands s)")
  case (Some at)
  have "\<forall>x \<in> set (take at (ld_commands s)). ce_id x \<noteq> ce_id c" using position_Some_split [OF Some] by blast
  then show ?thesis by (auto simp: awaits_control_def command_position_def assms Some list_ex_iff)
qed (simp add: awaits_control_def command_position_def assms)

lemma cancelled_frame:
  assumes "ld_commands s' = ld_commands s" "ld_stopped_by s' = ld_stopped_by s"
  shows "cancelled_by_stop e s' c = cancelled_by_stop e s c"
proof -
  have same: "command_position i s' = command_position i s" for i by (simp add: command_position_def assms(1))
  show ?thesis unfolding cancelled_by_stop_def assms(2) same ..
qed

text \<open>C36: a drain that was overtaken executes again: a drain that still has in its hands a command it selected,
  when another task has marked, executed and released that command since, claims it, is told by the
  ledger that the mark is not its own, goes on all the same, and executes the command a second time
  (unless a Stop cancels it or an earlier control is still to be awaited).\<close>

theorem overtaken_drain_runs_twice:
  assumes "n < length (ld_tasks s)" "ld_tasks s ! n = Picked sk c Execute"
    and "(ce_id c, True) \<in> set (ld_runs s)" "ce_id c \<in> set (ld_processed s)" "ce_id c \<notin> set (ld_executing s)"
    and "de_marks e" "cancelled_by_stop e s c = None" "\<not> must_wait e c s"
  shows "ld_runs (foldl ledger_step s [Advance n e, Advance n e, Advance n e]) = ld_runs s @ [(ce_id c, False)]"
proof -
  let ?s1 = "s\<lparr>ld_executing := ce_id c # ld_executing s, ld_tasks := (ld_tasks s)[n := Claimed sk c Execute]\<rparr>"
  let ?s2 = "?s1\<lparr>ld_tasks := (ld_tasks s)[n := Marked sk c Execute False]\<rparr>"
  have "advance n e s = ?s1" using assms(1,2,5) by (simp add: advance_def claim_def)
  moreover have "advance n e ?s1 = ?s2" using assms(1,4,6) by (simp add: advance_def mark_processed_def)
  moreover have "\<not> must_wait e c ?s2"
    using assms(8) awaits_claimed [of ?s2 s c] by (simp add: must_wait_def)
  moreover have "cancelled_by_stop e ?s2 c = None"
    using assms(7) cancelled_frame [of ?s2 s e c] by simp
  ultimately show ?thesis
    using assms(1) execute_log [of e c False ?s2]
    by (cases "execute e c False ?s2") (auto simp: ledger_step_def advance_def split: sum.splits)
qed

definition overtaken :: "ledger_event list" where
  "overtaken =
     [Row 0 (sample_command ''c1'' (Steer ''go'' (Some ''m1''))), Drain, Drain]
     @ map (\<lambda>n. Advance n sample_env) ([0, 0, 1, 1] @ replicate 5 0)"

theorem overtaken_drain_runs_twice_witness:
  "ld_runs (foldl ledger_step new_ledger (overtaken @ replicate 3 (Advance 1 sample_env))) = [(''c1'', True), (''c1'', False)]"
proof -
  let ?s = "foldl ledger_step new_ledger overtaken"
  let ?c = "sample_command ''c1'' (Steer ''go'' (Some ''m1''))"
  have runs: "ld_runs ?s = [(''c1'', True)]" and "1 < length (ld_tasks ?s)" "ld_tasks ?s ! 1 = Picked [] ?c Execute"
    "(ce_id ?c, True) \<in> set (ld_runs ?s)" "ce_id ?c \<in> set (ld_processed ?s)" "ce_id ?c \<notin> set (ld_executing ?s)"
    "de_marks sample_env" "cancelled_by_stop sample_env ?s ?c = None" "\<not> must_wait sample_env ?c ?s"
    by code_simp+
  from overtaken_drain_runs_twice [OF this(2-)] show ?thesis
    using runs by (simp add: numeral_3_eq_3 sample_command_def)
qed

text \<open>What the sweep does to one dead row, and leaves alone afterwards.\<close>

definition reported_dead :: "string \<Rightarrow> ledger \<Rightarrow> bool" where
  "reported_dead i s \<longleftrightarrow>
     list_all (\<lambda>c. ce_id c = i \<longrightarrow> ce_status c = Rejected \<and> ce_resolution c = Some interrupted_text) (ld_commands s)"

lemma set_status_other:
  "x \<in> set (set_command_status i st r cs) \<Longrightarrow> ce_id x \<noteq> i \<Longrightarrow> x \<in> set cs"
  "x \<in> set cs \<Longrightarrow> ce_id x \<noteq> i \<Longrightarrow> x \<in> set (set_command_status i st r cs)"
  unfolding set_command_status_def by (induction cs) (auto split: if_splits)

lemma set_status_own:
  "distinct (map ce_id cs) \<Longrightarrow> x \<in> set (set_command_status i st (Some r) cs) \<Longrightarrow> ce_id x = i \<Longrightarrow>
     ce_status x = st \<and> ce_resolution x = Some r"
proof (induction cs)
  case (Cons c cs)
  show ?case
  proof (cases "ce_id c = i")
    case True
    then have "x = c\<lparr>ce_status := st, ce_resolution := Some r\<rparr> \<or> x \<in> set cs"
      using Cons.prems(2) by (simp add: set_command_status_def)
    moreover have "x \<notin> set cs" using Cons.prems(1,3) True by force
    ultimately show ?thesis by auto
  next
    case False
    then have "set_command_status i st (Some r) (c # cs) = c # set_command_status i st (Some r) cs"
      by (simp add: set_command_status_def)
    then show ?thesis using Cons False by auto
  qed
qed (simp add: set_command_status_def)

lemma sweep_leaves_reported:
  "reported_dead i s \<Longrightarrow> reported_dead i (snd (sweep_dead e cs sk s))"
proof (induction e cs sk s rule: sweep_dead.induct)
  case (2 e c cs sk s)
  show ?case
  proof (cases "is_dead e sk s c")
    case True
    have "list_ex (\<lambda>now. ce_id now = ce_id c \<and> ce_status now = Pending) (ld_commands s)"
      using True unfolding is_dead_def by blast
    then have "ce_id c \<noteq> i" using 2(3) by (force simp: reported_dead_def list_all_iff list_ex_iff)
    then have "reported_dead i (resolve_command e (ce_id c) Rejected (Some interrupted_text) s)"
      using 2(3) set_status_other(1) [of _ "ce_id c"] by (auto simp: reported_dead_def resolve_command_def list_all_iff)
    then show ?thesis using 2(1) True by simp
  next
    case False
    then show ?thesis using 2(2,3) by simp
  qed
qed simp

lemma sweep_reports:
  assumes "de_writes e" "distinct (map ce_id (ld_commands s))" "c \<in> set cs" "is_dead e sk s c"
  shows "reported_dead (ce_id c) (snd (sweep_dead e cs sk s))"
  using assms(2-)
proof (induction cs arbitrary: sk s)
  case (Cons d cs)
  let ?s = "resolve_command e (ce_id d) Rejected (Some interrupted_text) s"
  show ?case
  proof (cases "is_dead e sk s d")
    case dead: True
    have dist: "distinct (map ce_id (ld_commands ?s))" using Cons.prems(1) by simp
    show ?thesis
    proof (cases "ce_id d = ce_id c")
      case True
      have "reported_dead (ce_id c) ?s"
        using True assms(1) set_status_own [OF Cons.prems(1), of _ "ce_id d" Rejected interrupted_text]
        by (auto simp: reported_dead_def resolve_command_def list_all_iff)
      then show ?thesis using dead sweep_leaves_reported by simp
    next
      case False
      obtain x where "x \<in> set (ld_commands s)" "ce_id x = ce_id c" "ce_status x = Pending"
        using Cons.prems(3) unfolding is_dead_def list_ex_iff by blast
      then have "x \<in> set (ld_commands ?s)"
        using False assms(1) set_status_other(2) [of x "ld_commands s" "ce_id d"] by (simp add: resolve_command_def)
      then have "is_dead e (ce_id d # sk) ?s c"
        using Cons.prems(3) False \<open>ce_id x = ce_id c\<close> \<open>ce_status x = Pending\<close>
        by (auto simp: is_dead_def is_processed_def list_ex_iff)
      moreover have "c \<in> set cs" using Cons.prems(2) False by auto
      ultimately show ?thesis using Cons.IH [OF dist] dead by simp
    qed
  next
    case False
    then have "c \<in> set cs" using Cons.prems(2,3) by auto
    then show ?thesis using Cons.IH [OF Cons.prems(1) _ Cons.prems(3)] False by simp
  qed
qed simp

text \<open>C37: a command executed through the relay is reported as interrupted: when a relayed command that has
  been marked, and whose row has not arrived, is executed and released, and then its row lands by sync
  and a drain runs, the drain's sweep takes the row for a crash's and rejects it with the text that it
  was interrupted before completion, though it ran.\<close>

theorem relayed_row_is_rejected:
  assumes "n < length (ld_tasks s)" "ld_tasks s ! n = RelayMarked c Execute" "ce_status c = Pending"
    and "ce_id c \<in> set (ld_processed s)" "\<not> known (ce_id c) s" "distinct (map ce_id (ld_commands s))"
    and "de_executor e'" "de_host e'" "de_reads e'" "de_ledger_reads e'" "de_writes e'"
  shows "let m = length (ld_tasks s);
      s' = foldl ledger_step s [Advance n e, Advance n e, Row k c, Drain, Advance m e', Advance m e']
    in (ce_id c, True) \<in> set (ld_runs s')
      \<and> list_ex (\<lambda>row. ce_id row = ce_id c) (ld_commands s')
      \<and> list_all (\<lambda>row. ce_id row = ce_id c \<longrightarrow> ce_status row = Rejected \<and> ce_resolution row = Some interrupted_text)
          (ld_commands s')"
proof -
  let ?m = "length (ld_tasks s)"
  have "command_position (ce_id c) s = None"
    using assms(5) unfolding command_position_def known_def position_None by (metis imageI)
  then have free: "cancelled_by_stop e s c = None" "\<not> must_wait e c s"
    by (auto simp: cancelled_by_stop_def must_wait_def awaits_control_def split: option.splits)
  obtain r s1 where ex: "execute e c True s = (r, s1)" by fastforce
  have s1: "ld_runs s1 = ld_runs s @ [(ce_id c, True)]" "ld_processed s1 = ld_processed s" "ld_commands s1 = ld_commands s"
    using execute_log [of e c True s] execute_commands [of e c True s] free(1) ex by simp_all
  obtain reply where reply: "advance_task e (RelayMarked c Execute) s = (RelayReleasing (ce_id c) reply, s1)"
    using free(2) ex by (cases r) auto
  define s2 where "s2 = (release (ce_id c) s1)\<lparr>ld_tasks := (ld_tasks s)[n := Replied reply]\<rparr>"
  have two: "foldl ledger_step s [Advance n e, Advance n e] = s2"
    using assms(1,2) reply by (simp add: ledger_step_def advance_def s2_def release_def)
  define s3 where "s3 = s2\<lparr>ld_commands := insert_at k c (ld_commands s2), ld_tasks := ld_tasks s2 @ [Scanning []]\<rparr>"
  have m: "length (ld_tasks s2) = ?m" by (simp add: s2_def)
  have "\<not> known (ce_id c) s2" using assms(5) s1(3) by (simp add: s2_def known_def release_def)
  then have three: "foldl ledger_step s2 [Row k c, Drain, Advance ?m e'] = s3"
    using assms(7,8) m by (simp add: ledger_step_def advance_def s3_def nth_append list_update_append)
  have s3: "ld_commands s3 = insert_at k c (ld_commands s)" "ld_processed s3 = ld_processed s"
    "ce_id c \<notin> set (ld_executing s3)" "ld_runs s3 = ld_runs s1" "?m < length (ld_tasks s3)" "ld_tasks s3 ! ?m = Scanning []"
    using s1 m by (simp_all add: s3_def s2_def release_def nth_append)
  have dist: "distinct (map ce_id (ld_commands s3))"
  proof -
    obtain a b where ab: "ld_commands s = a @ b" "take k (ld_commands s) = a" "drop k (ld_commands s) = b"
      by (metis append_take_drop_id)
    then have "distinct (map ce_id (a @ b))" "ce_id c \<notin> ce_id ` set (a @ b)" using assms(5,6) by (simp_all add: known_def)
    then show ?thesis unfolding s3(1) insert_at_def ab(2,3) by auto
  qed
  have "is_dead e' [] s3 c"
    using assms(3,4,10) s3 by (auto simp: is_dead_def is_processed_def list_ex_iff)
  then have dead: "reported_dead (ce_id c) (snd (sweep_dead e' (ld_commands s3) [] s3))"
    using s3(1) by (intro sweep_reports [OF assms(11) dist]) simp_all
  have last: "ledger_step s3 (Advance ?m e') = advance ?m e' s3" by (simp add: ledger_step_def)
  have rows: "ld_commands (advance ?m e' s3) = ld_commands (snd (sweep_dead e' (ld_commands s3) [] s3))"
    and runs: "ld_runs (advance ?m e' s3) = ld_runs s @ [(ce_id c, True)]"
    using advance_runs [OF s3(5), of e'] s3(4,6) s1(1) scan_keeps [of e' "[]" s3] assms(9) by (simp_all add: scan_commands)
  have "list_ex (\<lambda>row. ce_id row = ce_id c) (ld_commands (advance ?m e' s3))"
  proof -
    have "map fst (map row_key (ld_commands (advance ?m e' s3))) = map fst (map row_key (ld_commands s3))"
      unfolding rows by simp
    then have "map ce_id (ld_commands (advance ?m e' s3)) = map ce_id (ld_commands s3)" by (simp add: row_key_def comp_def)
    then have "ce_id ` set (ld_commands (advance ?m e' s3)) = ce_id ` set (ld_commands s3)" by (metis list.set_map)
    then have "ce_id c \<in> ce_id ` set (ld_commands (advance ?m e' s3))" using s3(1) by simp
    then show ?thesis unfolding list_ex_iff by (metis imageE)
  qed
  moreover have "foldl ledger_step s [Advance n e, Advance n e, Row k c, Drain, Advance ?m e', Advance ?m e'] = advance ?m e' s3"
    using two three last by simp
  ultimately show ?thesis using dead rows runs by (simp add: Let_def reported_dead_def)
qed

definition relayed_first :: "ledger_event list" where
  "relayed_first = Relay (sample_command ''c1'' (Steer ''go'' (Some ''m1''))) # replicate 3 (Advance 0 sample_env)"

theorem relayed_row_is_rejected_witness:
  "map ce_status (ld_commands (foldl ledger_step new_ledger (relayed_first
      @ [Advance 0 sample_env, Advance 0 sample_env, Row 0 (sample_command ''c1'' (Steer ''go'' (Some ''m1''))), Drain,
         Advance 1 sample_env, Advance 1 sample_env]))) = [Rejected]"
proof -
  let ?s = "foldl ledger_step new_ledger relayed_first"
  let ?c = "sample_command ''c1'' (Steer ''go'' (Some ''m1''))"
  let ?es = "[Advance 0 sample_env, Advance 0 sample_env, Row 0 ?c, Drain, Advance 1 sample_env, Advance 1 sample_env]"
  have len: "length (ld_tasks ?s) = 1" and "0 < length (ld_tasks ?s)" "ld_tasks ?s ! 0 = RelayMarked ?c Execute" "ce_status ?c = Pending"
    "ce_id ?c \<in> set (ld_processed ?s)" "\<not> known (ce_id ?c) ?s" "distinct (map ce_id (ld_commands ?s))"
    "de_executor sample_env" "de_host sample_env" "de_reads sample_env" "de_ledger_reads sample_env" "de_writes sample_env"
    by code_simp+
  note rejected = relayed_row_is_rejected [OF this(2-), of sample_env 0]
  have "map ce_id (ld_commands (foldl ledger_step ?s ?es)) = [''c1'']" by code_simp
  then show ?thesis using rejected len by (auto simp: Let_def sample_command_def)
qed

end
