(* ===== verification/Queue_Rows.thy ===== *)
theory Queue_Rows
  imports Message_Queue "HOL-Library.Multiset"
begin

text \<open>
  The queue of \<open>crates/doc/src/queue.rs\<close> as a list of rows: the abstract specification of its
  operations, on decoded rows, and the refinement of the container operations of
  \<open>Message_Queue\<close> to it, for a container whose rows all decode under distinct ids.
\<close>

section \<open>The specification\<close>

definition row_ids :: "queued_message list \<Rightarrow> string list" where
  "row_ids rows = map qm_id rows"

definition find_row :: "string \<Rightarrow> queued_message list \<Rightarrow> queued_message option" where
  "find_row i rows = find (\<lambda>m. qm_id m = i) rows"

definition without_row :: "string \<Rightarrow> queued_message list \<Rightarrow> queued_message list" where
  "without_row i rows = filter (\<lambda>m. qm_id m \<noteq> i) rows"

definition change_row :: "string \<Rightarrow> (queued_message \<Rightarrow> queued_message) \<Rightarrow> queued_message list \<Rightarrow> queued_message list" where
  "change_row i f rows = map (\<lambda>m. if qm_id m = i then f m else m) rows"

definition retyped :: "string option \<Rightarrow> int \<Rightarrow> queued_message \<Rightarrow> queued_message" where
  "retyped replacement now m =
     (case replacement of
        None \<Rightarrow> m
      | Some body \<Rightarrow> if qm_text m = body then m else m\<lparr>qm_text := body, qm_edited_at := Some now\<rparr>)"

definition reattached :: "string list option \<Rightarrow> int \<Rightarrow> queued_message \<Rightarrow> queued_message" where
  "reattached attachments now m =
     (case attachments of
        None \<Rightarrow> m | Some paths \<Rightarrow> m\<lparr>qm_attachments := paths, qm_edited_at := Some now\<rparr>)"

datatype queue_op =
    PushRow queued_message
  | InsertRow nat queued_message
  | RemoveRow string
  | TakeRow string
  | MoveRow string nat
  | SetText string string int
  | SetGate string "queue_delivery_gate option"
  | FinishEdit string "string option" "string list option" int

datatype queue_answer = Stored | Changed bool | Took "queued_message option"

fun row_apply :: "queue_op \<Rightarrow> queued_message list \<Rightarrow> queue_answer \<times> queued_message list" where
  "row_apply (PushRow item) rows = (Stored, rows @ [item])"
| "row_apply (InsertRow n item) rows = (Stored, insert_at (min n (length rows)) item rows)"
| "row_apply (RemoveRow i) rows = (Changed (find_row i rows \<noteq> None), without_row i rows)"
| "row_apply (TakeRow i) rows =
     (case find_row i rows of
        None \<Rightarrow> (Took None, rows)
      | Some m \<Rightarrow> if qm_delivery_gate m \<noteq> None then (Took None, rows) else (Took (Some m), without_row i rows))"
| "row_apply (MoveRow i n) rows =
     (case position (\<lambda>m. qm_id m = i) rows of
        None \<Rightarrow> (Changed False, rows)
      | Some k \<Rightarrow> let n' = min n (length rows - 1)
                  in if k = n' then (Changed False, rows)
                     else (Changed True, insert_at n' (rows ! k) (remove_at k rows)))"
| "row_apply (SetText i body now) rows =
     (if blank body then (Changed (find_row i rows \<noteq> None), without_row i rows)
      else case find_row i rows of
        None \<Rightarrow> (Changed False, rows)
      | Some m \<Rightarrow> (Changed (qm_text m \<noteq> body), change_row i (retyped (Some body) now) rows))"
| "row_apply (SetGate i gate) rows =
     (Changed (find_row i rows \<noteq> None), change_row i (\<lambda>m. m\<lparr>qm_delivery_gate := gate\<rparr>) rows)"
| "row_apply (FinishEdit i replacement attachments now) rows =
     (if (case replacement of None \<Rightarrow> False | Some body \<Rightarrow> blank body)
      then (Changed (find_row i rows \<noteq> None), without_row i rows)
      else (Changed (find_row i rows \<noteq> None),
            change_row i (\<lambda>m. (reattached attachments now (retyped replacement now m))\<lparr>qm_delivery_gate := None\<rparr>) rows))"

text \<open>The same operations on the container.\<close>

fun queue_apply :: "'c queue_ops \<Rightarrow> queue_op \<Rightarrow> 'c \<Rightarrow> doc_error + queue_answer \<times> 'c" where
  "queue_apply ops (PushRow item) c = map_sum id (Pair Stored) (push_queued ops item c)"
| "queue_apply ops (InsertRow n item) c = map_sum id (Pair Stored) (insert_queued ops n item c)"
| "queue_apply ops (RemoveRow i) c = map_sum id (map_prod Changed id) (remove_queued ops i c)"
| "queue_apply ops (TakeRow i) c = map_sum id (map_prod Took id) (take_queued ops i c)"
| "queue_apply ops (MoveRow i n) c = map_sum id (map_prod Changed id) (move_queued ops i n c)"
| "queue_apply ops (SetText i body now) c = map_sum id (map_prod Changed id) (set_queued_text ops i body now c)"
| "queue_apply ops (SetGate i gate) c = map_sum id (map_prod Changed id) (set_queued_delivery_gate ops i gate c)"
| "queue_apply ops (FinishEdit i replacement attachments now) c =
     map_sum id (map_prod Changed id) (finish_queued_edit ops i replacement attachments now c)"

definition gate_ok :: "queue_delivery_gate \<Rightarrow> bool" where
  "gate_ok g \<longleftrightarrow> (case g of Editing _ _ _ a e _ \<Rightarrow> i64 a \<and> i64 e | ReviewRequired _ _ s _ \<Rightarrow> i64 s)"

text \<open>A row is stored under a new id; times are 64-bit.\<close>

fun op_ok :: "queue_op \<Rightarrow> queued_message list \<Rightarrow> bool" where
  "op_ok (PushRow item) rows = (queued_ok item \<and> qm_id item \<notin> set (row_ids rows))"
| "op_ok (InsertRow _ item) rows = (queued_ok item \<and> qm_id item \<notin> set (row_ids rows))"
| "op_ok (SetText _ _ now) rows = i64 now"
| "op_ok (SetGate _ gate) rows = (case gate of None \<Rightarrow> True | Some g \<Rightarrow> gate_ok g)"
| "op_ok (FinishEdit _ _ _ now) rows = i64 now"
| "op_ok _ rows = True"

abbreviation clean :: "'c queue_ops \<Rightarrow> 'c \<Rightarrow> bool" where
  "clean ops c \<equiv> queue_clean (qo_value ops c)"

section \<open>Rows of a clean container\<close>

lemma read_ids_distinct: "clean ops c \<Longrightarrow> distinct (row_ids (read_queue ops c))"
  using clean_ids [of "qo_value ops c"] by (simp add: clean_read row_ids_def comp_def)

lemma length_read: "clean ops c \<Longrightarrow> length (read_queue ops c) = length (qo_value ops c)"
  by (simp add: clean_read)

lemma json_as_i64_range: "json_as_i64 v = Some t \<Longrightarrow> i64 t"
  by (cases v) (auto simp: json_as_i64.simps(1) i64_def split: if_splits)

lemma gate_from_json_ok: "gate_from_json v = Some g \<Longrightarrow> gate_ok g"
  by (auto simp: gate_from_json_def gate_ok_def i64_member_def bind_eq_Some_conv json_as_i64_range
      split: if_splits option.splits)

lemma gate_closed_ok: "gate_ok gate_closed"
  by (simp add: gate_ok_def gate_closed_def i64_def)

text \<open>What is read can be stored again.\<close>

lemma decoded_fields:
  assumes "queued_from_json v = Some m"
  obtains raw where "str_member ''id'' v = Some raw" "qm_id m = trim raw" "trim raw \<noteq> []"
    "str_member ''text'' v = Some (qm_text m)" "\<not> blank (qm_text m)"
    "qm_issued_at m = (case i64_member ''issuedAt'' v of Some t \<Rightarrow> t | None \<Rightarrow> 0)"
    "qm_edited_at m = i64_member ''editedAt'' v"
proof -
  obtain raw where raw: "str_member ''id'' v = Some raw" "trim raw \<noteq> []"
    using assms by (auto simp: queued_from_json_def split: option.splits if_splits)
  obtain body where body: "str_member ''text'' v = Some body" "\<not> blank body"
    using assms raw by (auto simp: queued_from_json_def split: option.splits if_splits)
  have "qm_id m = trim raw" "qm_text m = body"
    "qm_issued_at m = (case i64_member ''issuedAt'' v of Some t \<Rightarrow> t | None \<Rightarrow> 0)"
    "qm_edited_at m = i64_member ''editedAt'' v"
    using assms raw body by (auto simp: queued_from_json_def)
  then show ?thesis using that raw body by blast
qed

lemma i64_0: "i64 0"
  by (simp add: i64_def)

lemma decoded_ok:
  assumes "queued_from_json v = Some m" "has_id (qm_id m) v"
  shows "queued_ok m"
proof -
  obtain raw where raw: "str_member ''id'' v = Some raw" "qm_id m = trim raw" "trim raw \<noteq> []"
    "\<not> blank (qm_text m)" "qm_issued_at m = (case i64_member ''issuedAt'' v of Some t \<Rightarrow> t | None \<Rightarrow> 0)"
    "qm_edited_at m = i64_member ''editedAt'' v"
    using decoded_fields [OF assms(1)] by blast
  have "raw = qm_id m" using raw(1) assms(2) by (simp add: has_id_def str_member_def)
  moreover have "i64 (qm_issued_at m)"
    using raw(5) i64_0 by (auto simp: i64_member_def bind_eq_Some_conv dest: json_as_i64_range split: option.splits)
  moreover have "qm_edited_at m = Some t \<Longrightarrow> i64 t" for t
    using raw(6) by (auto simp: i64_member_def bind_eq_Some_conv json_as_i64_range)
  moreover have "qm_delivery_gate m = Some g \<Longrightarrow> gate_ok g" for g
    using decoded_gate [OF assms(1)]
    by (auto simp: decode_gate_def gate_closed_ok gate_from_json_ok split: option.splits json.splits)
  ultimately show ?thesis
    using raw by (auto simp: queued_ok_def gate_ok_def blank_def split: option.splits queue_delivery_gate.splits)
qed

lemma read_ok: "clean ops c \<Longrightarrow> m \<in> set (read_queue ops c) \<Longrightarrow> queued_ok m"
  unfolding read_queue_def List.map_filter_def queue_clean_def
  by (auto simp: list_all_iff split: option.splits intro!: decoded_ok)

section \<open>The refinement\<close>

lemma index_rows: "clean ops c \<Longrightarrow> index_of ops i c = position (\<lambda>m. qm_id m = i) (read_queue ops c)"
  by (simp add: index_of_def clean_position clean_read position_map)

lemma find_row_position: "find_row i rows = None \<longleftrightarrow> position (\<lambda>m. qm_id m = i) rows = None"
  by (auto simp: find_row_def find_None_iff position_None)

lemma without_absent: "find_row i rows = None \<Longrightarrow> without_row i rows = rows"
  by (simp add: find_row_def without_row_def find_None_iff)

lemma change_absent: "find_row i rows = None \<Longrightarrow> change_row i f rows = rows"
  by (auto simp: find_row_def change_row_def find_None_iff intro!: map_idI)

lemma find_row_SomeD: "find_row i rows = Some m \<Longrightarrow> m \<in> set rows \<and> qm_id m = i"
  by (auto simp: find_row_def find_Some_iff)

lemma set_insert_at: "set (insert_at n x xs) = insert x (set xs)"
  unfolding insert_at_def by (metis append_take_drop_id list.simps(15) set_append Un_insert_right)

lemma distinct_insert_at: "distinct (insert_at n x xs) \<longleftrightarrow> x \<notin> set xs \<and> distinct xs"
proof -
  have "mset (insert_at n x xs) = mset (x # xs)"
    unfolding insert_at_def by (metis append_take_drop_id mset.simps(2) mset_append union_mset_add_mset_right)
  then have "distinct (insert_at n x xs) = distinct (x # xs)" by (rule mset_eq_imp_distinct_iff)
  then show ?thesis by simp
qed

lemma new_row:
  assumes "queued_ok item"
  shows "queued_from_json (JObj (queued_fields item)) = Some item"
    "json_get ''id'' (JObj (queued_fields item)) = Some (JStr (qm_id item))" "row_of (JObj (queued_fields item)) = item"
  using queued_row_roundtrip [OF assms] by (simp_all add: queued_members row_of_def)

lemma clean_insert:
  assumes "queue_clean vs" "queued_ok item" "\<forall>v \<in> set vs. qm_id (row_of v) \<noteq> qm_id item"
  shows "queue_clean (insert_at n (JObj (queued_fields item)) vs)"
proof -
  have "json_get ''id'' v \<noteq> Some (JStr (qm_id item))" if "v \<in> set vs" for v
    using clean_row(2) [OF assms(1) that] assms(3) that by auto
  then have "Some (JStr (qm_id item)) \<notin> set (map (json_get ''id'') vs)" by force
  then show ?thesis
    using assms(1) new_row [OF assms(2)]
    by (auto simp: queue_clean_def list_all_iff set_insert_at map_insert_at distinct_insert_at has_id_def)
qed

lemma insert_refines:
  assumes "queue_ops_ok ops" "clean ops c" "queued_ok item" "qm_id item \<notin> set (row_ids (read_queue ops c))"
  shows "\<exists>c'. insert_queued ops n item c = Inr c' \<and> clean ops c'
    \<and> read_queue ops c' = insert_at (min n (length (read_queue ops c))) item (read_queue ops c)"
proof -
  let ?at = "min n (length (qo_value ops c))"
  obtain c1 c' where c': "qo_insert_map ops ?at c = Some c1" "insert_fields ops ?at (queued_fields item) c1 = Inr c'"
    "qo_value ops c' = insert_at ?at (JObj (queued_fields item)) (qo_value ops c)"
    using insert_row [OF assms(1), of ?at c item] by auto
  have "\<forall>v \<in> set (qo_value ops c). qm_id (row_of v) \<noteq> qm_id item"
    using assms(4) by (auto simp: clean_read [OF assms(2)] row_ids_def image_iff)
  then have clean': "clean ops c'" using clean_insert [OF assms(2,3)] c'(3) by simp
  moreover have "insert_queued ops n item c = Inr c'"
    using assms(3) c'(1,2) by (simp add: insert_queued_def queued_ok_def Let_def)
  moreover have "read_queue ops c' = insert_at ?at item (read_queue ops c)"
    using c'(3) new_row(3) [OF assms(3)] by (simp add: clean_read [OF clean'] clean_read [OF assms(2)] map_insert_at)
  ultimately show ?thesis using length_read [OF assms(2)] by auto
qed

lemma push_is_insert: "push_queued ops item c = insert_queued ops (length (qo_value ops c)) item c"
  by (simp add: push_queued_def insert_queued_def)

lemma push_refines:
  assumes "queue_ops_ok ops" "clean ops c" "queued_ok item" "qm_id item \<notin> set (row_ids (read_queue ops c))"
  shows "\<exists>c'. push_queued ops item c = Inr c' \<and> clean ops c' \<and> read_queue ops c' = read_queue ops c @ [item]"
  using insert_refines [OF assms, of "length (qo_value ops c)"] length_read [OF assms(2)]
  by (simp add: push_is_insert insert_at_def)

lemma remove_refines:
  assumes "queue_ops_ok ops" "clean ops c"
  shows "\<exists>c'. remove_queued ops i c = Inr (find_row i (read_queue ops c) \<noteq> None, c') \<and> clean ops c'
    \<and> read_queue ops c' = without_row i (read_queue ops c)"
proof (cases "find_row i (read_queue ops c)")
  case None
  then show ?thesis using assms(2) index_rows [OF assms(2), of i]
    by (simp add: remove_queued_def find_row_position without_absent)
next
  case (Some m)
  then have m: "m \<in> set (read_queue ops c)" "qm_id m = i" using find_row_SomeD by blast+
  then obtain n where n: "index_of ops i c = Some n" "n < length (qo_value ops c)"
    "map row_of (remove_at n (qo_value ops c)) = without_row i (read_queue ops c)"
    using clean_find(2) [OF assms(2)] by (auto simp: without_row_def)
  obtain c' where c': "qo_delete ops n c = Some c'" "qo_value ops c' = remove_at n (qo_value ops c)"
    using queue_ops_okD(3) [OF assms(1) n(2)] by blast
  have "clean ops c'" using clean_remove [OF assms(2)] c'(2) by simp
  then show ?thesis using n(1,3) c' Some clean_read [of ops c'] by (simp add: remove_queued_def)
qed

lemma take_gated:
  assumes "clean ops c" "m \<in> set (read_queue ops c)" "qm_delivery_gate m \<noteq> None"
  shows "take_queued ops (qm_id m) c = Inr (None, c)"
  using clean_find [OF assms(1,2)] assms(3) by (auto simp: take_queued_def)

lemma take_refines:
  assumes "queue_ops_ok ops" "clean ops c"
  shows "\<exists>c'. map_sum id (map_prod Took id) (take_queued ops i c) = Inr (fst (row_apply (TakeRow i) (read_queue ops c)), c')
    \<and> clean ops c' \<and> read_queue ops c' = snd (row_apply (TakeRow i) (read_queue ops c))"
proof (cases "find_row i (read_queue ops c)")
  case None
  then have "index_of ops i c = None" using index_rows [OF assms(2), of i] by (simp add: find_row_position)
  then show ?thesis using assms(2) None by (simp add: take_queued_def)
next
  case (Some m)
  then have m: "m \<in> set (read_queue ops c)" "qm_id m = i" using find_row_SomeD by blast+
  show ?thesis
  proof (cases "qm_delivery_gate m")
    case None
    then show ?thesis using take_row [OF assms m(1)] Some m(2) by (auto simp: without_row_def)
  next
    case (Some g)
    then have "take_queued ops i c = Inr (None, c)"
      using take_gated [OF assms(2) m(1)] m(2) by simp
    then show ?thesis using Some assms(2) \<open>find_row i (read_queue ops c) = Some m\<close> by simp
  qed
qed

lemma insert_remove_mset:
  assumes "k < length xs"
  shows "mset (insert_at n (xs ! k) (remove_at k xs)) = mset xs"
proof -
  have "mset (insert_at n x ys) = mset (x # ys)" for x :: 'a and ys
    unfolding insert_at_def by (metis append_take_drop_id mset.simps(2) mset_append union_mset_add_mset_right)
  moreover have "mset (xs ! k # remove_at k xs) = mset xs"
    unfolding remove_at_def by (metis assms id_take_nth_drop mset.simps(2) mset_append union_mset_add_mset_right)
  ultimately show ?thesis by simp
qed

lemma clean_perm: "mset vs = mset ws \<Longrightarrow> queue_clean vs \<Longrightarrow> queue_clean ws"
  unfolding queue_clean_def list_all_iff
  by (metis mset_eq_imp_distinct_iff mset_eq_setD mset_map)

lemma move_refines:
  assumes "queue_ops_ok ops" "clean ops c"
  shows "\<exists>c'. map_sum id (map_prod Changed id) (move_queued ops i n c)
      = Inr (fst (row_apply (MoveRow i n) (read_queue ops c)), c')
    \<and> clean ops c' \<and> read_queue ops c' = snd (row_apply (MoveRow i n) (read_queue ops c))"
proof (cases "position (\<lambda>m. qm_id m = i) (read_queue ops c)")
  case None
  then show ?thesis using assms(2) by (simp add: move_queued_def index_rows [OF assms(2)])
next
  case (Some k)
  have k: "k < length (qo_value ops c)"
    using position_Some_split [OF Some] length_read [OF assms(2)] by simp
  let ?n = "min n (length (qo_value ops c) - 1)"
  have n: "?n < length (qo_value ops c)" using k by linarith
  obtain c' where c': "qo_mov ops k ?n c = Some c'"
    "qo_value ops c' = insert_at ?n (qo_value ops c ! k) (remove_at k (qo_value ops c))"
    using queue_ops_okD(4) [OF assms(1) k n] by blast
  have clean': "clean ops c'"
    using clean_perm [OF _ assms(2)] insert_remove_mset [OF k] c'(2) by metis
  have "read_queue ops c' = insert_at ?n (read_queue ops c ! k) (remove_at k (read_queue ops c))"
    using c'(2) k by (simp add: clean_read [OF clean'] clean_read [OF assms(2)] map_insert_at map_remove_at)
  then show ?thesis
    using Some c'(1) clean' assms(2)
    by (simp add: move_queued_def index_rows [OF assms(2)] length_read [OF assms(2)] Let_def)
qed

text \<open>Editing the row of a clean container.\<close>

lemma row_at:
  assumes "clean ops c" "m \<in> set (read_queue ops c)"
  obtains n ms where "index_of ops (qm_id m) c = Some n" "n < length (qo_value ops c)"
    "qo_value ops c ! n = JObj ms" "queued_from_json (JObj ms) = Some m"
    "map_at ops n c = Some (JObj ms)" "map_of ms ''text'' = Some (JStr (qm_text m))"
proof -
  obtain n where n: "index_of ops (qm_id m) c = Some n" "n < length (qo_value ops c)"
    using clean_find(2) [OF assms] by blast
  then have pos: "position (\<lambda>x. qm_id x = qm_id m) (read_queue ops c) = Some n"
    by (simp add: index_rows [OF assms(1)])
  have "qm_id (read_queue ops c ! n) = qm_id m" "n < length (read_queue ops c)"
    using position_Some_split [OF pos] n(2) length_read [OF assms(1)] by auto
  then have "read_queue ops c ! n = m"
    using read_ids_distinct [OF assms(1)] assms(2) by (metis distinct_map_same nth_mem row_ids_def)
  then have "row_of (qo_value ops c ! n) = m" using n(2) by (simp add: clean_read [OF assms(1)])
  then have dec: "queued_from_json (qo_value ops c ! n) = Some m"
    using clean_row(1) [OF assms(1) nth_mem [OF n(2)]] by simp
  then obtain ms where ms: "qo_value ops c ! n = JObj ms"
    by (cases "qo_value ops c ! n") (auto simp: queued_from_json_def str_member_def)
  have "str_member ''text'' (JObj ms) = Some (qm_text m)"
    using dec ms by (auto elim: decoded_fields)
  then have "map_of ms ''text'' = Some (JStr (qm_text m))"
    by (auto simp: str_member_def bind_eq_Some_conv elim: json_as_str.elims)
  then show ?thesis using that n ms dec by (simp add: map_at_def)
qed

lemma decode_edit:
  assumes old: "queued_from_json v = Some m"
    and same: "\<And>k. k \<notin> {''text'', ''editedAt'', ''attachments'', ''deliveryGate''} \<Longrightarrow> json_get k w = json_get k v"
    and new: "str_member ''text'' w = Some body" "\<not> blank body" "i64_member ''editedAt'' w = at"
      "(case Option.bind (json_get ''attachments'' w) json_strings of Some ss \<Rightarrow> ss | None \<Rightarrow> []) = paths"
      "decode_gate w = g"
  shows "queued_from_json w
    = Some (m\<lparr>qm_text := body, qm_edited_at := at, qm_attachments := paths, qm_delivery_gate := g\<rparr>)"
proof -
  have eq: "str_member ''id'' w = str_member ''id'' v" "str_member ''issuedBy'' w = str_member ''issuedBy'' v"
    "str_member ''originChatId'' w = str_member ''originChatId'' v"
    "i64_member ''issuedAt'' w = i64_member ''issuedAt'' v"
    "json_get ''holdForTurnEnd'' w = json_get ''holdForTurnEnd'' v"
    "json_get ''completionNotice'' w = json_get ''completionNotice'' v"
    by (simp_all add: str_member_def i64_member_def same)
  obtain raw where raw: "str_member ''id'' v = Some raw" "trim raw \<noteq> []"
    "str_member ''text'' v = Some (qm_text m)" "\<not> blank (qm_text m)"
    using decoded_fields [OF old] by metis
  have m: "m = \<lparr>qm_id = trim raw, qm_text = qm_text m, qm_attachments = qm_attachments m,
      qm_hold_for_turn_end = (case Option.bind (json_get ''holdForTurnEnd'' v) json_as_bool of Some b \<Rightarrow> b | None \<Rightarrow> False),
      qm_issued_by = (case str_member ''issuedBy'' v of Some s \<Rightarrow> s | None \<Rightarrow> []),
      qm_issued_at = (case i64_member ''issuedAt'' v of Some t \<Rightarrow> t | None \<Rightarrow> 0),
      qm_edited_at = qm_edited_at m, qm_delivery_gate = qm_delivery_gate m,
      qm_origin_chat_id = str_member ''originChatId'' v,
      qm_completion_notice = Option.bind (json_get ''completionNotice'' v) notice_sides_from_json\<rparr>"
    using old raw by (cases m) (auto simp: queued_from_json_def)
  show ?thesis
    by (subst m) (simp add: queued_from_json_def eq raw new)
qed

text \<open>Replacing the members of one row.\<close>

lemma replace_row:
  assumes "clean ops c" "m \<in> set (read_queue ops c)" "index_of ops (qm_id m) c = Some n"
    and "queued_from_json w = Some m'" "qm_id m' = qm_id m" "json_get ''id'' w = json_get ''id'' (qo_value ops c ! n)"
    and "qo_value ops c' = (qo_value ops c)[n := w]"
  shows "clean ops c' \<and> read_queue ops c' = change_row (qm_id m) (\<lambda>_. m') (read_queue ops c)"
proof -
  let ?vs = "qo_value ops c"
  have pos: "position (\<lambda>x. qm_id x = qm_id m) (read_queue ops c) = Some n"
    using assms(3) by (simp add: index_rows [OF assms(1)])
  have n: "n < length ?vs" using position_Some_split [OF pos] length_read [OF assms(1)] by simp
  have same: "map (json_get ''id'') (?vs[n := w]) = map (json_get ''id'') ?vs"
    using n assms(6) by (simp add: map_update) (metis list_update_id nth_map)
  have "has_id (qm_id m) (?vs ! n)"
    using clean_row(2) [OF assms(1) nth_mem [OF n]] position_Some_split [OF pos] n
    by (auto simp: has_id_def clean_read [OF assms(1)])
  then have "has_id (qm_id m') w" using assms(5,6) by (simp add: has_id_def)
  then have "queue_clean (?vs[n := w])"
    using assms(1,4) same set_update_subset_insert [of ?vs n w]
    by (auto simp: queue_clean_def list_all_iff)
  then have clean': "clean ops c'" using assms(7) by simp
  have "row_of w = m'" using assms(4) by (simp add: row_of_def)
  then have "read_queue ops c' = (read_queue ops c)[n := m']"
    using assms(7) by (simp add: clean_read [OF clean'] clean_read [OF assms(1)] map_update)
  also have "\<dots> = change_row (qm_id m) (\<lambda>_. m') (read_queue ops c)"
    using update_at_position [OF _ pos, of "\<lambda>_. m'"] read_ids_distinct [OF assms(1)]
    by (simp add: row_ids_def change_row_def)
  finally show ?thesis using clean' by simp
qed

lemma change_row_same:
  assumes "distinct (row_ids rows)" "m \<in> set rows"
  shows "change_row (qm_id m) (\<lambda>_. f m) rows = change_row (qm_id m) f rows"
  unfolding change_row_def using assms by (auto simp: row_ids_def distinct_map inj_on_def)

lemma change_row_id:
  assumes "distinct (row_ids rows)" "m \<in> set rows" "f m = m"
  shows "change_row (qm_id m) f rows = rows"
proof -
  have "x = m" if "x \<in> set rows" "qm_id x = qm_id m" for x
    using assms(1,2) that by (auto simp: row_ids_def distinct_map dest: inj_onD)
  then have "(if qm_id x = qm_id m then f x else x) = x" if "x \<in> set rows" for x
    using assms(3) that by (cases "qm_id x = qm_id m") auto
  then show ?thesis by (simp add: change_row_def map_idI)
qed

lemma insert_fields_at:
  assumes "queue_ops_ok ops" "n < length (qo_value ops c)" "qo_value ops c ! n = JObj ms"
  shows "\<exists>c'. insert_fields ops n fs c = Inr c'
    \<and> qo_value ops c' = (qo_value ops c)[n := JObj (fold (\<lambda>(k, v). AList.update k v) fs ms)]"
  using assms(2,3)
proof (induction fs arbitrary: c ms)
  case Nil
  then show ?case by simp (metis list_update_id)
next
  case (Cons f fs)
  obtain k v where f: "f = (k, v)" by (cases f)
  obtain c1 where c1: "qo_map_insert ops n k v c = Some c1"
    "qo_value ops c1 = (qo_value ops c)[n := JObj (AList.update k v ms)]"
    using queue_ops_okD(2) [OF assms(1) Cons.prems] by blast
  then have "n < length (qo_value ops c1)" "qo_value ops c1 ! n = JObj (AList.update k v ms)"
    using Cons.prems(1) by simp_all
  from Cons.IH [OF this] show ?case using f c1 by auto
qed

lemma found_row: "find_row (qm_id m) rows = Some m" if "distinct (row_ids rows)" "m \<in> set rows"
  using that by (simp add: find_row_def row_ids_def find_distinct)

lemma set_gate_refines:
  assumes "queue_ops_ok ops" "clean ops c" "case gate of None \<Rightarrow> True | Some g \<Rightarrow> gate_ok g"
  shows "\<exists>c'. map_sum id (map_prod Changed id) (set_queued_delivery_gate ops i gate c)
      = Inr (fst (row_apply (SetGate i gate) (read_queue ops c)), c')
    \<and> clean ops c' \<and> read_queue ops c' = snd (row_apply (SetGate i gate) (read_queue ops c))"
proof (cases "find_row i (read_queue ops c)")
  case None
  then have "index_of ops i c = None" using index_rows [OF assms(2), of i] by (simp add: find_row_position)
  then show ?thesis using assms(2) None by (simp add: set_queued_delivery_gate_def change_absent)
next
  case (Some m)
  then have m: "m \<in> set (read_queue ops c)" "qm_id m = i" using find_row_SomeD by blast+
  obtain n ms where n: "index_of ops (qm_id m) c = Some n" "n < length (qo_value ops c)"
    "qo_value ops c ! n = JObj ms" "queued_from_json (JObj ms) = Some m" "map_at ops n c = Some (JObj ms)"
    "map_of ms ''text'' = Some (JStr (qm_text m))"
    using row_at [OF assms(2) m(1)] by metis
  let ?ms = "case gate of Some g \<Rightarrow> AList.update ''deliveryGate'' (gate_to_json g) ms
    | None \<Rightarrow> AList.delete ''deliveryGate'' ms"
  obtain c' where c': "set_queued_delivery_gate ops i gate c = Inr (True, c')"
    "qo_value ops c' = (qo_value ops c)[n := JObj ?ms]"
  proof (cases gate)
    case None
    obtain c1 where "qo_map_delete ops n ''deliveryGate'' c = Some c1"
      "qo_value ops c1 = (qo_value ops c)[n := JObj (AList.delete ''deliveryGate'' ms)]"
      using queue_ops_okD(5) [OF assms(1) n(2,3)] by blast
    then show ?thesis using that [of c1] None n(1,5) m(2) by (simp add: set_queued_delivery_gate_def)
  next
    case (Some g)
    obtain c1 where "qo_map_insert ops n ''deliveryGate'' (gate_to_json g) c = Some c1"
      "qo_value ops c1 = (qo_value ops c)[n := JObj (AList.update ''deliveryGate'' (gate_to_json g) ms)]"
      using queue_ops_okD(2) [OF assms(1) n(2,3)] by blast
    then show ?thesis using that [of c1] Some n(1,5) m(2) by (simp add: set_queued_delivery_gate_def)
  qed
  have get: "json_get k (JObj ?ms) = (if k = ''deliveryGate'' then map_option gate_to_json gate
      else json_get k (JObj ms))" for k
    by (cases gate) (simp_all add: update_conv' delete_conv')
  have "decode_gate (JObj ?ms) = gate"
  proof (cases gate)
    case None
    then show ?thesis unfolding decode_gate_def get by simp
  next
    case (Some g)
    then show ?thesis using assms(3) decode_encoded_gate [of "JObj ?ms" gate] get
      by (simp add: gate_ok_def)
  qed
  moreover obtain raw where "str_member ''text'' (JObj ms) = Some (qm_text m)" "\<not> blank (qm_text m)"
    "i64_member ''editedAt'' (JObj ms) = qm_edited_at m"
    using decoded_fields [OF n(4)] by metis
  moreover have "(case Option.bind (json_get ''attachments'' (JObj ms)) json_strings of Some ss \<Rightarrow> ss | None \<Rightarrow> [])
      = qm_attachments m"
    using n(4) by (auto simp: queued_from_json_def split: option.splits if_splits)
  ultimately have dec: "queued_from_json (JObj ?ms) = Some (m\<lparr>qm_delivery_gate := gate\<rparr>)"
    using decode_edit [OF n(4), of "JObj ?ms" "qm_text m" "qm_edited_at m" "qm_attachments m" gate]
    unfolding str_member_def i64_member_def get by simp
  have "clean ops c' \<and> read_queue ops c'
      = change_row (qm_id m) (\<lambda>_. m\<lparr>qm_delivery_gate := gate\<rparr>) (read_queue ops c)"
    by (rule replace_row [OF assms(2) m(1) n(1) dec _ _ c'(2)]) (simp_all only: get n(3), simp_all)
  then show ?thesis
    using c'(1) Some m change_row_same [OF read_ids_distinct [OF assms(2)] m(1), of "\<lambda>m. m\<lparr>qm_delivery_gate := gate\<rparr>"]
    by simp
qed

text \<open>What the members of an edited row decode to.\<close>

definition edit_fields ::
    "string option \<Rightarrow> string list option \<Rightarrow> int \<Rightarrow> queued_message \<Rightarrow> (string \<times> json) list" where
  "edit_fields replacement attachments now m =
     (case replacement of
        None \<Rightarrow> []
      | Some body \<Rightarrow> if qm_text m = body then [] else [(''text'', JStr body), (''editedAt'', JInt now)])
     @ (case attachments of
          None \<Rightarrow> [] | Some paths \<Rightarrow> [(''attachments'', JArr (map JStr paths)), (''editedAt'', JInt now)])"

lemma edited_members:
  "json_get k (JObj (fold (\<lambda>(k, v). AList.update k v) (edit_fields replacement attachments now m) ms))
     = (let m' = reattached attachments now (retyped replacement now m)
        in if k = ''text'' \<and> qm_text m' \<noteq> qm_text m then Some (JStr (qm_text m'))
           else if k = ''editedAt'' \<and> edit_fields replacement attachments now m \<noteq> [] then Some (JInt now)
           else if k = ''attachments'' \<and> attachments \<noteq> None then Some (JArr (map JStr (qm_attachments m')))
           else json_get k (JObj ms))"
  by (auto simp: edit_fields_def retyped_def reattached_def update_conv' Let_def split: option.splits)

lemma edited_decodes:
  assumes old: "queued_from_json (JObj ms) = Some m" and now: "i64 now"
    and body: "\<And>body. replacement = Some body \<Longrightarrow> \<not> blank body"
    and w: "\<And>k. k \<noteq> ''deliveryGate'' \<Longrightarrow> json_get k w = json_get k (JObj
      (fold (\<lambda>(k, v). AList.update k v) (edit_fields replacement attachments now m) ms))"
  shows "queued_from_json w
    = Some ((reattached attachments now (retyped replacement now m))\<lparr>qm_delivery_gate := decode_gate w\<rparr>)"
proof -
  let ?m = "reattached attachments now (retyped replacement now m)"
  obtain raw where raw: "str_member ''text'' (JObj ms) = Some (qm_text m)" "\<not> blank (qm_text m)"
    "qm_edited_at m = i64_member ''editedAt'' (JObj ms)"
    using decoded_fields [OF old] by metis
  have att: "(case Option.bind (json_get ''attachments'' (JObj ms)) json_strings of Some ss \<Rightarrow> ss | None \<Rightarrow> [])
      = qm_attachments m"
    using old by (auto simp: queued_from_json_def split: option.splits if_splits)
  have m: "?m = m\<lparr>qm_text := qm_text ?m, qm_edited_at := qm_edited_at ?m, qm_attachments := qm_attachments ?m\<rparr>"
    by (auto simp: retyped_def reattached_def split: option.splits)
  have get: "json_get k w = (if k = ''text'' \<and> qm_text ?m \<noteq> qm_text m then Some (JStr (qm_text ?m))
           else if k = ''editedAt'' \<and> edit_fields replacement attachments now m \<noteq> [] then Some (JInt now)
           else if k = ''attachments'' \<and> attachments \<noteq> None then Some (JArr (map JStr (qm_attachments ?m)))
           else json_get k (JObj ms))" if "k \<noteq> ''deliveryGate''" for k
    using w [OF that] unfolding edited_members Let_def .
  have "queued_from_json w = Some (m\<lparr>qm_text := qm_text ?m, qm_edited_at := qm_edited_at ?m,
      qm_attachments := qm_attachments ?m, qm_delivery_gate := decode_gate w\<rparr>)"
  proof (rule decode_edit [OF old])
    show "str_member ''text'' w = Some (qm_text ?m)"
      using get [of "''text''"] raw(1) by (auto simp: str_member_def)
    show "\<not> blank (qm_text ?m)"
      using raw(2) body by (auto simp: retyped_def reattached_def split: option.splits)
    show "i64_member ''editedAt'' w = qm_edited_at ?m"
      using get [of "''editedAt''"] raw(3) now
      by (auto simp: i64_member_def edit_fields_def retyped_def reattached_def split: option.splits if_splits)
    show "(case Option.bind (json_get ''attachments'' w) json_strings of Some ss \<Rightarrow> ss | None \<Rightarrow> []) = qm_attachments ?m"
      using get [of "''attachments''"] att
      by (auto simp: retyped_def reattached_def split: option.splits if_splits)
  qed (use get in auto)
  then show ?thesis by (subst m) simp
qed

lemma edit_id: "qm_id (reattached attachments now (retyped replacement now m)) = qm_id m"
  by (simp add: reattached_def retyped_def split: option.splits)

lemma set_text_refines:
  assumes "queue_ops_ok ops" "clean ops c" "i64 now"
  shows "\<exists>c'. map_sum id (map_prod Changed id) (set_queued_text ops i body now c)
      = Inr (fst (row_apply (SetText i body now) (read_queue ops c)), c')
    \<and> clean ops c' \<and> read_queue ops c' = snd (row_apply (SetText i body now) (read_queue ops c))"
proof (cases "blank body")
  case True
  then show ?thesis using remove_refines [OF assms(1,2), of i] by (auto simp: set_queued_text_def)
next
  case False
  show ?thesis
  proof (cases "find_row i (read_queue ops c)")
    case None
    then have "index_of ops i c = None" using index_rows [OF assms(2), of i] by (simp add: find_row_position)
    then show ?thesis using assms(2) None False by (simp add: set_queued_text_def)
  next
    case (Some m)
    then have m: "m \<in> set (read_queue ops c)" "qm_id m = i" using find_row_SomeD by blast+
    obtain n ms where n: "index_of ops (qm_id m) c = Some n" "n < length (qo_value ops c)"
      "qo_value ops c ! n = JObj ms" "queued_from_json (JObj ms) = Some m" "map_at ops n c = Some (JObj ms)"
      "map_of ms ''text'' = Some (JStr (qm_text m))"
      using row_at [OF assms(2) m(1)] by metis
    let ?fs = "edit_fields (Some body) None now m"
    obtain c' where c': "insert_fields ops n ?fs c = Inr c'"
      "qo_value ops c' = (qo_value ops c)[n := JObj (fold (\<lambda>(k, v). AList.update k v) ?fs ms)]"
      using insert_fields_at [OF assms(1) n(2,3)] by blast
    let ?w = "JObj (fold (\<lambda>(k, v). AList.update k v) ?fs ms)"
    have gate: "decode_gate ?w = qm_delivery_gate m"
      unfolding decoded_gate [OF n(4)] decode_gate_def edited_members Let_def by simp
    have dec: "queued_from_json ?w = Some (retyped (Some body) now m)"
      using edited_decodes [OF n(4) assms(3), of "Some body" ?w None] False unfolding gate
      by (simp add: reattached_def) (simp add: retyped_def)
    have rows: "clean ops c' \<and> read_queue ops c' = change_row i (retyped (Some body) now) (read_queue ops c)"
      using replace_row [OF assms(2) m(1) n(1) dec _ _ c'(2)] edit_id [of None now "Some body" m]
        change_row_same [OF read_ids_distinct [OF assms(2)] m(1), of "retyped (Some body) now"] m(2)
      by (simp only: edited_members n(3) Let_def) (simp add: reattached_def)
    show ?thesis
    proof (cases "qm_text m = body")
      case True
      have "retyped (Some body) now m = m" using True by (simp add: retyped_def)
      then have "change_row i (retyped (Some body) now) (read_queue ops c) = read_queue ops c"
        using change_row_id [OF read_ids_distinct [OF assms(2)] m(1)] m(2) by blast
      moreover have "set_queued_text ops i body now c = Inr (False, c)"
        using n(1,5,6) m(2) True False by (simp add: set_queued_text_def str_member_def)
      ultimately show ?thesis using True False Some assms(2) by simp
    next
      case diff: False
      then have "set_queued_text ops i body now c = Inr (True, c')"
        using False n(1,5,6) m(2) c'(1) by (simp add: set_queued_text_def str_member_def edit_fields_def)
      then show ?thesis using rows False Some diff by simp
    qed
  qed
qed

lemma finish_refines:
  assumes "queue_ops_ok ops" "clean ops c" "i64 now"
  shows "\<exists>c'. map_sum id (map_prod Changed id) (finish_queued_edit ops i replacement attachments now c)
      = Inr (fst (row_apply (FinishEdit i replacement attachments now) (read_queue ops c)), c')
    \<and> clean ops c' \<and> read_queue ops c' = snd (row_apply (FinishEdit i replacement attachments now) (read_queue ops c))"
proof (cases "case replacement of None \<Rightarrow> False | Some body \<Rightarrow> blank body")
  case True
  then show ?thesis using remove_refines [OF assms(1,2), of i] by (auto simp: finish_queued_edit_def)
next
  case False
  show ?thesis
  proof (cases "find_row i (read_queue ops c)")
    case None
    then have "index_of ops i c = None" using index_rows [OF assms(2), of i] by (simp add: find_row_position)
    then show ?thesis using assms(2) None False by (simp add: finish_queued_edit_def change_absent)
  next
    case (Some m)
    then have m: "m \<in> set (read_queue ops c)" "qm_id m = i" using find_row_SomeD by blast+
    obtain n ms where n: "index_of ops (qm_id m) c = Some n" "n < length (qo_value ops c)"
      "qo_value ops c ! n = JObj ms" "queued_from_json (JObj ms) = Some m" "map_at ops n c = Some (JObj ms)"
      "map_of ms ''text'' = Some (JStr (qm_text m))"
      using row_at [OF assms(2) m(1)] by metis
    let ?fs = "edit_fields replacement attachments now m"
    let ?ms = "fold (\<lambda>(k, v). AList.update k v) ?fs ms"
    let ?edit = "\<lambda>m. (reattached attachments now (retyped replacement now m))\<lparr>qm_delivery_gate := None\<rparr>"
    obtain c1 where c1: "insert_fields ops n ?fs c = Inr c1" "qo_value ops c1 = (qo_value ops c)[n := JObj ?ms]"
      using insert_fields_at [OF assms(1) n(2,3)] by blast
    then have "n < length (qo_value ops c1)" "qo_value ops c1 ! n = JObj ?ms" using n(2) by simp_all
    from queue_ops_okD(5) [OF assms(1) this, of "''deliveryGate''"] c1(2) obtain c' where
      c': "qo_map_delete ops n ''deliveryGate'' c1 = Some c'"
        "qo_value ops c' = (qo_value ops c)[n := JObj (AList.delete ''deliveryGate'' ?ms)]" by auto
    let ?w = "JObj (AList.delete ''deliveryGate'' ?ms)"
    have get: "json_get k ?w = (if k = ''deliveryGate'' then None else json_get k (JObj ?ms))" for k
      by (simp add: delete_conv')
    have gate: "decode_gate ?w = None" unfolding decode_gate_def get by simp
    have "queued_from_json ?w
        = Some ((reattached attachments now (retyped replacement now m))\<lparr>qm_delivery_gate := decode_gate ?w\<rparr>)"
      by (rule edited_decodes [OF n(4) assms(3)]) (use False in simp, simp only: get if_False)
    then have dec: "queued_from_json ?w = Some (?edit m)" unfolding gate .
    have "clean ops c' \<and> read_queue ops c' = change_row (qm_id m) (\<lambda>_. ?edit m) (read_queue ops c)"
    proof (rule replace_row [OF assms(2) m(1) n(1) dec _ _ c'(2)])
      show "qm_id (?edit m) = qm_id m" using edit_id by simp
      show "json_get ''id'' ?w = json_get ''id'' (qo_value ops c ! n)"
        unfolding get edited_members n(3) Let_def by simp
    qed
    moreover have "finish_queued_edit ops i replacement attachments now c = Inr (True, c')"
    proof -
      have "str_member ''text'' (JObj ms) = Some (qm_text m)" using n(6) by (simp add: str_member_def)
      then show ?thesis using False n(1,5) m(2) c1(1) c'(1)
        by (cases replacement) (simp_all add: finish_queued_edit_def edit_fields_def Let_def)
    qed
    ultimately show ?thesis
      using False Some m(2) change_row_same [OF read_ids_distinct [OF assms(2)] m(1), of ?edit] by simp
  qed
qed

lemma queue_op_refines:
  assumes "queue_ops_ok ops" "clean ops c" "op_ok q (read_queue ops c)"
  shows "\<exists>c'. queue_apply ops q c = Inr (fst (row_apply q (read_queue ops c)), c')
    \<and> clean ops c' \<and> read_queue ops c' = snd (row_apply q (read_queue ops c))"
proof (cases q)
  case (PushRow item)
  then show ?thesis using push_refines [OF assms(1,2), of item] assms(3) by auto
next
  case (InsertRow n item)
  then show ?thesis using insert_refines [OF assms(1,2), of item n] assms(3) by auto
next
  case (RemoveRow i)
  then show ?thesis using remove_refines [OF assms(1,2), of i] by auto
next
  case (TakeRow i)
  then show ?thesis using take_refines [OF assms(1,2), of i] by simp
next
  case (MoveRow i n)
  then show ?thesis using move_refines [OF assms(1,2), of i n] by simp
next
  case (SetText i body now)
  then show ?thesis using set_text_refines [OF assms(1,2), of now i body] assms(3) by simp
next
  case (SetGate i gate)
  then show ?thesis using set_gate_refines [OF assms(1,2), of gate i] assms(3) by simp
next
  case (FinishEdit i replacement attachments now)
  then show ?thesis using finish_refines [OF assms(1,2), of now i replacement attachments] assms(3) by simp
qed

text \<open>C15: the stored queue is a list of rows: on a container whose rows decode under distinct ids, every
  queue operation succeeds, answers as its specification on the list of rows does, and leaves a
  container that decodes to the list the specification leaves.\<close>

theorem queue_refines_rows:
  assumes "queue_ops_ok ops" "clean ops c" "op_ok q (read_queue ops c)"
  shows "\<exists>c'. queue_apply ops q c = Inr (fst (row_apply q (read_queue ops c)), c')
    \<and> clean ops c' \<and> read_queue ops c' = snd (row_apply q (read_queue ops c))"
  by (rule queue_op_refines [OF assms])

theorem queue_refines_rows_witness:
  "\<exists>c'. queue_apply value_queue_ops (RemoveRow ''m1'') [JObj (queued_fields sample_row)] = Inr (Changed True, c')
    \<and> read_queue value_queue_ops c' = []"
  using queue_refines_rows [OF value_queue_ops_ok, of "[JObj (queued_fields sample_row)]" "RemoveRow ''m1''"]
  by (simp add: value_queue_ops_def queue_clean_def queued_row_roundtrip [OF sample_row_ok] has_id_def
      read_queue_def List.map_filter_simps queued_members find_row_def without_row_def)
    (auto simp: sample_row_def queued_message_new_def)

section \<open>The document as an interface\<close>

text \<open>What the host calls on the document of a chat.\<close>

record 'c document =
  dc_read :: "'c \<Rightarrow> queued_message list"
  dc_push :: "queued_message \<Rightarrow> 'c \<Rightarrow> doc_error + 'c"
  dc_insert :: "nat \<Rightarrow> queued_message \<Rightarrow> 'c \<Rightarrow> doc_error + 'c"
  dc_remove :: "string \<Rightarrow> 'c \<Rightarrow> doc_error + bool \<times> 'c"
  dc_take :: "string \<Rightarrow> 'c \<Rightarrow> doc_error + queued_message option \<times> 'c"
  dc_move :: "string \<Rightarrow> nat \<Rightarrow> 'c \<Rightarrow> doc_error + bool \<times> 'c"
  dc_set_text :: "string \<Rightarrow> string \<Rightarrow> int \<Rightarrow> 'c \<Rightarrow> doc_error + bool \<times> 'c"
  dc_set_gate :: "string \<Rightarrow> queue_delivery_gate option \<Rightarrow> 'c \<Rightarrow> doc_error + bool \<times> 'c"
  dc_finish :: "string \<Rightarrow> string option \<Rightarrow> string list option \<Rightarrow> int \<Rightarrow> 'c \<Rightarrow> doc_error + bool \<times> 'c"

definition stored_queue :: "'c queue_ops \<Rightarrow> 'c document" where
  "stored_queue ops =
     \<lparr>dc_read = read_queue ops, dc_push = push_queued ops, dc_insert = insert_queued ops,
      dc_remove = remove_queued ops, dc_take = take_queued ops, dc_move = move_queued ops,
      dc_set_text = set_queued_text ops, dc_set_gate = set_queued_delivery_gate ops,
      dc_finish = finish_queued_edit ops\<rparr>"

text \<open>The same interface on a list of rows, by the specification.\<close>

definition row_insert :: "nat \<Rightarrow> queued_message \<Rightarrow> queued_message list \<Rightarrow> doc_error + queued_message list" where
  "row_insert n item rs =
     (if blank (qm_id item) then Inl (SchemaError ''queued message id required'')
      else if blank (qm_text item) then Inl (SchemaError ''queued message text required'')
      else Inr (insert_at (min n (length rs)) item rs))"

definition row_answer :: "queue_op \<Rightarrow> queued_message list \<Rightarrow> doc_error + bool \<times> queued_message list" where
  "row_answer q rs = (case row_apply q rs of (Changed b, rs') \<Rightarrow> Inr (b, rs') | _ \<Rightarrow> Inl LoroError)"

definition row_take :: "string \<Rightarrow> queued_message list \<Rightarrow> queued_message option \<times> queued_message list" where
  "row_take i rs =
     (case find_row i rs of
        None \<Rightarrow> (None, rs)
      | Some m \<Rightarrow> if qm_delivery_gate m \<noteq> None then (None, rs) else (Some m, without_row i rs))"

definition row_list :: "queued_message list document" where
  "row_list =
     \<lparr>dc_read = id, dc_push = \<lambda>item rs. row_insert (length rs) item rs, dc_insert = row_insert,
      dc_remove = \<lambda>i. row_answer (RemoveRow i), dc_take = \<lambda>i rs. Inr (row_take i rs),
      dc_move = \<lambda>i n. row_answer (MoveRow i n), dc_set_text = \<lambda>i body now. row_answer (SetText i body now),
      dc_set_gate = \<lambda>i gate. row_answer (SetGate i gate),
      dc_finish = \<lambda>i body paths now. row_answer (FinishEdit i body paths now)\<rparr>"

definition row_ok :: "queued_message \<Rightarrow> queued_message list \<Rightarrow> bool" where
  "row_ok item rs \<longleftrightarrow> (\<not> blank (qm_text item) \<longrightarrow> queued_ok item) \<and> \<not> blank (qm_id item)
     \<and> qm_id item \<notin> set (row_ids rs)"

text \<open>The laws: on a good document every operation answers as on the list of its rows, and leaves a good
  document with the rows the list is left with.\<close>

locale queue_document =
  fixes d :: "'c document" and good :: "'c \<Rightarrow> bool"
  assumes good_rows: "good c \<Longrightarrow> distinct (row_ids (dc_read d c)) \<and> list_all queued_ok (dc_read d c)"
    and push_law: "good c \<Longrightarrow> row_ok item (dc_read d c) \<Longrightarrow>
      rel_sum (=) (\<lambda>c rs. good c \<and> dc_read d c = rs) (dc_push d item c) (dc_push row_list item (dc_read d c))"
    and insert_law: "good c \<Longrightarrow> row_ok item (dc_read d c) \<Longrightarrow>
      rel_sum (=) (\<lambda>c rs. good c \<and> dc_read d c = rs) (dc_insert d n item c) (dc_insert row_list n item (dc_read d c))"
    and remove_law: "good c \<Longrightarrow> rel_sum (=) (rel_prod (=) (\<lambda>c rs. good c \<and> dc_read d c = rs))
      (dc_remove d i c) (dc_remove row_list i (dc_read d c))"
    and take_law: "good c \<Longrightarrow> rel_sum (=) (rel_prod (=) (\<lambda>c rs. good c \<and> dc_read d c = rs))
      (dc_take d i c) (dc_take row_list i (dc_read d c))"
    and move_law: "good c \<Longrightarrow> rel_sum (=) (rel_prod (=) (\<lambda>c rs. good c \<and> dc_read d c = rs))
      (dc_move d i n c) (dc_move row_list i n (dc_read d c))"
    and set_text_law: "good c \<Longrightarrow> i64 now \<Longrightarrow> rel_sum (=) (rel_prod (=) (\<lambda>c rs. good c \<and> dc_read d c = rs))
      (dc_set_text d i body now c) (dc_set_text row_list i body now (dc_read d c))"
    and set_gate_law: "good c \<Longrightarrow> (case gate of None \<Rightarrow> True | Some g \<Rightarrow> gate_ok g) \<Longrightarrow>
      rel_sum (=) (rel_prod (=) (\<lambda>c rs. good c \<and> dc_read d c = rs))
      (dc_set_gate d i gate c) (dc_set_gate row_list i gate (dc_read d c))"
    and finish_law: "good c \<Longrightarrow> i64 now \<Longrightarrow> rel_sum (=) (rel_prod (=) (\<lambda>c rs. good c \<and> dc_read d c = rs))
      (dc_finish d i body' paths now c) (dc_finish row_list i body' paths now (dc_read d c))"
begin
end

lemma row_list_simps:
  "dc_read row_list rs = rs" "dc_push row_list item rs = row_insert (length rs) item rs"
  "dc_insert row_list n item rs = row_insert n item rs" "dc_take row_list i rs = Inr (row_take i rs)"
  by (simp_all add: row_list_def)

text \<open>The stored queue keeps the laws.\<close>

lemma answer_law:
  assumes "queue_ops_ok ops" "clean ops c" "op_ok q (read_queue ops c)"
    and "queue_apply ops q c = map_sum id (map_prod Changed id) r"
  shows "rel_sum (=) (rel_prod (=) (\<lambda>c rs. (queue_ops_ok ops \<and> clean ops c) \<and> read_queue ops c = rs))
    r (row_answer q (read_queue ops c))"
proof -
  obtain c' where c': "queue_apply ops q c = Inr (fst (row_apply q (read_queue ops c)), c')"
    "clean ops c'" "read_queue ops c' = snd (row_apply q (read_queue ops c))"
    using queue_op_refines [OF assms(1-3)] by blast
  obtain x where x: "r = Inr x"
    using assms(4) c'(1) by (cases r) simp_all
  then have ans: "fst (row_apply q (read_queue ops c)) = Changed (fst x)" "c' = snd x"
    using assms(4) c'(1) by (simp_all add: prod_eq_iff)
  have "row_answer q (read_queue ops c) = Inr (fst x, read_queue ops c')"
    using ans(1) c'(3) by (auto simp: row_answer_def split: prod.split)
  then show ?thesis using x ans(2) c'(2) assms(1) by (simp add: rel_prod_sel)
qed

interpretation stored: queue_document "stored_queue ops" "\<lambda>c. queue_ops_ok ops \<and> clean ops c" for ops
proof
  fix c item n i body now gate body' paths
  assume good: "queue_ops_ok ops \<and> clean ops c"
  let ?R = "\<lambda>c rs. (queue_ops_ok ops \<and> clean ops c) \<and> dc_read (stored_queue ops) c = rs"
  note ok = conjunct1 [OF good] and cl = conjunct2 [OF good]
  show "distinct (row_ids (dc_read (stored_queue ops) c)) \<and> list_all queued_ok (dc_read (stored_queue ops) c)"
    using read_ids_distinct [OF cl] read_ok [OF cl] by (simp add: stored_queue_def list_all_iff)
  {
    assume new: "row_ok item (dc_read (stored_queue ops) c)"
    show ins: "rel_sum (=) ?R (dc_insert (stored_queue ops) n item c) (dc_insert row_list n item (dc_read (stored_queue ops) c))"
    for n
    proof (cases "blank (qm_text item)")
      case True
      then show ?thesis using new by (simp add: stored_queue_def row_list_def row_insert_def insert_queued_def row_ok_def)
    next
      case False
      then have fresh: "queued_ok item" "qm_id item \<notin> set (row_ids (read_queue ops c))"
        using new by (simp_all add: row_ok_def stored_queue_def)
      obtain c' where "insert_queued ops n item c = Inr c'" "clean ops c'"
        "read_queue ops c' = insert_at (min n (length (read_queue ops c))) item (read_queue ops c)"
        using insert_refines [OF ok cl fresh] by blast
      then show ?thesis using ok False fresh(1)
        by (simp add: stored_queue_def row_list_def row_insert_def queued_ok_def)
    qed
    show "rel_sum (=) ?R (dc_push (stored_queue ops) item c) (dc_push row_list item (dc_read (stored_queue ops) c))"
      using ins [of "length (read_queue ops c)"] length_read [OF cl]
      by (simp add: stored_queue_def row_list_def push_is_insert)
  }
  show "rel_sum (=) (rel_prod (=) ?R) (dc_remove (stored_queue ops) i c) (dc_remove row_list i (dc_read (stored_queue ops) c))"
    using answer_law [OF ok cl, of "RemoveRow i"] by (simp add: stored_queue_def row_list_def)
  show "rel_sum (=) (rel_prod (=) ?R) (dc_move (stored_queue ops) i n c) (dc_move row_list i n (dc_read (stored_queue ops) c))"
    using answer_law [OF ok cl, of "MoveRow i n"] by (simp add: stored_queue_def row_list_def)
  show "rel_sum (=) (rel_prod (=) ?R) (dc_take (stored_queue ops) i c) (dc_take row_list i (dc_read (stored_queue ops) c))"
  proof -
    obtain c' where c': "map_sum id (map_prod Took id) (take_queued ops i c)
        = Inr (fst (row_apply (TakeRow i) (read_queue ops c)), c')"
      "clean ops c'" "read_queue ops c' = snd (row_apply (TakeRow i) (read_queue ops c))"
      using take_refines [OF ok cl, of i] by blast
    have "row_apply (TakeRow i) (read_queue ops c)
        = (Took (fst (row_take i (read_queue ops c))), snd (row_take i (read_queue ops c)))"
      by (simp add: row_take_def split: option.split)
    then show ?thesis using c' ok
      by (cases "take_queued ops i c") (auto simp: stored_queue_def row_list_def rel_prod_sel)
  qed
  show "i64 now \<Longrightarrow> rel_sum (=) (rel_prod (=) ?R) (dc_set_text (stored_queue ops) i body now c)
      (dc_set_text row_list i body now (dc_read (stored_queue ops) c))"
    using answer_law [OF ok cl, of "SetText i body now"] by (simp add: stored_queue_def row_list_def)
  show "(case gate of None \<Rightarrow> True | Some g \<Rightarrow> gate_ok g) \<Longrightarrow> rel_sum (=) (rel_prod (=) ?R)
      (dc_set_gate (stored_queue ops) i gate c) (dc_set_gate row_list i gate (dc_read (stored_queue ops) c))"
    using answer_law [OF ok cl, of "SetGate i gate"] by (simp add: stored_queue_def row_list_def)
  show "i64 now \<Longrightarrow> rel_sum (=) (rel_prod (=) ?R) (dc_finish (stored_queue ops) i body' paths now c)
      (dc_finish row_list i body' paths now (dc_read (stored_queue ops) c))"
    using answer_law [OF ok cl, of "FinishEdit i body' paths now"] by (simp add: stored_queue_def row_list_def)
qed

end
