(* ===== verification/Queue_Host.thy ===== *)
theory Queue_Host
  imports Queue_Rows Command_Ledger
begin

text \<open>
  The queue half of \<open>crates/engine/src/doc_host.rs\<close>: what the device that hosts a chat does with its
  queued messages. Edit leases and their timers, draining, sending and steering one row, stopping,
  and holding a message for the end of a turn. The rows live in the session document, through the
  operations of \<open>Message_Queue\<close>; what the host adds is a pause flag, the rows it steered, the requests it
  holds, the drain lock and the timers it armed. An operation under the lock that waits for the
  agent is two steps, so whatever needs no lock may happen in between. The hash of a text, the
  clock and what the sessions engine answers are inputs.
\<close>

section \<open>State\<close>

definition QUEUE_EDIT_LEASE_MS :: int where "QUEUE_EDIT_LEASE_MS = 60000"

datatype queue_send = NextTurn | SteerIn | InterruptFirst

datatype delivery = Steered string | Ran run_request

text \<open>Who holds the drain lock: nobody, a drain between rows, an operation that has taken a row and
  waits for its dispatch (with whether the queue was paused before), a Stop that waits for the agent.\<close>

datatype lock_holder = Free | Draining | Sending queued_message queue_send bool | Stopping

record 'c queue_host =
  qh_doc :: 'c
  qh_paused :: bool
  qh_steered :: "string list"
  qh_held :: "(string \<times> run_request) list"
  qh_lock :: lock_holder
  qh_messages :: "string list"                    \<comment> \<open>ids of the transcript\<close>
  qh_sent :: "(string \<times> delivery) list"           \<comment> \<open>what reached the agent, oldest first\<close>
  qh_timers :: "(string \<times> string \<times> int) list"    \<comment> \<open>row, lease and time of every armed wake\<close>

datatype steer_outcome = Accepted | NotSteerable | DeferredByUpdate

record queue_env =
  qe_now :: int
  qe_host :: bool
  qe_executor :: bool
  qe_in_flight :: bool                \<comment> \<open>\<open>turn_in_flight\<close>\<close>
  qe_background :: bool               \<comment> \<open>\<open>holds_background_work\<close>\<close>
  qe_defers :: bool                   \<comment> \<open>\<open>defers_to_turn_end\<close>\<close>
  qe_steerable :: bool                \<comment> \<open>\<open>live_run_steerable\<close>\<close>
  qe_steers_mid_turn :: bool
  qe_update_pending :: bool
  qe_uploads :: "uploads option"
  qe_steer :: "string + steer_outcome"
  qe_stops :: bool                    \<comment> \<open>\<open>stop_turn\<close> succeeds\<close>
  qe_last_request :: "run_request option"
  qe_row_request :: "run_request option"
  qe_dispatches :: bool
  qe_interrupt :: "string + bool"
  qe_writes :: bool                   \<comment> \<open>the transcript takes a message\<close>

datatype host_error = NotHost | DocFailed doc_error | Refused string

datatype begin_outcome =
    Acquired string string "string list" string int
  | Locked string int
  | BeginMissing

datatype renew_outcome = Renewed int | RenewLost | RenewMissing

datatype edit_action = Commit | CancelEdit | Discard | ReleaseUnchanged

datatype finish_outcome =
    Committed | EditCancelled | Discarded | Released | Conflict string | FinishLost | FinishMissing

abbreviation rows :: "'c document \<Rightarrow> 'c queue_host \<Rightarrow> queued_message list" where
  "rows d s \<equiv> dc_read d (qh_doc s)"

definition land :: "queue_env \<Rightarrow> string \<Rightarrow> 'c queue_host \<Rightarrow> 'c queue_host" where
  "land e m s =
     (if \<not> qe_writes e \<or> m \<in> set (qh_messages s) then s else s\<lparr>qh_messages := qh_messages s @ [m]\<rparr>)"

section \<open>Prompts and attachments of a row\<close>

definition ATTACHMENT_ONLY_PROMPT :: string where
  "ATTACHMENT_ONLY_PROMPT = ''See the attached image(s).''"

definition ATTACHMENT_PROMPT_HEADER :: string where
  "ATTACHMENT_PROMPT_HEADER =
     ''Attached images (local files '' @ [CHR 0xE2, CHR 0x80, CHR 0x94] @ '' open them to view):''"

definition attachment_trailer :: "string list \<Rightarrow> string" where
  "attachment_trailer attachments =
     [CHR 0x0A, CHR 0x0A] @ ATTACHMENT_PROMPT_HEADER @ [CHR 0x0A]
     @ join_with [CHR 0x0A] (map ((@) ''- '') attachments)"

definition strip_trailer :: "string \<Rightarrow> string \<Rightarrow> string" where
  "strip_trailer trailer body =
     (if suffix trailer body then take (length body - length trailer) body else body)"

definition queued_message_prompt :: "string \<Rightarrow> string list \<Rightarrow> string" where
  "queued_message_prompt body attachments =
     (if attachments = [] then body
      else let trailer = attachment_trailer attachments;
               own = strip_trailer trailer body;
               own' = (if blank own then ATTACHMENT_ONLY_PROMPT else own)
           in own' @ trailer)"

definition missing_row_attachments :: "uploads option \<Rightarrow> queued_message \<Rightarrow> string list" where
  "missing_row_attachments up item =
     (case up of
        None \<Rightarrow> []
      | Some u \<Rightarrow>
          let refs = filter is_pending_ref (qm_attachments item);
              all = fold (\<lambda>r acc. if r \<in> set acc then acc else acc @ [r]) (pending_refs_in (qm_text item)) refs
          in filter (\<lambda>r. resolve_pending u r = None) all)"

section \<open>Queueing\<close>

definition queued_row ::
    "string \<Rightarrow> string \<Rightarrow> string list \<Rightarrow> bool \<Rightarrow> string \<Rightarrow> int \<Rightarrow> string option \<Rightarrow> queued_message" where
  "queued_row i body attachments hold device at origin =
     \<lparr>qm_id = i, qm_text = body, qm_attachments = attachments, qm_hold_for_turn_end = hold,
      qm_issued_by = device, qm_issued_at = at, qm_edited_at = None, qm_delivery_gate = None,
      qm_origin_chat_id = origin, qm_completion_notice = None\<rparr>"

definition queue_message_with_behavior ::
    "'c document \<Rightarrow> queued_message \<Rightarrow> 'c queue_host \<Rightarrow> (host_error + string) \<times> 'c queue_host" where
  "queue_message_with_behavior d item s =
     (case dc_push d item (qh_doc s) of
        Inl err \<Rightarrow> (Inl (DocFailed err), s)
      | Inr c \<Rightarrow> (Inr (qm_id item), s\<lparr>qh_doc := c\<rparr>))"

definition update_queued_message ::
    "'c document \<Rightarrow> string \<Rightarrow> string \<Rightarrow> int \<Rightarrow> 'c queue_host \<Rightarrow> (host_error + bool) \<times> 'c queue_host" where
  "update_queued_message d i body now s =
     (case dc_set_text d i body now (qh_doc s) of
        Inl err \<Rightarrow> (Inl (DocFailed err), s)
      | Inr (changed, c) \<Rightarrow> (Inr changed, s\<lparr>qh_doc := c\<rparr>))"

definition move_queued_message ::
    "'c document \<Rightarrow> string \<Rightarrow> nat \<Rightarrow> 'c queue_host \<Rightarrow> (host_error + bool) \<times> 'c queue_host" where
  "move_queued_message d i n s =
     (case dc_move d i n (qh_doc s) of
        Inl err \<Rightarrow> (Inl (DocFailed err), s)
      | Inr (changed, c) \<Rightarrow> (Inr changed, s\<lparr>qh_doc := c\<rparr>))"

definition remove_queued_message ::
    "'c document \<Rightarrow> queue_env \<Rightarrow> string \<Rightarrow> 'c queue_host \<Rightarrow> (host_error + bool) \<times> 'c queue_host" where
  "remove_queued_message d e i s =
     (if \<not> qe_host e then (Inl NotHost, s)
      else case dc_remove d i (qh_doc s) of
        Inl err \<Rightarrow> (Inl (DocFailed err), s)
      | Inr (removed, c) \<Rightarrow> (Inr removed, s\<lparr>qh_doc := c\<rparr>))"

section \<open>Edit leases\<close>

definition begin_queued_message_edit ::
    "'c document \<Rightarrow> (string \<Rightarrow> string) \<Rightarrow> queue_env \<Rightarrow> string \<Rightarrow> string \<Rightarrow> string \<Rightarrow> string \<Rightarrow> 'c queue_host
     \<Rightarrow> (host_error + begin_outcome) \<times> 'c queue_host" where
  "begin_queued_message_edit d hash e lease i device inst s =
     (if \<not> qe_host e then (Inl NotHost, s)
      else case find_row i (rows d s) of
        None \<Rightarrow> (Inr BeginMissing, s)
      | Some item \<Rightarrow>
          let take_lease =
            (let expires = qe_now e + QUEUE_EDIT_LEASE_MS;
                 gate = Editing lease device inst (qe_now e) expires (hash (qm_text item))
             in case dc_set_gate d i (Some gate) (qh_doc s) of
                  Inl err \<Rightarrow> (Inl (DocFailed err), s)
                | Inr (False, c) \<Rightarrow> (Inr BeginMissing, s\<lparr>qh_doc := c\<rparr>)
                | Inr (True, c) \<Rightarrow>
                    (Inr (Acquired lease (qm_text item) (qm_attachments item) (hash (qm_text item)) expires),
                     s\<lparr>qh_doc := c, qh_timers := (i, lease, expires) # qh_timers s\<rparr>))
          in case qm_delivery_gate item of
               Some (Editing _ device' _ _ expires _) \<Rightarrow>
                 if qe_now e < expires then (Inr (Locked device' expires), s) else take_lease
             | _ \<Rightarrow> take_lease)"

definition renew_queued_message_edit ::
    "'c document \<Rightarrow> queue_env \<Rightarrow> string \<Rightarrow> string \<Rightarrow> 'c queue_host
     \<Rightarrow> (host_error + renew_outcome) \<times> 'c queue_host" where
  "renew_queued_message_edit d e i lease s =
     (if \<not> qe_host e then (Inl NotHost, s)
      else case find_row i (rows d s) of
        None \<Rightarrow> (Inr RenewMissing, s)
      | Some item \<Rightarrow>
          (case qm_delivery_gate item of
             Some (Editing current device inst acquired expires base) \<Rightarrow>
               if current \<noteq> lease \<or> expires \<le> qe_now e
               then (Inr RenewLost,
                     if current = lease \<and> expires \<le> qe_now e
                     then (case dc_set_gate d i
                                 (Some (ReviewRequired current device (qe_now e) base)) (qh_doc s) of
                             Inl _ \<Rightarrow> s | Inr (_, c) \<Rightarrow> s\<lparr>qh_doc := c\<rparr>)
                     else s)
               else let expires' = qe_now e + QUEUE_EDIT_LEASE_MS
                    in (case dc_set_gate d i
                              (Some (Editing current device inst acquired expires' base)) (qh_doc s) of
                          Inl err \<Rightarrow> (Inl (DocFailed err), s)
                        | Inr (False, c) \<Rightarrow> (Inr RenewMissing, s\<lparr>qh_doc := c\<rparr>)
                        | Inr (True, c) \<Rightarrow>
                            (Inr (Renewed expires'),
                             s\<lparr>qh_doc := c, qh_timers := (i, lease, expires') # qh_timers s\<rparr>))
           | _ \<Rightarrow> (Inr RenewLost, s)))"

text \<open>The lease a gate belongs to and the hash of the text it was taken on.\<close>

fun gate_lease :: "queue_delivery_gate \<Rightarrow> string \<times> string" where
  "gate_lease (Editing lease _ _ _ _ base) = (lease, base)"
| "gate_lease (ReviewRequired lease _ _ base) = (lease, base)"

definition finish_queued_message_edit ::
    "'c document \<Rightarrow> (string \<Rightarrow> string) \<Rightarrow> queue_env \<Rightarrow> string \<Rightarrow> string \<Rightarrow> edit_action \<Rightarrow> string option
     \<Rightarrow> string option \<Rightarrow> string list option \<Rightarrow> 'c queue_host \<Rightarrow> (host_error + finish_outcome) \<times> 'c queue_host" where
  "finish_queued_message_edit d hash e i lease action body expected attachments s =
     (if \<not> qe_host e then (Inl NotHost, s)
      else if action = Commit \<and> (body = None \<or> expected = None)
      then (Inl (Refused ''commit requires text and expectedTextHash''), s)
      else case find_row i (rows d s) of
        None \<Rightarrow> (Inr FinishMissing, s)
      | Some item \<Rightarrow>
          (case qm_delivery_gate item of
             None \<Rightarrow> (Inr FinishLost, s)
           | Some gate \<Rightarrow>
               let (current, base) = gate_lease gate
               in if current \<noteq> lease then (Inr FinishLost, s)
                  else if action = Commit \<and> (expected \<noteq> Some base \<or> hash (qm_text item) \<noteq> base)
                  then (Inr (Conflict (qm_text item)), s)
                  else case dc_finish d i
                         (case action of Commit \<Rightarrow> Some (case body of Some b \<Rightarrow> b | None \<Rightarrow> [])
                          | Discard \<Rightarrow> Some [] | _ \<Rightarrow> None)
                         (if action = Commit then attachments else None) (qe_now e) (qh_doc s) of
                       Inl err \<Rightarrow> (Inl (DocFailed err), s)
                     | Inr (False, c) \<Rightarrow> (Inr FinishMissing, s\<lparr>qh_doc := c\<rparr>)
                     | Inr (True, c) \<Rightarrow>
                         (Inr (case action of Commit \<Rightarrow> Committed | CancelEdit \<Rightarrow> EditCancelled
                               | Discard \<Rightarrow> Discarded | ReleaseUnchanged \<Rightarrow> Released),
                          s\<lparr>qh_doc := c\<rparr>)))"

text \<open>The wake a lease scheduled: a stale one observes another lease or another deadline.\<close>

definition expire_queued_message_edit ::
    "'c document \<Rightarrow> queue_env \<Rightarrow> string \<Rightarrow> string \<Rightarrow> int \<Rightarrow> 'c queue_host \<Rightarrow> 'c queue_host" where
  "expire_queued_message_edit d e i lease scheduled s =
     (case find_row i (rows d s) of
        None \<Rightarrow> s
      | Some item \<Rightarrow>
          (case qm_delivery_gate item of
             Some (Editing current device _ _ expires base) \<Rightarrow>
               if current \<noteq> lease \<or> expires \<noteq> scheduled \<or> qe_now e < expires then s
               else (case dc_set_gate d i
                           (Some (ReviewRequired current device (qe_now e) base)) (qh_doc s) of
                       Inl _ \<Rightarrow> s | Inr (_, c) \<Rightarrow> s\<lparr>qh_doc := c\<rparr>)
           | _ \<Rightarrow> s))"

text \<open>Reopening the chat arms a wake for every lease the document still has.\<close>

definition arm_existing_queue_edit_expiries :: "'c document \<Rightarrow> 'c queue_host \<Rightarrow> 'c queue_host" where
  "arm_existing_queue_edit_expiries d s =
     s\<lparr>qh_timers := List.map_filter (\<lambda>m. case qm_delivery_gate m of
                       Some (Editing lease _ _ _ expires _) \<Rightarrow> Some (qm_id m, lease, expires) | _ \<Rightarrow> None) (rows d s)
                   @ qh_timers s\<rparr>"

section \<open>Holding and steering\<close>

text \<open>A steered row goes after the rows already steered, ahead of every ordinary row.\<close>

definition steer_slot :: "'c document \<Rightarrow> string \<Rightarrow> 'c queue_host \<Rightarrow> nat \<times> 'c queue_host" where
  "steer_slot d i s =
     (let steered = filter (\<lambda>r. r \<in> set (row_ids (rows d s))) (qh_steered s);
          slot = length (takeWhile (\<lambda>m. qm_id m \<in> set steered) (rows d s))
      in (slot, s\<lparr>qh_steered := steered @ [i]\<rparr>))"

definition insert_steered :: "'c document \<Rightarrow> queued_message \<Rightarrow> 'c queue_host \<Rightarrow> doc_error + 'c queue_host" where
  "insert_steered d item s =
     (let (slot, s') = steer_slot d (qm_id item) s
      in case dc_insert d slot item (qh_doc s') of
           Inl err \<Rightarrow> Inl err
         | Inr c \<Rightarrow> Inr (s'\<lparr>qh_doc := c\<rparr>))"

definition hold_until_turn_end ::
    "'c document \<Rightarrow> queue_env \<Rightarrow> string \<Rightarrow> string \<Rightarrow> int \<Rightarrow> bool \<Rightarrow> run_request option \<Rightarrow> string
     \<Rightarrow> string option \<Rightarrow> 'c queue_host \<Rightarrow> (host_error + unit) \<times> 'c queue_host" where
  "hold_until_turn_end d e i body issued_at steer request device origin s =
     (let item = queued_row i body (case request of Some r \<Rightarrow> rq_attachments r | None \<Rightarrow> []) False device
                   (min issued_at (qe_now e)) origin
      in if i \<in> set (row_ids (rows d s)) then (Inr (), s)
         else let s1 = (case request of Some r \<Rightarrow> s\<lparr>qh_held := AList.update i r (qh_held s)\<rparr> | None \<Rightarrow> s)
              in if steer
                 then (case insert_steered d item s1 of
                         Inl err \<Rightarrow> (Inl (DocFailed err), snd (steer_slot d i s1))
                       | Inr s2 \<Rightarrow> (Inr (), s2\<lparr>qh_paused := False\<rparr>))
                 else (case dc_push d item (qh_doc s1) of
                         Inl err \<Rightarrow> (Inl (DocFailed err), s1)
                       | Inr c \<Rightarrow> (Inr (), s1\<lparr>qh_doc := c, qh_paused := False\<rparr>)))"

definition held_until_turn_end ::
    "'c document \<Rightarrow> queue_env \<Rightarrow> string \<Rightarrow> string \<Rightarrow> string \<Rightarrow> string option \<Rightarrow> 'c queue_host
     \<Rightarrow> (host_error + bool) \<times> 'c queue_host" where
  "held_until_turn_end d e i body device origin s =
     (let unsteerable = qe_in_flight e \<and> \<not> qe_steerable e
      in if \<not> qe_in_flight e \<or> blank body \<or> (\<not> unsteerable \<and> qe_steers_mid_turn e) then (Inr False, s)
         else map_prod (map_sum id (\<lambda>_. True)) id
                (hold_until_turn_end d e i body (qe_now e) True None device origin s))"

text \<open>A harness switch rewrites the requests held for the turn's end.\<close>

definition rewrite_held_sends_for_switch :: "chat_config \<Rightarrow> 'c queue_host \<Rightarrow> 'c queue_host" where
  "rewrite_held_sends_for_switch config s =
     s\<lparr>qh_held := map (\<lambda>(i, r). (i, r\<lparr>rq_harness := Some (cc_harness config), rq_model := cc_model config,
          rq_reasoning := cc_reasoning config, rq_model_options := cc_model_options config,
          rq_resume := None, rq_provider_fork := None\<rparr>)) (qh_held s)\<rparr>"

section \<open>Dispatch\<close>

definition delivered :: "queue_env \<Rightarrow> string \<Rightarrow> delivery \<Rightarrow> 'c queue_host \<Rightarrow> 'c queue_host" where
  "delivered e i d s = land e i (s\<lparr>qh_sent := qh_sent s @ [(i, d)]\<rparr>)"

text \<open>The request a row starts a turn with: the one it was sent with, or the chat's own with the
  approval and worktree of the previous one.\<close>

definition row_request :: "queue_env \<Rightarrow> run_request option \<Rightarrow> run_request option" where
  "row_request e held =
     (case held of
        Some r \<Rightarrow> Some r
      | None \<Rightarrow>
          (case qe_row_request e of
             Some current \<Rightarrow>
               Some (case qe_last_request e of
                       Some previous \<Rightarrow>
                         current\<lparr>rq_auto_approve := rq_auto_approve previous, rq_worktree := rq_worktree previous\<rparr>
                     | None \<Rightarrow> current)
           | None \<Rightarrow> qe_last_request e))"

definition start_turn ::
    "queue_env \<Rightarrow> queue_send \<Rightarrow> string \<Rightarrow> run_request option \<Rightarrow> string \<Rightarrow> string list \<Rightarrow> 'c queue_host
     \<Rightarrow> (string + unit) \<times> 'c queue_host" where
  "start_turn e send i held prompt attachments s =
     (if send = InterruptFirst \<and> qe_in_flight e \<and> \<not> qe_stops e then (Inl ''stop failed'', s)
      else case row_request e held of
        None \<Rightarrow> (Inl ''no live run and no prior run config'', s)
      | Some r \<Rightarrow>
          if qe_dispatches e
          then (Inr (), delivered e i (Ran (r\<lparr>rq_prompt := prompt, rq_resume := None, rq_attachments := attachments\<rparr>)) s)
          else (Inl ''dispatch failed'', s))"

definition dispatch_queued ::
    "queue_env \<Rightarrow> queued_message \<Rightarrow> queue_send \<Rightarrow> 'c queue_host \<Rightarrow> (string + unit) \<times> 'c queue_host" where
  "dispatch_queued e item send s =
     (if \<not> qe_executor e then (Inl ''sessions engine not wired'', s)
      else if missing_row_attachments (qe_uploads e) item \<noteq> []
      then (Inl ''this message's images are still uploading'', s)
      else let i = qm_id item;
               held = map_of (qh_held s) i;
               s1 = s\<lparr>qh_held := AList.delete i (qh_held s)\<rparr>;
               own = (if held = None then queued_message_prompt (qm_text item) (qm_attachments item) else qm_text item);
               (prompt, attachments) = resolve_attachment_refs (qe_uploads e) own (qm_attachments item);
               s2 = (if qm_completion_notice item = None then s1 else land e i s1)
           in if send = SteerIn
              then (case qe_steer e of
                      Inl err \<Rightarrow> (Inl err, s2)
                    | Inr Accepted \<Rightarrow> (Inr (), delivered e i (Steered prompt) s2)
                    | Inr DeferredByUpdate \<Rightarrow> (Inl ''agent update pending; the message remains queued'', s2)
                    | Inr NotSteerable \<Rightarrow> start_turn e send i held prompt attachments s2)
              else start_turn e send i held prompt attachments s2)"

text \<open>The second half of every send: the row went out, or it goes via to the head.\<close>

definition finish_send :: "'c document \<Rightarrow> queue_env \<Rightarrow> 'c queue_host \<Rightarrow> 'c queue_host" where
  "finish_send d e s =
     (case qh_lock s of
        Sending item send was_paused \<Rightarrow>
          (case dispatch_queued e item send s of
             (Inr _, s') \<Rightarrow> s'\<lparr>qh_lock := if send = NextTurn then Draining else Free\<rparr>
           | (Inl _, s') \<Rightarrow>
               s'\<lparr>qh_doc := (case dc_insert d 0 item (qh_doc s') of Inr c \<Rightarrow> c | Inl _ \<Rightarrow> qh_doc s'),
                  qh_paused := (send = NextTurn \<or> was_paused \<or> qh_paused s'),
                  qh_lock := Free\<rparr>)
      | _ \<Rightarrow> s)"

section \<open>Sending one row\<close>

definition blocked_text :: string where
  "blocked_text = ''queued message is blocked for editing or review''"

text \<open>Taking a row for a send: the lock passes to the send in flight.\<close>

definition take_for ::
    "'c document \<Rightarrow> string \<Rightarrow> queue_send \<Rightarrow> 'c queue_host \<Rightarrow> (host_error + bool) \<times> 'c queue_host" where
  "take_for d i send s =
     (case dc_take d i (qh_doc s) of
        Inl err \<Rightarrow> (Inl (DocFailed err), s)
      | Inr (None, c) \<Rightarrow> (Inr False, s\<lparr>qh_doc := c\<rparr>)
      | Inr (Some item, c) \<Rightarrow>
          (Inr True, s\<lparr>qh_doc := c, qh_paused := False, qh_lock := Sending item send (qh_paused s)\<rparr>))"

definition send_queued_now ::
    "'c document \<Rightarrow> queue_env \<Rightarrow> string \<Rightarrow> 'c queue_host \<Rightarrow> (host_error + bool) \<times> 'c queue_host" where
  "send_queued_now d e i s =
     (if \<not> qe_host e then (Inl NotHost, s)
      else case find_row i (rows d s) of
        None \<Rightarrow> (Inr False, s)
      | Some item \<Rightarrow>
          if qm_delivery_gate item \<noteq> None then (Inl (Refused blocked_text), s)
          else take_for d i InterruptFirst s)"

definition steer_queued_now ::
    "'c document \<Rightarrow> queue_env \<Rightarrow> string \<Rightarrow> 'c queue_host \<Rightarrow> (host_error + bool) \<times> 'c queue_host" where
  "steer_queued_now d e i s =
     (if \<not> qe_host e then (Inl NotHost, s)
      else case find_row i (rows d s) of
        None \<Rightarrow> (Inr False, s)
      | Some item \<Rightarrow>
          if qm_attachments item \<noteq> []
          then (Inl (Refused ''messages with attachments cannot be steered mid-turn''), s)
          else if qm_delivery_gate item \<noteq> None then (Inl (Refused blocked_text), s)
          else if qe_executor e \<and> qe_defers e
          then (case dc_take d i (qh_doc s) of
                  Inl err \<Rightarrow> (Inl (DocFailed err), s)
                | Inr (None, c) \<Rightarrow> (Inr False, s\<lparr>qh_doc := c\<rparr>)
                | Inr (Some taken, c) \<Rightarrow>
                    (case insert_steered d taken (s\<lparr>qh_doc := c\<rparr>) of
                       Inl err \<Rightarrow> (Inl (DocFailed err), snd (steer_slot d i (s\<lparr>qh_doc := c\<rparr>)))
                     | Inr s' \<Rightarrow> (Inr True, s'\<lparr>qh_paused := False\<rparr>)))
          else take_for d i SteerIn s)"

section \<open>The drain\<close>

definition drain_start :: "queue_env \<Rightarrow> 'c queue_host \<Rightarrow> 'c queue_host" where
  "drain_start e s =
     (if \<not> qe_executor e \<or> \<not> qe_host e \<or> qh_paused s then s else s\<lparr>qh_lock := Draining\<rparr>)"

text \<open>One round of the loop, up to the dispatch.\<close>

definition drain_round :: "'c document \<Rightarrow> queue_env \<Rightarrow> 'c queue_host \<Rightarrow> 'c queue_host" where
  "drain_round d e s =
     (let over = s\<lparr>qh_lock := Free\<rparr>
      in case rows d s of
           [] \<Rightarrow> over
         | head # _ \<Rightarrow>
             if qh_paused s then over
             else case qm_delivery_gate head of
               Some (Editing lease device _ _ expires base) \<Rightarrow>
                 if expires \<le> qe_now e
                 then (case dc_set_gate d (qm_id head)
                             (Some (ReviewRequired lease device (qe_now e) base)) (qh_doc s) of
                         Inl _ \<Rightarrow> over | Inr (_, c) \<Rightarrow> over\<lparr>qh_doc := c\<rparr>)
                 else over\<lparr>qh_timers := (qm_id head, lease, expires) # qh_timers s\<rparr>
             | Some (ReviewRequired _ _ _ _) \<Rightarrow> over
             | None \<Rightarrow>
                 if qe_in_flight e \<or> missing_row_attachments (qe_uploads e) head \<noteq> [] then over
                 else case dc_take d (qm_id head) (qh_doc s) of
                   Inr (Some item, c) \<Rightarrow>
                     s\<lparr>qh_doc := c, qh_steered := filter (\<lambda>r. r \<noteq> qm_id item) (qh_steered s),
                       qh_lock := Sending item NextTurn False\<rparr>
                 | Inr (None, c) \<Rightarrow> over\<lparr>qh_doc := c\<rparr>
                 | Inl _ \<Rightarrow> over)"

section \<open>Stopping\<close>

fun cancel_rows :: "'c document \<Rightarrow> queue_env \<Rightarrow> string list \<Rightarrow> 'c queue_host \<Rightarrow> 'c queue_host" where
  "cancel_rows d e [] s = s"
| "cancel_rows d e (i # ids) s =
     (case dc_take d i (qh_doc s) of
        Inr (Some item, c) \<Rightarrow> cancel_rows d e ids (land e (qm_id item) (s\<lparr>qh_doc := c\<rparr>))
      | _ \<Rightarrow> cancel_rows d e ids s)"

definition cancel_held_sends :: "'c document \<Rightarrow> queue_env \<Rightarrow> 'c queue_host \<Rightarrow> 'c queue_host" where
  "cancel_held_sends d e s =
     cancel_rows d e (map fst (qh_held s) @ qh_steered s) (s\<lparr>qh_held := [], qh_steered := []\<rparr>)"

definition interrupt_and_pause_queue :: "'c document \<Rightarrow> queue_env \<Rightarrow> 'c queue_host \<Rightarrow> 'c queue_host" where
  "interrupt_and_pause_queue d e s =
     (if \<not> qe_in_flight e \<and> \<not> qe_background e then s
      else cancel_held_sends d e (s\<lparr>qh_paused := True, qh_lock := Stopping\<rparr>))"

definition interrupt_answered :: "queue_env \<Rightarrow> 'c queue_host \<Rightarrow> 'c queue_host" where
  "interrupt_answered e s =
     (if qe_interrupt e = Inr True then s\<lparr>qh_lock := Free\<rparr> else s\<lparr>qh_lock := Free, qh_paused := False\<rparr>)"

section \<open>A steer command\<close>

text \<open>\<open>deliver_prompt\<close>: steer a typed prompt into the live turn, hold it, or start the next turn with it.\<close>

definition deliver_next_turn ::
    "queue_env \<Rightarrow> string \<Rightarrow> string option \<Rightarrow> string \<Rightarrow> 'c queue_host
     \<Rightarrow> (host_error + command_status \<times> string option) \<times> 'c queue_host" where
  "deliver_next_turn e prompt message_id fresh s =
     (if (case message_id of Some m \<Rightarrow> m \<notin> set (qh_messages s) | None \<Rightarrow> False) \<and> \<not> qe_writes e
      then (Inl (Refused ''message write failed''), s)
      else let s1 = (case message_id of Some m \<Rightarrow> land e m s | None \<Rightarrow> s)
           in case (case qe_last_request e of Some r \<Rightarrow> Some r | None \<Rightarrow> qe_row_request e) of
                None \<Rightarrow> (Inr (Rejected, Some ''no live run and no prior run config''), s1)
              | Some r \<Rightarrow>
                  if \<not> qe_dispatches e then (Inl (Refused ''dispatch failed''), s1)
                  else (Inr (Applied, Some ''queued as new turn''),
                        (delivered e (case message_id of Some m \<Rightarrow> m | None \<Rightarrow> fresh)
                           (Ran (r\<lparr>rq_prompt := prompt, rq_resume := None, rq_attachments := []\<rparr>)) s1)\<lparr>qh_paused := False\<rparr>))"

definition deliver_prompt ::
    "'c document \<Rightarrow> queue_env \<Rightarrow> string \<Rightarrow> string option \<Rightarrow> string \<Rightarrow> int \<Rightarrow> string \<Rightarrow> string option
     \<Rightarrow> 'c queue_host \<Rightarrow> (host_error + command_status \<times> string option) \<times> 'c queue_host" where
  "deliver_prompt d e body message_id fresh issued_at device origin s =
     (let prompt = resolve_prompt_attachments (qe_uploads e) body;
          i = (case message_id of Some m \<Rightarrow> m | None \<Rightarrow> fresh)
      in case held_until_turn_end d e i prompt device origin s of
           (Inl err, s1) \<Rightarrow> (Inl err, s1)
         | (Inr True, s1) \<Rightarrow> (Inr (Applied, Some ''held until the turn ends''), s1)
         | (Inr False, s1) \<Rightarrow>
             let s2 = (case message_id of Some m \<Rightarrow> if qe_update_pending e then s1 else land e m s1 | None \<Rightarrow> s1)
             in case qe_steer e of
                  Inl err \<Rightarrow> (Inl (Refused err), s2)
                | Inr Accepted \<Rightarrow> (Inr (Applied, None), (delivered e i (Steered prompt) s2)\<lparr>qh_paused := False\<rparr>)
                | Inr NotSteerable \<Rightarrow> deliver_next_turn e prompt message_id fresh s2
                | Inr DeferredByUpdate \<Rightarrow>
                    map_prod (map_sum id (\<lambda>_. (Applied, Some ''held until the agent update finishes''))) id
                      (hold_until_turn_end d e i prompt issued_at True None device origin s2))"

section \<open>The machine\<close>

datatype host_event =
    QueueMessage queued_message
  | Retype int string string
  | MoveTo string nat
  | Remove queue_env string
  | BeginEdit queue_env string string string string      \<comment> \<open>the new lease, the row, its owner\<close>
  | RenewEdit queue_env string string
  | EndEdit queue_env string string edit_action "string option" "string option" "string list option"
  | Wake nat queue_env                                   \<comment> \<open>an armed timer, once it is due\<close>
  | SendNow queue_env string
  | SteerNow queue_env string
  | DrainStart queue_env
  | DrainRound queue_env
  | Sent queue_env                                       \<comment> \<open>the dispatch in flight returns\<close>
  | StopTurn queue_env
  | StopAnswered queue_env
  | HoldRun queue_env string string int run_request string "string option"
  | Deliver queue_env string "string option" string int string "string option"
  | Pause
  | Thaw
  | Switch chat_config

text \<open>The rows that are queued, in flight or sent. New ids are new.\<close>

definition in_flight :: "'c queue_host \<Rightarrow> queued_message list" where
  "in_flight s = (case qh_lock s of Sending item _ _ \<Rightarrow> [item] | _ \<Rightarrow> [])"

definition accounted :: "'c document \<Rightarrow> 'c queue_host \<Rightarrow> string list" where
  "accounted d s = row_ids (rows d s) @ row_ids (in_flight s) @ map fst (qh_sent s)"

definition fresh_id :: "'c document \<Rightarrow> string \<Rightarrow> 'c queue_host \<Rightarrow> bool" where
  "fresh_id d i s \<longleftrightarrow> i \<notin> set (accounted d s) \<and> trim i = i \<and> i \<noteq> []"

definition when_free :: "('c queue_host \<Rightarrow> 'c queue_host) \<Rightarrow> 'c queue_host \<Rightarrow> 'c queue_host" where
  "when_free f s = (if qh_lock s = Free then f s else s)"

definition host_step ::
    "'c document \<Rightarrow> (string \<Rightarrow> string) \<Rightarrow> 'c queue_host \<Rightarrow> host_event \<Rightarrow> 'c queue_host" where
  "host_step d hash s ev =
     (case ev of
        QueueMessage item \<Rightarrow> if fresh_id d (qm_id item) s then snd (queue_message_with_behavior d item s) else s
      | Retype now i body \<Rightarrow> snd (update_queued_message d i body now s)
      | MoveTo i n \<Rightarrow> snd (move_queued_message d i n s)
      | Remove e i \<Rightarrow> when_free (snd \<circ> remove_queued_message d e i) s
      | BeginEdit e lease i device inst \<Rightarrow> when_free (snd \<circ> begin_queued_message_edit d hash e lease i device inst) s
      | RenewEdit e i lease \<Rightarrow> when_free (snd \<circ> renew_queued_message_edit d e i lease) s
      | EndEdit e i lease action body expected paths \<Rightarrow>
          when_free (snd \<circ> finish_queued_message_edit d hash e i lease action body expected paths) s
      | Wake n e \<Rightarrow>
          when_free (\<lambda>s. if n < length (qh_timers s)
            then (case qh_timers s ! n of (i, lease, at) \<Rightarrow>
              if at \<le> qe_now e
              then expire_queued_message_edit d e i lease at (s\<lparr>qh_timers := remove_at n (qh_timers s)\<rparr>)
              else s) else s) s
      | SendNow e i \<Rightarrow> when_free (snd \<circ> send_queued_now d e i) s
      | SteerNow e i \<Rightarrow> when_free (snd \<circ> steer_queued_now d e i) s
      | DrainStart e \<Rightarrow> when_free (drain_start e) s
      | DrainRound e \<Rightarrow> if qh_lock s = Draining then drain_round d e s else s
      | Sent e \<Rightarrow> finish_send d e s
      | StopTurn e \<Rightarrow> when_free (interrupt_and_pause_queue d e) s
      | StopAnswered e \<Rightarrow> if qh_lock s = Stopping then interrupt_answered e s else s
      | HoldRun e i body at request device origin \<Rightarrow>
          if fresh_id d i s \<or> i \<in> set (row_ids (rows d s))
          then snd (hold_until_turn_end d e i body at False (Some request) device origin s) else s
      | Deliver e body message_id fresh at device origin \<Rightarrow>
          if fresh_id d (case message_id of Some m \<Rightarrow> m | None \<Rightarrow> fresh) s
          then snd (deliver_prompt d e body message_id fresh at device origin s) else s
      | Pause \<Rightarrow> s\<lparr>qh_paused := True\<rparr>
      | Thaw \<Rightarrow> s\<lparr>qh_paused := False\<rparr>
      | Switch config \<Rightarrow> rewrite_held_sends_for_switch config s)"

text \<open>Times are 64-bit, also a lease ahead.\<close>

definition timely :: "queue_env \<Rightarrow> bool" where
  "timely e \<longleftrightarrow> i64 (qe_now e) \<and> i64 (qe_now e + QUEUE_EDIT_LEASE_MS)"

fun event_ok :: "host_event \<Rightarrow> bool" where
  "event_ok (QueueMessage item) = (queued_ok item \<and> qm_delivery_gate item = None)"
| "event_ok (Retype now _ _) = i64 now"
| "event_ok (BeginEdit e _ _ _ _) = timely e"
| "event_ok (RenewEdit e _ _) = timely e"
| "event_ok (EndEdit e _ _ _ _ _ _) = timely e"
| "event_ok (Wake _ e) = timely e"
| "event_ok (DrainRound e) = timely e"
| "event_ok (HoldRun e _ _ at _ _ _) = (timely e \<and> i64 at)"
| "event_ok (Deliver e _ _ _ at _ _) = (timely e \<and> i64 at)"
| "event_ok _ = True"

definition new_host :: "'c \<Rightarrow> 'c queue_host" where
  "new_host c =
     \<lparr>qh_doc = c, qh_paused = False, qh_steered = [], qh_held = [], qh_lock = Free, qh_messages = [],
      qh_sent = [], qh_timers = []\<rparr>"

section \<open>The host over any document that keeps the laws\<close>

text \<open>The host's state with its document read as rows.\<close>

definition as_rows :: "'c document \<Rightarrow> 'c queue_host \<Rightarrow> queued_message list queue_host" where
  "as_rows d s =
     \<lparr>qh_doc = rows d s, qh_paused = qh_paused s, qh_steered = qh_steered s, qh_held = qh_held s,
      qh_lock = qh_lock s, qh_messages = qh_messages s, qh_sent = qh_sent s, qh_timers = qh_timers s\<rparr>"

lemma as_rows_simps [simp]:
  "qh_doc (as_rows d s) = rows d s" "qh_paused (as_rows d s) = qh_paused s"
  "qh_steered (as_rows d s) = qh_steered s" "qh_held (as_rows d s) = qh_held s"
  "qh_lock (as_rows d s) = qh_lock s" "qh_messages (as_rows d s) = qh_messages s"
  "qh_sent (as_rows d s) = qh_sent s" "qh_timers (as_rows d s) = qh_timers s"
  by (simp_all add: as_rows_def)

lemma as_rows_update:
  "as_rows d (s\<lparr>qh_doc := c\<rparr>) = (as_rows d s)\<lparr>qh_doc := dc_read d c\<rparr>"
  "as_rows d (s\<lparr>qh_paused := b\<rparr>) = (as_rows d s)\<lparr>qh_paused := b\<rparr>"
  "as_rows d (s\<lparr>qh_steered := x\<rparr>) = (as_rows d s)\<lparr>qh_steered := x\<rparr>"
  "as_rows d (s\<lparr>qh_held := h\<rparr>) = (as_rows d s)\<lparr>qh_held := h\<rparr>"
  "as_rows d (s\<lparr>qh_lock := l\<rparr>) = (as_rows d s)\<lparr>qh_lock := l\<rparr>"
  "as_rows d (s\<lparr>qh_messages := ms\<rparr>) = (as_rows d s)\<lparr>qh_messages := ms\<rparr>"
  "as_rows d (s\<lparr>qh_sent := log\<rparr>) = (as_rows d s)\<lparr>qh_sent := log\<rparr>"
  "as_rows d (s\<lparr>qh_timers := ts\<rparr>) = (as_rows d s)\<lparr>qh_timers := ts\<rparr>"
  by (simp_all add: as_rows_def)

lemma row_list_read [simp]: "dc_read row_list rs = rs"
  by (simp add: row_list_simps)

lemma as_rows_land: "as_rows d (land e i s) = land e i (as_rows d s)"
  by (simp add: land_def as_rows_update)

lemma as_rows_delivered: "as_rows d (delivered e i x s) = delivered e i x (as_rows d s)"
  by (simp add: delivered_def as_rows_land as_rows_update)

lemma as_rows_switch: "as_rows d (rewrite_held_sends_for_switch config s) = rewrite_held_sends_for_switch config (as_rows d s)"
  by (simp add: rewrite_held_sends_for_switch_def as_rows_update)

lemma fresh_land [simp]: "fresh_id d i (land e m s) = fresh_id d i s"
  by (simp add: fresh_id_def accounted_def in_flight_def land_def)

lemma doc_land [simp]: "qh_doc (land e i s) = qh_doc s" "qh_doc (delivered e i x s) = qh_doc s"
  by (simp_all add: land_def delivered_def)

lemma as_rows_accounted [simp]:
  "in_flight (as_rows d s) = in_flight s" "accounted row_list (as_rows d s) = accounted d s"
  "fresh_id row_list i (as_rows d s) = fresh_id d i s"
  by (simp_all add: in_flight_def accounted_def fresh_id_def cong: lock_holder.case_cong)

lemmas sim_simps = as_rows_update as_rows_land as_rows_delivered as_rows_switch rel_prod_sel

lemma start_turn_sim:
  "start_turn e send i held prompt paths (as_rows d s) = map_prod id (as_rows d) (start_turn e send i held prompt paths s)"
  by (simp add: start_turn_def sim_simps split: option.split)

lemma start_turn_doc: "qh_doc (snd (start_turn e send i held prompt paths s)) = qh_doc s"
  by (simp add: start_turn_def split: option.split)

lemma dispatch_sim:
  "dispatch_queued e item send (as_rows d s) = map_prod id (as_rows d) (dispatch_queued e item send s)"
  by (cases "qm_completion_notice item")
    (simp_all add: dispatch_queued_def Let_def case_prod_unfold sim_simps start_turn_sim [symmetric]
      split: sum.split steer_outcome.split)

lemma dispatch_doc: "qh_doc (snd (dispatch_queued e item send s)) = qh_doc s"
  by (simp add: dispatch_queued_def Let_def case_prod_unfold start_turn_doc split: sum.split steer_outcome.split)

lemma steer_slot_sim:
  "steer_slot row_list i (as_rows d s) = map_prod id (as_rows d) (steer_slot d i s)"
  by (simp add: steer_slot_def Let_def sim_simps)

lemma steer_slot_updates:
  "snd (steer_slot row_list i ((as_rows d s)\<lparr>qh_held := h\<rparr>)) = as_rows d (snd (steer_slot d i (s\<lparr>qh_held := h\<rparr>)))"
  "snd (steer_slot row_list i ((as_rows d s)\<lparr>qh_doc := dc_read d c\<rparr>))
     = as_rows d (snd (steer_slot d i (s\<lparr>qh_doc := c\<rparr>)))"
  "snd (steer_slot row_list i (as_rows d s)) = as_rows d (snd (steer_slot d i s))"
  using steer_slot_sim [of i d "s\<lparr>qh_held := h\<rparr>"] steer_slot_sim [of i d "s\<lparr>qh_doc := c\<rparr>"] steer_slot_sim [of i d s]
  by (simp_all add: as_rows_update)

lemma steer_slot_doc [simp]: "qh_doc (snd (steer_slot d i s)) = qh_doc s"
  by (simp add: steer_slot_def Let_def)

context queue_document
begin

abbreviation sim :: "'c queue_host \<Rightarrow> queued_message list queue_host \<Rightarrow> bool" where
  "sim s t \<equiv> good (qh_doc s) \<and> as_rows d s = t"

lemma queue_message_sim:
  assumes "good (qh_doc s)" "row_ok item (rows d s)"
  shows "rel_prod (=) sim (queue_message_with_behavior d item s) (queue_message_with_behavior row_list item (as_rows d s))"
  using push_law [OF assms] assms(1)
  by (cases rule: rel_sum.cases) (simp_all add: queue_message_with_behavior_def sim_simps)

lemma update_sim:
  assumes "good (qh_doc s)" "i64 now"
  shows "rel_prod (=) sim (update_queued_message d i body now s) (update_queued_message row_list i body now (as_rows d s))"
  using set_text_law [OF assms, of i body] assms(1)
  by (cases rule: rel_sum.cases) (auto simp: update_queued_message_def sim_simps)

lemma move_sim:
  assumes "good (qh_doc s)"
  shows "rel_prod (=) sim (move_queued_message d i n s) (move_queued_message row_list i n (as_rows d s))"
  using move_law [OF assms, of i n] assms(1)
  by (cases rule: rel_sum.cases) (auto simp: move_queued_message_def sim_simps)

lemma remove_sim:
  assumes "good (qh_doc s)"
  shows "rel_prod (=) sim (remove_queued_message d e i s) (remove_queued_message row_list e i (as_rows d s))"
  using remove_law [OF assms, of i] assms(1)
  by (cases rule: rel_sum.cases) (auto simp: remove_queued_message_def sim_simps)

text \<open>A gate change and what the host does with its answer.\<close>

lemma set_gate_cases:
  assumes "good (qh_doc s)" "gate_ok g"
  obtains err where "dc_set_gate d i (Some g) (qh_doc s) = Inl err" "dc_set_gate row_list i (Some g) (rows d s) = Inl err"
  | b c where "dc_set_gate d i (Some g) (qh_doc s) = Inr (b, c)" "good c"
      "dc_set_gate row_list i (Some g) (rows d s) = Inr (b, dc_read d c)"
  using set_gate_law [OF assms(1), of "Some g" i] assms(2)
  by (cases rule: rel_sum.cases) auto

lemma begin_sim:
  assumes "good (qh_doc s)" "timely e"
  shows "rel_prod (=) sim (begin_queued_message_edit d hash e lease i device inst s)
    (begin_queued_message_edit row_list hash e lease i device inst (as_rows d s))"
proof (cases "find_row i (rows d s)")
  case None
  then show ?thesis using assms(1) by (simp add: begin_queued_message_edit_def sim_simps)
next
  case (Some item)
  let ?g = "Editing lease device inst (qe_now e) (qe_now e + QUEUE_EDIT_LEASE_MS) (hash (qm_text item))"
  have "gate_ok ?g" using assms(2) by (simp add: gate_ok_def timely_def)
  then show ?thesis
    using Some assms(1)
    by (cases rule: set_gate_cases [OF assms(1), of ?g i])
      (auto simp: begin_queued_message_edit_def sim_simps Let_def split: option.splits queue_delivery_gate.splits bool.splits)
qed

lemma renew_sim:
  assumes "good (qh_doc s)" "timely e"
  shows "rel_prod (=) sim (renew_queued_message_edit d e i lease s) (renew_queued_message_edit row_list e i lease (as_rows d s))"
proof (cases "find_row i (rows d s)")
  case None
  then show ?thesis using assms(1) by (simp add: renew_queued_message_edit_def sim_simps)
next
  case (Some item)
  show ?thesis
  proof (cases "\<exists>current device inst acquired expires base.
      qm_delivery_gate item = Some (Editing current device inst acquired expires base)")
    case True
    then obtain current device inst acquired expires base where
      g: "qm_delivery_gate item = Some (Editing current device inst acquired expires base)" by blast
    have "queued_ok item"
      using find_row_SomeD [OF Some] good_rows [OF assms(1)] by (auto simp: list_all_iff)
    then have ok: "gate_ok (ReviewRequired current device (qe_now e) base)"
      "gate_ok (Editing current device inst acquired (qe_now e + QUEUE_EDIT_LEASE_MS) base)"
      using assms(2) g by (simp_all add: gate_ok_def timely_def queued_ok_def)
    show ?thesis
      using Some g assms(1)
      by (cases rule: set_gate_cases [OF assms(1) ok(1), of i]; cases rule: set_gate_cases [OF assms(1) ok(2), of i])
        (auto simp: renew_queued_message_edit_def sim_simps Let_def split: bool.splits)
  next
    case False
    then show ?thesis using Some assms(1)
      by (auto simp: renew_queued_message_edit_def sim_simps split: option.splits queue_delivery_gate.splits)
  qed
qed

lemma expire_sim:
  assumes "good (qh_doc s)" "timely e"
  shows "sim (expire_queued_message_edit d e i lease at s) (expire_queued_message_edit row_list e i lease at (as_rows d s))"
proof (cases "find_row i (rows d s)")
  case None
  then show ?thesis using assms(1) by (simp add: expire_queued_message_edit_def)
next
  case (Some item)
  have ok: "gate_ok (ReviewRequired current device (qe_now e) base)" for current device base
    using assms(2) by (simp add: gate_ok_def timely_def)
  show ?thesis
  proof (cases "qm_delivery_gate item")
    case None
    then show ?thesis using Some assms(1) by (simp add: expire_queued_message_edit_def)
  next
    case g: (Some gate)
    then show ?thesis
    proof (cases gate)
      case (Editing current device inst acquired expires base)
      then show ?thesis using Some g assms(1)
        by (cases rule: set_gate_cases [OF assms(1) ok [of current device base], of i])
          (auto simp: expire_queued_message_edit_def sim_simps)
    next
      case (ReviewRequired current device since base)
      then show ?thesis using Some g assms(1) by (simp add: expire_queued_message_edit_def)
    qed
  qed
qed

lemma finish_sim:
  assumes "good (qh_doc s)" "timely e"
  shows "rel_prod (=) sim (finish_queued_message_edit d hash e i lease action body expected paths s)
    (finish_queued_message_edit row_list hash e i lease action body expected paths (as_rows d s))"
proof -
  have now: "i64 (qe_now e)" using assms(2) by (simp add: timely_def)
  let ?body = "case action of Commit \<Rightarrow> Some (case body of Some b \<Rightarrow> b | None \<Rightarrow> []) | Discard \<Rightarrow> Some [] | _ \<Rightarrow> None"
  let ?paths = "if action = Commit then paths else None"
  from finish_law [OF assms(1) now, of i ?body ?paths] show ?thesis
    using assms(1)
    by (cases rule: rel_sum.cases)
      (auto simp: finish_queued_message_edit_def sim_simps Let_def case_prod_unfold split: option.splits)
qed

lemma take_cases:
  assumes "good (qh_doc s)"
  obtains c where "dc_take d i (qh_doc s) = Inr (fst (row_take i (rows d s)), c)" "good c"
    "dc_read d c = snd (row_take i (rows d s))"
  using take_law [OF assms, of i] by (cases rule: rel_sum.cases) (auto simp: row_list_simps rel_prod_sel)

lemma take_for_sim:
  assumes "good (qh_doc s)"
  shows "rel_prod (=) sim (take_for d i send s) (take_for row_list i send (as_rows d s))"
  using assms
  by (cases rule: take_cases [OF assms, of i])
    (auto simp: take_for_def row_list_simps sim_simps split: option.splits prod.splits)

lemma send_now_sim:
  assumes "good (qh_doc s)"
  shows "rel_prod (=) sim (send_queued_now d e i s) (send_queued_now row_list e i (as_rows d s))"
  using take_for_sim [OF assms, of i InterruptFirst] assms
  by (simp add: send_queued_now_def rel_prod_sel split: option.split)

lemma insert_cases:
  assumes "good (qh_doc s)" "row_ok item (rows d s)"
  obtains err where "dc_insert d n item (qh_doc s) = Inl err" "row_insert n item (rows d s) = Inl err"
  | c where "dc_insert d n item (qh_doc s) = Inr c" "good c" "row_insert n item (rows d s) = Inr (dc_read d c)"
  using insert_law [OF assms, of n] by (cases rule: rel_sum.cases) (auto simp: row_list_simps)

lemma insert_steered_sim:
  assumes "good (qh_doc s)" "row_ok item (rows d s)"
  shows "rel_sum (=) sim (insert_steered d item s) (insert_steered row_list item (as_rows d s))"
proof -
  have eq: "steer_slot row_list (qm_id item) (as_rows d s)
      = (fst (steer_slot d (qm_id item) s), as_rows d (snd (steer_slot d (qm_id item) s)))"
    by (simp add: steer_slot_sim map_prod_def case_prod_unfold)
  show ?thesis
    by (cases rule: insert_cases [OF assms, of "fst (steer_slot d (qm_id item) s)"])
      (simp_all add: insert_steered_def Let_def case_prod_unfold eq row_list_simps sim_simps)
qed

lemma hold_sim:
  assumes "good (qh_doc s)" "fresh_id d i s \<or> i \<in> set (row_ids (rows d s))" "timely e" "i64 at"
  shows "rel_prod (=) sim (hold_until_turn_end d e i body at steer request device origin s)
    (hold_until_turn_end row_list e i body at steer request device origin (as_rows d s))"
proof (cases "i \<in> set (row_ids (rows d s))")
  case True
  then show ?thesis using assms(1) by (simp add: hold_until_turn_end_def Let_def sim_simps)
next
  case False
  let ?item = "queued_row i body (case request of Some r \<Rightarrow> rq_attachments r | None \<Rightarrow> []) False device
                   (min at (qe_now e)) origin"
  let ?s = "case request of Some r \<Rightarrow> s\<lparr>qh_held := AList.update i r (qh_held s)\<rparr> | None \<Rightarrow> s"
  have new: "trim i = i" "i \<noteq> []" using assms(2) False by (auto simp: fresh_id_def)
  have "i64 (min at (qe_now e))" using assms(3,4) by (simp add: timely_def i64_def min_def)
  then have ok: "row_ok ?item (rows d ?s)"
    using new False by (simp add: row_ok_def queued_ok_def queued_row_def blank_def split: option.split)
  have g: "good (qh_doc ?s)" using assms(1) by (simp split: option.split)
  show ?thesis
  proof (cases steer)
    case True
    have id: "qm_id ?item = i" by (simp add: queued_row_def)
    show ?thesis
      using insert_steered_sim [OF g ok] False True g
      by (cases rule: rel_sum.cases; cases request)
        (simp_all add: hold_until_turn_end_def Let_def sim_simps steer_slot_updates)
  next
    case st: False
    show ?thesis
      using push_law [OF g ok] False st g
      by (cases rule: rel_sum.cases; cases request) (simp_all add: hold_until_turn_end_def Let_def sim_simps)
  qed
qed

lemma steer_now_sim:
  assumes "good (qh_doc s)"
  shows "rel_prod (=) sim (steer_queued_now d e i s) (steer_queued_now row_list e i (as_rows d s))"
proof (cases "find_row i (rows d s)")
  case None
  then show ?thesis using assms by (simp add: steer_queued_now_def sim_simps)
next
  case (Some item)
  then have item: "item \<in> set (rows d s)" "qm_id item = i" using find_row_SomeD by blast+
  have take: "row_take i (rows d s) = (if qm_delivery_gate item = None then (Some item, without_row i (rows d s)) else (None, rows d s))"
    using Some by (simp add: row_take_def)
  show ?thesis
  proof (cases "qe_host e \<and> qm_attachments item = [] \<and> qm_delivery_gate item = None \<and> qe_executor e \<and> qe_defers e")
    case False
    then show ?thesis
      using Some take_for_sim [OF assms, of i SteerIn] assms by (auto simp: steer_queued_now_def rel_prod_sel)
  next
    case True
    obtain c where c: "dc_take d i (qh_doc s) = Inr (Some item, c)" "good c"
      "dc_read d c = without_row i (rows d s)"
      using take_cases [OF assms, of i] take True by (metis fst_conv snd_conv)
    have "queued_ok item" using good_rows [OF assms] item by (auto simp: list_all_iff)
    then have ok: "row_ok item (rows d (s\<lparr>qh_doc := c\<rparr>))"
      using c(3) item(2) by (auto simp: row_ok_def queued_ok_def row_ids_def without_row_def)
    have g: "good (qh_doc (s\<lparr>qh_doc := c\<rparr>))" using c(2) by simp
    show ?thesis
      using insert_steered_sim [OF g ok] Some True c(1) take g
      by (cases rule: rel_sum.cases)
        (simp_all add: steer_queued_now_def row_list_simps sim_simps c(3) [symmetric] steer_slot_updates)
  qed
qed

lemma drain_round_sim:
  assumes "good (qh_doc s)" "timely e"
  shows "sim (drain_round d e s) (drain_round row_list e (as_rows d s))"
proof (cases "rows d s")
  case Nil
  then show ?thesis using assms(1) by (simp add: drain_round_def Let_def sim_simps)
next
  case (Cons head rest)
  have ok: "gate_ok (ReviewRequired current device (qe_now e) base)" for current device base
    using assms(2) by (simp add: gate_ok_def timely_def)
  show ?thesis
  proof (cases "qm_delivery_gate head")
    case None
    then show ?thesis using Cons assms(1)
      by (cases rule: take_cases [OF assms(1), of "qm_id head"])
        (auto simp: drain_round_def Let_def sim_simps row_list_simps split: option.splits prod.splits)
  next
    case g: (Some gate)
    then show ?thesis
    proof (cases gate)
      case (Editing current device inst acquired expires base)
      then show ?thesis using Cons g assms(1)
        by (cases rule: set_gate_cases [OF assms(1) ok [of current device base], of "qm_id head"])
          (auto simp: drain_round_def Let_def sim_simps)
    next
      case (ReviewRequired current device since base)
      then show ?thesis using Cons g assms(1) by (simp add: drain_round_def Let_def sim_simps)
    qed
  qed
qed

lemma cancel_rows_sim: "good (qh_doc s) \<Longrightarrow> sim (cancel_rows d e ids s) (cancel_rows row_list e ids (as_rows d s))"
proof (induction ids arbitrary: s)
  case (Cons i ids)
  obtain c where c: "dc_take d i (qh_doc s) = Inr (fst (row_take i (rows d s)), c)" "good c"
    "dc_read d c = snd (row_take i (rows d s))"
    using take_cases [OF Cons.prems] by metis
  show ?case
  proof (cases "fst (row_take i (rows d s))")
    case None
    then show ?thesis using Cons c(1) by (simp add: row_list_simps case_prod_unfold split: prod.split)
  next
    case (Some item)
    let ?s = "land e (qm_id item) (s\<lparr>qh_doc := c\<rparr>)"
    have "as_rows d ?s = land e (qm_id item) ((as_rows d s)\<lparr>qh_doc := snd (row_take i (rows d s))\<rparr>)"
      using c(3) by (simp add: sim_simps)
    then show ?thesis using Cons.IH [of ?s] Some c by (cases "row_take i (rows d s)") (simp add: row_list_simps)
  qed
qed simp

lemma finish_send_sim:
  assumes "good (qh_doc s)" "list_all queued_ok (in_flight s)" "distinct (accounted d s)"
  shows "sim (finish_send d e s) (finish_send row_list e (as_rows d s))"
proof (cases "qh_lock s")
  case (Sending item send was_paused)
  let ?r = "dispatch_queued e item send s"
  have "queued_ok item" "qm_id item \<notin> set (row_ids (rows d s))"
    using assms(2,3) Sending by (auto simp: in_flight_def accounted_def row_ids_def)
  then have ok: "row_ok item (rows d (snd ?r))" by (simp add: row_ok_def queued_ok_def dispatch_doc)
  have g: "good (qh_doc (snd ?r))" using assms(1) by (simp add: dispatch_doc)
  have eq: "dispatch_queued e item send (as_rows d s) = (fst ?r, as_rows d (snd ?r))"
    by (simp add: dispatch_sim map_prod_def case_prod_unfold)
  show ?thesis
    using Sending g
    by (cases rule: insert_cases [OF g ok, of 0]; cases ?r; cases "fst ?r")
      (simp_all add: finish_send_def eq sim_simps row_list_simps)
qed (use assms(1) in \<open>simp_all add: finish_send_def\<close>)

lemma deliver_next_turn_sim:
  "deliver_next_turn e prompt message_id fresh (as_rows d s)
     = map_prod id (as_rows d) (deliver_next_turn e prompt message_id fresh s)"
  by (cases message_id) (simp_all add: deliver_next_turn_def Let_def sim_simps split: option.split)

lemma deliver_next_turn_doc: "qh_doc (snd (deliver_next_turn e prompt message_id fresh s)) = qh_doc s"
  by (cases message_id) (simp_all add: deliver_next_turn_def Let_def split: option.split)

lemma deliver_sim:
  assumes "good (qh_doc s)" "fresh_id d (case message_id of Some m \<Rightarrow> m | None \<Rightarrow> fresh) s" "timely e" "i64 at"
  shows "rel_prod (=) sim (deliver_prompt d e body message_id fresh at device origin s)
    (deliver_prompt row_list e body message_id fresh at device origin (as_rows d s))"
proof -
  let ?i = "case message_id of Some m \<Rightarrow> m | None \<Rightarrow> fresh"
  let ?p = "resolve_prompt_attachments (qe_uploads e) body"
  let ?s2 = "case message_id of Some m \<Rightarrow> if qe_update_pending e then s else land e m s | None \<Rightarrow> s"
  have now: "i64 (qe_now e)" using assms(3) by (simp add: timely_def)
  have s2: "good (qh_doc ?s2)" "fresh_id d ?i ?s2"
    "as_rows d ?s2 = (case message_id of Some m \<Rightarrow> if qe_update_pending e then as_rows d s else land e m (as_rows d s)
      | None \<Rightarrow> as_rows d s)"
    using assms(1,2) by (cases message_id; simp add: sim_simps; fail)+
  have hold: "rel_prod (=) sim (held_until_turn_end d e ?i ?p device origin s)
      (held_until_turn_end row_list e ?i ?p device origin (as_rows d s))"
    using hold_sim [OF assms(1) disjI1 [OF assms(2)] assms(3) now, where body = ?p and steer = True and request = None
        and device = device and origin = origin] assms(1)
    by (auto simp: held_until_turn_end_def Let_def rel_prod_sel)
  have later: "rel_prod (=) sim (hold_until_turn_end d e ?i ?p at True None device origin ?s2)
      (hold_until_turn_end row_list e ?i ?p at True None device origin (as_rows d ?s2))"
    by (rule hold_sim [OF s2(1) disjI1 [OF s2(2)] assms(3,4)])
  have kept: "held_until_turn_end d e ?i ?p device origin s = (Inr False, s1) \<Longrightarrow> s1 = s" for s1
    by (auto simp: held_until_turn_end_def Let_def map_prod_def map_sum_def split: if_splits prod.splits sum.splits)
  obtain r s1 where r: "held_until_turn_end d e ?i ?p device origin s = (r, s1)" by fastforce
  then have r': "held_until_turn_end row_list e ?i ?p device origin (as_rows d s) = (r, as_rows d s1)" "good (qh_doc s1)"
    using hold by (auto simp: rel_prod_sel prod_eq_iff)
  show ?thesis
  proof (cases "r = Inr False")
    case False
    then show ?thesis using r r' by (cases r) (auto simp: deliver_prompt_def Let_def rel_prod_sel split: bool.split)
  next
    case True
    then have "s1 = s" using kept r by blast
    then have "deliver_prompt d e body message_id fresh at device origin s = (case qe_steer e of
          Inl err \<Rightarrow> (Inl (Refused err), ?s2)
        | Inr Accepted \<Rightarrow> (Inr (Applied, None), (delivered e ?i (Steered ?p) ?s2)\<lparr>qh_paused := False\<rparr>)
        | Inr NotSteerable \<Rightarrow> deliver_next_turn e ?p message_id fresh ?s2
        | Inr DeferredByUpdate \<Rightarrow>
            map_prod (map_sum id (\<lambda>_. (Applied, Some ''held until the agent update finishes''))) id
              (hold_until_turn_end d e ?i ?p at True None device origin ?s2))"
      "deliver_prompt row_list e body message_id fresh at device origin (as_rows d s) = (case qe_steer e of
          Inl err \<Rightarrow> (Inl (Refused err), as_rows d ?s2)
        | Inr Accepted \<Rightarrow> (Inr (Applied, None), (delivered e ?i (Steered ?p) (as_rows d ?s2))\<lparr>qh_paused := False\<rparr>)
        | Inr NotSteerable \<Rightarrow> deliver_next_turn e ?p message_id fresh (as_rows d ?s2)
        | Inr DeferredByUpdate \<Rightarrow>
            map_prod (map_sum id (\<lambda>_. (Applied, Some ''held until the agent update finishes''))) id
              (hold_until_turn_end row_list e ?i ?p at True None device origin (as_rows d ?s2)))"
      using r r'(1) True unfolding deliver_prompt_def Let_def s2(3) by simp_all
    then show ?thesis
      using s2(1) later deliver_next_turn_sim [where s = ?s2]
        deliver_next_turn_doc [where s = ?s2]
      by (simp add: sim_simps split: sum.split steer_outcome.split)
  qed
qed

lemma interrupt_sim:
  assumes "good (qh_doc s)"
  shows "sim (interrupt_and_pause_queue d e s) (interrupt_and_pause_queue row_list e (as_rows d s))"
  using assms cancel_rows_sim [of "s\<lparr>qh_paused := True, qh_lock := Stopping, qh_held := [], qh_steered := []\<rparr>" e
      "map fst (qh_held s) @ qh_steered s"]
  by (simp add: interrupt_and_pause_queue_def cancel_held_sends_def sim_simps)

lemma step_sim:
  assumes "good (qh_doc s)" "list_all queued_ok (in_flight s)" "distinct (accounted d s)" "event_ok ev"
  shows "sim (host_step d hash s ev) (host_step row_list hash (as_rows d s) ev)"
proof (cases ev)
  case (QueueMessage item)
  show ?thesis
  proof (cases "fresh_id d (qm_id item) s")
    case True
    then have "row_ok item (rows d s)"
      using assms(4) QueueMessage by (simp add: row_ok_def queued_ok_def fresh_id_def accounted_def)
    from queue_message_sim [OF assms(1) this] show ?thesis
      using QueueMessage True by (simp add: host_step_def rel_prod_sel)
  qed (use QueueMessage assms(1) in \<open>simp add: host_step_def\<close>)
next
  case (HoldRun e i body at request device origin)
  then show ?thesis
    using hold_sim [OF assms(1), where i = i and e = e and at = at and body = body and steer = False
      and request = "Some request" and device = device and origin = origin] assms(1,4)
    by (auto simp: host_step_def rel_prod_sel)
next
  case (Deliver e body message_id fresh at device origin)
  then show ?thesis
    using deliver_sim [OF assms(1), where message_id = message_id and fresh = fresh and e = e and at = at
      and body = body and device = device and origin = origin] assms(1,4)
    by (auto simp: host_step_def rel_prod_sel)
next
  case (Wake n e)
  show ?thesis
  proof (cases "qh_timers s ! n")
    case (fields i lease at)
    let ?s = "s\<lparr>qh_timers := remove_at n (qh_timers s)\<rparr>"
    have "sim (expire_queued_message_edit d e i lease at ?s) (expire_queued_message_edit row_list e i lease at (as_rows d ?s))"
      by (rule expire_sim) (use assms(1,4) Wake in simp_all)
    then show ?thesis using Wake fields assms(1) by (auto simp: host_step_def when_free_def sim_simps)
  qed
qed (use assms update_sim move_sim remove_sim begin_sim renew_sim finish_sim send_now_sim steer_now_sim
      drain_round_sim finish_send_sim interrupt_sim in
    \<open>auto simp: host_step_def when_free_def rel_prod_sel drain_start_def interrupt_answered_def sim_simps
       rewrite_held_sends_for_switch_def\<close>)

end

section \<open>Where a row goes\<close>

lemma row_ids_simps [simp]:
  "row_ids [] = []" "row_ids (m # rs) = qm_id m # row_ids rs" "row_ids (rs @ qs) = row_ids rs @ row_ids qs"
  by (simp_all add: row_ids_def)

lemma row_ids_change: "(\<And>m. qm_id (f m) = qm_id m) \<Longrightarrow> row_ids (change_row i f rs) = row_ids rs"
  by (simp add: row_ids_def change_row_def)

lemma row_ids_without: "row_ids (without_row i rs) = filter (\<lambda>x. x \<noteq> i) (row_ids rs)"
  by (simp add: row_ids_def without_row_def filter_map comp_def)

lemma mset_insert_at: "mset (insert_at n x xs) = add_mset x (mset xs)"
  unfolding insert_at_def by (metis append_take_drop_id mset.simps(2) mset_append union_mset_add_mset_right)

lemma row_ids_insert: "mset (row_ids (insert_at n m rs)) = add_mset (qm_id m) (mset (row_ids rs))"
  unfolding row_ids_def map_insert_at mset_insert_at ..

lemma mset_without: "mset (filter (\<lambda>x. x \<noteq> i) xs) + mset (filter (\<lambda>x. x = i) xs) = mset xs"
  using mset_filter [of "\<lambda>x. x \<noteq> i" xs] multiset_partition [of "mset xs" "\<lambda>x. x \<noteq> i"] by simp

lemma filter_one: "distinct xs \<Longrightarrow> i \<in> set xs \<Longrightarrow> filter (\<lambda>x. x = i) xs = [i]"
  by (induction xs) (auto simp: filter_empty_conv)

text \<open>What a row operation does to the ids.\<close>

definition keeps_ids :: "string list \<Rightarrow> queued_message list \<Rightarrow> queued_message list \<Rightarrow> bool" where
  "keeps_ids gone rs rs' \<longleftrightarrow> mset (row_ids rs') + mset gone = mset (row_ids rs)"

fun op_removes :: "queue_op \<Rightarrow> string set" where
  "op_removes (RemoveRow i) = {i}"
| "op_removes (SetText i body _) = (if blank body then {i} else {})"
| "op_removes (FinishEdit i body _ _) = (case body of Some b \<Rightarrow> if blank b then {i} else {} | None \<Rightarrow> {})"
| "op_removes _ = {}"

lemma without_keeps: "keeps_ids (filter (\<lambda>x. x = i) (row_ids rs)) rs (without_row i rs)"
  unfolding keeps_ids_def row_ids_without by (rule mset_without)

lemma same_keeps: "mset (row_ids rs') = mset (row_ids rs) \<Longrightarrow> keeps_ids [] rs rs'"
  by (simp add: keeps_ids_def)

lemma row_answer_keeps:
  assumes "row_answer q rs = Inr (b, rs')"
  shows "\<exists>gone. keeps_ids gone rs rs' \<and> set gone \<subseteq> op_removes q"
proof -
  have edit: "qm_id ((reattached paths now (retyped body now m))\<lparr>qm_delivery_gate := g\<rparr>) = qm_id m"
    "qm_id (retyped body now m) = qm_id m" for paths now body m g
    using edit_id [of paths now body m] by (simp_all add: retyped_def split: option.split)
  have gone: "\<exists>gone. keeps_ids gone rs (without_row i rs) \<and> set gone \<subseteq> {i}" for i
    using without_keeps [of i rs] by (intro exI [of _ "filter (\<lambda>x. x = i) (row_ids rs)"]) auto
  have same: "mset (row_ids rs') = mset (row_ids rs) \<Longrightarrow> ?thesis"
    using same_keeps [of rs' rs] by (intro exI [of _ "[]"]) simp
  show ?thesis
  proof (cases q)
    case (RemoveRow i)
    then show ?thesis using assms gone [of i] by (simp add: row_answer_def)
  next
    case (MoveRow i n)
    have perm: "mset (row_ids (insert_at m (rs ! k) (remove_at k rs))) = mset (row_ids rs)" if "k < length rs" for m k
      unfolding row_ids_def mset_map insert_remove_mset [OF that] ..
    have "rs' = rs \<or> (\<exists>k m. k < length rs \<and> rs' = insert_at m (rs ! k) (remove_at k rs))"
      using assms MoveRow position_Some_split [of "\<lambda>m. qm_id m = i" rs]
      by (auto simp: row_answer_def Let_def split: option.splits if_splits)
    then show ?thesis using perm by (intro same) auto
  next
    case (SetText i body now)
    show ?thesis
    proof (cases "blank body")
      case True
      then show ?thesis using assms SetText gone [of i] by (simp add: row_answer_def)
    next
      case False
      then show ?thesis using assms SetText edit
        by (intro same) (auto simp: row_answer_def row_ids_change split: option.splits)
    qed
  next
    case (SetGate i gate)
    then show ?thesis using assms by (intro same) (auto simp: row_answer_def row_ids_change)
  next
    case (FinishEdit i body paths now)
    show ?thesis
    proof (cases "case body of None \<Rightarrow> False | Some b \<Rightarrow> blank b")
      case True
      then show ?thesis using assms FinishEdit gone [of i] by (auto simp: row_answer_def split: option.splits)
    next
      case False
      then show ?thesis using assms FinishEdit edit by (intro same) (auto simp: row_answer_def row_ids_change)
    qed
  qed (use assms in \<open>auto simp: row_answer_def split: option.splits if_splits\<close>)
qed

lemma row_answer_move: "\<exists>b rs'. row_answer (MoveRow i n) rs = Inr (b, rs')"
  by (auto simp: row_answer_def Let_def split: option.split)

lemma row_take_some:
  assumes "row_take i rs = (Some m, rs')" "distinct (row_ids rs)"
  shows "m \<in> set rs" "qm_id m = i" "qm_delivery_gate m = None" "rs' = without_row i rs"
    "mset (row_ids rs) = add_mset i (mset (row_ids rs'))"
proof -
  show m: "m \<in> set rs" "qm_id m = i" "qm_delivery_gate m = None" "rs' = without_row i rs"
    using assms(1) find_row_SomeD [of i rs] by (auto simp: row_take_def split: option.splits if_splits)
  have "filter (\<lambda>x. x = i) (row_ids rs) = [i]"
    using filter_one [OF assms(2)] m(1,2) by (auto simp: row_ids_def)
  then show "mset (row_ids rs) = add_mset i (mset (row_ids rs'))"
    using mset_without [of i "row_ids rs"] by (simp add: m(4) row_ids_without)
qed

lemma row_take_none: "row_take i rs = (None, rs') \<Longrightarrow> rs' = rs"
  by (simp add: row_take_def split: option.splits if_splits)

text \<open>Rows come in under new ids and leave by a removal or into the transcript.\<close>

definition flows :: "string set \<Rightarrow> bool \<Rightarrow> queued_message list queue_host \<Rightarrow> queued_message list queue_host \<Rightarrow> bool" where
  "flows out landed t t' \<longleftrightarrow>
     (\<exists>news gone. mset (accounted row_list t') + mset gone = mset (accounted row_list t) + mset news
        \<and> distinct news \<and> set news \<inter> set (accounted row_list t) = {}
        \<and> set gone \<subseteq> out \<union> (if landed then set (qh_messages t') else UNIV))
     \<and> set (qh_messages t) \<subseteq> set (qh_messages t')"

lemma flows_same:
  "mset (accounted row_list t') = mset (accounted row_list t) \<Longrightarrow> set (qh_messages t) \<subseteq> set (qh_messages t')
    \<Longrightarrow> flows out landed t t'"
  unfolding flows_def by (intro conjI exI [of _ "[]"]) auto

lemma flows_new:
  "mset (accounted row_list t') = add_mset i (mset (accounted row_list t)) \<Longrightarrow> i \<notin> set (accounted row_list t)
    \<Longrightarrow> set (qh_messages t) \<subseteq> set (qh_messages t') \<Longrightarrow> flows out landed t t'"
  unfolding flows_def by (intro conjI exI [of _ "[i]"] exI [of _ "[]"]) auto

lemma flows_gone:
  "mset (accounted row_list t') + mset gone = mset (accounted row_list t) \<Longrightarrow> set (qh_messages t) \<subseteq> set (qh_messages t')
    \<Longrightarrow> set gone \<subseteq> out \<union> (if landed then set (qh_messages t') else UNIV) \<Longrightarrow> flows out landed t t'"
  unfolding flows_def by (intro conjI exI [of _ "[]"] exI [of _ gone]) auto

lemma flows_refl: "flows out landed t t"
  by (rule flows_same) simp_all

lemma flows_distinct: "flows out landed t t' \<Longrightarrow> distinct (accounted row_list t) \<Longrightarrow> distinct (accounted row_list t')"
  unfolding flows_def
proof (elim conjE exE)
  fix news gone
  assume eq: "mset (accounted row_list t') + mset gone = mset (accounted row_list t) + mset news"
    and new: "distinct news" "set news \<inter> set (accounted row_list t) = {}" and old: "distinct (accounted row_list t)"
  have "mset (accounted row_list t' @ gone) = mset (accounted row_list t @ news)" using eq by simp
  moreover have "distinct (accounted row_list t @ news)" using new old by auto
  ultimately have "distinct (accounted row_list t' @ gone)" using mset_eq_imp_distinct_iff by blast
  then show ?thesis by simp
qed

definition present :: "'c document \<Rightarrow> 'c queue_host \<Rightarrow> string set" where
  "present d s = set (accounted d s) \<union> set (qh_messages s)"

lemma flows_present:
  assumes "flows out True t t'" "i \<in> present row_list t" "i \<notin> out"
  shows "i \<in> present row_list t'"
proof -
  obtain news gone where eq: "mset (accounted row_list t') + mset gone = mset (accounted row_list t) + mset news"
    and gone: "set gone \<subseteq> out \<union> set (qh_messages t')" and ms: "set (qh_messages t) \<subseteq> set (qh_messages t')"
    using assms(1) by (auto simp: flows_def)
  have "set (accounted row_list t') \<union> set gone = set (accounted row_list t) \<union> set news"
    using arg_cong [OF eq, of set_mset] by simp
  then show ?thesis using gone ms assms(2,3) by (auto simp: present_def)
qed

fun removes :: "host_event \<Rightarrow> string set" where
  "removes (Retype _ i body) = (if blank body then {i} else {})"
| "removes (Remove _ i) = {i}"
| "removes (EndEdit _ i _ Discard _ _ _) = {i}"
| "removes (EndEdit _ i _ Commit (Some body) _ _) = (if blank body then {i} else {})"
| "removes _ = {}"

fun lands :: "host_event \<Rightarrow> bool" where
  "lands (StopTurn e) = qe_writes e"
| "lands _ = True"

lemmas row_docs = row_list_def row_answer_def

lemma row_gate [simp]:
  "dc_set_gate row_list i gate rs
     = Inr (find_row i rs \<noteq> None, change_row i (\<lambda>m. m\<lparr>qm_delivery_gate := gate\<rparr>) rs)"
  by (simp add: row_docs)

lemma gate_ids [simp]: "row_ids (change_row i (\<lambda>m. m\<lparr>qm_delivery_gate := g\<rparr>) rs) = row_ids rs"
  by (simp add: row_ids_change)

lemma accounted_fields [simp]:
  "accounted d (s\<lparr>qh_paused := b\<rparr>) = accounted d s" "accounted d (s\<lparr>qh_steered := st\<rparr>) = accounted d s"
  "accounted d (s\<lparr>qh_held := h\<rparr>) = accounted d s" "accounted d (s\<lparr>qh_messages := ms\<rparr>) = accounted d s"
  "accounted d (s\<lparr>qh_timers := ts\<rparr>) = accounted d s"
  by (simp_all add: accounted_def in_flight_def)

lemma land_fields [simp]:
  "accounted d (land e m s) = accounted d s" "in_flight (land e m s) = in_flight s"
  "qh_lock (land e m s) = qh_lock s" "qh_sent (land e m s) = qh_sent s" "qh_paused (land e m s) = qh_paused s"
  "set (qh_messages s) \<subseteq> set (qh_messages (land e m s))"
  by (auto simp: land_def accounted_def in_flight_def)

lemma land_lands: "qe_writes e \<Longrightarrow> m \<in> set (qh_messages (land e m s))"
  by (simp add: land_def)

lemma delivered_fields [simp]:
  "in_flight (delivered e i x s) = in_flight s" "qh_lock (delivered e i x s) = qh_lock s"
  "qh_sent (delivered e i x s) = qh_sent s @ [(i, x)]"
  "set (qh_messages s) \<subseteq> set (qh_messages (delivered e i x s))"
  by (auto simp: delivered_def land_def in_flight_def)

lemma answer_flows:
  assumes "row_answer q (qh_doc t) = Inr (b, rs)" "op_removes q \<subseteq> out"
  shows "flows out landed t (t\<lparr>qh_doc := rs\<rparr>)"
proof -
  obtain gone where gone: "keeps_ids gone (qh_doc t) rs" "set gone \<subseteq> out"
    using row_answer_keeps [OF assms(1)] assms(2) by blast
  have "mset (accounted row_list (t\<lparr>qh_doc := rs\<rparr>)) + mset gone = mset (accounted row_list t)"
    using gone(1) by (simp add: accounted_def in_flight_def keeps_ids_def ac_simps cong: lock_holder.case_cong)
  then show ?thesis by (rule flows_gone) (use gone(2) in auto)
qed

lemma gate_flows: "flows out landed t (t\<lparr>qh_doc := change_row i (\<lambda>m. m\<lparr>qm_delivery_gate := g\<rparr>) (qh_doc t)\<rparr>)"
  by (rule flows_same) (simp_all add: accounted_def in_flight_def)

lemma flows_timers: "flows out landed t (t'\<lparr>qh_timers := ts\<rparr>) = flows out landed t t'"
  "flows out landed (t\<lparr>qh_timers := ts\<rparr>) t' = flows out landed t t'"
  by (simp_all add: flows_def)

lemma flows_paused [simp]: "flows out landed t (t'\<lparr>qh_paused := b\<rparr>) = flows out landed t t'"
  by (simp add: flows_def)

lemma begin_flows: "flows out landed t (snd (begin_queued_message_edit row_list hash e lease i device inst t))"
  by (auto simp: begin_queued_message_edit_def Let_def flows_refl gate_flows flows_timers
      split: option.split queue_delivery_gate.split)

lemma renew_flows: "flows out landed t (snd (renew_queued_message_edit row_list e i lease t))"
  by (auto simp: renew_queued_message_edit_def Let_def flows_refl gate_flows flows_timers
      split: option.split queue_delivery_gate.split)

lemma expire_flows: "flows out landed t (expire_queued_message_edit row_list e i lease at t)"
  by (auto simp: expire_queued_message_edit_def Let_def flows_refl gate_flows
      split: option.split queue_delivery_gate.split)

lemma finish_flows:
  "flows (removes (EndEdit e i lease action body expected paths)) landed t
     (snd (finish_queued_message_edit row_list hash e i lease action body expected paths t))"
proof -
  let ?body = "case action of Commit \<Rightarrow> Some (case body of Some b \<Rightarrow> b | None \<Rightarrow> []) | Discard \<Rightarrow> Some [] | _ \<Rightarrow> None"
  let ?paths = "if action = Commit then paths else None"
  obtain b rs where r: "dc_finish row_list i ?body ?paths (qe_now e) (qh_doc t) = Inr (b, rs)"
    by (cases "row_apply (FinishEdit i ?body ?paths (qe_now e)) (qh_doc t)") (auto simp: row_docs split: if_splits)
  have "flows (removes (EndEdit e i lease action body expected paths)) landed t (t\<lparr>qh_doc := rs\<rparr>)"
    if "\<not> (action = Commit \<and> body = None)"
    using r that
    by (intro answer_flows [of "FinishEdit i ?body ?paths (qe_now e)" t b]) (cases action; auto simp: row_list_def)+
  then show ?thesis using r
    by (cases action; cases body)
      (auto simp: finish_queued_message_edit_def Let_def case_prod_unfold flows_refl split: option.split bool.split)
qed

lemma take_flows:
  assumes "row_take i (qh_doc t) = (Some m, rs)" "distinct (row_ids (qh_doc t))" "in_flight t = []"
  shows "flows out landed t (t\<lparr>qh_doc := rs, qh_paused := p, qh_lock := Sending m send b\<rparr>)"
    and "flows out landed t (t\<lparr>qh_doc := rs, qh_steered := st, qh_lock := Sending m send b\<rparr>)"
  using row_take_some [OF assms(1,2)] assms(3)
  by (rule_tac [!] flows_same) (simp_all add: accounted_def, simp_all add: in_flight_def)

lemma take_for_flows:
  assumes "distinct (row_ids (qh_doc t))" "in_flight t = []"
  shows "flows out landed t (snd (take_for row_list i send t))"
proof (cases "row_take i (qh_doc t)")
  case (Pair x rs)
  show ?thesis
  proof (cases x)
    case None
    then show ?thesis using Pair row_take_none by (fastforce simp: take_for_def row_list_simps flows_refl)
  next
    case (Some m)
    then have "flows out landed t (t\<lparr>qh_doc := rs, qh_paused := False, qh_lock := Sending m send (qh_paused t)\<rparr>)"
      using take_flows(1) [OF _ assms] Pair by blast
    then show ?thesis using Pair Some by (simp add: take_for_def row_list_simps)
  qed
qed

lemma insert_flows:
  assumes "row_insert n item (qh_doc t) = Inr rs" "in_flight t' = in_flight t" "qh_sent t' = qh_sent t"
    and "qh_messages t' = qh_messages t" "qh_doc t' = rs" "qm_id item \<notin> set (accounted row_list t)"
  shows "flows out landed t t'"
proof (rule flows_new)
  have "mset (row_ids rs) = add_mset (qm_id item) (mset (row_ids (qh_doc t)))"
    using assms(1) row_ids_insert by (auto simp: row_insert_def split: if_splits)
  then show "mset (accounted row_list t') = add_mset (qm_id item) (mset (accounted row_list t))"
    using assms(2,3,5) by (simp add: accounted_def)
qed (use assms in simp_all)

lemma steer_slot_fields [simp]:
  "in_flight (snd (steer_slot d i s)) = in_flight s" "qh_sent (snd (steer_slot d i s)) = qh_sent s"
  "qh_messages (snd (steer_slot d i s)) = qh_messages s" "accounted d (snd (steer_slot d i s)) = accounted d s"
  "qh_lock (snd (steer_slot d i s)) = qh_lock s" "qh_paused (snd (steer_slot d i s)) = qh_paused s"
  by (simp_all add: steer_slot_def Let_def in_flight_def accounted_def)

lemma insert_steered_row:
  "insert_steered row_list item t
     = map_sum id (\<lambda>rs. (snd (steer_slot row_list (qm_id item) t))\<lparr>qh_doc := rs\<rparr>)
         (row_insert (fst (steer_slot row_list (qm_id item) t)) item (qh_doc t))"
  by (simp add: insert_steered_def Let_def case_prod_unfold row_list_simps split: sum.split)

lemma hold_flows:
  assumes "i \<notin> set (accounted row_list t) \<or> i \<in> set (row_ids (qh_doc t))"
  shows "flows out landed t (snd (hold_until_turn_end row_list e i body at steer request device origin t))"
proof (cases "i \<in> set (row_ids (qh_doc t))")
  case True
  then show ?thesis by (simp add: hold_until_turn_end_def Let_def flows_refl)
next
  case False
  let ?item = "queued_row i body (case request of Some r \<Rightarrow> rq_attachments r | None \<Rightarrow> []) False device
                   (min at (qe_now e)) origin"
  let ?t = "case request of Some r \<Rightarrow> t\<lparr>qh_held := AList.update i r (qh_held t)\<rparr> | None \<Rightarrow> t"
  have id: "qm_id ?item = i" by (simp add: queued_row_def)
  have doc: "qh_doc ?t = qh_doc t" "in_flight ?t = in_flight t" "qh_sent ?t = qh_sent t" "qh_messages ?t = qh_messages t"
    "accounted row_list ?t = accounted row_list t"
    by (simp_all add: in_flight_def split: option.split)
  have new: "qm_id ?item \<notin> set (accounted row_list t)" using assms False id by simp
  have same: "flows out landed t ?t" "flows out landed t (snd (steer_slot row_list i ?t))"
    by (rule flows_same; use doc in simp)+
  show ?thesis
  proof (cases steer)
    case True
    show ?thesis
    proof (cases "row_insert (fst (steer_slot row_list i ?t)) ?item (qh_doc ?t)")
      case (Inl err)
      then show ?thesis using False True same(2) id
        by (simp add: hold_until_turn_end_def Let_def insert_steered_row)
    next
      case (Inr rs)
      have "flows out landed t (((snd (steer_slot row_list i ?t))\<lparr>qh_doc := rs\<rparr>)\<lparr>qh_paused := False\<rparr>)"
        by (rule insert_flows [OF Inr [unfolded doc] _ _ _ _ new])
          (use doc in \<open>simp_all add: in_flight_def cong: lock_holder.case_cong\<close>)
      then show ?thesis using False True Inr id
        by (simp add: hold_until_turn_end_def Let_def insert_steered_row)
    qed
  next
    case st: False
    show ?thesis
    proof (cases "row_insert (length (qh_doc ?t)) ?item (qh_doc ?t)")
      case (Inl err)
      then show ?thesis using False st same(1) by (simp add: hold_until_turn_end_def Let_def row_list_simps)
    next
      case (Inr rs)
      have "flows out landed t (?t\<lparr>qh_doc := rs, qh_paused := False\<rparr>)"
        by (rule insert_flows [OF Inr [unfolded doc] _ _ _ _ new])
          (use doc in \<open>simp_all add: in_flight_def cong: lock_holder.case_cong\<close>)
      then show ?thesis using False st Inr by (simp add: hold_until_turn_end_def Let_def row_list_simps)
    qed
  qed
qed

lemma delivered_flows:
  assumes "i \<notin> set (accounted row_list t)"
  shows "flows out landed t (delivered e i x t)"
proof (rule flows_new [OF _ assms])
  show "mset (accounted row_list (delivered e i x t)) = add_mset i (mset (accounted row_list t))"
    by (simp add: accounted_def)
qed simp

lemma flows_trans_land: "flows out landed (land e m t) t' \<Longrightarrow> flows out landed t t'"
  using land_fields(6) [of t e m] unfolding flows_def land_fields(1) by blast

lemma next_turn_flows:
  assumes "(case message_id of Some m \<Rightarrow> m | None \<Rightarrow> fresh) \<notin> set (accounted row_list t)"
  shows "flows out landed t (snd (deliver_next_turn e prompt message_id fresh t))"
proof -
  let ?t = "case message_id of Some m \<Rightarrow> land e m t | None \<Rightarrow> t"
  let ?i = "case message_id of Some m \<Rightarrow> m | None \<Rightarrow> fresh"
  have t: "flows out landed t ?t" by (rule flows_same) (simp_all split: option.split)
  have "?i \<notin> set (accounted row_list ?t)" using assms by (simp split: option.splits)
  then have "flows out landed ?t ((delivered e ?i x ?t)\<lparr>qh_paused := False\<rparr>)" for x
    unfolding flows_paused by (rule delivered_flows)
  then have "flows out landed t ((delivered e ?i x ?t)\<lparr>qh_paused := False\<rparr>)" for x
    by (cases message_id) (auto intro: flows_trans_land)
  then show ?thesis using t
    by (cases message_id) (auto simp: deliver_next_turn_def Let_def flows_refl split: option.split)
qed

lemma deliver_flows:
  assumes new: "(case message_id of Some m \<Rightarrow> m | None \<Rightarrow> fresh) \<notin> set (accounted row_list t)"
  shows "flows out landed t (snd (deliver_prompt row_list e body message_id fresh at device origin t))"
proof -
  let ?i = "case message_id of Some m \<Rightarrow> m | None \<Rightarrow> fresh"
  let ?p = "resolve_prompt_attachments (qe_uploads e) body"
  let ?t = "case message_id of Some m \<Rightarrow> if qe_update_pending e then t else land e m t | None \<Rightarrow> t"
  have t: "flows out landed t ?t" by (rule flows_same) (simp_all split: option.split)
  have i: "?i \<notin> set (accounted row_list ?t)" using new by (simp split: option.splits)
  have via: "flows out landed ?t t' \<Longrightarrow> flows out landed t t'" for t'
    by (cases message_id) (auto intro: flows_trans_land split: if_splits)
  have held: "flows out landed t (snd (held_until_turn_end row_list e ?i ?p device origin t))"
    using hold_flows [OF disjI1 [OF new]] by (simp add: held_until_turn_end_def Let_def flows_refl)
  have acc: "flows out landed t ((delivered e ?i x ?t)\<lparr>qh_paused := False\<rparr>)" for x
    unfolding flows_paused by (rule via [OF delivered_flows [OF i]])
  have nxt: "flows out landed t (snd (deliver_next_turn e ?p message_id fresh ?t))"
    by (rule via [OF next_turn_flows [OF i]])
  have later: "flows out landed t (snd (hold_until_turn_end row_list e ?i ?p at True None device origin ?t))"
    by (rule via [OF hold_flows [OF disjI1 [OF i]]])
  have kept: "held_until_turn_end row_list e ?i ?p device origin t = (Inr False, t1) \<Longrightarrow> t1 = t" for t1
    by (auto simp: held_until_turn_end_def Let_def map_prod_def map_sum_def split: if_splits prod.splits sum.splits)
  show ?thesis
    using held acc nxt later t kept
    by (cases "held_until_turn_end row_list e ?i ?p device origin t")
      (auto simp: deliver_prompt_def Let_def split: sum.split bool.split steer_outcome.split)
qed

lemma send_now_flows:
  assumes "distinct (row_ids (qh_doc t))" "in_flight t = []"
  shows "flows out landed t (snd (send_queued_now row_list e i t))"
  using take_for_flows [OF assms] by (auto simp: send_queued_now_def flows_refl split: option.split)

lemma steer_now_flows:
  assumes "distinct (row_ids (qh_doc t))" "in_flight t = []" "list_all queued_ok (qh_doc t)"
  shows "flows out landed t (snd (steer_queued_now row_list e i t))"
proof (cases "row_take i (qh_doc t)")
  case (Pair x rs)
  show ?thesis
  proof (cases x)
    case None
    then have "rs = qh_doc t" using Pair row_take_none by simp
    then show ?thesis using Pair None take_for_flows [OF assms(1,2), of out landed i SteerIn]
      by (auto simp: steer_queued_now_def row_list_simps flows_refl split: option.split)
  next
    case (Some m)
    note tk = row_take_some [OF Pair [unfolded Some] assms(1)]
    let ?t = "t\<lparr>qh_doc := rs\<rparr>"
    have ok: "queued_ok m" using assms(3) tk(1) by (auto simp: list_all_iff)
    obtain rs' where ins: "row_insert (fst (steer_slot row_list (qm_id m) ?t)) m rs = Inr rs'"
      using ok by (auto simp: row_insert_def queued_ok_def)
    then have "mset (row_ids rs') = mset (row_ids (qh_doc t))"
      using tk(2,5) row_ids_insert by (auto simp: row_insert_def split: if_splits)
    then have "flows out landed t (((snd (steer_slot row_list (qm_id m) ?t))\<lparr>qh_doc := rs'\<rparr>)\<lparr>qh_paused := False\<rparr>)"
      by (intro flows_same) (simp_all add: accounted_def, simp_all add: in_flight_def cong: lock_holder.case_cong)
    then show ?thesis
      using Pair Some ins tk take_for_flows [OF assms(1,2), of out landed i SteerIn]
      by (auto simp: steer_queued_now_def row_list_simps insert_steered_row flows_refl split: option.split)
  qed
qed

lemma drain_start_flows: "in_flight t = [] \<Longrightarrow> flows out landed t (drain_start e t)"
  by (auto simp: drain_start_def flows_refl intro!: flows_same) (simp_all add: accounted_def in_flight_def)

lemma unlock_flows: "in_flight t = [] \<Longrightarrow> flows out landed t (t\<lparr>qh_lock := Free\<rparr>)"
  by (rule flows_same) (simp_all add: accounted_def, simp_all add: in_flight_def)

lemma drain_round_flows:
  assumes "distinct (row_ids (qh_doc t))" "in_flight t = []"
  shows "flows out landed t (drain_round row_list e t)"
proof (cases "qh_doc t")
  case Nil
  then show ?thesis using unlock_flows [OF assms(2)] by (simp add: drain_round_def Let_def)
next
  case (Cons head rest)
  have over: "flows out landed t (t\<lparr>qh_lock := Free\<rparr>)" by (rule unlock_flows [OF assms(2)])
  have gate: "flows out landed t ((t\<lparr>qh_lock := Free\<rparr>)\<lparr>qh_doc := change_row i (\<lambda>m. m\<lparr>qm_delivery_gate := g\<rparr>) (qh_doc t)\<rparr>)"
    for i g using assms(2) by (intro flows_same) (simp_all add: accounted_def, simp_all add: in_flight_def)
  show ?thesis
  proof (cases "qm_delivery_gate head = None \<and> \<not> qh_paused t \<and> \<not> qe_in_flight e
      \<and> missing_row_attachments (qe_uploads e) head = []")
    case True
    then have "row_take (qm_id head) (qh_doc t) = (Some head, without_row (qm_id head) (qh_doc t))"
      using Cons by (simp add: row_take_def find_row_def)
    from take_flows(2) [OF this assms, where st = "filter (\<lambda>r. r \<noteq> qm_id head) (qh_steered t)"
        and send = NextTurn and b = False]
    show ?thesis using True Cons \<open>row_take _ _ = _\<close>
      by (simp add: drain_round_def Let_def row_list_simps)
  next
    case False
    then show ?thesis
      using over gate Cons
      by (auto simp: drain_round_def Let_def flows_timers split: option.split queue_delivery_gate.split)
  qed
qed

lemma start_turn_fields:
  "qh_doc (snd (start_turn e send i held p a t)) = qh_doc t" "qh_lock (snd (start_turn e send i held p a t)) = qh_lock t"
  "set (qh_messages t) \<subseteq> set (qh_messages (snd (start_turn e send i held p a t)))"
  "qh_paused (snd (start_turn e send i held p a t)) = qh_paused t"
  "map fst (qh_sent (snd (start_turn e send i held p a t))) = map fst (qh_sent t)
     @ (case fst (start_turn e send i held p a t) of Inr _ \<Rightarrow> [i] | Inl _ \<Rightarrow> [])"
  by (auto simp: start_turn_def delivered_def land_def split: option.split)

lemma dispatch_cases:
  obtains err where "dispatch_queued e item send t = (Inl err, t)"
  | t2 err where "dispatch_queued e item send t = (Inl err, t2)"
      "qh_doc t2 = qh_doc t" "qh_lock t2 = qh_lock t" "qh_sent t2 = qh_sent t" "qh_paused t2 = qh_paused t"
      "set (qh_messages t) \<subseteq> set (qh_messages t2)"
  | t2 x where "dispatch_queued e item send t = (Inr (), delivered e (qm_id item) x t2)"
      "qh_doc t2 = qh_doc t" "qh_lock t2 = qh_lock t" "qh_sent t2 = qh_sent t" "qh_paused t2 = qh_paused t"
      "set (qh_messages t) \<subseteq> set (qh_messages t2)"
proof -
  let ?t = "if qm_completion_notice item = None then t\<lparr>qh_held := AList.delete (qm_id item) (qh_held t)\<rparr>
    else land e (qm_id item) (t\<lparr>qh_held := AList.delete (qm_id item) (qh_held t)\<rparr>)"
  have t: "qh_doc ?t = qh_doc t" "qh_lock ?t = qh_lock t" "qh_sent ?t = qh_sent t" "qh_paused ?t = qh_paused t"
    "set (qh_messages t) \<subseteq> set (qh_messages ?t)"
    by (auto simp: land_def)
  have turn: "(\<exists>err. start_turn e send (qm_id item) h p a u = (Inl err, u))
      \<or> (\<exists>x. start_turn e send (qm_id item) h p a u = (Inr (), delivered e (qm_id item) x u))" for h p a u
    by (auto simp: start_turn_def split: option.split)
  let ?h = "map_of (qh_held t) (qm_id item)"
  let ?own = "if ?h = None then queued_message_prompt (qm_text item) (qm_attachments item) else qm_text item"
  let ?r = "resolve_attachment_refs (qe_uploads e) ?own (qm_attachments item)"
  let ?start = "start_turn e send (qm_id item) ?h (fst ?r) (snd ?r) ?t"
  have "(\<exists>err. dispatch_queued e item send t = (Inl err, t)) \<or> (\<exists>err. dispatch_queued e item send t = (Inl err, ?t))
      \<or> (\<exists>x. dispatch_queued e item send t = (Inr (), delivered e (qm_id item) x ?t))"
  proof (cases "qe_executor e \<and> missing_row_attachments (qe_uploads e) item = []")
    case False
    then show ?thesis by (auto simp: dispatch_queued_def)
  next
    case True
    then have eq: "dispatch_queued e item send t = (if send = SteerIn
              then (case qe_steer e of
                      Inl err \<Rightarrow> (Inl err, ?t)
                    | Inr Accepted \<Rightarrow> (Inr (), delivered e (qm_id item) (Steered (fst ?r)) ?t)
                    | Inr DeferredByUpdate \<Rightarrow> (Inl ''agent update pending; the message remains queued'', ?t)
                    | Inr NotSteerable \<Rightarrow> ?start)
              else ?start)"
      unfolding dispatch_queued_def Let_def case_prod_unfold by simp
    show ?thesis
      unfolding eq using turn [of ?h "fst ?r" "snd ?r" ?t] by (auto split: sum.split steer_outcome.split)
  qed
  then show ?thesis using that t by blast
qed

lemma dispatch_fields:
  "qh_doc (snd (dispatch_queued e item send t)) = qh_doc t" "qh_lock (snd (dispatch_queued e item send t)) = qh_lock t"
  "set (qh_messages t) \<subseteq> set (qh_messages (snd (dispatch_queued e item send t)))"
  "qh_paused (snd (dispatch_queued e item send t)) = qh_paused t"
  "map fst (qh_sent (snd (dispatch_queued e item send t))) = map fst (qh_sent t)
     @ (case fst (dispatch_queued e item send t) of Inr _ \<Rightarrow> [qm_id item] | Inl _ \<Rightarrow> [])"
  using delivered_fields(4)
  by (cases rule: dispatch_cases [of e item send t]; auto simp: delivered_def land_def)+

lemma finish_send_flows:
  assumes "list_all queued_ok (in_flight t)"
  shows "flows out landed t (finish_send row_list e t)"
proof (cases "qh_lock t")
  case (Sending item send was_paused)
  let ?r = "dispatch_queued e item send t"
  have fl: "in_flight t = [item]" using Sending by (simp add: in_flight_def)
  show ?thesis
  proof (cases "fst ?r")
    case (Inl err)
    have "row_insert 0 item (qh_doc t) = Inr (item # qh_doc t)"
      using assms fl by (simp add: row_insert_def queued_ok_def)
    then have "finish_send row_list e t = (snd ?r)\<lparr>qh_doc := item # qh_doc t,
        qh_paused := (send = NextTurn \<or> was_paused \<or> qh_paused t), qh_lock := Free\<rparr>"
      using Inl Sending by (cases ?r) (use dispatch_fields [where e = e and item = item and send = send and t = t] in \<open>simp add: finish_send_def row_list_simps\<close>)
    then show ?thesis
      using dispatch_fields [where e = e and item = item and send = send and t = t] Inl fl
      by (intro flows_same) (simp_all add: accounted_def, simp_all add: in_flight_def)
  next
    case (Inr u)
    then have "finish_send row_list e t = (snd ?r)\<lparr>qh_lock := if send = NextTurn then Draining else Free\<rparr>"
      using Sending by (cases ?r) (simp add: finish_send_def)
    then show ?thesis
      using dispatch_fields [where e = e and item = item and send = send and t = t] Inr fl
      by (intro flows_same) (simp_all add: accounted_def, simp_all add: in_flight_def)
  qed
qed (simp_all add: finish_send_def flows_refl)

lemma cancel_flows:
  assumes "distinct (row_ids (qh_doc t))"
  shows "\<exists>gone. mset (accounted row_list (cancel_rows row_list e ids t)) + mset gone = mset (accounted row_list t)
    \<and> (qe_writes e \<longrightarrow> set gone \<subseteq> set (qh_messages (cancel_rows row_list e ids t)))
    \<and> set (qh_messages t) \<subseteq> set (qh_messages (cancel_rows row_list e ids t))
    \<and> qh_lock (cancel_rows row_list e ids t) = qh_lock t \<and> qh_sent (cancel_rows row_list e ids t) = qh_sent t
    \<and> qh_paused (cancel_rows row_list e ids t) = qh_paused t"
  using assms
proof (induction ids arbitrary: t)
  case Nil
  then show ?case by (intro exI [of _ "[]"]) simp
next
  case (Cons i ids)
  show ?case
  proof (cases "row_take i (qh_doc t)")
    case (Pair x rs)
    show ?thesis
    proof (cases x)
      case None
      then show ?thesis using Cons Pair by (simp add: row_list_simps)
    next
      case (Some m)
      note tk = row_take_some [OF Pair [unfolded Some] Cons.prems]
      let ?t = "land e (qm_id m) (t\<lparr>qh_doc := rs\<rparr>)"
      have "distinct (row_ids (qh_doc ?t))" using Cons.prems by (simp add: tk(4) row_ids_without)
      then obtain gone where gone: "mset (accounted row_list (cancel_rows row_list e ids ?t)) + mset gone
            = mset (accounted row_list ?t)"
          "qe_writes e \<longrightarrow> set gone \<subseteq> set (qh_messages (cancel_rows row_list e ids ?t))"
          "set (qh_messages ?t) \<subseteq> set (qh_messages (cancel_rows row_list e ids ?t))"
          "qh_lock (cancel_rows row_list e ids ?t) = qh_lock ?t" "qh_sent (cancel_rows row_list e ids ?t) = qh_sent ?t"
          "qh_paused (cancel_rows row_list e ids ?t) = qh_paused ?t"
        using Cons.IH [of ?t] by blast
      have eq: "cancel_rows row_list e (i # ids) t = cancel_rows row_list e ids ?t"
        using Pair Some by (simp add: row_list_simps)
      have "mset (accounted row_list t) = add_mset i (mset (accounted row_list ?t))"
        using tk(5) by (simp add: accounted_def in_flight_def)
      moreover have "i \<in> set (qh_messages ?t)" if "qe_writes e" using land_lands [OF that, of i] tk(2) by simp
      moreover have "set (qh_messages t) \<subseteq> set (qh_messages ?t)" using land_fields(6) [of "t\<lparr>qh_doc := rs\<rparr>" e "qm_id m"] by simp
      ultimately show ?thesis
        unfolding eq using gone by (intro exI [of _ "i # gone"]) auto
    qed
  qed
qed

lemma interrupt_flows:
  assumes "distinct (row_ids (qh_doc t))" "in_flight t = []"
  shows "flows out (qe_writes e) t (interrupt_and_pause_queue row_list e t)"
proof (cases "qe_in_flight e \<or> qe_background e")
  case True
  let ?t = "t\<lparr>qh_paused := True, qh_lock := Stopping, qh_held := [], qh_steered := []\<rparr>"
  let ?ids = "map fst (qh_held t) @ qh_steered t"
  have eq: "interrupt_and_pause_queue row_list e t = cancel_rows row_list e ?ids ?t"
    using True by (auto simp: interrupt_and_pause_queue_def cancel_held_sends_def)
  have "accounted row_list ?t = accounted row_list t" using assms(2) by (simp add: accounted_def) (simp add: in_flight_def)
  then obtain gone where "mset (accounted row_list (cancel_rows row_list e ?ids ?t)) + mset gone = mset (accounted row_list t)"
    "qe_writes e \<longrightarrow> set gone \<subseteq> set (qh_messages (cancel_rows row_list e ?ids ?t))"
    "set (qh_messages t) \<subseteq> set (qh_messages (cancel_rows row_list e ?ids ?t))"
    using cancel_flows [of ?t e ?ids] assms(1) by auto
  then show ?thesis unfolding eq by (intro flows_gone) auto
qed (simp add: interrupt_and_pause_queue_def flows_refl)

lemma step_flows:
  assumes "distinct (accounted row_list t)" "list_all queued_ok (qh_doc t)" "list_all queued_ok (in_flight t)" "event_ok ev"
  shows "flows (removes ev) (lands ev) t (host_step row_list hash t ev)"
proof -
  have ids: "distinct (row_ids (qh_doc t))" using assms(1) by (simp add: accounted_def)
  have free: "in_flight t = []" if "qh_lock t = Free" using that by (simp add: in_flight_def)
  have free': "in_flight t = []" if "qh_lock t = Draining \<or> qh_lock t = Stopping" using that by (auto simp: in_flight_def)
  have doc: "flows (removes ev) (lands ev) t (snd r)"
    if "r = (Inr b, t\<lparr>qh_doc := rs\<rparr>)" "row_answer q (qh_doc t) = Inr (b, rs)" "op_removes q \<subseteq> removes ev" for r b rs q
    using that answer_flows by simp
  show ?thesis
  proof (cases ev)
    case (QueueMessage item)
    have "row_insert (length (qh_doc t)) item (qh_doc t) = Inr (qh_doc t @ [item])"
      using assms(4) QueueMessage by (simp add: row_insert_def queued_ok_def insert_at_def)
    then have "fresh_id row_list (qm_id item) t \<Longrightarrow> flows (removes ev) (lands ev) t (t\<lparr>qh_doc := qh_doc t @ [item]\<rparr>)"
      by (rule insert_flows) (simp_all add: fresh_id_def in_flight_def)
    then show ?thesis using QueueMessage \<open>row_insert _ _ _ = _\<close>
      by (simp add: host_step_def queue_message_with_behavior_def row_list_simps flows_refl)
  next
    case (Retype now i body)
    obtain b rs where r: "row_answer (SetText i body now) (qh_doc t) = Inr (b, rs)"
      by (cases "row_apply (SetText i body now) (qh_doc t)") (auto simp: row_answer_def split: if_splits option.splits)
    then have "flows (removes ev) (lands ev) t (t\<lparr>qh_doc := rs\<rparr>)"
      by (rule answer_flows) (use Retype in simp)
    then show ?thesis using Retype r by (simp add: host_step_def update_queued_message_def row_list_def)
  next
    case (MoveTo i n)
    obtain b rs where r: "row_answer (MoveRow i n) (qh_doc t) = Inr (b, rs)"
      using row_answer_move by blast
    then have "flows (removes ev) (lands ev) t (t\<lparr>qh_doc := rs\<rparr>)" by (rule answer_flows) simp
    then show ?thesis using MoveTo r by (simp add: host_step_def move_queued_message_def row_list_def)
  next
    case (Remove e i)
    have r: "row_answer (RemoveRow i) (qh_doc t) = Inr (find_row i (qh_doc t) \<noteq> None, without_row i (qh_doc t))"
      by (simp add: row_answer_def)
    then have "flows (removes ev) (lands ev) t (t\<lparr>qh_doc := without_row i (qh_doc t)\<rparr>)"
      by (rule answer_flows) (use Remove in simp)
    then show ?thesis using Remove r
      by (simp add: host_step_def when_free_def remove_queued_message_def row_list_def flows_refl)
  next
    case (Wake n e)
    have "flows (removes ev) (lands ev) t (expire_queued_message_edit row_list e i lease at (t\<lparr>qh_timers := ts\<rparr>))"
      for i lease at ts using expire_flows [of _ _ "t\<lparr>qh_timers := ts\<rparr>"] by (simp add: flows_timers)
    then show ?thesis using Wake by (auto simp: host_step_def when_free_def flows_refl split: prod.split)
  next
    case (HoldRun e i body at request device origin)
    then show ?thesis using hold_flows [where i = i and t = t] by (auto simp: host_step_def fresh_id_def flows_refl)
  next
    case (Deliver e body message_id fresh at device origin)
    then show ?thesis using deliver_flows [where message_id = message_id and fresh = fresh and t = t] by (auto simp: host_step_def fresh_id_def flows_refl)
  qed (use ids free free' assms(2,3) begin_flows renew_flows finish_flows send_now_flows steer_now_flows drain_start_flows
        drain_round_flows finish_send_flows interrupt_flows unlock_flows in
      \<open>auto simp: host_step_def when_free_def flows_refl interrupt_answered_def rewrite_held_sends_for_switch_def
        intro: flows_same\<close>)
qed

end
