(* ===== verification/Queue_Promises.thy ===== *)
theory Queue_Promises
  imports Queue_Host
begin

text \<open>
  What the queue of a hosted chat promises, over every order in which the operations of
  \<open>Queue_Host\<close> take the lock and whatever the agent, the clock and the other devices do.
\<close>

section \<open>The row in flight\<close>

lemma lock_kept [simp]:
  "qh_lock (snd (queue_message_with_behavior row_list item t)) = qh_lock t"
  "qh_lock (snd (update_queued_message row_list i body now t)) = qh_lock t"
  "qh_lock (snd (move_queued_message row_list i n t)) = qh_lock t"
  "qh_lock (snd (remove_queued_message row_list e i t)) = qh_lock t"
  "qh_lock (snd (finish_queued_message_edit row_list hash e i lease action b expected paths t)) = qh_lock t"
  by (simp_all add: queue_message_with_behavior_def update_queued_message_def move_queued_message_def
      remove_queued_message_def finish_queued_message_edit_def Let_def case_prod_unfold
      split: sum.split option.split bool.split)

lemma lock_kept_edits [simp]:
  "qh_lock (snd (begin_queued_message_edit row_list hash e lease i device inst t)) = qh_lock t"
  "qh_lock (snd (renew_queued_message_edit row_list e i lease t)) = qh_lock t"
  "qh_lock (expire_queued_message_edit row_list e i lease at t) = qh_lock t"
  by (simp_all add: begin_queued_message_edit_def renew_queued_message_edit_def expire_queued_message_edit_def
      Let_def split: option.split queue_delivery_gate.split bool.split)

lemma insert_steered_lock: "insert_steered row_list item t = Inr t' \<Longrightarrow> qh_lock t' = qh_lock t"
  by (auto simp: insert_steered_row map_sum_def split: sum.splits)

lemma lock_kept_hold [simp]:
  "qh_lock (snd (hold_until_turn_end row_list e i body at steer request device origin t)) = qh_lock t"
  "qh_lock (snd (held_until_turn_end row_list e i body device origin t)) = qh_lock t"
proof -
  show hold: "qh_lock (snd (hold_until_turn_end row_list e i body at steer request device origin t)) = qh_lock t"
    for at steer request
    by (auto simp: hold_until_turn_end_def Let_def row_list_simps dest!: insert_steered_lock split: option.split sum.split)
  show "qh_lock (snd (held_until_turn_end row_list e i body device origin t)) = qh_lock t"
    by (simp add: held_until_turn_end_def Let_def hold)
qed

lemma lock_kept_deliver [simp]:
  "qh_lock (snd (deliver_next_turn e prompt message_id fresh t)) = qh_lock t"
  "qh_lock (snd (deliver_prompt row_list e body message_id fresh at device origin t)) = qh_lock t"
proof -
  show nxt: "qh_lock (snd (deliver_next_turn e prompt message_id fresh t)) = qh_lock t" for prompt t
    by (simp add: deliver_next_turn_def Let_def split: option.split)
  have kept: "held_until_turn_end row_list e i b device origin t = (x, t1) \<Longrightarrow> qh_lock t1 = qh_lock t" for i b x t1
    using lock_kept_hold(2) [of e i b device origin t] by simp
  show "qh_lock (snd (deliver_prompt row_list e body message_id fresh at device origin t)) = qh_lock t"
    by (auto simp: deliver_prompt_def Let_def nxt dest: kept split: prod.split sum.split bool.split steer_outcome.split option.split)
qed

lemma take_for_lock:
  assumes "qh_lock t = Free" "distinct (row_ids (qh_doc t))" "m \<in> set (in_flight (snd (take_for row_list i send t)))"
  shows "m \<in> set (qh_doc t) \<and> qm_delivery_gate m = None"
proof (cases "row_take i (qh_doc t)")
  case (Pair x rs)
  show ?thesis
  proof (cases x)
    case None
    then show ?thesis using assms(1,3) Pair by (simp add: take_for_def row_list_simps in_flight_def)
  next
    case (Some m')
    then have "m = m'" using assms(3) Pair by (simp add: take_for_def row_list_simps in_flight_def)
    then show ?thesis using row_take_some [OF Pair [unfolded Some] assms(2)] by blast
  qed
qed

lemma steer_now_lock:
  assumes "qh_lock t = Free" "distinct (row_ids (qh_doc t))" "m \<in> set (in_flight (snd (steer_queued_now row_list e i t)))"
  shows "m \<in> set (qh_doc t) \<and> qm_delivery_gate m = None"
proof -
  have "qh_lock (snd (steer_queued_now row_list e i t)) = Free
      \<or> steer_queued_now row_list e i t = take_for row_list i SteerIn t"
    using assms(1)
    by (auto simp: steer_queued_now_def row_list_simps dest!: insert_steered_lock
        split: option.split prod.split sum.split)
  then show ?thesis
  proof
    assume "qh_lock (snd (steer_queued_now row_list e i t)) = Free"
    then show ?thesis using assms(3) by (simp add: in_flight_def)
  next
    assume "steer_queued_now row_list e i t = take_for row_list i SteerIn t"
    then show ?thesis using assms take_for_lock [of t m i SteerIn] by simp
  qed
qed

lemma send_now_lock:
  assumes "qh_lock t = Free" "distinct (row_ids (qh_doc t))" "m \<in> set (in_flight (snd (send_queued_now row_list e i t)))"
  shows "m \<in> set (qh_doc t) \<and> qm_delivery_gate m = None"
proof -
  have "send_queued_now row_list e i t = take_for row_list i InterruptFirst t
      \<or> snd (send_queued_now row_list e i t) = t"
    by (auto simp: send_queued_now_def split: option.split)
  then show ?thesis
  proof
    assume "send_queued_now row_list e i t = take_for row_list i InterruptFirst t"
    then show ?thesis using assms take_for_lock [of t m i InterruptFirst] by simp
  next
    assume "snd (send_queued_now row_list e i t) = t"
    then show ?thesis using assms(1,3) by (simp add: in_flight_def)
  qed
qed

lemma drain_round_lock:
  assumes "qh_lock t = Draining" "m \<in> set (in_flight (drain_round row_list e t))"
  shows "m \<in> set (qh_doc t) \<and> qm_delivery_gate m = None"
proof (cases "qh_doc t")
  case Nil
  then show ?thesis using assms by (simp add: drain_round_def in_flight_def)
next
  case (Cons head rest)
  show ?thesis
  proof (cases "qm_delivery_gate head = None \<and> \<not> qh_paused t \<and> \<not> qe_in_flight e
      \<and> missing_row_attachments (qe_uploads e) head = []")
    case True
    then have "row_take (qm_id head) (qh_doc t) = (Some head, without_row (qm_id head) (qh_doc t))"
      using Cons by (simp add: row_take_def find_row_def)
    then show ?thesis using assms True Cons by (simp add: drain_round_def Let_def row_list_simps in_flight_def)
  next
    case False
    then have "qh_lock (drain_round row_list e t) = Free"
      using Cons by (auto simp: drain_round_def Let_def split: option.split queue_delivery_gate.split)
    then show ?thesis using assms(2) by (simp add: in_flight_def)
  qed
qed

lemma finish_send_lock:
  "in_flight (finish_send row_list e t) = []"
proof (cases "qh_lock t")
  case (Sending item send was_paused)
  then show ?thesis
    by (auto simp: finish_send_def in_flight_def split: prod.split sum.split)
qed (simp_all add: finish_send_def in_flight_def)

lemma cancel_rows_lock: "qh_lock (cancel_rows row_list e ids t) = qh_lock t"
  by (induction ids arbitrary: t) (auto simp: row_list_simps split: prod.split option.split)

lemma interrupt_lock: "in_flight (interrupt_and_pause_queue row_list e t) = in_flight t
    \<or> in_flight (interrupt_and_pause_queue row_list e t) = []"
  by (auto simp: interrupt_and_pause_queue_def cancel_held_sends_def cancel_rows_lock in_flight_def)

lemma in_flight_step:
  assumes "distinct (row_ids (qh_doc t))" "m \<in> set (in_flight (host_step row_list hash t ev))"
  shows "m \<in> set (in_flight t) \<or> m \<in> set (qh_doc t) \<and> qm_delivery_gate m = None"
proof -
  have same: ?thesis if "qh_lock (host_step row_list hash t ev) = qh_lock t"
    using assms(2) that by (simp add: in_flight_def)
  show ?thesis
  proof (cases ev)
    case (SendNow e i)
    then show ?thesis using assms send_now_lock [of t m e i] by (simp add: host_step_def when_free_def split: if_splits)
  next
    case (SteerNow e i)
    then show ?thesis using assms steer_now_lock [of t m e i] by (simp add: host_step_def when_free_def split: if_splits)
  next
    case (DrainRound e)
    then show ?thesis using assms drain_round_lock [of t m e] by (simp add: host_step_def split: if_splits)
  next
    case (Sent e)
    then show ?thesis using assms finish_send_lock [of e t] by (simp add: host_step_def)
  next
    case (StopTurn e)
    then show ?thesis using assms(2) interrupt_lock [of e t] by (auto simp: host_step_def when_free_def split: if_splits)
  next
    case (DrainStart e)
    then show ?thesis using assms(2) by (auto simp: host_step_def when_free_def drain_start_def in_flight_def split: if_splits)
  next
    case (StopAnswered e)
    then show ?thesis using assms(2) by (auto simp: host_step_def interrupt_answered_def in_flight_def split: if_splits)
  qed (rule same; simp add: host_step_def when_free_def rewrite_held_sends_for_switch_def split: prod.split)+
qed

section \<open>Reachable states\<close>

definition waiting_ok :: "'c document \<Rightarrow> 'c queue_host \<Rightarrow> bool" where
  "waiting_ok d s \<longleftrightarrow> list_all (\<lambda>m. queued_ok m \<and> qm_delivery_gate m = None) (in_flight s) \<and> distinct (accounted d s)"

lemma waiting_rows: "waiting_ok row_list (as_rows d s) = waiting_ok d s"
  by (simp add: waiting_ok_def)

lemma waiting_step:
  assumes "waiting_ok row_list t" "list_all queued_ok (qh_doc t)" "event_ok ev"
  shows "waiting_ok row_list (host_step row_list hash t ev)"
proof -
  have ok: "distinct (accounted row_list t)" "distinct (row_ids (qh_doc t))" "list_all queued_ok (in_flight t)"
    using assms(1) by (auto simp: waiting_ok_def accounted_def list_all_iff)
  have "distinct (accounted row_list (host_step row_list hash t ev))"
    by (rule flows_distinct [OF step_flows [OF ok(1) assms(2) ok(3) assms(3)] ok(1)])
  then show ?thesis
    using in_flight_step [OF ok(2), of _ hash ev] assms(1,2) by (auto simp: waiting_ok_def list_all_iff)
qed

context queue_document
begin

definition host_inv :: "'c queue_host \<Rightarrow> bool" where
  "host_inv s \<longleftrightarrow> good (qh_doc s) \<and> waiting_ok d s"

lemma host_inv_step:
  assumes "host_inv s" "event_ok ev"
  shows "host_inv (host_step d hash s ev)" "as_rows d (host_step d hash s ev) = host_step row_list hash (as_rows d s) ev"
proof -
  have w: "waiting_ok row_list (as_rows d s)" "list_all queued_ok (rows d s)"
    using assms(1) good_rows by (simp_all add: host_inv_def waiting_rows)
  have sim: "sim (host_step d hash s ev) (host_step row_list hash (as_rows d s) ev)"
    using assms by (intro step_sim) (auto simp: host_inv_def waiting_ok_def list_all_iff)
  then show "as_rows d (host_step d hash s ev) = host_step row_list hash (as_rows d s) ev" by blast
  show "host_inv (host_step d hash s ev)"
    using waiting_step [OF w(1) _ assms(2), of hash] w(2) sim waiting_rows [of d "host_step d hash s ev"]
    by (simp add: host_inv_def)
qed

lemma host_inv_new: "good c \<Longrightarrow> host_inv (new_host c)"
  using good_rows [of c] by (simp add: host_inv_def waiting_ok_def new_host_def in_flight_def accounted_def)

lemma run_sim:
  "host_inv s \<Longrightarrow> list_all event_ok es \<Longrightarrow>
     host_inv (foldl (host_step d hash) s es)
     \<and> as_rows d (foldl (host_step d hash) s es) = foldl (host_step row_list hash) (as_rows d s) es"
  by (induction es arbitrary: s) (simp_all add: host_inv_step)

lemma host_inv_rows:
  "host_inv s \<Longrightarrow> distinct (accounted row_list (as_rows d s)) \<and> distinct (row_ids (rows d s))
     \<and> list_all queued_ok (rows d s) \<and> list_all queued_ok (in_flight s)"
  using good_rows [of "qh_doc s"] by (auto simp: host_inv_def waiting_ok_def list_all_iff)

lemma never_lost:
  assumes "host_inv s" "event_ok ev" "lands ev" "i \<in> present d s" "i \<notin> removes ev"
  shows "i \<in> present d (host_step d hash s ev)"
proof -
  have "flows (removes ev) (lands ev) (as_rows d s) (host_step row_list hash (as_rows d s) ev)"
    using host_inv_rows [OF assms(1)] assms(2) by (intro step_flows) simp_all
  moreover have "present row_list (as_rows d s) = present d s" for s
    by (simp add: present_def)
  ultimately show ?thesis
    using flows_present [of "removes ev" "as_rows d s" "host_step row_list hash (as_rows d s) ev" i] assms
    by (simp flip: host_inv_step(2) [OF assms(1,2), of hash])
qed

end

interpretation queue_runs: guarded_machine "host_step (stored_queue ops) hash" "stored.host_inv ops" event_ok
  for ops :: "'c queue_ops" and hash
  by unfold_locales (rule stored.host_inv_step)

section \<open>Gates\<close>

text \<open>A row that is open for editing, or waits for a review.\<close>

definition gated :: "string \<Rightarrow> queued_message list \<Rightarrow> bool" where
  "gated i rs \<longleftrightarrow> (\<exists>m\<in>set rs. qm_id m = i \<and> qm_delivery_gate m \<noteq> None)"

fun opens :: "host_event \<Rightarrow> string set" where
  "opens (Remove _ i) = {i}"
| "opens (Retype _ i body) = (if blank body then {i} else {})"
| "opens (EndEdit _ i _ _ _ _ _) = {i}"
| "opens _ = {}"

lemma gated_take:
  assumes "gated i rs" "row_take j rs = (x, rs')" "distinct (row_ids rs)"
  shows "gated i rs'"
proof (cases x)
  case None
  then show ?thesis using assms(1,2) row_take_none by blast
next
  case (Some m)
  note tk = row_take_some [OF assms(2) [unfolded Some] assms(3)]
  obtain m' where m': "m' \<in> set rs" "qm_id m' = i" "qm_delivery_gate m' \<noteq> None"
    using assms(1) by (auto simp: gated_def)
  then have "qm_id m' \<noteq> qm_id m"
    using tk(1,3) assms(3) by (auto simp: row_ids_def distinct_map inj_on_def)
  then show ?thesis using m' tk(2,4) by (auto simp: gated_def without_row_def)
qed

lemma gated_insert: "gated i rs \<Longrightarrow> row_insert n item rs = Inr rs' \<Longrightarrow> gated i rs'"
  by (auto simp: row_insert_def gated_def set_insert_at split: if_splits)

lemma gated_cons: "gated i rs \<Longrightarrow> gated i (m # rs)"
  by (auto simp: gated_def)

lemma gated_change:
  assumes "gated i rs" "\<And>m. qm_id (f m) = qm_id m" "\<And>m. qm_delivery_gate m \<noteq> None \<Longrightarrow> qm_delivery_gate (f m) \<noteq> None"
  shows "gated i (change_row j f rs)"
proof -
  obtain m where m: "m \<in> set rs" "qm_id m = i" "qm_delivery_gate m \<noteq> None"
    using assms(1) by (auto simp: gated_def)
  then have "(if qm_id m = j then f m else m) \<in> set (change_row j f rs)"
    by (auto simp: change_row_def)
  then show ?thesis unfolding gated_def
    by (rule bexI [rotated]) (use m assms(2,3) in \<open>simp del: not_None_eq\<close>)
qed

lemma gated_set_gate: "gated i rs \<Longrightarrow> gated i (change_row j (\<lambda>m. m\<lparr>qm_delivery_gate := Some g\<rparr>) rs)"
  by (rule gated_change) simp_all

lemma gated_retyped: "gated i rs \<Longrightarrow> gated i (change_row j (retyped body now) rs)"
  by (rule gated_change) (simp_all add: retyped_def split: option.split)

lemma gated_answer:
  assumes "gated i rs" "row_answer q rs = Inr (b, rs')" "i \<notin> op_removes q"
    and "\<And>body paths now. q \<noteq> FinishEdit i body paths now" "\<And>j. q \<noteq> SetGate j None"
  shows "gated i rs'"
proof -
  obtain m where m: "m \<in> set rs" "qm_id m = i" "qm_delivery_gate m \<noteq> None"
    using assms(1) by (auto simp: gated_def)
  have without: "j \<noteq> i \<Longrightarrow> gated i (without_row j rs)" for j
    using m by (auto simp: gated_def without_row_def)
  have other: "j \<noteq> i \<Longrightarrow> gated i (change_row j f rs)" for j f
    using m by (force simp: gated_def change_row_def)
  show ?thesis
  proof (cases q)
    case (RemoveRow j)
    then show ?thesis using assms(2,3) without [of j] by (auto simp: row_answer_def)
  next
    case (MoveRow j n)
    have "mset (insert_at k (rs ! l) (remove_at l rs)) = mset rs" if "l < length rs" for k l
      by (rule insert_remove_mset [OF that])
    then have "set (insert_at k (rs ! l) (remove_at l rs)) = set rs" if "l < length rs" for k l
      using that mset_eq_setD by blast
    moreover have "rs' = rs \<or> (\<exists>l k. l < length rs \<and> rs' = insert_at k (rs ! l) (remove_at l rs))"
      using assms(2) MoveRow position_Some_split [of "\<lambda>m. qm_id m = j" rs]
      by (auto simp: row_answer_def Let_def split: option.splits if_splits)
    ultimately have "set rs' = set rs" by auto
    then show ?thesis using assms(1) by (simp add: gated_def)
  next
    case (SetText j body now)
    then show ?thesis using assms(1-3) without gated_retyped [of i rs j]
      by (auto simp: row_answer_def split: if_splits option.splits)
  next
    case (SetGate j gate)
    then show ?thesis using assms(1,2,5) gated_set_gate by (cases gate) (auto simp: row_answer_def)
  next
    case (FinishEdit j body paths now)
    then have "j \<noteq> i" using assms(4) by blast
    then show ?thesis using FinishEdit assms(2) without [of j] other [of j] by (auto simp: row_answer_def split: if_splits)
  qed (use assms(2) in \<open>auto simp: row_answer_def split: option.splits if_splits\<close>)
qed

lemma gated_insert_steered: "gated i (qh_doc t) \<Longrightarrow> insert_steered row_list item t = Inr t' \<Longrightarrow> gated i (qh_doc t')"
  by (auto simp: insert_steered_row map_sum_def dest: gated_insert split: sum.splits)

lemma gated_hold:
  assumes "gated i (qh_doc t)"
  shows "gated i (qh_doc (snd (hold_until_turn_end row_list e j body at steer request device origin t)))"
  using assms
  by (auto simp: hold_until_turn_end_def Let_def row_list_simps split: option.split sum.split
      dest: gated_insert_steered [rotated] gated_insert)

lemma gated_deliver:
  assumes "gated i (qh_doc t)"
  shows "gated i (qh_doc (snd (deliver_prompt row_list e body message_id fresh at device origin t)))"
proof -
  have nxt: "qh_doc (snd (deliver_next_turn e prompt message_id fresh t)) = qh_doc t" for prompt t
    by (simp add: deliver_next_turn_def Let_def split: option.split)
  have held: "gated i (qh_doc t1)" if "gated i (qh_doc t)" "held_until_turn_end row_list e j b device origin t = (x, t1)" for j b x t1
    using gated_hold [OF assms, of e j b "qe_now e" True None device origin] that
    by (auto simp: held_until_turn_end_def Let_def map_prod_def split: if_splits prod.splits)
  show ?thesis using assms
    by (auto simp: deliver_prompt_def Let_def nxt intro!: gated_hold dest: held
        split: prod.split sum.split bool.split steer_outcome.split option.split)
qed

lemma gated_finish:
  assumes "gated i (qh_doc t)" "j \<noteq> i"
  shows "gated i (qh_doc (snd (finish_queued_message_edit row_list hash e j lease action body expected paths t)))"
proof -
  let ?body = "case action of Commit \<Rightarrow> Some (case body of Some b \<Rightarrow> b | None \<Rightarrow> []) | Discard \<Rightarrow> Some [] | _ \<Rightarrow> None"
  let ?paths = "if action = Commit then paths else None"
  let ?q = "FinishEdit j ?body ?paths (qe_now e)"
  obtain b rs where r: "row_answer ?q (qh_doc t) = Inr (b, rs)"
    by (cases "row_apply ?q (qh_doc t)") (auto simp: row_answer_def split: if_splits)
  have "gated i rs"
    by (rule gated_answer [OF assms(1) r]) (use assms(2) in \<open>auto split: option.split\<close>)
  moreover have "dc_finish row_list j ?body ?paths (qe_now e) (qh_doc t) = Inr (b, rs)"
    using r by (simp add: row_list_def)
  ultimately show ?thesis using assms(1)
    by (cases action; cases body)
      (auto simp: finish_queued_message_edit_def Let_def case_prod_unfold split: option.split bool.split)
qed

lemma gated_take_for:
  assumes "gated i (qh_doc t)" "distinct (row_ids (qh_doc t))"
  shows "gated i (qh_doc (snd (take_for row_list j send t)))"
  using assms gated_take [OF assms(1) _ assms(2), of j]
  by (auto simp: take_for_def row_list_simps split: prod.split option.split)

lemma gated_steer_now:
  assumes "gated i (qh_doc t)" "distinct (row_ids (qh_doc t))"
  shows "gated i (qh_doc (snd (steer_queued_now row_list e j t)))"
proof (cases "row_take j (qh_doc t)")
  case (Pair x rs)
  have rs: "gated i rs" by (rule gated_take [OF assms(1) Pair assms(2)])
  then have "gated i (qh_doc t')" if "insert_steered row_list m (t\<lparr>qh_doc := rs\<rparr>) = Inr t'" for m t'
    using gated_insert_steered [OF _ that] by simp
  then show ?thesis using Pair rs assms(1) gated_take_for [OF assms, of j SteerIn]
    by (auto simp: steer_queued_now_def row_list_simps split: option.split sum.split)
qed

lemma gated_drain_round:
  assumes "gated i (qh_doc t)" "distinct (row_ids (qh_doc t))"
  shows "gated i (qh_doc (drain_round row_list e t))"
  using assms(1) gated_set_gate [OF assms(1)] gated_take [OF assms(1) _ assms(2)]
  by (auto simp: drain_round_def Let_def row_list_simps
      split: list.split option.split queue_delivery_gate.split prod.split)

lemma gated_finish_send:
  assumes "gated i (qh_doc t)"
  shows "gated i (qh_doc (finish_send row_list e t))"
proof -
  have "qh_doc t1 = qh_doc t" if "dispatch_queued e item send t = (r, t1)" for item send r t1
    using dispatch_doc [of e item send t] that by simp
  then show ?thesis using assms
    by (auto simp: finish_send_def row_list_simps gated_insert
        split: lock_holder.split prod.split sum.split intro: gated_insert)
qed

lemma gated_cancel:
  "gated i (qh_doc t) \<Longrightarrow> distinct (row_ids (qh_doc t)) \<Longrightarrow> gated i (qh_doc (cancel_rows row_list e ids t))"
proof (induction ids arbitrary: t)
  case (Cons j ids)
  show ?case
  proof (cases "row_take j (qh_doc t)")
    case (Pair x rs)
    show ?thesis
    proof (cases x)
      case None
      then show ?thesis using Cons Pair by (simp add: row_list_simps)
    next
      case (Some m)
      note tk = row_take_some [OF Pair [unfolded Some] Cons.prems(2)]
      have "distinct (row_ids rs)" using Cons.prems(2) by (simp add: tk(4) row_ids_without)
      then show ?thesis using Pair Some gated_take [OF Cons.prems(1) Pair Cons.prems(2)]
        by (simp add: row_list_simps Cons.IH)
    qed
  qed
qed simp

lemma gated_stop:
  assumes "gated i (qh_doc t)" "distinct (row_ids (qh_doc t))"
  shows "gated i (qh_doc (interrupt_and_pause_queue row_list e t))"
  using gated_cancel [of i "t\<lparr>qh_paused := True, qh_lock := Stopping, qh_held := [], qh_steered := []\<rparr>"] assms
  by (simp add: interrupt_and_pause_queue_def cancel_held_sends_def)

lemma gated_lease_ops:
  assumes "gated i (qh_doc t)"
  shows "gated i (qh_doc (snd (begin_queued_message_edit row_list hash e lease j device inst t)))"
    "gated i (qh_doc (snd (renew_queued_message_edit row_list e j lease t)))"
    "gated i (qh_doc (expire_queued_message_edit row_list e j lease at t))"
  using assms gated_set_gate [OF assms]
  by (simp_all add: begin_queued_message_edit_def renew_queued_message_edit_def expire_queued_message_edit_def
      Let_def split: option.split queue_delivery_gate.split bool.split)

lemma gated_step:
  assumes "gated i (qh_doc t)" "distinct (row_ids (qh_doc t))" "i \<notin> opens ev"
  shows "gated i (qh_doc (host_step row_list hash t ev))"
proof (cases ev)
  case (QueueMessage item)
  then show ?thesis using assms(1) gated_insert [OF assms(1)]
    by (simp add: host_step_def queue_message_with_behavior_def row_list_simps split: sum.split)
next
  case (Retype now j body)
  then show ?thesis using assms(1,3) gated_answer [OF assms(1), of "SetText j body now"]
    by (auto simp: host_step_def update_queued_message_def row_list_def split: sum.split)
next
  case (MoveTo j n)
  then show ?thesis using assms(1) gated_answer [OF assms(1), of "MoveRow j n"]
    by (auto simp: host_step_def move_queued_message_def row_list_def split: sum.split)
next
  case (Remove e j)
  then show ?thesis using assms(1,3) gated_answer [OF assms(1), of "RemoveRow j"]
    by (auto simp: host_step_def when_free_def remove_queued_message_def row_list_def split: sum.split)
next
  case (Wake n e)
  have "gated i (qh_doc (expire_queued_message_edit row_list e j lease at (t\<lparr>qh_timers := ts\<rparr>)))" for j lease at ts
    by (rule gated_lease_ops(3)) (simp add: assms(1))
  then show ?thesis using Wake assms(1) by (simp add: host_step_def when_free_def split: prod.split)
next
  case (SendNow e j)
  then show ?thesis using assms(1) gated_take_for [OF assms(1,2)]
    by (simp add: host_step_def when_free_def send_queued_now_def split: option.split)
qed (use assms gated_finish gated_steer_now gated_drain_round gated_finish_send gated_stop gated_lease_ops
    gated_hold gated_deliver in \<open>simp_all add: host_step_def when_free_def drain_start_def interrupt_answered_def
      rewrite_held_sends_for_switch_def\<close>)

section \<open>Armed leases\<close>

text \<open>The leases the rows hold, each with the time it ends.\<close>

definition lease_of :: "queued_message \<Rightarrow> (string \<times> string \<times> int) option" where
  "lease_of m = (case qm_delivery_gate m of
     Some (Editing lease _ _ _ expires _) \<Rightarrow> Some (qm_id m, lease, expires) | _ \<Rightarrow> None)"

definition leases :: "queued_message list \<Rightarrow> (string \<times> string \<times> int) set" where
  "leases rs = {x. \<exists>m\<in>set rs. lease_of m = Some x}"

lemma leases_subset: "set rs' \<subseteq> set rs \<Longrightarrow> leases rs' \<subseteq> leases rs"
  by (auto simp: leases_def)

lemma leases_take: "row_take i rs = (x, rs') \<Longrightarrow> leases rs' \<subseteq> leases rs"
  by (rule leases_subset) (auto simp: row_take_def without_row_def split: option.splits if_splits)

lemma leases_insert:
  "row_insert n item rs = Inr rs' \<Longrightarrow> qm_delivery_gate item = None \<Longrightarrow> leases rs' = leases rs"
  by (auto simp: row_insert_def leases_def set_insert_at lease_of_def split: if_splits)

lemma leases_change_same:
  assumes "\<And>m. lease_of (f m) = None \<or> lease_of (f m) = lease_of m"
  shows "leases (change_row i f rs) \<subseteq> leases rs"
proof
  fix y assume "y \<in> leases (change_row i f rs)"
  then obtain m where m: "m \<in> set rs" "lease_of (if qm_id m = i then f m else m) = Some y"
    by (auto simp: leases_def change_row_def)
  then have "lease_of m = Some y" using assms [of m] by (auto split: if_splits)
  then show "y \<in> leases rs" using m(1) by (auto simp: leases_def)
qed

lemma leases_review:
  "leases (change_row i (\<lambda>m. m\<lparr>qm_delivery_gate := Some (ReviewRequired lease device now base)\<rparr>) rs) \<subseteq> leases rs"
  by (rule leases_change_same) (simp add: lease_of_def)

lemma leases_editing:
  "leases (change_row i (\<lambda>m. m\<lparr>qm_delivery_gate := Some (Editing lease device inst now expires base)\<rparr>) rs)
     \<subseteq> insert (i, lease, expires) (leases rs)"
proof
  fix y assume "y \<in> leases (change_row i (\<lambda>m. m\<lparr>qm_delivery_gate := Some (Editing lease device inst now expires base)\<rparr>) rs)"
  then show "y \<in> insert (i, lease, expires) (leases rs)"
    by (auto simp: leases_def change_row_def lease_of_def split: if_splits)
qed

lemma leases_answer:
  assumes "row_answer q rs = Inr (b, rs')" "\<And>j g. q \<noteq> SetGate j g"
  shows "leases rs' \<subseteq> leases rs"
proof -
  have edit: "lease_of (retyped body now m) = lease_of m" for body now m
    by (simp add: lease_of_def retyped_def split: option.split queue_delivery_gate.split)
  show ?thesis
  proof (cases q)
    case (RemoveRow j)
    then show ?thesis using assms(1) by (intro leases_subset) (auto simp: row_answer_def without_row_def)
  next
    case (MoveRow j n)
    have "set (insert_at k (rs ! l) (remove_at l rs)) = set rs" if "l < length rs" for k l
      using insert_remove_mset [OF that] mset_eq_setD by blast
    moreover have "rs' = rs \<or> (\<exists>l k. l < length rs \<and> rs' = insert_at k (rs ! l) (remove_at l rs))"
      using assms(1) MoveRow position_Some_split [of "\<lambda>m. qm_id m = j" rs]
      by (auto simp: row_answer_def Let_def split: option.splits if_splits)
    ultimately show ?thesis by (intro leases_subset) auto
  next
    case (SetText j body now)
    then show ?thesis using assms(1) leases_change_same [of "retyped (Some body) now" j rs] edit
        leases_subset [of "without_row j rs" rs]
      by (auto simp: row_answer_def without_row_def split: if_splits option.splits)
  next
    case (FinishEdit j body paths now)
    have "leases (change_row j (\<lambda>m. (reattached paths now (retyped body now m))\<lparr>qm_delivery_gate := None\<rparr>) rs) \<subseteq> leases rs"
      by (rule leases_change_same) (simp add: lease_of_def)
    then show ?thesis using FinishEdit assms(1) leases_subset [of "without_row j rs" rs]
      by (auto simp: row_answer_def without_row_def split: if_splits)
  qed (use assms in \<open>auto simp: row_answer_def split: option.splits if_splits\<close>)
qed

text \<open>A step that adds no lease it does not arm.\<close>

definition arms :: "queued_message list queue_host \<Rightarrow> queued_message list queue_host \<Rightarrow> bool" where
  "arms t t' \<longleftrightarrow> set (qh_timers t) \<subseteq> set (qh_timers t')
     \<and> leases (qh_doc t') \<subseteq> leases (qh_doc t) \<union> set (qh_timers t')"

definition armed :: "queued_message list queue_host \<Rightarrow> bool" where
  "armed t \<longleftrightarrow> leases (qh_doc t) \<subseteq> set (qh_timers t)"

lemma arms_armed: "arms t t' \<Longrightarrow> armed t \<Longrightarrow> armed t'"
  by (auto simp: arms_def armed_def)

lemma armsI: "qh_timers t' = qh_timers t \<Longrightarrow> leases (qh_doc t') \<subseteq> leases (qh_doc t) \<Longrightarrow> arms t t'"
  by (auto simp: arms_def)

lemma arms_begin: "arms t (snd (begin_queued_message_edit row_list hash e lease i device inst t))"
proof -
  have "arms t (t\<lparr>qh_doc := change_row i (\<lambda>m. m\<lparr>qm_delivery_gate :=
          Some (Editing lease device inst now expires base)\<rparr>) (qh_doc t), qh_timers := (i, lease, expires) # qh_timers t\<rparr>)"
    for now expires base
    using leases_editing [of i lease device inst now expires base "qh_doc t"] by (auto simp: arms_def)
  moreover have "arms t t" by (simp add: armsI)
  ultimately show ?thesis
    by (simp add: begin_queued_message_edit_def Let_def split: option.split queue_delivery_gate.split)
qed

lemma arms_renew: "arms t (snd (renew_queued_message_edit row_list e i lease t))"
proof -
  have ed: "arms t (t\<lparr>qh_doc := change_row i (\<lambda>m. m\<lparr>qm_delivery_gate :=
          Some (Editing lease device inst now expires base)\<rparr>) (qh_doc t), qh_timers := (i, lease, expires) # qh_timers t\<rparr>)"
    for device inst now expires base
    using leases_editing [of i lease device inst now expires base "qh_doc t"] by (auto simp: arms_def)
  have rev: "arms t (t\<lparr>qh_doc := change_row i (\<lambda>m. m\<lparr>qm_delivery_gate :=
          Some (ReviewRequired current device now base)\<rparr>) (qh_doc t)\<rparr>)" for current device now base
    by (rule armsI) (simp_all add: leases_review)
  have refl: "arms t t" by (simp add: armsI)
  show ?thesis
    by (auto simp: renew_queued_message_edit_def Let_def refl ed rev split: option.split queue_delivery_gate.split)
qed

lemma arms_finish: "arms t (snd (finish_queued_message_edit row_list hash e i lease action body expected paths t))"
proof -
  let ?body = "case action of Commit \<Rightarrow> Some (case body of Some b \<Rightarrow> b | None \<Rightarrow> []) | Discard \<Rightarrow> Some [] | _ \<Rightarrow> None"
  let ?paths = "if action = Commit then paths else None"
  let ?q = "FinishEdit i ?body ?paths (qe_now e)"
  obtain b rs where r: "row_answer ?q (qh_doc t) = Inr (b, rs)"
    by (cases "row_apply ?q (qh_doc t)") (auto simp: row_answer_def split: if_splits)
  have "arms t (t\<lparr>qh_doc := rs\<rparr>)"
    by (rule armsI) (use leases_answer [OF r] in simp_all)
  moreover have "dc_finish row_list i ?body ?paths (qe_now e) (qh_doc t) = Inr (b, rs)"
    using r by (simp add: row_list_def)
  moreover have "arms t t" by (simp add: armsI)
  ultimately show ?thesis
    by (cases action; cases body)
      (auto simp: finish_queued_message_edit_def Let_def case_prod_unfold split: option.split bool.split)
qed

lemma arms_take_for: "arms t (snd (take_for row_list i send t))"
proof -
  obtain x rs where r: "row_take i (qh_doc t) = (x, rs)" by fastforce
  show ?thesis using leases_take [OF r] r
    by (intro armsI) (auto simp: take_for_def row_list_simps split: option.split)
qed

lemma insert_steered_timers: "insert_steered row_list item t = Inr t' \<Longrightarrow> qh_timers t' = qh_timers t"
  by (auto simp: insert_steered_row map_sum_def steer_slot_def Let_def split: sum.splits)

lemma insert_steered_leases:
  "insert_steered row_list item t = Inr t' \<Longrightarrow> qm_delivery_gate item = None \<Longrightarrow> leases (qh_doc t') = leases (qh_doc t)"
  by (auto simp: insert_steered_row map_sum_def leases_insert split: sum.splits)

lemma arms_steer_now:
  assumes "distinct (row_ids (qh_doc t))"
  shows "arms t (snd (steer_queued_now row_list e i t))"
proof (cases "row_take i (qh_doc t)")
  case (Pair x rs)
  have slot: "qh_timers (snd (steer_slot row_list i (t\<lparr>qh_doc := rs\<rparr>))) = qh_timers t"
    by (simp add: steer_slot_def Let_def)
  have rs: "leases rs \<subseteq> leases (qh_doc t)" by (rule leases_take [OF Pair])
  have ins: "arms t (t'\<lparr>qh_paused := False\<rparr>)"
    if "x = Some m" "insert_steered row_list m (t\<lparr>qh_doc := rs\<rparr>) = Inr t'" for m t'
  proof -
    have "qm_delivery_gate m = None" using row_take_some(3) Pair that(1) assms by blast
    then show ?thesis using insert_steered_timers [OF that(2)] insert_steered_leases [OF that(2)] rs
      by (intro armsI) simp_all
  qed
  have refl: "arms t t" "arms t (t\<lparr>qh_doc := rs\<rparr>)" "arms t (snd (steer_slot row_list i (t\<lparr>qh_doc := rs\<rparr>)))"
    using rs slot by (simp_all add: armsI)
  show ?thesis using Pair refl ins arms_take_for [of t i SteerIn]
    by (auto simp: steer_queued_now_def row_list_simps split: option.split sum.split)
qed

lemma arms_drain_round: "arms t (drain_round row_list e t)"
proof -
  have review: "arms t (t\<lparr>qh_lock := Free, qh_doc := change_row j (\<lambda>m. m\<lparr>qm_delivery_gate :=
          Some (ReviewRequired lease device now base)\<rparr>) (qh_doc t)\<rparr>)" for j lease device now base
    by (rule armsI) (simp_all add: leases_review)
  have timer: "arms t (t\<lparr>qh_lock := Free, qh_timers := x # qh_timers t\<rparr>)" for x by (auto simp: arms_def)
  have refl: "arms t (t\<lparr>qh_lock := Free\<rparr>)" by (simp add: armsI)
  have take: "arms t (t\<lparr>qh_doc := rs, qh_steered := st, qh_lock := l\<rparr>)"
    if "row_take j (qh_doc t) = (x, rs)" for j x rs st l
    using leases_take [OF that] by (simp add: armsI)
  have take': "arms t (t\<lparr>qh_lock := Free, qh_doc := rs\<rparr>)" if "row_take j (qh_doc t) = (x, rs)" for j x rs
    using leases_take [OF that] by (simp add: armsI)
  show ?thesis
    by (auto simp: drain_round_def Let_def row_list_simps review timer refl dest: take take'
        split: list.split option.split queue_delivery_gate.split prod.split)
qed

lemma dispatch_timers: "qh_timers (snd (dispatch_queued e item send t)) = qh_timers t"
proof -
  have land: "qh_timers (land e i s) = qh_timers s" "qh_timers (delivered e i x s) = qh_timers s"
    for i x and s :: "'a queue_host" by (simp_all add: land_def delivered_def)
  have "qh_timers (snd (start_turn e send i h p a s)) = qh_timers s" for send i h p a and s :: "'a queue_host"
    by (simp add: start_turn_def land split: option.split)
  then show ?thesis
    by (simp add: dispatch_queued_def Let_def case_prod_unfold land split: sum.split steer_outcome.split)
qed

lemma arms_finish_send:
  assumes "\<forall>m\<in>set (in_flight t). qm_delivery_gate m = None"
  shows "arms t (finish_send row_list e t)"
proof (cases "qh_lock t")
  case (Sending item send was_paused)
  obtain r t1 where d: "dispatch_queued e item send t = (r, t1)" by fastforce
  have t1: "qh_doc t1 = qh_doc t" "qh_timers t1 = qh_timers t"
    using dispatch_doc [of e item send t] dispatch_timers [of e item send t] d by simp_all
  have "qm_delivery_gate item = None" using assms Sending by (simp add: in_flight_def)
  then have "row_insert 0 item (qh_doc t) = Inr rs \<Longrightarrow> leases rs = leases (qh_doc t)" for rs
    by (rule leases_insert [rotated])
  then show ?thesis using Sending d t1
    by (intro armsI) (auto simp: finish_send_def row_list_simps split: sum.split)
qed (simp_all add: finish_send_def armsI)

lemma cancel_leases: "leases (qh_doc (cancel_rows row_list e ids t)) \<subseteq> leases (qh_doc t)
    \<and> qh_timers (cancel_rows row_list e ids t) = qh_timers t"
proof (induction ids arbitrary: t)
  case (Cons i ids)
  obtain x rs where r: "row_take i (qh_doc t) = (x, rs)" by fastforce
  show ?case
  proof (cases x)
    case None
    then show ?thesis using Cons r by (simp add: row_list_simps)
  next
    case (Some m)
    have "qh_timers (land e (qm_id m) (t\<lparr>qh_doc := rs\<rparr>)) = qh_timers t" by (simp add: land_def)
    then show ?thesis
      using r Some leases_take [OF r] Cons.IH [of "land e (qm_id m) (t\<lparr>qh_doc := rs\<rparr>)"]
      by (auto simp: row_list_simps)
  qed
qed simp

lemma arms_stop: "arms t (interrupt_and_pause_queue row_list e t)"
  using cancel_leases [of e _ "t\<lparr>qh_paused := True, qh_lock := Stopping, qh_held := [], qh_steered := []\<rparr>"]
  by (intro armsI) (simp_all add: interrupt_and_pause_queue_def cancel_held_sends_def)

lemma arms_hold: "arms t (snd (hold_until_turn_end row_list e i body at steer request device origin t))"
proof -
  have gate: "qm_delivery_gate (queued_row i body paths hold device now origin) = None" for paths hold now
    by (simp add: queued_row_def)
  have slot: "qh_timers (snd (steer_slot row_list j s)) = qh_timers s" for j and s :: "queued_message list queue_host"
    by (simp add: steer_slot_def Let_def)
  show ?thesis
    by (auto simp: hold_until_turn_end_def Let_def row_list_simps gate slot insert_steered_leases leases_insert
        dest: insert_steered_timers intro!: armsI split: option.split sum.split)
qed

lemma arms_deliver: "arms t (snd (deliver_prompt row_list e body message_id fresh at device origin t))"
proof -
  have land: "arms t (land e i t') = arms t t'" "arms t (delivered e i x t') = arms t t'" for i x t t'
    by (simp_all add: arms_def land_def delivered_def)
  have nxt: "arms t t' \<Longrightarrow> arms t (snd (deliver_next_turn e prompt mid fresh t'))" for prompt mid t'
    by (simp add: deliver_next_turn_def Let_def arms_def land_def delivered_def split: option.split)
  have trans: "arms t1 t2 \<Longrightarrow> arms t t1 \<Longrightarrow> arms t t2" for t1 t2 by (auto simp: arms_def)
  have held: "arms t t1" if "held_until_turn_end row_list e j b device origin t = (x, t1)" for j b x t1
    using arms_hold [of t e j b "qe_now e" True None device origin] that
    by (auto simp: held_until_turn_end_def Let_def map_prod_def armsI split: if_splits prod.splits)
  have later: "arms t t' \<Longrightarrow> arms t (snd (hold_until_turn_end row_list e j b at True None device origin t'))" for j b t'
    by (rule trans [OF arms_hold])
  have paused: "arms t (t'\<lparr>qh_paused := b\<rparr>) = arms t t'" for b t' by (simp add: arms_def)
  show ?thesis
    by (auto simp: deliver_prompt_def Let_def nxt land paused later dest: held
        split: prod.split sum.split bool.split steer_outcome.split option.split)
qed

lemma arms_expire: "arms t (expire_queued_message_edit row_list e i lease at t)"
  using leases_review
  by (intro armsI) (simp_all add: expire_queued_message_edit_def split: option.split queue_delivery_gate.split)

lemma remove_at_keeps: "n < length xs \<Longrightarrow> set xs - {xs ! n} \<subseteq> set (remove_at n xs)"
  by (subst (1) id_take_nth_drop [of n xs]) (auto simp: remove_at_def)

lemma lease_row:
  assumes "(i, lease, at) \<in> leases rs" "distinct (row_ids rs)"
  obtains m device inst acq base where "find_row i rs = Some m"
    "qm_delivery_gate m = Some (Editing lease device inst acq at base)"
proof -
  obtain m where m: "m \<in> set rs" "lease_of m = Some (i, lease, at)" using assms(1) by (auto simp: leases_def)
  then obtain device inst acq base where
    g: "qm_delivery_gate m = Some (Editing lease device inst acq at base)" "qm_id m = i"
    by (auto simp: lease_of_def split: option.splits queue_delivery_gate.splits)
  show ?thesis by (rule that [OF _ g(1)]) (use found_row [OF assms(2) m(1)] g(2) in simp)
qed

text \<open>A timer that is due ends the lease it was armed for.\<close>

lemma expire_due:
  assumes "(i, lease, at) \<in> leases (qh_doc t)" "distinct (row_ids (qh_doc t))" "at \<le> qe_now e"
  obtains device base where "expire_queued_message_edit row_list e i lease at t
    = t\<lparr>qh_doc := change_row i (\<lambda>m. m\<lparr>qm_delivery_gate := Some (ReviewRequired lease device (qe_now e) base)\<rparr>) (qh_doc t)\<rparr>"
proof -
  obtain m device inst acq base where m: "find_row i (qh_doc t) = Some m"
    "qm_delivery_gate m = Some (Editing lease device inst acq at base)"
    using lease_row [OF assms(1,2)] by blast
  show ?thesis by (rule that [of device base]) (use m assms(3) in \<open>simp add: expire_queued_message_edit_def\<close>)
qed

lemma review_no_lease:
  "(i, lease, at) \<notin> leases (change_row i (\<lambda>m. m\<lparr>qm_delivery_gate := Some (ReviewRequired l d now base)\<rparr>) rs)"
proof
  assume "(i, lease, at) \<in> leases (change_row i (\<lambda>m. m\<lparr>qm_delivery_gate := Some (ReviewRequired l d now base)\<rparr>) rs)"
  then obtain m where m: "lease_of (if qm_id m = i
      then m\<lparr>qm_delivery_gate := Some (ReviewRequired l d now base)\<rparr> else m) = Some (i, lease, at)"
    unfolding leases_def change_row_def by fastforce
  show False
    by (cases "qm_id m = i"; use m in \<open>simp add: lease_of_def split: option.splits queue_delivery_gate.splits\<close>)
qed

lemma wake_armed:
  assumes "armed t" "distinct (row_ids (qh_doc t))" "n < length (qh_timers t)" "qh_timers t ! n = (i, lease, at)" "at \<le> qe_now e"
  shows "armed (expire_queued_message_edit row_list e i lease at (t\<lparr>qh_timers := remove_at n (qh_timers t)\<rparr>))"
    (is "armed (expire_queued_message_edit row_list e i lease at ?t)")
proof -
  let ?t' = "expire_queued_message_edit row_list e i lease at ?t"
  have timers: "qh_timers ?t' = remove_at n (qh_timers t)"
    by (simp add: expire_queued_message_edit_def split: option.split queue_delivery_gate.split)
  have sub: "leases (qh_doc ?t') \<subseteq> leases (qh_doc t)"
    using leases_review by (simp add: expire_queued_message_edit_def split: option.split queue_delivery_gate.split)
  have "(i, lease, at) \<notin> leases (qh_doc ?t')"
  proof
    assume in': "(i, lease, at) \<in> leases (qh_doc ?t')"
    then have "(i, lease, at) \<in> leases (qh_doc ?t)" using sub by auto
    then obtain device base where "?t' = ?t\<lparr>qh_doc := change_row i (\<lambda>m. m\<lparr>qm_delivery_gate :=
        Some (ReviewRequired lease device (qe_now e) base)\<rparr>) (qh_doc ?t)\<rparr>"
      using expire_due [of i lease at ?t e] assms(2,5) by auto
    then show False using in' review_no_lease by simp
  qed
  then have "leases (qh_doc ?t') \<subseteq> set (qh_timers t) - {qh_timers t ! n}"
    using sub assms(1,4) by (auto simp: armed_def)
  then show ?thesis
    using remove_at_keeps [OF assms(3)] by (auto simp: armed_def timers)
qed

lemma armed_step:
  assumes "armed t" "distinct (row_ids (qh_doc t))" "\<forall>m\<in>set (in_flight t). qm_delivery_gate m = None" "event_ok ev"
  shows "armed (host_step row_list hash t ev)"
proof -
  have via: "arms t t' \<Longrightarrow> armed t'" for t' using arms_armed assms(1) by blast
  have refl: "arms t t" by (simp add: armsI)
  have ans: "arms t (t\<lparr>qh_doc := rs\<rparr>)" if "row_answer q (qh_doc t) = Inr (b, rs)" "\<And>j g. q \<noteq> SetGate j g" for q b rs
    using leases_answer [OF that] by (simp add: armsI)
  show ?thesis
  proof (cases ev)
    case (Wake n e)
    show ?thesis
    proof (cases "qh_timers t ! n")
      case (fields i lease at)
      then show ?thesis using Wake assms(1) wake_armed [OF assms(1,2) _ fields, of e]
        by (simp add: host_step_def when_free_def)
    qed
  next
    case (QueueMessage item)
    have "arms t (t\<lparr>qh_doc := rs\<rparr>)" if "row_insert n item (qh_doc t) = Inr rs" for n rs
      using leases_insert [OF that] assms(4) QueueMessage by (simp add: armsI)
    then show ?thesis using QueueMessage refl
      by (intro via) (simp add: host_step_def queue_message_with_behavior_def row_list_simps split: sum.split)
  next
    case (Retype now j body)
    then show ?thesis using refl ans [of "SetText j body now"]
      by (intro via) (auto simp: host_step_def update_queued_message_def row_list_def split: sum.split)
  next
    case (MoveTo j n)
    then show ?thesis using refl ans [of "MoveRow j n"]
      by (intro via) (auto simp: host_step_def move_queued_message_def row_list_def split: sum.split)
  next
    case (Remove e j)
    then show ?thesis using refl ans [of "RemoveRow j"]
      by (intro via) (auto simp: host_step_def when_free_def remove_queued_message_def row_list_def split: sum.split)
  next
    case (SendNow e j)
    then show ?thesis using refl arms_take_for
      by (intro via) (simp add: host_step_def when_free_def send_queued_now_def split: option.split)
  qed (rule via; use refl assms(2,3) arms_begin arms_renew arms_finish arms_steer_now arms_drain_round
      arms_finish_send arms_stop arms_hold arms_deliver in
      \<open>simp add: host_step_def when_free_def; simp add: arms_def drain_start_def interrupt_answered_def rewrite_held_sends_for_switch_def\<close>)+
qed

context queue_document
begin

definition host_live :: "'c queue_host \<Rightarrow> bool" where
  "host_live s \<longleftrightarrow> host_inv s \<and> armed (as_rows d s)"

lemma host_live_step:
  assumes "host_live s" "event_ok ev"
  shows "host_live (host_step d hash s ev)"
proof -
  have inv: "host_inv s" using assms(1) by (simp add: host_live_def)
  have "armed (host_step row_list hash (as_rows d s) ev)"
    by (rule armed_step [OF _ _ _ assms(2)])
      (use assms(1) host_inv_rows [OF inv] in \<open>auto simp: host_live_def host_inv_def waiting_ok_def list_all_iff\<close>)
  then show ?thesis using host_inv_step [OF inv assms(2), of hash] by (simp add: host_live_def)
qed

lemma host_live_new:
  assumes "good c"
  shows "host_live (arm_existing_queue_edit_expiries d (new_host c))"
proof -
  let ?s = "arm_existing_queue_edit_expiries d (new_host c)"
  have "host_inv ?s"
    using host_inv_new [OF assms] unfolding host_inv_def waiting_ok_def
    by (simp add: arm_existing_queue_edit_expiries_def accounted_def in_flight_def cong: lock_holder.case_cong)
  moreover have "armed (as_rows d ?s)"
    by (auto simp: armed_def leases_def lease_of_def [abs_def] arm_existing_queue_edit_expiries_def new_host_def List.map_filter_def
        intro!: image_eqI split: option.splits queue_delivery_gate.splits)
  ultimately show ?thesis by (simp add: host_live_def)
qed

lemma stays_gated:
  assumes "host_inv s" "list_all event_ok es" "gated i (rows d s)" "\<forall>ev\<in>set es. i \<notin> opens ev"
  shows "gated i (rows d (foldl (host_step d hash) s es))"
  using assms
proof (induction es arbitrary: s)
  case (Cons ev es)
  have ok: "host_inv s" "event_ok ev" using Cons.prems(1,2) by simp_all
  have "gated i (qh_doc (host_step row_list hash (as_rows d s) ev))"
    by (rule gated_step) (use Cons.prems host_inv_rows [OF ok(1)] in simp_all)
  then have "gated i (rows d (host_step d hash s ev))"
    by (simp flip: host_inv_step(2) [OF ok, of hash])
  then show ?case using Cons.IH [of "host_step d hash s ev"] Cons.prems host_inv_step(1) [OF ok] by simp
qed simp

lemma gated_unsent: "host_inv s \<Longrightarrow> gated i (rows d s) \<Longrightarrow> i \<notin> set (map fst (qh_sent s))"
  by (auto simp: host_inv_def waiting_ok_def accounted_def gated_def row_ids_def)

lemma lease_ends:
  assumes "host_live s" "m \<in> set (rows d s)" "qm_delivery_gate m = Some (Editing lease device inst acq expires base)"
    and "qh_lock s = Free"
  shows "\<exists>n < length (qh_timers s). \<forall>e. timely e \<longrightarrow> expires \<le> qe_now e \<longrightarrow>
    (\<forall>x\<in>set (rows d (host_step d hash s (Wake n e))). qm_id x = qm_id m \<longrightarrow>
       (\<exists>device' base'. qm_delivery_gate x = Some (ReviewRequired lease device' (qe_now e) base')))"
proof -
  let ?x = "(qm_id m, lease, expires)"
  have inv: "host_inv s" using assms(1) by (simp add: host_live_def)
  have lease: "?x \<in> leases (rows d s)" using assms(2,3) by (auto simp: leases_def lease_of_def intro!: bexI [of _ m])
  then have "?x \<in> set (qh_timers s)" using assms(1) by (auto simp: host_live_def armed_def)
  then obtain n where n: "n < length (qh_timers s)" "qh_timers s ! n = ?x" by (auto simp: in_set_conv_nth)
  show ?thesis
  proof (intro exI [of _ n] conjI allI impI n(1) ballI)
    fix e x
    assume e: "timely e" "expires \<le> qe_now e" and x: "x \<in> set (rows d (host_step d hash s (Wake n e)))" "qm_id x = qm_id m"
    let ?t = "(as_rows d s)\<lparr>qh_timers := remove_at n (qh_timers s)\<rparr>"
    obtain device' base' where ex: "expire_queued_message_edit row_list e (qm_id m) lease expires ?t
      = ?t\<lparr>qh_doc := change_row (qm_id m) (\<lambda>m. m\<lparr>qm_delivery_gate :=
            Some (ReviewRequired lease device' (qe_now e) base')\<rparr>) (rows d s)\<rparr>"
      using expire_due [of "qm_id m" lease expires ?t e] lease host_inv_rows [OF inv] e(2) by auto
    have "as_rows d (host_step d hash s (Wake n e)) = host_step row_list hash (as_rows d s) (Wake n e)"
      by (rule host_inv_step(2) [OF inv]) (use e(1) in simp)
    then have "rows d (host_step d hash s (Wake n e)) = change_row (qm_id m) (\<lambda>m. m\<lparr>qm_delivery_gate :=
            Some (ReviewRequired lease device' (qe_now e) base')\<rparr>) (rows d s)"
      using ex n assms(4) e(2) by (simp add: host_step_def when_free_def flip: as_rows_simps(1))
    then show "\<exists>device' base'. qm_delivery_gate x = Some (ReviewRequired lease device' (qe_now e) base')"
      using x by (auto simp: change_row_def)
  qed
qed

end

interpretation lease_runs: guarded_machine "host_step (stored_queue ops) hash" "stored.host_live ops" event_ok
  for ops :: "'c queue_ops" and hash
  by unfold_locales (rule stored.host_live_step)

section \<open>Draining\<close>

text \<open>What the end of a turn does to a queue that waits: a drain that sends one row and finds the turn
  it started running.\<close>

definition turn_end :: "queue_env \<Rightarrow> host_event list" where
  "turn_end e = [DrainStart e, DrainRound e, Sent e, DrainRound (e\<lparr>qe_in_flight := True\<rparr>)]"

definition ready :: "queue_env \<Rightarrow> bool" where
  "ready e \<longleftrightarrow> timely e \<and> qe_executor e \<and> qe_host e \<and> \<not> qe_in_flight e \<and> qe_dispatches e
     \<and> (qe_row_request e \<noteq> None \<or> qe_last_request e \<noteq> None)"

definition sendable :: "queue_env \<Rightarrow> queued_message \<Rightarrow> bool" where
  "sendable e m \<longleftrightarrow> qm_delivery_gate m = None \<and> missing_row_attachments (qe_uploads e) m = []"

lemma dispatch_ready:
  assumes "ready e" "sendable e m"
  shows "fst (dispatch_queued e m NextTurn t) = Inr ()"
proof -
  have "fst (start_turn e NextTurn i held p a s) = Inr ()" for i held p a and s :: "'a queue_host"
  proof -
    obtain r where "row_request e held = Some r"
      using assms(1) by (cases held; cases "qe_row_request e"; cases "qe_last_request e") (auto simp: row_request_def ready_def)
    then show ?thesis using assms(1) by (simp add: start_turn_def ready_def)
  qed
  then show ?thesis using assms
    by (simp add: dispatch_queued_def Let_def case_prod_unfold ready_def sendable_def)
qed

lemma turn_end_sends:
  fixes hash :: "string \<Rightarrow> string"
  assumes "ready e" "qh_lock t = Free" "\<not> qh_paused t" "qh_doc t = m # rs" "distinct (row_ids (qh_doc t))"
    and "list_all (sendable e) (qh_doc t)"
  defines "t' \<equiv> foldl (host_step row_list hash) t (turn_end e)"
  shows "qh_doc t' = rs" "map fst (qh_sent t') = map fst (qh_sent t) @ [qm_id m]" "qh_lock t' = Free" "\<not> qh_paused t'"
proof -
  let ?t1 = "t\<lparr>qh_lock := Sending m NextTurn False, qh_doc := rs, qh_steered := filter (\<lambda>r. r \<noteq> qm_id m) (qh_steered t)\<rparr>"
  have "qm_id m \<notin> qm_id ` set rs" using assms(4,5) by (simp add: row_ids_def)
  then have "without_row (qm_id m) rs = rs" by (auto simp: without_row_def filter_id_conv image_iff)
  then have m: "sendable e m" "list_all (sendable e) rs" "without_row (qm_id m) rs = rs"
    using assms(4,6) by simp_all
  have taken: "row_take (qm_id m) (m # rs) = (Some m, rs)"
    using m by (simp add: row_take_def find_row_def sendable_def) (simp add: without_row_def)
  have "host_step row_list hash t (DrainStart e) = t\<lparr>qh_lock := Draining\<rparr>"
    using assms(1-3) by (simp add: host_step_def when_free_def drain_start_def ready_def)
  moreover have "host_step row_list hash (t\<lparr>qh_lock := Draining\<rparr>) (DrainRound e) = ?t1"
    using assms(1,3,4) m(1) taken
    by (simp add: host_step_def drain_round_def ready_def sendable_def row_list_simps Let_def)
  moreover obtain t2 where d: "dispatch_queued e m NextTurn ?t1 = (Inr (), t2)"
    using dispatch_ready [OF assms(1) m(1), of ?t1] by (cases "dispatch_queued e m NextTurn ?t1") auto
  moreover from d have t2: "qh_doc t2 = rs" "\<not> qh_paused t2" "map fst (qh_sent t2) = map fst (qh_sent t) @ [qm_id m]"
    using dispatch_fields(1,4,5) [of e m NextTurn ?t1] assms(3) by simp_all
  moreover have "host_step row_list hash ?t1 (Sent e) = t2\<lparr>qh_lock := Draining\<rparr>"
    using d by (simp add: host_step_def finish_send_def)
  moreover have "host_step row_list hash (t2\<lparr>qh_lock := Draining\<rparr>) (DrainRound (e\<lparr>qe_in_flight := True\<rparr>))
      = t2\<lparr>qh_lock := Free\<rparr>"
    using t2 m(2) by (cases rs) (simp_all add: host_step_def drain_round_def sendable_def)
  ultimately have "t' = t2\<lparr>qh_lock := Free\<rparr>"
    unfolding t'_def turn_end_def by simp
  then show "qh_doc t' = rs" "map fst (qh_sent t') = map fst (qh_sent t) @ [qm_id m]" "qh_lock t' = Free" "\<not> qh_paused t'"
    using t2 by simp_all
qed

lemma turn_ends_send:
  assumes "ready e" "qh_lock t = Free" "\<not> qh_paused t" "distinct (row_ids (qh_doc t))"
    and "list_all (sendable e) (qh_doc t)" "k \<le> length (qh_doc t)"
  shows "qh_doc (foldl (host_step row_list hash) t (concat (replicate k (turn_end e)))) = drop k (qh_doc t)
    \<and> map fst (qh_sent (foldl (host_step row_list hash) t (concat (replicate k (turn_end e)))))
       = map fst (qh_sent t) @ take k (row_ids (qh_doc t))"
  using assms(2-)
proof (induction k arbitrary: t)
  case (Suc k)
  then obtain m rs where t: "qh_doc t = m # rs" by (cases "qh_doc t") auto
  note s = turn_end_sends [OF assms(1) Suc.prems(1,2) t Suc.prems(3,4), of hash]
  have "qh_doc (foldl (host_step row_list hash) (foldl (host_step row_list hash) t (turn_end e)) (concat (replicate k (turn_end e))))
      = drop k rs
    \<and> map fst (qh_sent (foldl (host_step row_list hash) (foldl (host_step row_list hash) t (turn_end e)) (concat (replicate k (turn_end e)))))
      = map fst (qh_sent t) @ [qm_id m] @ take k (row_ids rs)"
    using Suc.IH [OF s(3,4)] Suc.prems(3-5) t by (simp add: s(1,2))
  then show ?case by (simp add: t)
qed simp

lemma turn_end_ok: "ready e \<Longrightarrow> list_all event_ok (concat (replicate k (turn_end e)))"
  by (induction k) (simp_all add: turn_end_def ready_def timely_def)

section \<open>Committing an edit\<close>

lemma commit_rows:
  assumes "qe_host e" "find_row i (qh_doc t) = Some m" "qm_delivery_gate m = Some gate" "gate_lease gate = (lease, base)"
  shows "finish_queued_message_edit row_list hash e i lease Commit (Some body) (Some expected) paths t =
    (if expected = base \<and> hash (qm_text m) = base
     then (Inr Committed, t\<lparr>qh_doc := snd (row_apply (FinishEdit i (Some body) paths (qe_now e)) (qh_doc t))\<rparr>)
     else (Inr (Conflict (qm_text m)), t))"
  using assms
  by (simp add: finish_queued_message_edit_def row_list_def row_answer_def)

context queue_document
begin

lemma commit_doc:
  assumes "host_inv s" "timely e" "qe_host e" "find_row i (rows d s) = Some m" "qm_delivery_gate m = Some gate"
    "gate_lease gate = (lease, base)"
  shows "if expected = base \<and> hash (qm_text m) = base
    then \<exists>s'. finish_queued_message_edit d hash e i lease Commit (Some body) (Some expected) paths s = (Inr Committed, s')
      \<and> rows d s' = snd (row_apply (FinishEdit i (Some body) paths (qe_now e)) (rows d s))
    else finish_queued_message_edit d hash e i lease Commit (Some body) (Some expected) paths s
      = (Inr (Conflict (qm_text m)), s)"
proof -
  have good: "good (qh_doc s)" using assms(1) by (simp add: host_inv_def)
  have sim: "rel_prod (=) sim (finish_queued_message_edit d hash e i lease Commit (Some body) (Some expected) paths s)
    (finish_queued_message_edit row_list hash e i lease Commit (Some body) (Some expected) paths (as_rows d s))"
    by (rule finish_sim [OF good assms(2)])
  show ?thesis
  proof (cases "expected = base \<and> hash (qm_text m) = base")
    case True
    obtain r s' where f: "finish_queued_message_edit d hash e i lease Commit (Some body) (Some expected) paths s = (r, s')"
      by fastforce
    have "r = Inr Committed"
      "as_rows d s' = (as_rows d s)\<lparr>qh_doc := snd (row_apply (FinishEdit i (Some body) paths (qe_now e)) (rows d s))\<rparr>"
      using sim True f commit_rows [of e i "as_rows d s" m gate lease base hash body expected paths] assms(3-)
      by simp_all
    then show ?thesis using True f as_rows_simps(1) [of d s'] by simp
  next
    case False
    then show ?thesis using assms(3-) by (auto simp: finish_queued_message_edit_def)
  qed
qed

end

section \<open>The promises\<close>

definition hosted :: "'c queue_ops \<Rightarrow> (string \<Rightarrow> string) \<Rightarrow> 'c \<Rightarrow> host_event list \<Rightarrow> 'c queue_host" where
  "hosted ops hash c es =
     foldl (host_step (stored_queue ops) hash) (arm_existing_queue_edit_expiries (stored_queue ops) (new_host c)) es"

lemma hosted_live:
  assumes "queue_ops_ok ops" "clean ops c" "list_all event_ok es"
  shows "stored.host_live ops (hosted ops hash c es)"
  unfolding hosted_def
  by (rule lease_runs.legal_run [OF stored.host_live_new [OF conjI [OF assms(1,2)]] assms(3)])

lemma hosted_inv:
  assumes "queue_ops_ok ops" "clean ops c" "list_all event_ok es"
  shows "stored.host_inv ops (hosted ops hash c es)"
  using hosted_live [OF assms] by (simp add: stored.host_live_def)

definition quiet_env :: queue_env where
  "quiet_env =
     \<lparr>qe_now = 0, qe_host = True, qe_executor = True, qe_in_flight = False, qe_background = False, qe_defers = False,
      qe_steerable = False, qe_steers_mid_turn = False, qe_update_pending = False, qe_uploads = None,
      qe_steer = Inr NotSteerable, qe_stops = True, qe_last_request = None, qe_row_request = None,
      qe_dispatches = True, qe_interrupt = Inr True, qe_writes = True\<rparr>"

definition chat_request :: "string \<Rightarrow> run_request" where
  "chat_request model =
     \<lparr>rq_prompt = ''go'', rq_harness = None, rq_model = Some model, rq_reasoning = None, rq_model_options = [],
      rq_cwd = ''/w'', rq_sandbox = WorkspaceWrite, rq_auto_approve = False, rq_resume = None,
      rq_fallback_history = None, rq_provider_fork = None, rq_attachments = [], rq_worktree = None,
      rq_mcp = None, rq_env = []\<rparr>"

abbreviation sample_stored :: "json list" where
  "sample_stored \<equiv> [JObj (queued_fields sample_row)]"

lemma sample_stored_read: "read_queue value_queue_ops sample_stored = [sample_row]"
  by (simp add: value_queue_ops_def read_queue_def List.map_filter_simps queued_row_roundtrip [OF sample_row_ok])

lemma sample_stored_clean: "clean value_queue_ops sample_stored"
  by (simp add: value_queue_ops_def queue_clean_def queued_row_roundtrip [OF sample_row_ok] has_id_def queued_members)

text \<open>C8: no queued message is lost: a message that is queued, on its way to the agent, sent or in the transcript
  is still so after any operation of the host, whatever the agent answers and wherever a send is in
  flight; only its own removal, or an edit that empties it, takes it away, and a stop that cannot
  write the transcript.\<close>

theorem queued_message_never_lost:
  assumes "queue_ops_ok ops" "clean ops c" "list_all event_ok es" "event_ok ev" "lands ev"
    and "i \<in> present (stored_queue ops) (hosted ops hash c es)" "i \<notin> removes ev"
  shows "i \<in> present (stored_queue ops) (host_step (stored_queue ops) hash (hosted ops hash c es) ev)"
  by (rule stored.never_lost [OF hosted_inv [OF assms(1-3)] assms(4-7)])

theorem queued_message_never_lost_witness:
  "''m1'' \<in> present (stored_queue value_queue_ops)
     (host_step (stored_queue value_queue_ops) id (hosted value_queue_ops id sample_stored []) (SendNow quiet_env ''m1''))"
  by (rule queued_message_never_lost [OF value_queue_ops_ok sample_stored_clean])
    (simp_all add: hosted_def present_def accounted_def arm_existing_queue_edit_expiries_def new_host_def stored_queue_def
      sample_stored_read, simp add: sample_row_def queued_message_new_def)

text \<open>C12: a row reaches the agent at most once: over any order of the host's operations no row is delivered
  twice, and a row that was delivered is no longer queued, even after a failed send put it back or a
  stop took it out.\<close>

theorem rows_sent_at_most_once:
  assumes "queue_ops_ok ops" "clean ops c" "list_all event_ok es"
  shows "distinct (map fst (qh_sent (hosted ops hash c es)))
    \<and> set (map fst (qh_sent (hosted ops hash c es))) \<inter> set (row_ids (read_queue ops (qh_doc (hosted ops hash c es)))) = {}"
proof -
  have "distinct (accounted (stored_queue ops) (hosted ops hash c es))"
    using hosted_inv [OF assms, of hash] by (simp add: stored.host_inv_def waiting_ok_def)
  then show ?thesis by (auto simp: accounted_def stored_queue_def)
qed

theorem rows_sent_at_most_once_witness:
  "distinct (map fst (qh_sent (hosted value_queue_ops id sample_stored
     [SendNow quiet_env ''m1'', Sent quiet_env, DrainStart quiet_env, DrainRound quiet_env, Sent quiet_env])))"
  by (rule rows_sent_at_most_once [THEN conjunct1, OF value_queue_ops_ok sample_stored_clean])
    (simp add: timely_def quiet_env_def i64_def QUEUE_EDIT_LEASE_MS_def)

text \<open>C9: a row open for editing is not sent under the editor: a queued row that carries a gate keeps one and stays unsent
  through drains, immediate sends, steers, stops, expiries and retyping by others, until its edit is
  finished or the row is removed.\<close>

theorem open_row_is_never_sent:
  assumes "queue_ops_ok ops" "clean ops c" "list_all event_ok es" "list_all event_ok later"
    and "gated i (read_queue ops (qh_doc (hosted ops hash c es)))" "\<forall>ev\<in>set later. i \<notin> opens ev"
  shows "gated i (read_queue ops (qh_doc (hosted ops hash c (es @ later))))
    \<and> i \<notin> set (map fst (qh_sent (hosted ops hash c (es @ later))))"
proof -
  have run: "hosted ops hash c (es @ later) = foldl (host_step (stored_queue ops) hash) (hosted ops hash c es) later"
    by (simp add: hosted_def)
  have "gated i (dc_read (stored_queue ops) (qh_doc (hosted ops hash c (es @ later))))"
    unfolding run using assms(4-6) hosted_inv [OF assms(1-3)]
    by (intro stored.stays_gated) (simp_all add: stored_queue_def)
  moreover have "stored.host_inv ops (hosted ops hash c (es @ later))"
    using assms(3,4) by (intro hosted_inv [OF assms(1,2)]) simp
  ultimately show ?thesis using stored.gated_unsent by (simp add: stored_queue_def)
qed

theorem open_row_is_never_sent_witness:
  "gated ''m1'' (read_queue value_queue_ops (qh_doc (hosted value_queue_ops id sample_stored
      ([] @ [SendNow quiet_env ''m1'', DrainStart quiet_env]))))"
  by (rule open_row_is_never_sent [THEN conjunct1, OF value_queue_ops_ok sample_stored_clean])
    (simp_all add: hosted_def arm_existing_queue_edit_expiries_def new_host_def sample_stored_read gated_def,
      simp add: sample_row_def queued_message_new_def)

text \<open>C14: a commit never overwrites what it has not read: under the lease it was opened with, an edit commits exactly when the
  text it was based on is the text the row has now (by the hash); otherwise the current text comes
  back as a conflict and nothing changes. A commit puts the text and the attachments in place of the
  row's and takes the gate away, or removes the row when the text is blank.\<close>

theorem commit_never_overwrites:
  assumes "queue_ops_ok ops" "clean ops c" "list_all event_ok es" "timely e" "qe_host e"
    and "find_row i (read_queue ops (qh_doc (hosted ops hash c es))) = Some m"
    and "qm_delivery_gate m = Some gate" "gate_lease gate = (lease, base)"
  shows "if expected = base \<and> hash (qm_text m) = base
    then \<exists>s. finish_queued_message_edit (stored_queue ops) hash e i lease Commit (Some body) (Some expected) paths
          (hosted ops hash c es) = (Inr Committed, s)
      \<and> read_queue ops (qh_doc s)
          = (if blank body then without_row i (read_queue ops (qh_doc (hosted ops hash c es)))
             else change_row i (\<lambda>m. (reattached paths (qe_now e) (retyped (Some body) (qe_now e) m))\<lparr>qm_delivery_gate := None\<rparr>)
               (read_queue ops (qh_doc (hosted ops hash c es))))
    else finish_queued_message_edit (stored_queue ops) hash e i lease Commit (Some body) (Some expected) paths
          (hosted ops hash c es) = (Inr (Conflict (qm_text m)), hosted ops hash c es)"
  using stored.commit_doc [OF hosted_inv [OF assms(1-3), of hash] assms(4,5), of i m gate lease base expected hash body paths]
    assms(6-8)
  by (auto simp: stored_queue_def split: if_splits)

text \<open>C10: no lease blocks the queue for ever: whenever a row is open for editing, a timer for exactly that lease and that
  deadline is armed, also after renewals and after reopening the chat; once it fires at or after the
  deadline, the row waits for a review instead.\<close>

theorem lease_always_ends:
  assumes "queue_ops_ok ops" "clean ops c" "list_all event_ok es" "qh_lock (hosted ops hash c es) = Free"
    and "m \<in> set (read_queue ops (qh_doc (hosted ops hash c es)))"
    and "qm_delivery_gate m = Some (Editing lease device inst acq expires base)"
  shows "\<exists>n < length (qh_timers (hosted ops hash c es)). \<forall>e. timely e \<longrightarrow> expires \<le> qe_now e \<longrightarrow>
    (\<forall>x\<in>set (read_queue ops (qh_doc (host_step (stored_queue ops) hash (hosted ops hash c es) (Wake n e)))).
       qm_id x = qm_id m \<longrightarrow> (\<exists>device' base'. qm_delivery_gate x = Some (ReviewRequired lease device' (qe_now e) base')))"
  using stored.lease_ends [OF hosted_live [OF assms(1-3), of hash], of m lease device inst acq expires base hash] assms(4-6)
  by (simp add: stored_queue_def)

lemma sample_hosted: "qh_doc (hosted value_queue_ops hash sample_stored []) = sample_stored"
  "qh_lock (hosted value_queue_ops hash sample_stored []) = Free"
  by (simp_all add: hosted_def arm_existing_queue_edit_expiries_def new_host_def)

lemma quiet_timely: "timely quiet_env" "timely (quiet_env\<lparr>qe_now := 20\<rparr>)"
  by (simp_all add: timely_def quiet_env_def i64_def QUEUE_EDIT_LEASE_MS_def)

theorem commit_never_overwrites_witness:
  "finish_queued_message_edit (stored_queue value_queue_ops) (\<lambda>_. ''h2'') quiet_env ''m1'' ''l'' Commit (Some ''bye'')
     (Some ''h'') None (hosted value_queue_ops (\<lambda>_. ''h2'') sample_stored [])
   = (Inr (Conflict ''hello''), hosted value_queue_ops (\<lambda>_. ''h2'') sample_stored [])"
  using commit_never_overwrites [OF value_queue_ops_ok sample_stored_clean, of "[]" quiet_env "''m1''" "\<lambda>_. ''h2''" sample_row
      "Editing ''l'' ''d'' ''i'' 5 9 ''h''" "''l''" "''h''" "''h''" "''bye''" None]
  by (simp add: sample_hosted sample_stored_read quiet_timely find_row_def)
    (simp add: sample_row_def queued_message_new_def quiet_env_def)

theorem lease_always_ends_witness:
  "\<exists>n < length (qh_timers (hosted value_queue_ops id sample_stored [])). \<forall>e. timely e \<longrightarrow> 9 \<le> qe_now e \<longrightarrow>
    (\<forall>x\<in>set (read_queue value_queue_ops (qh_doc (host_step (stored_queue value_queue_ops) id
        (hosted value_queue_ops id sample_stored []) (Wake n e)))). qm_id x = qm_id sample_row \<longrightarrow>
      (\<exists>device' base'. qm_delivery_gate x = Some (ReviewRequired ''l'' device' (qe_now e) base')))"
  by (rule lease_always_ends [OF value_queue_ops_ok sample_stored_clean])
    (simp_all add: sample_hosted sample_stored_read, simp add: sample_row_def queued_message_new_def)

text \<open>C13: the queue goes out in order, one row per turn: when every row may be sent, each end of a turn sends exactly
  the head row and leaves the others, so \<open>k\<close> turns send the first \<open>k\<close> rows in the order of the queue.\<close>

theorem turns_send_the_queue_in_order:
  assumes "queue_ops_ok ops" "clean ops c" "list_all event_ok es" "ready e"
    and "qh_lock (hosted ops hash c es) = Free" "\<not> qh_paused (hosted ops hash c es)"
    and "list_all (sendable e) (read_queue ops (qh_doc (hosted ops hash c es)))"
    and "k \<le> length (read_queue ops (qh_doc (hosted ops hash c es)))"
  shows "read_queue ops (qh_doc (hosted ops hash c (es @ concat (replicate k (turn_end e)))))
      = drop k (read_queue ops (qh_doc (hosted ops hash c es)))
    \<and> map fst (qh_sent (hosted ops hash c (es @ concat (replicate k (turn_end e)))))
      = map fst (qh_sent (hosted ops hash c es)) @ take k (row_ids (read_queue ops (qh_doc (hosted ops hash c es))))"
proof -
  let ?d = "stored_queue ops" and ?s = "hosted ops hash c es" and ?turns = "concat (replicate k (turn_end e))"
  have inv: "stored.host_inv ops ?s" by (rule hosted_inv [OF assms(1-3)])
  have run: "hosted ops hash c (es @ ?turns) = foldl (host_step ?d hash) ?s ?turns"
    by (simp add: hosted_def)
  have "as_rows ?d (hosted ops hash c (es @ ?turns)) = foldl (host_step row_list hash) (as_rows ?d ?s) ?turns"
    unfolding run using stored.run_sim [OF inv turn_end_ok [OF assms(4)], of hash k] by blast
  moreover have "dc_read ?d = read_queue ops" by (simp add: stored_queue_def)
  ultimately show ?thesis
    using turn_ends_send [OF assms(4), of "as_rows ?d ?s" k hash] stored.host_inv_rows [OF inv] assms(5-8)
      as_rows_simps(1,7) [of ?d "hosted ops hash c (es @ ?turns)"]
    by simp
qed

definition chat_env :: queue_env where
  "chat_env = quiet_env\<lparr>qe_row_request := Some (chat_request ''chat-model'')\<rparr>"

abbreviation sample_plain :: "json list" where
  "sample_plain \<equiv> [plain_row ''a'' ''hello'', plain_row ''b'' ''hello'']"

lemma sample_plain_read:
  "read_queue value_queue_ops sample_plain = [queued_message_new ''a'' ''hello'' ''dev'', queued_message_new ''b'' ''hello'' ''dev'']"
  by (simp add: value_queue_ops_def read_queue_def List.map_filter_simps plain_row_decodes)

lemma sample_plain_clean: "clean value_queue_ops sample_plain"
  by (simp add: value_queue_ops_def queue_clean_def plain_row_decodes plain_row_id has_id_def queued_message_new_def)

lemma plain_hosted: "qh_doc (hosted value_queue_ops hash sample_plain []) = sample_plain"
  "qh_lock (hosted value_queue_ops hash sample_plain []) = Free" "qh_sent (hosted value_queue_ops hash sample_plain []) = []"
  "\<not> qh_paused (hosted value_queue_ops hash sample_plain [])"
  by (simp_all add: hosted_def arm_existing_queue_edit_expiries_def new_host_def)

theorem turns_send_the_queue_in_order_witness:
  "map fst (qh_sent (hosted value_queue_ops id sample_plain (concat (replicate 2 (turn_end chat_env))))) = [''a'', ''b'']"
  using turns_send_the_queue_in_order [OF value_queue_ops_ok sample_plain_clean, of "[]" chat_env id 2]
  by (simp add: plain_hosted sample_plain_read ready_def sendable_def chat_env_def missing_row_attachments_def
      queued_message_new_def)
    (simp add: quiet_env_def timely_def i64_def QUEUE_EDIT_LEASE_MS_def numeral_2_eq_2)

lemma land_held [simp]: "qh_held (land e i s) = qh_held s"
  by (simp add: land_def)

lemma dispatch_next_turn:
  assumes "qe_executor e" "sendable e m" "row_request e (map_of (qh_held s) (qm_id m)) = Some r"
  shows "\<exists>prompt paths s2. qh_held s2 = AList.delete (qm_id m) (qh_held s) \<and> qh_sent s2 = qh_sent s
    \<and> dispatch_queued e m NextTurn s =
      (if qe_dispatches e
       then (Inr (), delivered e (qm_id m) (Ran (r\<lparr>rq_prompt := prompt, rq_resume := None, rq_attachments := paths\<rparr>)) s2)
       else (Inl ''dispatch failed'', s2))"
proof -
  let ?s1 = "s\<lparr>qh_held := AList.delete (qm_id m) (qh_held s)\<rparr>"
  let ?s2 = "if qm_completion_notice m = None then ?s1 else land e (qm_id m) ?s1"
  let ?own = "if map_of (qh_held s) (qm_id m) = None then queued_message_prompt (qm_text m) (qm_attachments m) else qm_text m"
  let ?p = "resolve_attachment_refs (qe_uploads e) ?own (qm_attachments m)"
  have "dispatch_queued e m NextTurn s =
      (if qe_dispatches e
       then (Inr (), delivered e (qm_id m) (Ran (r\<lparr>rq_prompt := fst ?p, rq_resume := None, rq_attachments := snd ?p\<rparr>)) ?s2)
       else (Inl ''dispatch failed'', ?s2))"
    using assms by (simp add: dispatch_queued_def sendable_def start_turn_def Let_def case_prod_unfold)
  then show ?thesis by (intro exI [of _ "fst ?p"] exI [of _ "snd ?p"] exI [of _ ?s2]) simp
qed

lemma sent_delivered: "qh_sent (delivered e i x s) = qh_sent s @ [(i, x)]"
  by (simp add: delivered_def)

text \<open>A row at the head of a queue that waits, sent by a drain.\<close>

lemma drain_takes_head:
  fixes s :: "queued_message list queue_host"
  assumes "ready e" "qh_lock s = Free" "qh_doc s = m # rs" "qm_id m \<notin> set (row_ids rs)" "sendable e m"
  shows "foldl (host_step row_list hash) s [Thaw, DrainStart e, DrainRound e]
    = s\<lparr>qh_paused := False, qh_doc := rs, qh_steered := filter (\<lambda>r. r \<noteq> qm_id m) (qh_steered s), qh_lock := Sending m NextTurn False\<rparr>"
proof -
  have "without_row (qm_id m) rs = rs" using assms(4) by (auto simp: without_row_def row_ids_def filter_id_conv image_iff)
  then have "row_take (qm_id m) (m # rs) = (Some m, rs)"
    using assms(5) by (simp add: row_take_def find_row_def sendable_def) (simp add: without_row_def)
  then show ?thesis
    using assms by (simp add: host_step_def when_free_def drain_start_def drain_round_def ready_def sendable_def row_list_simps Let_def)
qed

text \<open>C39: a failed send forgets the request a message was held with: where the dispatch of a message held with
  its own request fails, the message is back at the head of the queue but its request is gone, since it
  is taken out before the dispatch is tried; once the queue thaws and the next drain sends it, it runs
  with the chat's own request (its model, harness and options), though the first dispatch, had it
  succeeded, would have run with the request the message was sent with.\<close>

theorem failed_send_forgets_request:
  fixes s :: "queued_message list queue_host"
  assumes "qh_lock s = Sending m NextTurn was_paused" "map_of (qh_held s) (qm_id m) = Some held"
    and "\<not> blank (qm_id m)" "\<not> blank (qm_text m)" "qm_id m \<notin> set (row_ids (qh_doc s))"
    and "sendable e m" "qe_executor e" "\<not> qe_dispatches e"
    and "ready e'" "sendable e' m" "row_request e' None = Some own"
  shows "let failed = host_step row_list hash s (Sent e);
      again = foldl (host_step row_list hash) failed [Thaw, DrainStart e', DrainRound e', Sent e']
    in qh_doc failed = m # qh_doc s \<and> map_of (qh_held failed) (qm_id m) = None
      \<and> (\<exists>prompt paths. qh_sent again
          = qh_sent s @ [(qm_id m, Ran (own\<lparr>rq_prompt := prompt, rq_resume := None, rq_attachments := paths\<rparr>))])
      \<and> (\<exists>prompt paths. qh_sent (host_step row_list hash s (Sent (e\<lparr>qe_dispatches := True\<rparr>)))
          = qh_sent s @ [(qm_id m, Ran (held\<lparr>rq_prompt := prompt, rq_resume := None, rq_attachments := paths\<rparr>))])"
proof -
  have held: "row_request e' (Some held) = Some held" for e' by (simp add: row_request_def)
  obtain s2 where s2: "qh_held s2 = AList.delete (qm_id m) (qh_held s)" "qh_sent s2 = qh_sent s"
      and d: "dispatch_queued e m NextTurn s = (Inl ''dispatch failed'', s2)"
    using dispatch_next_turn [of e m s held] assms(2,6-8) held by auto
  have "qh_doc s2 = qh_doc s" using dispatch_fields(1) [of e m NextTurn s] d by simp
  define failed where "failed = s2\<lparr>qh_doc := m # qh_doc s, qh_paused := True, qh_lock := Free\<rparr>"
  have failed: "host_step row_list hash s (Sent e) = failed"
    using assms(1,3,4) d \<open>qh_doc s2 = qh_doc s\<close>
    by (simp add: failed_def host_step_def finish_send_def row_list_simps row_insert_def)
  define taken where "taken = failed\<lparr>qh_paused := False, qh_doc := qh_doc s,
    qh_steered := filter (\<lambda>r. r \<noteq> qm_id m) (qh_steered failed), qh_lock := Sending m NextTurn False\<rparr>"
  have taken: "foldl (host_step row_list hash) failed [Thaw, DrainStart e', DrainRound e'] = taken"
    unfolding taken_def by (rule drain_takes_head) (use assms(5,9,10) in \<open>simp_all add: failed_def\<close>)
  have gone: "map_of (qh_held taken) (qm_id m) = None" "qh_sent taken = qh_sent s"
    by (simp_all add: taken_def failed_def s2 delete_conv')
  have "qe_executor e'" "qe_dispatches e'" using assms(9) by (simp_all add: ready_def)
  then obtain prompt paths s3 where "qh_sent s3 = qh_sent s" "dispatch_queued e' m NextTurn taken
      = (Inr (), delivered e' (qm_id m) (Ran (own\<lparr>rq_prompt := prompt, rq_resume := None, rq_attachments := paths\<rparr>)) s3)"
    using dispatch_next_turn [of e' m taken own] gone assms(10,11) by auto
  moreover have "qh_lock taken = Sending m NextTurn False" by (simp add: taken_def)
  ultimately have resent: "qh_sent (host_step row_list hash taken (Sent e'))
      = qh_sent s @ [(qm_id m, Ran (own\<lparr>rq_prompt := prompt, rq_resume := None, rq_attachments := paths\<rparr>))]"
    by (simp add: host_step_def finish_send_def sent_delivered)
  have "sendable (e\<lparr>qe_dispatches := True\<rparr>) m" "qe_executor (e\<lparr>qe_dispatches := True\<rparr>)"
    using assms(6,7) by (simp_all add: sendable_def)
  then obtain prompt' paths' s4 where "qh_sent s4 = qh_sent s" "dispatch_queued (e\<lparr>qe_dispatches := True\<rparr>) m NextTurn s
      = (Inr (), delivered (e\<lparr>qe_dispatches := True\<rparr>) (qm_id m) (Ran (held\<lparr>rq_prompt := prompt', rq_resume := None, rq_attachments := paths'\<rparr>)) s4)"
    using dispatch_next_turn [of "e\<lparr>qe_dispatches := True\<rparr>" m s held] assms(2) held by auto
  then have direct: "qh_sent (host_step row_list hash s (Sent (e\<lparr>qe_dispatches := True\<rparr>)))
      = qh_sent s @ [(qm_id m, Ran (held\<lparr>rq_prompt := prompt', rq_resume := None, rq_attachments := paths'\<rparr>))]"
    using assms(1) by (simp add: host_step_def finish_send_def sent_delivered)
  have returned: "qh_doc failed = m # qh_doc s" "map_of (qh_held failed) (qm_id m) = None"
    by (simp_all add: failed_def s2 delete_conv')
  have again: "foldl (host_step row_list hash) failed [Thaw, DrainStart e', DrainRound e', Sent e']
      = host_step row_list hash taken (Sent e')"
    using taken by simp
  show ?thesis unfolding failed Let_def again by (intro conjI exI) (rule returned resent direct)+
qed

text \<open>A message held with its own model while a turn ran, on its way after the turn's end.\<close>

definition held_send :: "queued_message list queue_host" where
  "held_send =
     foldl (host_step row_list id) (new_host [])
       [HoldRun quiet_env ''m1'' ''hi'' 0 (chat_request ''picked-model'') ''dev'' None, DrainStart chat_env, DrainRound chat_env]"

theorem failed_send_forgets_request_witness:
  "map (\<lambda>(i, x). (i, case x of Ran r \<Rightarrow> rq_model r | Steered _ \<Rightarrow> None))
     (qh_sent (foldl (host_step row_list id) held_send
        [Sent (chat_env\<lparr>qe_dispatches := False\<rparr>), Thaw, DrainStart chat_env, DrainRound chat_env, Sent chat_env]))
   = [(''m1'', Some ''chat-model'')]"
proof -
  let ?m = "queued_row ''m1'' ''hi'' [] False ''dev'' 0 None"
  have start: "qh_lock held_send = Sending ?m NextTurn False" "map_of (qh_held held_send) (qm_id ?m) = Some (chat_request ''picked-model'')"
      "\<not> blank (qm_id ?m)" "\<not> blank (qm_text ?m)" "qm_id ?m \<notin> set (row_ids (qh_doc held_send))"
      "sendable (chat_env\<lparr>qe_dispatches := False\<rparr>) ?m" "qe_executor (chat_env\<lparr>qe_dispatches := False\<rparr>)"
      "\<not> qe_dispatches (chat_env\<lparr>qe_dispatches := False\<rparr>)" "sendable chat_env ?m"
      "row_request chat_env None = Some (chat_request ''chat-model'')" "qh_sent held_send = []"
    by code_simp+
  have "ready chat_env"
    by (simp add: ready_def chat_env_def quiet_env_def timely_def i64_def QUEUE_EDIT_LEASE_MS_def)
  from failed_send_forgets_request [OF start(1-8) this start(9,10), of id] start(11)
  obtain prompt paths where "qh_sent (foldl (host_step row_list id) held_send
      [Sent (chat_env\<lparr>qe_dispatches := False\<rparr>), Thaw, DrainStart chat_env, DrainRound chat_env, Sent chat_env])
    = [(''m1'', Ran ((chat_request ''chat-model'')\<lparr>rq_prompt := prompt, rq_resume := None, rq_attachments := paths\<rparr>))]"
    by (auto simp: Let_def queued_row_def)
  then show ?thesis by (simp add: chat_request_def)
qed

end
