(* ===== verification/Spec2Isabelle.thy ===== *)
theory Spec2Isabelle
  imports Notice_Delivery Scheduled_Resumes Transcript_Budget Workspace_View Rooms Run_Journal Account_Failover Attachments Command_Ledger
    Queue_Promises
begin

text \<open>
  A verification development for the core logic of Roboco, a multi-device front end to command-line
  coding agents. An engine runs the agents on one device; devices share chats through documents
  (the Loro CRDT library) and see one another through paired connections and rooms.

  \<^bold>\<open>Parts and theories.\<close> The theories follow the source files; a definition has the name of the function it
  translates unless it clashes with a constant of the library.

  \<^item> \<open>Text_Prelude\<close>, \<open>Text_Chars\<close>: strings as UTF-8 byte lists (char boundaries, trimming, lines, decimal
    numbers, the standard library's parsers), lists and association lists, and the interfaces: the locales
    \<open>invariant_machine\<close> and \<open>guarded_machine\<close> (a step that keeps an invariant, for any run or for legal runs),
    \<open>keyed_store\<close> (lookup after insert and delete), \<open>frame_stream\<close> (a producer of frames and its consumer).
  \<^item> \<open>Agent_Types\<close>: \<open>proto/src/agent.rs\<close>, harness ids, tool calls and the streamed agent event.
  \<^item> \<open>Message_Parts\<close>: \<open>doc/src/parts.rs\<close>, the fold of agent events into the parts of a message, tool output
    summaries, the privacy policy, splitting a message into continuation entries and joining it again.
  \<^item> \<open>Transcript_Delta\<close>: \<open>doc/src/transcript_delta.rs\<close>, the frames a transcript watch sends and applies.
  \<^item> \<open>Json_Codec\<close>, \<open>Message_Queue\<close>: \<open>doc/src/queue.rs\<close>, queue rows, their JSON form and the queue operations over
    a movable list.
  \<^item> \<open>Completion_Notices\<close>, \<open>Notice_Delivery\<close>: \<open>engine/src/completion_notices.rs\<close>, the ledger of the outcomes of side
    chats owed to their parent, with its durable mirror, and their delivery, parking and stopping. The cap on
    notice turns counts the parked rows that are released when something lifts the pause (a scheduled resume, an
    accepted steer) as events of their own.
  \<^item> \<open>Scheduled_Resumes\<close>: \<open>engine/src/scheduled_resumes.rs\<close>, continuations armed for the time a usage limit resets.
  \<^item> \<open>Transcript_Budget\<close>: \<open>engine/src/transcript_budget.rs\<close>, the history pasted in front of a prompt, under a budget.
  \<^item> \<open>Workspace_View\<close>: \<open>proto/src/view.rs\<close> and the rows of \<open>proto/src/entities.rs\<close>, lists, indicators and labels.
  \<^item> \<open>Pairing\<close>: \<open>engine/src/pairing.rs\<close>, pairing codes and sessions. \<open>Room_Invites\<close>: \<open>proto/src/room.rs\<close>, the invite
    grammar. \<open>Rooms\<close>: \<open>engine/src/rooms.rs\<close>, room membership, presentations and member books; it runs on the
    tables of \<open>Pairing\<close>, whose invariant it keeps.
  \<^item> \<open>Run_Journal\<close>: \<open>engine/src/run_journal.rs\<close>, the append-only event journal of every chat, as files of bytes.
  \<^item> \<open>Provider_Sessions\<close>: the part of \<open>engine/src/sessions.rs\<close> that decides which provider session a run resumes and
    which history it is handed, over harness switches; it hands over history through \<open>Transcript_Budget\<close>. A
    switch back to a harness resumes the session the switch away recorded, as the code does and unlike the
    glossary of \<open>CONTEXT.md\<close>, with the messages since as a budgeted prefix; what an engine restart forgets
    (live sessions, hence marks not yet taken, and rejections) is part of the statements.
  \<^item> \<open>Account_Failover\<close>: \<open>engine/src/account_failover.rs\<close> and the ranking of \<open>engine/src/agent_accounts.rs\<close>, a limited
    chat continued on another account; its continuation resumes through \<open>Provider_Sessions\<close>.
  \<^item> \<open>Run_Requests\<close>: the request of \<open>proto/src/agent.rs\<close> that starts a run, shared by the two above and the next.
  \<^item> \<open>Uploads\<close>: \<open>engine/src/uploads.rs\<close>, attachments staged in chunks, committed, resolved and read back. An append is
    \<open>append_chunk\<close>, or its check and its write as two steps (\<open>append_in_two_steps\<close>) where appends overlap: the
    bound on the staging area is over the two steps, the round trips over the whole append.
    \<open>Attachments\<close>: \<open>mobile-client/src/attachments.rs\<close>, the client's side of it: the trailer of a message, the
    chunk plan, the read-back loop (which composes with the engine's \<open>read_chunk\<close>), the cache of recent reads.
  \<^item> \<open>Command_Ledger\<close>: \<open>doc/src/commands.rs\<close> and the command half of \<open>engine/src/doc_host.rs\<close>, the durable commands
    of a chat: every drain and every relay is a task that makes one step at a time over the shared document,
    the processed ledger and the set of executing ids, so the theorems range over every interleaving: at most one
    execution of a command, and no run of a prompt that a standing Stop covers, over whole runs. The environment
    of a drain includes the uploads its attachment gate looks at.
  \<^item> \<open>Queue_Rows\<close>: the operations of \<open>Message_Queue\<close> refine operations on a list of rows; the locale \<open>queue_document\<close> is
    that contract, the interface \<open>Queue_Host\<close> is written against. \<open>Queue_Host\<close>: the queue half of
    \<open>engine/src/doc_host.rs\<close>, edit leases, sends, steers, the drain, Stop and held messages, as a step function
    over the drain lock: a dispatch or an interrupt that waits for the agent is two steps, and what needs no lock
    may happen in between. A simulation carries every step over to the list of rows. \<open>Queue_Promises\<close>: what
    every run of it keeps (interpretations of \<open>guarded_machine\<close>): no row is lost or sent twice, a row open for
    editing is not sent, every lease has an armed timer, a queue goes out in order.

  \<^bold>\<open>State and effects.\<close> A struct is a record, an enum a datatype, a table or map an association list where its
  order or its keys matter. Operations return the new state; an error is the left side of a sum and carries
  the state the error leaves behind. Text is its UTF-8 bytes, so lengths are byte lengths as in the code.
  Times are integers. What the modelled code does not decide is an input of the operation: the clock, new
  identifiers, random secrets, whether a file or the network answers, how many bytes of a write reach the
  disk, what another subsystem returns. Hashes, the JSON library, base64, the line differ and the movable
  list are parameters, with the laws they are documented to have as hypotheses of the theorems that use them.

  \<^bold>\<open>Lemmas.\<close> In each theory the operations come first, then what every operation keeps (as an interpretation of a
  machine locale on the component's own step), then its round trips, refinements and bounds, then samples, the
  witnesses that apply each conditional theorem to them, and concrete runs that show where the code breaks its
  own contract. Properties over any sequence of operations range over the whole operation type of the component.

  \<^bold>\<open>Bounds and loops.\<close> All loops are total functions: structural, or with a measure (the byte position of the
  backward journal reader, the rest of a string). The attempt loop of a failover runs over its eight turns, its
  chain of watchers over the watchers the environment starts; \<open>failover_chain_ends\<close> bounds both by the number of
  accounts. The client's read-back loop runs the rounds the code allows it; a drain is driven by a list of
  environments, and \<open>drain_ends_in_order\<close> gives the number of steps that is enough. No fuel is used. Budgets and caps are the constants of the code.

  \<^bold>\<open>Not modelled.\<close> Counters of 64 and 32 bits are unbounded where the code only increments them; where it parses
  or stores them their range is checked. The derived serializers are modelled for JSON objects, not for the
  sequence form serde accepts as well. Failures of file writes are modelled where the code reacts to them. File
  modes and the write-ahead log of the databases are left out. The agent processes and their protocols, the
  asynchronous run loop, the CRDT library, the transports and the user interfaces are left out: what remains of
  them after their library calls is input and output. New ids are new: a step of \<open>Queue_Host\<close> that would queue a
  message under the id of another row does nothing.
\<close>

end
